(* ===== verification/Chaos_Prelude.thy ===== *)
theory Chaos_Prelude
  imports Complex_Main "HOL-Library.Word" "HOL-Library.Stream"
begin

text \<open>
  Shared ground of the development: machine integers, the fault-mask algebra every injector
  uses, the random-number tape, and the generic list and bit lemmas the component theories rest on.

  Machine integers are words of \<open>HOL-Library.Word\<close>: \<open>u64\<close> for \<open>uint64_t\<close>, \<open>RegVal\<close> and
  \<open>Addr\<close>, \<open>u32\<close> for \<open>unsigned\<close>, \<open>u8\<close> for one byte.  Cycle and tick counters and statistics
  counters are natural numbers; where the code multiplies 32-bit values the width is kept.

  Random numbers.  Every injector owns a \<open>std::mt19937\<close> and reads it only through standard
  distributions.  The generator is a tape, an infinite stream of natural numbers, and a
  distribution reads one cell of it: over all tapes a uniform draw from \<open>[a, b]\<close> takes every value
  of the range, so a theorem about every tape is a theorem about every seed and every conforming
  implementation of the distributions.
\<close>

unbundle bit_operations_syntax

subsection \<open>Automation shared by the component theories\<close>

named_theorems chaos_defs \<open>definitions a component proof unfolds\<close>
named_theorems mask_simps \<open>facts about masked updates, bit by bit\<close>

subsection \<open>Machine types\<close>

type_synonym u8 = "8 word"
type_synonym u16 = "16 word"
type_synonym u32 = "32 word"
type_synonym u64 = "64 word"
type_synonym tick = nat
type_synonym cycles = nat
type_synonym thread_id = nat

subsection \<open>The random-number tape\<close>

type_synonym rng = "nat stream"

definition uniform_int :: "int \<Rightarrow> int \<Rightarrow> rng \<Rightarrow> int \<times> rng" where
  "uniform_int a b r = (a + int (shd r) mod (b - a + 1), stl r)"

definition uniform_nat :: "nat \<Rightarrow> nat \<Rightarrow> rng \<Rightarrow> nat \<times> rng" where
  "uniform_nat a b r = (a + shd r mod (b - a + 1), stl r)"

definition uniform_real01 :: "rng \<Rightarrow> real \<times> rng" where
  "uniform_real01 r = (real (shd r mod 2 ^ 32) / 2 ^ 32, stl r)"

text \<open>A geometric distribution counts the failures before the first success: any 32-bit count is
  possible, and with probability 1 the count is 0.\<close>

definition geometric :: "real \<Rightarrow> rng \<Rightarrow> nat \<times> rng" where
  "geometric p r = (if p < 1 then shd r mod 2 ^ 32 else 0, stl r)"

text \<open>The index a discrete distribution with the weights \<open>ws\<close> returns for a draw \<open>u\<close> of
  \<open>[0, total)\<close>: the first index whose cumulated weight exceeds the draw.\<close>

fun discrete_index :: "real list \<Rightarrow> real \<Rightarrow> nat" where
  "discrete_index [] u = 0"
| "discrete_index [w] u = 0"
| "discrete_index (w # v # ws) u = (if u < w then 0 else Suc (discrete_index (v # ws) (u - w)))"

definition discrete :: "real list \<Rightarrow> rng \<Rightarrow> nat \<times> rng" where
  "discrete ws r = (case uniform_real01 r of (u, r') \<Rightarrow> (discrete_index ws (u * sum_list ws), r'))"

lemma uniform_int_range:
  assumes "a \<le> b"
  shows "a \<le> fst (uniform_int a b r)" and "fst (uniform_int a b r) \<le> b"
proof -
  have "0 \<le> int (shd r) mod (b - a + 1)" and "int (shd r) mod (b - a + 1) < b - a + 1"
    using pos_mod_sign [of "b - a + 1" "int (shd r)"] pos_mod_bound [of "b - a + 1" "int (shd r)"]
      assms by linarith+
  then have "0 \<le> int (shd r) mod (b - a + 1)" and "int (shd r) mod (b - a + 1) \<le> b - a"
    by linarith+
  then show "a \<le> fst (uniform_int a b r)" and "fst (uniform_int a b r) \<le> b"
    unfolding uniform_int_def fst_conv by linarith+
qed

lemma uniform_int_surj:
  assumes "a \<le> v" and "v \<le> b"
  shows "fst (uniform_int a b (nat (v - a) ## r)) = v"
  using assms by (simp add: uniform_int_def)

lemma uniform_nat_range:
  assumes "a \<le> b"
  shows "a \<le> fst (uniform_nat a b r)" and "fst (uniform_nat a b r) \<le> b"
proof -
  have "shd r mod (b - a + 1) < b - a + 1" by simp
  then show "a \<le> fst (uniform_nat a b r)" and "fst (uniform_nat a b r) \<le> b"
    unfolding uniform_nat_def fst_conv using assms by linarith+
qed

lemma uniform_nat_less:
  assumes "0 < n"
  shows "fst (uniform_nat 0 (n - 1) r) < n"
  using uniform_nat_range(2) [of 0 "n - 1" r] assms by linarith

lemma uniform_nat_surj:
  assumes "a \<le> v" and "v \<le> b"
  shows "fst (uniform_nat a b ((v - a) ## r)) = v"
  using assms by (simp add: uniform_nat_def)

lemma uniform_real01_range: "0 \<le> fst (uniform_real01 r)" "fst (uniform_real01 r) < 1"
proof -
  have "shd r mod 2 ^ 32 < 2 ^ 32" by simp
  then have "real (shd r mod 2 ^ 32) < 2 ^ 32"
    by (metis of_nat_less_numeral_power_cancel_iff)
  then show "fst (uniform_real01 r) < 1" by (simp add: uniform_real01_def)
qed (simp add: uniform_real01_def)

text \<open>A Bernoulli gate with probability 1 always lets the event pass, with probability 0 never.\<close>

lemma bernoulli_certain: "1 \<le> p \<Longrightarrow> fst (uniform_real01 r) < p"
  using uniform_real01_range(2) [of r] by linarith

lemma bernoulli_never: "p \<le> 0 \<Longrightarrow> p \<le> fst (uniform_real01 r)"
  using uniform_real01_range(1) [of r] by linarith

lemma discrete_index_less: "ws \<noteq> [] \<Longrightarrow> discrete_index ws u < length ws"
  by (induction ws u rule: discrete_index.induct) auto

lemma discrete_less: "ws \<noteq> [] \<Longrightarrow> fst (discrete ws r) < length ws"
  by (simp add: discrete_def discrete_index_less split: prod.splits)

subsection \<open>Fault types and masked updates\<close>

text \<open>The four fault types the injectors share; every class declares its own copy of this
  enumeration in the same order, which is also the order of the discrete distribution that
  resolves \<open>Random\<close>.\<close>

datatype fault_type = BitFlip | StuckAtZero | StuckAtOne | RandomFault

definition fault_type_of_index :: "nat \<Rightarrow> fault_type" where
  "fault_type_of_index i =
     (if i = 0 then BitFlip else if i = 1 then StuckAtZero
      else if i = 2 then StuckAtOne else RandomFault)"

fun apply_fault :: "fault_type \<Rightarrow> 'a::len word \<Rightarrow> 'a word \<Rightarrow> 'a word" where
  "apply_fault StuckAtZero m v = v AND NOT m"
| "apply_fault StuckAtOne m v = v OR m"
| "apply_fault BitFlip m v = v XOR m"
| "apply_fault RandomFault m v = v"

lemma bit_apply_fault [mask_simps]:
  fixes v m :: "'a::len word"
  assumes "n < LENGTH('a)"
  shows "bit (apply_fault f m v) n =
    (if bit m n
     then (case f of StuckAtZero \<Rightarrow> False | StuckAtOne \<Rightarrow> True
           | BitFlip \<Rightarrow> \<not> bit v n | RandomFault \<Rightarrow> bit v n)
     else bit v n)"
  using assms by (cases f) (auto simp: bit_simps)

lemma apply_fault_outside_mask: "apply_fault f m v AND NOT m = v AND NOT m"
  by (cases f) (auto simp: bit_eq_iff bit_simps)

lemma apply_fault_zero_mask [simp]: "apply_fault f 0 v = v"
  by (cases f) auto

lemma bit_flip_involution [simp]: "apply_fault BitFlip m (apply_fault BitFlip m v) = v"
  by (auto simp: bit_eq_iff bit_simps)

lemma stuck_idempotent:
  "f = StuckAtZero \<or> f = StuckAtOne \<Longrightarrow> apply_fault f m (apply_fault f m v) = apply_fault f m v"
  by (auto simp: bit_eq_iff bit_simps)

lemma apply_fault_bit_flip_changes: "m \<noteq> 0 \<Longrightarrow> apply_fault BitFlip m v \<noteq> v"
proof
  assume "m \<noteq> 0" and "apply_fault BitFlip m v = v"
  then have "v XOR (v XOR m) = v XOR v" by simp
  then have "m = 0" by (simp add: xor.assoc [symmetric])
  with \<open>m \<noteq> 0\<close> show False by simp
qed

subsection \<open>Population count\<close>

definition popcount :: "'a::len word \<Rightarrow> nat" where
  "popcount w = length (filter (bit w) [0..<LENGTH('a)])"

lemma popcount_card: "popcount (w :: 'a::len word) = card {n. bit w n}"
proof -
  have "popcount w = card (set (filter (bit w) [0..<LENGTH('a)]))"
    unfolding popcount_def by (rule distinct_card [symmetric]) simp
  also have "set (filter (bit w) [0..<LENGTH('a)]) = {n. bit w n}"
    by (auto dest: bit_imp_le_length)
  finally show ?thesis .
qed

lemma finite_bits [simp]: "finite {n. bit (w :: 'a::len word) n}"
  by (rule finite_subset [of _ "{..<LENGTH('a)}"]) (auto dest: bit_imp_le_length)

lemma popcount_0 [simp]: "popcount 0 = 0"
  by (simp add: popcount_card)

lemma popcount_eq_0_iff: "popcount w = 0 \<longleftrightarrow> w = 0"
proof -
  have "popcount w = 0 \<longleftrightarrow> {n. bit w n} = {}"
    by (simp add: popcount_card)
  also have "\<dots> \<longleftrightarrow> w = 0" by (auto simp: bit_eq_iff [of w] dest: bit_imp_le_length)
  finally show ?thesis .
qed

lemma popcount_le: "popcount (w :: 'a::len word) \<le> LENGTH('a)"
  unfolding popcount_def using length_filter_le [of "bit w" "[0..<LENGTH('a)]"] by simp

lemma popcount_or_bit:
  "popcount (w OR push_bit n 1) \<le> Suc (popcount w)"
proof -
  have "{k. bit (w OR push_bit n 1) k} \<subseteq> insert n {k. bit w k}"
    by (auto simp: bit_simps)
  then have "card {k. bit (w OR push_bit n 1) k} \<le> card (insert n {k. bit w k})"
    by (intro card_mono) auto
  also have "\<dots> \<le> Suc (card {k. bit w k})"
    by (rule card_insert_le_m1) auto
  finally show ?thesis by (simp add: popcount_card)
qed

lemma popcount_or_new_bit:
  fixes w :: "'a::len word"
  assumes "n < LENGTH('a)" and "\<not> bit w n"
  shows "popcount (w OR push_bit n 1) = Suc (popcount w)"
proof -
  have "{k. bit (w OR push_bit n 1) k} = insert n {k. bit w k}"
    using assms by (auto simp: bit_simps)
  with assms show ?thesis by (simp add: popcount_card)
qed

subsection \<open>Binary addition, bit by bit\<close>

fun carry :: "(nat \<Rightarrow> bool) \<Rightarrow> (nat \<Rightarrow> bool) \<Rightarrow> nat \<Rightarrow> bool" where
  "carry a b 0 = False"
| "carry a b (Suc i) = (a i \<and> b i \<or> (a i \<noteq> b i) \<and> carry a b i)"

lemma mod_Suc_power2: "(A::nat) mod 2 ^ Suc i = of_bool (bit A i) * 2 ^ i + A mod 2 ^ i"
  by (metis take_bit_Suc_from_most take_bit_eq_mod add.commute mult.commute)

lemma carry_eq: "carry (bit A) (bit B) i \<longleftrightarrow> 2 ^ i \<le> A mod 2 ^ i + (B::nat) mod 2 ^ i"
proof (induction i)
  case (Suc i)
  define x y where "x = A mod 2 ^ i" and "y = B mod 2 ^ i"
  then have "x < 2 ^ i" "y < 2 ^ i" by simp_all
  moreover have "A mod 2 ^ Suc i = of_bool (bit A i) * 2 ^ i + x"
    and "B mod 2 ^ Suc i = of_bool (bit B i) * 2 ^ i + y"
    unfolding x_def y_def by (rule mod_Suc_power2)+
  ultimately show ?case
    using Suc [folded x_def y_def] by (cases "bit A i"; cases "bit B i") (simp_all, linarith?)
qed simp

lemma bit_add_carry: "bit (A + B) i \<longleftrightarrow> (bit A i \<noteq> bit B i) \<noteq> carry (bit A) (bit (B::nat)) i"
proof -
  have "odd ((A + B) div 2 ^ i) \<longleftrightarrow>
    odd (A div 2 ^ i + B div 2 ^ i + of_bool (2 ^ i \<le> A mod 2 ^ i + B mod 2 ^ i))"
  proof -
    have "(A + B) div 2 ^ i = A div 2 ^ i + B div 2 ^ i + (A mod 2 ^ i + B mod 2 ^ i) div 2 ^ i"
      by (rule div_add1_eq)
    also have "(A mod 2 ^ i + B mod 2 ^ i) div 2 ^ i = of_bool (2 ^ i \<le> A mod 2 ^ i + B mod 2 ^ i)"
    proof -
      define s where "s = A mod 2 ^ i + B mod 2 ^ i"
      have "A mod 2 ^ i < 2 ^ i" "B mod 2 ^ i < 2 ^ i" by simp_all
      then have "s < 2 ^ i + 2 ^ i" unfolding s_def by (rule add_strict_mono)
      then show ?thesis unfolding s_def [symmetric]
        by (cases "2 ^ i \<le> s") (auto intro!: div_nat_eqI)
    qed
    finally show ?thesis by simp
  qed
  then show ?thesis by (auto simp: carry_eq bit_iff_odd)
qed

lemma carry_cong: "(\<And>j. j < i \<Longrightarrow> a j = a' j \<and> b j = b' j) \<Longrightarrow> carry a b i = carry a' b' i"
  by (induction i) auto

definition nat_of_bits :: "bool list \<Rightarrow> nat" where
  "nat_of_bits bs = horner_sum of_bool 2 bs"

lemma bit_nat_of_bits: "bit (nat_of_bits bs) i \<longleftrightarrow> i < length bs \<and> bs ! i"
  unfolding nat_of_bits_def by (simp add: bit_horner_sum_bit_iff)

lemma nat_of_bits_less: "nat_of_bits bs < 2 ^ length bs"
  unfolding nat_of_bits_def by (rule horner_sum_of_bool_2_less)

lemma nat_of_bits_snoc: "nat_of_bits (bs @ [b]) = nat_of_bits bs + of_bool b * 2 ^ length bs"
  by (simp add: nat_of_bits_def horner_sum_append)

lemma nat_of_bits_Nil [simp]: "nat_of_bits [] = 0"
  by (simp add: nat_of_bits_def)

lemma nat_of_bits_map_bit: "nat_of_bits (map (bit A) [0..<n]) = A mod 2 ^ n"
  unfolding nat_of_bits_def by (simp add: horner_sum_bit_eq_take_bit take_bit_eq_mod)

lemma bit_byte_mask: "bit (0xFF :: int) j \<longleftrightarrow> j < 8"
proof -
  have "(0xFF :: int) = mask 8" by (simp add: mask_eq_exp_minus_1)
  then show ?thesis unfolding \<open>0xFF = mask 8\<close> bit_mask_iff by auto
qed

subsection \<open>Byte views of words\<close>

text \<open>\<open>memcpy\<close> between a byte buffer and a 64-bit integer on a little-endian machine: reading up to
  eight bytes into a zeroed integer, and writing the low \<open>n\<close> bytes of one.\<close>

definition le_word :: "u8 list \<Rightarrow> u64" where
  "le_word bs = fold (\<lambda>i w. w OR push_bit (8 * i) (ucast (bs ! i))) [0..<min (length bs) 8] 0"

definition le_bytes :: "nat \<Rightarrow> u64 \<Rightarrow> u8 list" where
  "le_bytes n w = map (\<lambda>i. ucast (drop_bit (8 * i) w)) [0..<n]"

lemma bit_le_word_fold:
  "k \<le> 8 \<Longrightarrow> bit (fold (\<lambda>i w. w OR push_bit (8 * i) (ucast (bs ! i :: u8))) [0..<k] (0 :: u64)) n
    \<longleftrightarrow> n div 8 < k \<and> bit (bs ! (n div 8)) (n mod 8)"
proof (induction k)
  case (Suc k)
  have *: "n < 64 \<and> 8 * k \<le> n \<and> bit (ucast (bs ! k) :: u64) (n - 8 * k)
      \<longleftrightarrow> n div 8 = k \<and> bit (bs ! k) (n mod 8)"
  proof (cases "n div 8 = k")
    case True
    then have "8 * k \<le> n" "n < 64" using Suc.prems by auto
    moreover have "n - 8 * k = n mod 8" using True by (metis minus_mult_div_eq_mod)
    moreover have "n mod 8 < 64" using mod_less_divisor [of 8 n] by linarith
    ultimately show ?thesis using True by (simp add: bit_unsigned_iff)
  next
    case False
    have "\<not> bit (bs ! k) (n - 8 * k)" if "8 * k \<le> n"
    proof
      assume "bit (bs ! k) (n - 8 * k)"
      then have "n - 8 * k < 8" by (auto dest: bit_imp_le_length)
      with that have "n div 8 = k" by auto
      with False show False by simp
    qed
    with False show ?thesis by (auto simp: bit_unsigned_iff)
  qed
  from Suc have "bit (fold (\<lambda>i w. w OR push_bit (8 * i) (ucast (bs ! i :: u8))) [0..<k] (0 :: u64)) n
      \<longleftrightarrow> n div 8 < k \<and> bit (bs ! (n div 8)) (n mod 8)" by simp
  then show ?case using * Suc.prems
    by (auto simp: bit_or_iff bit_push_bit_iff less_Suc_eq)
qed simp

lemma bit_le_word: "bit (le_word bs) n \<longleftrightarrow> n div 8 < min (length bs) 8 \<and> bit (bs ! (n div 8)) (n mod 8)"
  unfolding le_word_def by (rule bit_le_word_fold) simp

lemma length_le_bytes [simp]: "length (le_bytes n w) = n"
  by (simp add: le_bytes_def)

lemma bit_le_bytes: "i < n \<Longrightarrow> bit (le_bytes n w ! i) j \<longleftrightarrow> j < 8 \<and> bit w (8 * i + j)"
  by (auto simp: le_bytes_def bit_unsigned_iff bit_drop_bit_eq)

lemma le_bytes_le_word: "length bs \<le> 8 \<Longrightarrow> le_bytes (length bs) (le_word bs) = bs"
proof (rule nth_equalityI)
  fix i assume l: "length bs \<le> 8" and "i < length (le_bytes (length bs) (le_word bs))"
  then have i: "i < length bs" by simp
  show "le_bytes (length bs) (le_word bs) ! i = bs ! i"
    by (rule bit_eqI) (use i l in \<open>auto simp: bit_le_bytes bit_le_word\<close>)
qed simp

lemma le_word_le_bytes: "le_word (le_bytes 8 w) = w"
proof (rule bit_eqI)
  fix n assume "possible_bit TYPE(u64) n"
  then have "n div 8 < 8" by auto
  then show "bit (le_word (le_bytes 8 w)) n = bit w n"
    by (simp add: bit_le_word bit_le_bytes)
qed

end
