(* ===== verification/O3_Types.thy ===== *)
theory O3_Types
  imports Chaos_Prelude
begin

text \<open>
  The data of gem5's CPU models the injectors share: register classes and register identifiers
  (\<open>cpu/reg_class.hh\<close>), the status of a thread context (\<open>cpu/thread_context.hh\<close>), and the
  part of a CPU every injector consults, its clock and its threads.
\<close>

datatype reg_class_type =
    IntRegClass | FloatRegClass | VecRegClass | VecElemClass | VecPredRegClass
  | MatRegClass | CCRegClass | MiscRegClass | InvalidRegClass

text \<open>A register identifier: its class and its index in the class.  The pointer type
  \<open>PhysRegIdPtr\<close> compares by address, and every physical register has exactly one
  identifier object, so two pointers are equal exactly when class and index are.\<close>

record reg_id =
  classValue :: reg_class_type
  regIdx :: nat

datatype tc_status = Active | Suspended | Halting | Halted

text \<open>The loop of the read-trace checks: some thread has a context that is not halted.\<close>

definition any_active :: "tc_status option list \<Rightarrow> bool" where
  "any_active tcs \<longleftrightarrow> (\<exists>x \<in> set tcs. x \<noteq> None \<and> x \<noteq> Some Halted)"

text \<open>What the constructors of the injectors throw (\<open>std::runtime_error\<close>), with the offending
  parameter.\<close>

datatype ctor_error =
    NotO3CPU
  | UnknownOpClass string
  | NoNetlist string
  | InvalidParam string string

text \<open>The search loop over \<open>enums::OpClassStrings\<close>: the first index with the given name, or -1.
  The table is generated from \<open>cpu/FuncUnit.py\<close> and is a parameter.\<close>

fun opclass_index :: "string list \<Rightarrow> string \<Rightarrow> int \<Rightarrow> int" where
  "opclass_index [] n i = - 1"
| "opclass_index (s # ss) n i = (if s = n then i else opclass_index ss n (i + 1))"

lemma opclass_index_found:
  "opclass_index ss n i = (if n \<in> set ss then i + int (length (takeWhile (\<lambda>s. s \<noteq> n) ss)) else - 1)"
  by (induction ss arbitrary: i) auto

subsection \<open>A statically registered instance\<close>

text \<open>\<open>CHAOSFUPerm\<close> and \<open>CHAOSGateFU\<close> keep a static \<open>instance\<close> pointer and a global enable flag:
  the constructor makes the new object the instance, the destructor clears both if the dying object
  is the instance.  Objects are numbered; \<open>objs\<close> holds the live ones.\<close>

record 'a static_inst =
  objs :: "nat \<Rightarrow> 'a option"
  instance_id :: "nat option"
  enabled :: bool

definition register_instance :: "nat \<Rightarrow> 'a \<Rightarrow> 'a static_inst \<Rightarrow> 'a static_inst" where
  "register_instance i x st = st\<lparr>objs := (objs st)(i \<mapsto> x), instance_id := Some i, enabled := True\<rparr>"

definition destroy_instance :: "nat \<Rightarrow> 'a static_inst \<Rightarrow> 'a static_inst" where
  "destroy_instance i st =
     (let st' = st\<lparr>objs := (objs st)(i := None)\<rparr>
      in if instance_id st = Some i then st'\<lparr>instance_id := None, enabled := False\<rparr> else st')"

definition the_instance :: "'a static_inst \<Rightarrow> 'a option" where
  "the_instance st = (case instance_id st of None \<Rightarrow> None | Some i \<Rightarrow> objs st i)"

definition update_instance :: "'a \<Rightarrow> 'a static_inst \<Rightarrow> 'a static_inst" where
  "update_instance x st =
     (case instance_id st of None \<Rightarrow> st | Some i \<Rightarrow> st\<lparr>objs := (objs st)(i \<mapsto> x)\<rparr>)"

text \<open>The flag is up exactly when there is an instance, and the instance is alive: the oracles
  never follow a dangling pointer.\<close>

definition static_ok :: "'a static_inst \<Rightarrow> bool" where
  "static_ok st \<longleftrightarrow> (enabled st \<longleftrightarrow> instance_id st \<noteq> None)
     \<and> (case instance_id st of None \<Rightarrow> True | Some i \<Rightarrow> objs st i \<noteq> None)"

lemma static_ok_register [simp, intro]: "static_ok (register_instance i x st)"
  by (simp add: static_ok_def register_instance_def)

lemma static_ok_destroy [intro]: "static_ok st \<Longrightarrow> static_ok (destroy_instance i st)"
  by (auto simp: static_ok_def destroy_instance_def Let_def split: option.splits)

lemma static_ok_update [intro]: "static_ok st \<Longrightarrow> static_ok (update_instance x st)"
  by (auto simp: static_ok_def update_instance_def split: option.splits)

lemma the_instance_register [simp]: "the_instance (register_instance i x st) = Some x"
  by (simp add: the_instance_def register_instance_def)

lemma enabled_the_instance: "static_ok st \<Longrightarrow> enabled st \<longleftrightarrow> the_instance st \<noteq> None"
  by (auto simp: static_ok_def the_instance_def split: option.splits)

lemma enabled_update_instance [simp]: "enabled (update_instance x st) = enabled st"
  by (simp add: update_instance_def split: option.splits)

lemma the_instance_update: "static_ok st \<Longrightarrow> enabled st \<Longrightarrow> the_instance (update_instance x st) = Some x"
  by (auto simp: static_ok_def the_instance_def update_instance_def split: option.splits)

end
