(* ===== verification/Gate_FU.thy ===== *)
theory Gate_FU
  imports O3_Types
begin

text \<open>
  The gate-level functional-unit injector (\<open>CHAOSGateFU\<close>): a flat list of two-input gates, the
  Kogge-Stone adder and the shift-add multiplier synthesised into it, the evaluation of the
  netlist with one gate stuck, and the writeback oracle.  The lemmas show that the synthesised
  netlists compute addition and multiplication for every width, how far a stuck gate can be
  seen, and what the oracle hands to the writeback path.
\<close>

subsection \<open>The netlist\<close>

datatype gate_type = GateAnd | GateOr | GateXor | GateNot

text \<open>A fan-in is a gate index, or \<open>- (pi_index + 1)\<close> for a primary input.\<close>

record gate =
  gtype :: gate_type
  in0 :: int
  in1 :: int

record netlist =
  gates :: "gate list"
  po_gates :: "int list"
  pi_width :: nat

definition synthGate :: "gate_type \<Rightarrow> int \<Rightarrow> int \<Rightarrow> netlist \<Rightarrow> int \<times> netlist" where
  "synthGate t i j n =
     (let n' = n\<lparr>gates := gates n @ [\<lparr>gtype = t, in0 = i, in1 = j\<rparr>]\<rparr>
      in (int (length (gates n')) - 1, n'))"

subsection \<open>Evaluation with a stuck gate\<close>

definition read_node :: "bool list \<Rightarrow> bool list \<Rightarrow> int \<Rightarrow> bool" where
  "read_node pis val i = (if i < 0 then pis ! nat (- i - 1) else val ! nat i)"

definition gate_value :: "bool list \<Rightarrow> bool list \<Rightarrow> gate \<Rightarrow> bool" where
  "gate_value pis val g =
     (case gtype g of
        GateAnd \<Rightarrow> read_node pis val (in0 g) \<and> read_node pis val (in1 g)
      | GateOr \<Rightarrow> read_node pis val (in0 g) \<or> read_node pis val (in1 g)
      | GateXor \<Rightarrow> read_node pis val (in0 g) \<noteq> read_node pis val (in1 g)
      | GateNot \<Rightarrow> \<not> read_node pis val (in0 g))"

text \<open>The loop over the gates: \<open>val\<close> holds the values of the gates already visited, so the index
  of the next gate is its length.\<close>

fun eval_gates :: "bool list \<Rightarrow> int \<Rightarrow> int \<Rightarrow> bool list \<Rightarrow> gate list \<Rightarrow> bool list" where
  "eval_gates pis stuck_gate stuck_val val [] = val"
| "eval_gates pis stuck_gate stuck_val val (g # gs) =
     (let v = gate_value pis val g;
          v' = (if int (length val) = stuck_gate then stuck_val \<noteq> 0 else v)
      in eval_gates pis stuck_gate stuck_val (val @ [v']) gs)"

definition evalNet :: "netlist \<Rightarrow> bool list \<Rightarrow> int \<Rightarrow> int \<Rightarrow> bool list" where
  "evalNet n pis stuck_gate stuck_val =
     (let val = eval_gates pis stuck_gate stuck_val [] (gates n)
      in map (\<lambda>g. if 0 \<le> g then val ! nat g else False) (po_gates n))"

subsection \<open>Kogge-Stone adder\<close>

text \<open>\<open>p\<close> and \<open>g\<close> hold, for every bit, the propagate and generate nodes of the levels built so
  far; \<open>back()\<close> is \<open>last\<close> and \<open>front()\<close> is \<open>hd\<close>.\<close>

definition ks_pre :: "nat \<Rightarrow> nat \<Rightarrow> int list list \<times> int list list \<times> netlist
    \<Rightarrow> int list list \<times> int list list \<times> netlist" where
  "ks_pre width i st =
     (case st of (p, g, n) \<Rightarrow>
        let ai = - (int i + 1); bi = - (int width + int i + 1);
            (pn, n1) = synthGate GateXor ai bi n;
            (gn, n2) = synthGate GateAnd ai bi n1
        in (p @ [[pn]], g @ [[gn]], n2))"

definition ks_cell :: "nat \<Rightarrow> int list list \<Rightarrow> int list list \<Rightarrow> nat
    \<Rightarrow> int list \<times> int list \<times> netlist \<Rightarrow> int list \<times> int list \<times> netlist" where
  "ks_cell d p g i st =
     (case st of (np, ng, n) \<Rightarrow>
        let pv = last (p ! i); gv = last (g ! i)
        in if d \<le> i
           then let pg = last (p ! (i - d)); gg = last (g ! (i - d));
                    (pand, n1) = synthGate GateAnd pv gg n;
                    (gor, n2) = synthGate GateOr gv pand n1;
                    (pandp, n3) = synthGate GateAnd pv pg n2
                in (np @ [pandp], ng @ [gor], n3)
           else (np @ [pv], ng @ [gv], n))"

definition ks_level :: "nat \<Rightarrow> nat \<Rightarrow> int list list \<times> int list list \<times> netlist
    \<Rightarrow> int list list \<times> int list list \<times> netlist" where
  "ks_level width d st =
     (case st of (p, g, n) \<Rightarrow>
        let (np, ng, n') = fold (ks_cell d p g) [0..<width] ([], [], n)
        in (map2 (\<lambda>l x. l @ [x]) p np, map2 (\<lambda>l x. l @ [x]) g ng, n'))"

text \<open>\<open>for (d = 1; d < width; d <<= 1)\<close>; the loop starts at 1, so \<open>0 < d\<close> always holds.\<close>

function ks_levels :: "nat \<Rightarrow> nat \<Rightarrow> int list list \<times> int list list \<times> netlist
    \<Rightarrow> int list list \<times> int list list \<times> netlist" where
  "ks_levels width d st =
     (if 0 < d \<and> d < width then ks_levels width (2 * d) (ks_level width d st) else st)"
  by pat_completeness auto
termination
  by (relation "measure (\<lambda>(width, d, st). width - d)") auto

declare ks_levels.simps [simp del]

definition ks_sum :: "int list list \<Rightarrow> int list list \<Rightarrow> nat \<Rightarrow> netlist \<Rightarrow> netlist" where
  "ks_sum p g i n =
     (if i = 0 then n\<lparr>po_gates := po_gates n @ [hd (p ! 0)]\<rparr>
      else let (s, n') = synthGate GateXor (hd (p ! i)) (last (g ! (i - 1))) n
           in n'\<lparr>po_gates := po_gates n' @ [s]\<rparr>)"

definition synthesizeAdder :: "nat \<Rightarrow> netlist" where
  "synthesizeAdder width =
     (let n0 = \<lparr>gates = [], po_gates = [], pi_width = 2 * width\<rparr>;
          (p, g, n1) = ks_levels width 1 (fold (ks_pre width) [0..<width] ([], [], n0));
          n2 = fold (ks_sum p g) [0..<width] n1
      in n2\<lparr>po_gates := po_gates n2 @ [last (g ! (width - 1))]\<rparr>)"

subsection \<open>Shift-add multiplier\<close>

definition pi_ref :: "nat \<Rightarrow> int" where
  "pi_ref idx = - (int idx + 1)"

definition mul_pp :: "nat \<Rightarrow> nat \<Rightarrow> nat \<Rightarrow> int list \<times> netlist \<Rightarrow> int list \<times> netlist" where
  "mul_pp width i j st =
     (case st of (row, n) \<Rightarrow>
        let (gt, n') = synthGate GateAnd (pi_ref j) (pi_ref (width + i)) n in (row @ [gt], n'))"

definition mul_pp_row :: "nat \<Rightarrow> nat \<Rightarrow> int list list \<times> netlist \<Rightarrow> int list list \<times> netlist" where
  "mul_pp_row width i st =
     (case st of (pp, n) \<Rightarrow>
        let (row, n') = fold (mul_pp width i) [0..<width] ([], n) in (pp @ [row], n'))"

definition mul_bit :: "nat \<Rightarrow> int list list \<Rightarrow> int \<Rightarrow> int list \<Rightarrow> nat \<Rightarrow> nat
    \<Rightarrow> int list \<times> int \<times> netlist \<Rightarrow> int list \<times> int \<times> netlist" where
  "mul_bit width pp const0 acc i k st =
     (case st of (sumv, cin, n) \<Rightarrow>
        let x = acc ! k;
            y = (if i \<le> k \<and> k - i < width then pp ! i ! (k - i) else const0);
            (xyc, n1) = synthGate GateXor x y n;
            (xy, n2) = synthGate GateAnd x y n1;
            (s, n3) = synthGate GateXor xyc cin n2;
            (xc, n4) = synthGate GateAnd xyc cin n3;
            (c, n5) = synthGate GateOr xy xc n4
        in (sumv @ [s], c, n5))"

definition mul_row :: "nat \<Rightarrow> int list list \<Rightarrow> int \<Rightarrow> nat \<Rightarrow> int list \<times> netlist
    \<Rightarrow> int list \<times> netlist" where
  "mul_row width pp const0 i st =
     (case st of (acc, n) \<Rightarrow>
        let (sumv, cin, n') = fold (mul_bit width pp const0 acc i) [0..<2 * width] ([], const0, n)
        in (sumv, n'))"

definition synthesizeMultiplier :: "nat \<Rightarrow> netlist" where
  "synthesizeMultiplier width =
     (let n0 = \<lparr>gates = [], po_gates = [], pi_width = 2 * width\<rparr>;
          (pp, n1) = fold (mul_pp_row width) [0..<width] ([], n0);
          (not_a0, n2) = synthGate GateNot (pi_ref 0) (pi_ref 0) n1;
          (const0, n3) = synthGate GateAnd (pi_ref 0) not_a0 n2;
          acc0 = map (\<lambda>j. if j < width then pp ! 0 ! j else const0) [0..<2 * width];
          (acc, n4) = fold (mul_row width pp const0) [1..<width] (acc0, n3)
      in n4\<lparr>po_gates := po_gates n4 @ acc\<rparr>)"

subsection \<open>Evaluating a growing netlist\<close>

lemma length_eval_gates [simp]:
  "length (eval_gates pis s sv val gs) = length val + length gs"
  by (induction gs arbitrary: val) (auto simp: Let_def)

lemma eval_gates_append:
  "eval_gates pis s sv val (xs @ ys) = eval_gates pis s sv (eval_gates pis s sv val xs) ys"
  by (induction xs arbitrary: val) (auto simp: Let_def)

lemma eval_gates_prefix:
  "k < length val \<Longrightarrow> eval_gates pis s sv val gs ! k = val ! k"
  by (induction gs arbitrary: val) (auto simp: Let_def nth_append)

text \<open>The value a node carries in the fault-free netlist.\<close>

definition node_val :: "netlist \<Rightarrow> bool list \<Rightarrow> int \<Rightarrow> bool" where
  "node_val n pis i = read_node pis (eval_gates pis (- 1) 0 [] (gates n)) i"

definition node_ok :: "netlist \<Rightarrow> int \<Rightarrow> bool" where
  "node_ok n i \<longleftrightarrow> - int (pi_width n) \<le> i \<and> i < int (length (gates n))"

text \<open>A netlist is well formed when every gate reads primary inputs that exist and gates that
  come before it, so the evaluation never reads a value it has not computed.\<close>

definition gate_ok :: "nat \<Rightarrow> nat \<Rightarrow> gate \<Rightarrow> bool" where
  "gate_ok w k g \<longleftrightarrow> - int w \<le> in0 g \<and> in0 g < int k \<and> - int w \<le> in1 g \<and> in1 g < int k"

definition wf_net :: "netlist \<Rightarrow> bool" where
  "wf_net n \<longleftrightarrow> (\<forall>k < length (gates n). gate_ok (pi_width n) k (gates n ! k)) \<and>
     (\<forall>i \<in> set (po_gates n). node_ok n i)"

definition carries :: "netlist \<Rightarrow> bool list \<Rightarrow> int \<Rightarrow> bool \<Rightarrow> bool" where
  "carries n pis i b \<longleftrightarrow> node_ok n i \<and> node_val n pis i = b"

definition extends :: "netlist \<Rightarrow> netlist \<Rightarrow> bool" where
  "extends n n' \<longleftrightarrow> (\<exists>gs. gates n' = gates n @ gs) \<and> pi_width n' = pi_width n"

lemma extends_refl [simp, intro]: "extends n n"
  by (simp add: extends_def)

lemma extends_trans: "extends n n' \<Longrightarrow> extends n' n'' \<Longrightarrow> extends n n''"
  by (auto simp: extends_def)

lemma node_val_extends:
  assumes "extends n n'" and "i < int (length (gates n))"
  shows "node_val n' pis i = node_val n pis i"
proof -
  from assms(1) obtain gs where gs: "gates n' = gates n @ gs" by (auto simp: extends_def)
  from assms(2) have "nat i < length (gates n)" if "0 \<le> i" using that by linarith
  then show ?thesis
    by (auto simp: node_val_def read_node_def gs eval_gates_append eval_gates_prefix)
qed

lemma carries_extends: "carries n pis i b \<Longrightarrow> extends n n' \<Longrightarrow> carries n' pis i b"
  by (auto simp: carries_def node_ok_def node_val_extends) (auto simp: extends_def)

text \<open>One synthesised gate: what it adds and the value it carries.\<close>

fun gate_op :: "gate_type \<Rightarrow> bool \<Rightarrow> bool \<Rightarrow> bool" where
  "gate_op GateAnd x y = (x \<and> y)"
| "gate_op GateOr x y = (x \<or> y)"
| "gate_op GateXor x y = (x \<noteq> y)"
| "gate_op GateNot x y = (\<not> x)"

lemma gate_value_op:
  "gate_value pis val g = gate_op (gtype g) (read_node pis val (in0 g)) (read_node pis val (in1 g))"
  by (cases "gtype g") (auto simp: gate_value_def)

definition grows :: "netlist \<Rightarrow> netlist \<Rightarrow> bool" where
  "grows n n' \<longleftrightarrow> extends n n' \<and> po_gates n' = po_gates n \<and> (wf_net n \<longrightarrow> wf_net n')"

lemma grows_refl [simp, intro]: "grows n n"
  by (simp add: grows_def)

lemma grows_trans: "grows n n' \<Longrightarrow> grows n' n'' \<Longrightarrow> grows n n''"
  by (auto simp: grows_def intro: extends_trans)

lemma grows_extends: "grows n n' \<Longrightarrow> extends n n'"
  by (simp add: grows_def)

lemma carries_grows: "carries n pis i b \<Longrightarrow> grows n n' \<Longrightarrow> carries n' pis i b"
  by (blast intro: carries_extends grows_extends)

lemma synthGate_grows:
  assumes "synthGate t i j n = (k, n')" and "node_ok n i" and "node_ok n j"
  shows "grows n n'"
proof -
  from assms(1) have n': "n' = n\<lparr>gates := gates n @ [\<lparr>gtype = t, in0 = i, in1 = j\<rparr>]\<rparr>"
    by (auto simp: synthGate_def Let_def)
  have "wf_net n'" if "wf_net n"
    unfolding wf_net_def
  proof (intro conjI allI impI ballI)
    fix l assume "l < length (gates n')"
    then consider "l < length (gates n)" | "l = length (gates n)" by (auto simp: n' less_Suc_eq)
    then show "gate_ok (pi_width n') l (gates n' ! l)"
      using that assms(2,3)
      by cases (auto simp: n' wf_net_def nth_append gate_ok_def node_ok_def)
  next
    fix i assume "i \<in> set (po_gates n')"
    with that show "node_ok n' i" by (auto simp: n' wf_net_def node_ok_def)
  qed
  then show ?thesis by (simp add: grows_def extends_def n')
qed

lemma synthGate_carries:
  assumes eq: "synthGate t i j n = (k, n')" and "carries n pis i x" and "carries n pis j y"
  shows "carries n' pis k (gate_op t x y)"
proof -
  let ?g = "\<lparr>gtype = t, in0 = i, in1 = j\<rparr>"
  from eq have n': "n' = n\<lparr>gates := gates n @ [?g]\<rparr>" and k: "k = int (length (gates n))"
    by (auto simp: synthGate_def Let_def)
  have "node_val n' pis k = gate_value pis (eval_gates pis (- 1) 0 [] (gates n)) ?g"
    by (simp add: node_val_def read_node_def n' k eval_gates_append nth_append Let_def)
  also have "\<dots> = gate_op t x y"
    using assms(2,3) by (simp add: gate_value_op carries_def node_val_def)
  finally show ?thesis by (simp add: carries_def node_ok_def n' k)
qed

lemma carries_ok: "carries n pis i b \<Longrightarrow> node_ok n i"
  by (simp add: carries_def)

lemma carries_pi:
  "m < pi_width n \<Longrightarrow> carries n pis (- (int m + 1)) (pis ! m)"
  by (simp add: carries_def node_ok_def node_val_def read_node_def)

lemma carries_pi_ref: "m < pi_width n \<Longrightarrow> carries n pis (pi_ref m) (pis ! m)"
  unfolding pi_ref_def by (rule carries_pi)

lemma grows_pi_width: "grows n n' \<Longrightarrow> pi_width n' = pi_width n"
  by (simp add: grows_def extends_def)

text \<open>A gate node, which may be a primary output.\<close>

definition outputs :: "netlist \<Rightarrow> bool list \<Rightarrow> int \<Rightarrow> bool \<Rightarrow> bool" where
  "outputs n pis i b \<longleftrightarrow> 0 \<le> i \<and> carries n pis i b"

lemma outputs_carries: "outputs n pis i b \<Longrightarrow> carries n pis i b"
  by (simp add: outputs_def)

lemma outputs_grows: "outputs n pis i b \<Longrightarrow> grows n n' \<Longrightarrow> outputs n' pis i b"
  by (auto simp: outputs_def intro: carries_grows)

text \<open>The rule the synthesis proofs step with: a gate over nodes that carry \<open>x\<close> and \<open>y\<close> grows the
  netlist by a node that carries the gate's function of them.\<close>

lemma synthGate_step:
  assumes "synthGate t i j n = (k, n')" and "carries n pis i x" and "carries n pis j y"
  obtains "grows n n'" and "outputs n' pis k (gate_op t x y)"
proof
  from assms show "grows n n'" using synthGate_grows carries_ok by blast
  from assms(1) have "0 \<le> k" by (auto simp: synthGate_def Let_def)
  with synthGate_carries [OF assms] show "outputs n' pis k (gate_op t x y)"
    by (simp add: outputs_def)
qed

subsection \<open>The adder computes addition\<close>

text \<open>Group propagate and group generate of the bits \<open>lo\<close> to \<open>hi\<close>: the values the prefix network
  is meant to compute, and the law its cells implement.\<close>

definition group_p :: "(nat \<Rightarrow> bool) \<Rightarrow> (nat \<Rightarrow> bool) \<Rightarrow> nat \<Rightarrow> nat \<Rightarrow> bool" where
  "group_p a b lo hi \<longleftrightarrow> (\<forall>k. lo \<le> k \<and> k \<le> hi \<longrightarrow> a k \<noteq> b k)"

definition group_g :: "(nat \<Rightarrow> bool) \<Rightarrow> (nat \<Rightarrow> bool) \<Rightarrow> nat \<Rightarrow> nat \<Rightarrow> bool" where
  "group_g a b lo hi \<longleftrightarrow>
     (\<exists>k. lo \<le> k \<and> k \<le> hi \<and> a k \<and> b k \<and> (\<forall>j. k < j \<and> j \<le> hi \<longrightarrow> a j \<noteq> b j))"

lemma group_p_split:
  assumes "lo \<le> Suc m" and "m < hi"
  shows "group_p a b lo hi \<longleftrightarrow> group_p a b (Suc m) hi \<and> group_p a b lo m"
proof -
  have "lo \<le> k \<and> k \<le> hi \<longleftrightarrow> Suc m \<le> k \<and> k \<le> hi \<or> lo \<le> k \<and> k \<le> m" for k
    using assms by auto
  then show ?thesis unfolding group_p_def by blast
qed

lemma group_g_split:
  assumes "lo \<le> Suc m" and "m < hi"
  shows "group_g a b lo hi \<longleftrightarrow>
    group_g a b (Suc m) hi \<or> (group_p a b (Suc m) hi \<and> group_g a b lo m)" (is "?l \<longleftrightarrow> ?r")
proof
  assume ?l
  then obtain k where k: "lo \<le> k" "k \<le> hi" "a k" "b k" "\<forall>j. k < j \<and> j \<le> hi \<longrightarrow> a j \<noteq> b j"
    by (auto simp: group_g_def)
  show ?r
  proof (cases "k \<le> m")
    case True
    with k assms have "group_p a b (Suc m) hi" by (auto simp: group_p_def)
    moreover from True k assms have "group_g a b lo m"
      unfolding group_g_def by (intro exI [of _ k]) auto
    ultimately show ?thesis by simp
  next
    case False
    with k have "group_g a b (Suc m) hi" unfolding group_g_def by (intro exI [of _ k]) auto
    then show ?thesis by simp
  qed
next
  assume ?r
  then show ?l
  proof
    assume "group_g a b (Suc m) hi"
    then show ?l using assms unfolding group_g_def by (meson Suc_leD le_trans order.trans)
  next
    assume "group_p a b (Suc m) hi \<and> group_g a b lo m"
    then obtain k where "lo \<le> k" "k \<le> m" "a k" "b k" "\<forall>j. k < j \<and> j \<le> m \<longrightarrow> a j \<noteq> b j"
      and p: "\<forall>j. Suc m \<le> j \<and> j \<le> hi \<longrightarrow> a j \<noteq> b j"
      by (auto simp: group_p_def group_g_def)
    moreover have "a j \<noteq> b j" if "k < j" "j \<le> hi" for j
      using that calculation p by (cases "j \<le> m") auto
    ultimately show ?l using assms unfolding group_g_def by (intro exI [of _ k]) auto
  qed
qed

lemma group_single [simp]:
  "group_p a b i i \<longleftrightarrow> a i \<noteq> b i" "group_g a b i i \<longleftrightarrow> a i \<and> b i"
  by (auto simp: group_p_def group_g_def)

lemma group_g_carry: "group_g a b 0 i \<longleftrightarrow> carry a b (Suc i)"
proof (induction i)
  case (Suc i)
  have "group_g a b 0 (Suc i) \<longleftrightarrow>
    group_g a b (Suc i) (Suc i) \<or> group_p a b (Suc i) (Suc i) \<and> group_g a b 0 i"
    by (rule group_g_split) auto
  with Suc show ?case by simp
qed simp

text \<open>The state of the prefix network after the levels up to distance \<open>d\<close>.\<close>

definition ks_inv :: "nat \<Rightarrow> bool list \<Rightarrow> nat \<Rightarrow> nat \<Rightarrow> int list list \<times> int list list \<times> netlist \<Rightarrow> bool"
  where
  "ks_inv w pis d k st \<longleftrightarrow> (case st of (p, g, n) \<Rightarrow>
     let a = (\<lambda>i. pis ! i); b = (\<lambda>i. pis ! (w + i)) in
     length p = k \<and> length g = k \<and> wf_net n \<and> pi_width n = 2 * w \<and> po_gates n = [] \<and>
     (\<forall>i < k. p ! i \<noteq> [] \<and> g ! i \<noteq> [] \<and>
        outputs n pis (hd (p ! i)) (a i \<noteq> b i) \<and>
        outputs n pis (last (p ! i)) (group_p a b (Suc i - d) i) \<and>
        outputs n pis (last (g ! i)) (group_g a b (Suc i - d) i)))"

lemma ks_pre_inv:
  assumes "ks_inv w pis 1 k st" and "k < w"
  shows "ks_inv w pis 1 (Suc k) (ks_pre w k st)"
proof -
  obtain p g n where st: "st = (p, g, n)" by (cases st) auto
  let ?ai = "- (int k + 1)" and ?bi = "- (int w + int k + 1)"
  obtain pn n1 where s1: "synthGate GateXor ?ai ?bi n = (pn, n1)" by fastforce
  obtain gn n2 where s2: "synthGate GateAnd ?ai ?bi n1 = (gn, n2)" by fastforce
  from assms(1) have n: "pi_width n = 2 * w" by (simp add: ks_inv_def st Let_def)
  have pa: "carries n pis ?ai (pis ! k)" using assms(2) n by (intro carries_pi) simp
  have "carries n pis (- (int (w + k) + 1)) (pis ! (w + k))"
    using assms(2) n by (intro carries_pi) simp
  then have pb: "carries n pis ?bi (pis ! (w + k))" by (simp add: add.assoc)
  from s1 pa pb obtain g1: "grows n n1" and c1: "outputs n1 pis pn (pis ! k \<noteq> pis ! (w + k))"
    by (rule synthGate_step) simp
  from s2 carries_grows [OF pa g1] carries_grows [OF pb g1]
  obtain g2: "grows n1 n2" and c2: "outputs n2 pis gn (pis ! k \<and> pis ! (w + k))"
    by (rule synthGate_step) simp
  note g12 = grows_trans [OF g1 g2] and c1' = outputs_grows [OF c1 g2]
  have "ks_pre w k st = (p @ [[pn]], g @ [[gn]], n2)"
    unfolding ks_pre_def st prod.case Let_def s1 s2 ..
  with assms(1) g12 c1' c2 show ?thesis
    by (auto simp: ks_inv_def st Let_def nth_append less_Suc_eq grows_def
      intro: outputs_grows [OF _ g12] dest: grows_pi_width)
       (simp_all add: extends_def)
qed

lemma ks_pre_fold:
  "k \<le> w \<Longrightarrow> ks_inv w pis 1 k
     (fold (ks_pre w) [0..<k] ([], [], \<lparr>gates = [], po_gates = [], pi_width = 2 * w\<rparr>))"
proof (induction k)
  case (Suc k)
  then show ?case using ks_pre_inv [of w pis k] by simp
qed (simp add: ks_inv_def wf_net_def)

text \<open>One level: every cell combines two adjacent windows of length \<open>d\<close>.\<close>

definition ks_row :: "nat \<Rightarrow> bool list \<Rightarrow> nat \<Rightarrow> nat \<Rightarrow> netlist \<Rightarrow> int list \<times> int list \<times> netlist \<Rightarrow> bool"
  where
  "ks_row w pis d k n st \<longleftrightarrow> (case st of (np, ng, n') \<Rightarrow>
     let a = (\<lambda>i. pis ! i); b = (\<lambda>i. pis ! (w + i)) in
     length np = k \<and> length ng = k \<and> grows n n' \<and>
     (\<forall>i < k. outputs n' pis (np ! i) (group_p a b (Suc i - 2 * d) i) \<and>
              outputs n' pis (ng ! i) (group_g a b (Suc i - 2 * d) i)))"

lemma ks_cell_row:
  assumes inv: "ks_inv w pis d w (p, g, n)" and row: "ks_row w pis d k n st"
    and "k < w" and "0 < d"
  shows "ks_row w pis d (Suc k) n (ks_cell d p g k st)"
proof -
  obtain np ng n0 where st: "st = (np, ng, n0)" by (cases st) auto
  let ?P = "group_p (\<lambda>i. pis ! i) (\<lambda>i. pis ! (w + i))"
  let ?G = "group_g (\<lambda>i. pis ! i) (\<lambda>i. pis ! (w + i))"
  from row have gr: "grows n n0" by (simp add: ks_row_def st Let_def)
  have P: "outputs n0 pis (last (p ! i)) (?P (Suc i - d) i)"
    and G: "outputs n0 pis (last (g ! i)) (?G (Suc i - d) i)" if "i < w" for i
    using inv that gr by (auto simp: ks_inv_def Let_def intro: outputs_grows)
  show ?thesis
  proof (cases "d \<le> k")
    case False
    then have "Suc k - d = Suc k - 2 * d" by simp
    with False row P [of k] G [of k] \<open>k < w\<close> show ?thesis
      by (auto simp: ks_row_def ks_cell_def st Let_def nth_append less_Suc_eq)
  next
    case True
    let ?m = "k - d"
    have m: "?m < k" "Suc k - 2 * d \<le> Suc ?m" "Suc k - d = Suc ?m" "Suc ?m - d = Suc k - 2 * d"
      using True \<open>0 < d\<close> by auto
    obtain pand n1 where s1: "synthGate GateAnd (last (p ! k)) (last (g ! ?m)) n0 = (pand, n1)"
      by fastforce
    obtain gor n2 where s2: "synthGate GateOr (last (g ! k)) pand n1 = (gor, n2)" by fastforce
    obtain pandp n3 where s3: "synthGate GateAnd (last (p ! k)) (last (p ! ?m)) n2 = (pandp, n3)"
      by fastforce
    have mw: "?m < w" using \<open>k < w\<close> by simp
    from s1 outputs_carries [OF P [OF \<open>k < w\<close>]] outputs_carries [OF G [OF mw]]
    obtain g1: "grows n0 n1" and c1: "outputs n1 pis pand (?P (Suc k - d) k \<and> ?G (Suc ?m - d) ?m)"
      by (rule synthGate_step) simp
    from s2 outputs_carries [OF outputs_grows [OF G [OF \<open>k < w\<close>] g1]] outputs_carries [OF c1]
    obtain g2: "grows n1 n2"
      and c2: "outputs n2 pis gor (?G (Suc k - d) k \<or> ?P (Suc k - d) k \<and> ?G (Suc ?m - d) ?m)"
      by (rule synthGate_step) simp
    note g12 = grows_trans [OF g1 g2]
    from s3 outputs_carries [OF outputs_grows [OF P [OF \<open>k < w\<close>] g12]]
      outputs_carries [OF outputs_grows [OF P [OF mw] g12]]
    obtain g3: "grows n2 n3" and c3: "outputs n3 pis pandp (?P (Suc k - d) k \<and> ?P (Suc ?m - d) ?m)"
      by (rule synthGate_step) simp
    note c2' = outputs_grows [OF c2 g3] and g03 = grows_trans [OF g12 g3]
    have "ks_cell d p g k st = (np @ [pandp], ng @ [gor], n3)"
      using True by (simp add: ks_cell_def st s1 s2 s3)
    moreover have "outputs n3 pis pandp (?P (Suc k - 2 * d) k)"
      using c3 group_p_split [OF m(2,1)] m by simp
    moreover have "outputs n3 pis gor (?G (Suc k - 2 * d) k)"
      using c2' group_g_split [OF m(2,1)] m by simp
    ultimately show ?thesis
      using row g03 gr
      by (auto simp: ks_row_def st Let_def nth_append less_Suc_eq
          intro: outputs_grows [OF _ g03] grows_trans)
  qed
qed

lemma ks_level_inv:
  assumes inv: "ks_inv w pis d w st" and "0 < d"
  shows "ks_inv w pis (2 * d) w (ks_level w d st)"
proof -
  obtain p g n where st: "st = (p, g, n)" by (cases st) auto
  have row: "ks_row w pis d k n (fold (ks_cell d p g) [0..<k] ([], [], n))" if "k \<le> w" for k
    using that
  proof (induction k)
    case (Suc k)
    then show ?case using ks_cell_row [OF inv [unfolded st]] \<open>0 < d\<close> by simp
  qed (simp add: ks_row_def)
  obtain np ng n' where res: "fold (ks_cell d p g) [0..<w] ([], [], n) = (np, ng, n')"
    by (cases "fold (ks_cell d p g) [0..<w] ([], [], n)") auto
  have r: "length np = w" "length ng = w" "grows n n'"
    using row [of w] by (auto simp: ks_row_def res Let_def)
  show ?thesis
    using row [of w] inv r
    by (auto simp: ks_inv_def ks_level_def st res ks_row_def Let_def grows_def
        intro: outputs_grows [OF _ r(3)] dest: grows_pi_width)
       (simp_all add: extends_def)
qed

lemma ks_levels_inv:
  "ks_inv w pis d w st \<Longrightarrow> 0 < d \<Longrightarrow> \<exists>d'. w \<le> d' \<and> ks_inv w pis d' w (ks_levels w d st)"
proof (induction w d st rule: ks_levels.induct)
  case (1 w d st)
  show ?case
  proof (cases "d < w")
    case True
    with 1 ks_level_inv [of w pis d st] show ?thesis
      by (subst ks_levels.simps) simp
  next
    case False
    with 1(2) show ?thesis by (subst ks_levels.simps) (auto intro!: exI [of _ d])
  qed
qed

text \<open>The sum row: the outputs are the level-0 propagate bits corrected by the carries.\<close>

definition ks_out :: "nat \<Rightarrow> bool list \<Rightarrow> nat \<Rightarrow> netlist \<Rightarrow> netlist \<Rightarrow> bool" where
  "ks_out w pis k n n' \<longleftrightarrow> extends n n' \<and> wf_net n' \<and> length (po_gates n') = k \<and>
     (let a = (\<lambda>i. pis ! i); b = (\<lambda>i. pis ! (w + i)) in
      \<forall>i < k. outputs n' pis (po_gates n' ! i) ((a i \<noteq> b i) \<noteq> carry a b i))"

lemma add_po_ok:
  assumes "wf_net n" and "outputs n pis s v"
  shows "wf_net (n\<lparr>po_gates := po_gates n @ [s]\<rparr>)"
    and "outputs (n\<lparr>po_gates := xs\<rparr>) pis i b \<longleftrightarrow> outputs n pis i b"
    and "extends n (n\<lparr>po_gates := xs\<rparr>)"
  using assms by (auto simp: wf_net_def outputs_def carries_def node_ok_def node_val_def extends_def)

lemma ks_sum_out:
  assumes inv: "ks_inv w pis d w (p, g, n)" and d: "w \<le> d" and out: "ks_out w pis k n n0"
    and "k < w"
  shows "ks_out w pis (Suc k) n (ks_sum p g k n0)"
proof -
  let ?a = "\<lambda>i. pis ! i" and ?b = "\<lambda>i. pis ! (w + i)"
  have ext: "extends n n0" and wf: "wf_net n0" using out by (auto simp: ks_out_def)
  have P: "outputs n0 pis (hd (p ! i)) (?a i \<noteq> ?b i)"
    and G: "outputs n0 pis (last (g ! i)) (carry ?a ?b (Suc i))" if "i < w" for i
  proof -
    have z: "Suc i - d = 0" using that d by simp
    have "outputs n pis (hd (p ! i)) (?a i \<noteq> ?b i)"
      and "outputs n pis (last (g ! i)) (group_g ?a ?b (Suc i - d) i)"
      using inv that by (simp_all add: ks_inv_def Let_def)
    with ext show "outputs n0 pis (hd (p ! i)) (?a i \<noteq> ?b i)"
      and "outputs n0 pis (last (g ! i)) (carry ?a ?b (Suc i))"
      unfolding z group_g_carry by (auto simp: outputs_def intro: carries_extends)
  qed
  have "\<exists>n1 s. ks_sum p g k n0 = n1\<lparr>po_gates := po_gates n1 @ [s]\<rparr> \<and> grows n0 n1 \<and>
      outputs n1 pis s ((?a k \<noteq> ?b k) \<noteq> carry ?a ?b k)"
  proof (cases k)
    case 0
    with P [of 0] \<open>k < w\<close> show ?thesis
      by (intro exI [of _ n0] exI [of _ "hd (p ! 0)"]) (simp add: ks_sum_def)
  next
    case (Suc j)
    obtain s n1 where s: "synthGate GateXor (hd (p ! k)) (last (g ! j)) n0 = (s, n1)" by fastforce
    from s outputs_carries [OF P [OF \<open>k < w\<close>]] outputs_carries [OF G [of j]] \<open>k < w\<close> Suc
    obtain "grows n0 n1" and "outputs n1 pis s ((?a k \<noteq> ?b k) \<noteq> carry ?a ?b k)"
      by (elim synthGate_step) auto
    with s Suc show ?thesis
      by (intro exI [of _ n1] exI [of _ s]) (simp add: ks_sum_def)
  qed
  then obtain n1 s where eq: "ks_sum p g k n0 = n1\<lparr>po_gates := po_gates n1 @ [s]\<rparr>"
    and gr: "grows n0 n1" and o: "outputs n1 pis s ((?a k \<noteq> ?b k) \<noteq> carry ?a ?b k)" by blast
  have wf1: "wf_net n1" and po1: "po_gates n1 = po_gates n0" using gr wf by (auto simp: grows_def)
  show ?thesis
    unfolding ks_out_def Let_def eq add_po_ok(2) [OF wf1 o]
  proof (intro conjI allI impI)
    show "extends n (n1\<lparr>po_gates := po_gates n1 @ [s]\<rparr>)"
      using ext grows_extends [OF gr] add_po_ok(3) [OF wf1 o] by (blast intro: extends_trans)
    show "wf_net (n1\<lparr>po_gates := po_gates n1 @ [s]\<rparr>)" by (rule add_po_ok(1) [OF wf1 o])
    show "length (po_gates (n1\<lparr>po_gates := po_gates n1 @ [s]\<rparr>)) = Suc k"
      using out po1 by (simp add: ks_out_def)
  next
    fix i assume "i < Suc k"
    then show "outputs n1 pis (po_gates (n1\<lparr>po_gates := po_gates n1 @ [s]\<rparr>) ! i)
        ((pis ! i \<noteq> pis ! (w + i)) \<noteq> carry ?a ?b i)"
      using out o po1 outputs_grows [OF _ gr]
      by (auto simp: ks_out_def Let_def nth_append less_Suc_eq)
  qed
qed

text \<open>The whole adder, for every width: well formed, and every output carries its sum bit.\<close>

lemma synthesizeAdder_outputs:
  fixes pis :: "bool list"
  assumes "0 < w"
  defines "a \<equiv> \<lambda>i. pis ! i" and "b \<equiv> \<lambda>i. pis ! (w + i)"
  shows "wf_net (synthesizeAdder w)" and "length (po_gates (synthesizeAdder w)) = Suc w"
    and "pi_width (synthesizeAdder w) = 2 * w"
    and "i < w \<Longrightarrow> outputs (synthesizeAdder w) pis (po_gates (synthesizeAdder w) ! i)
           ((a i \<noteq> b i) \<noteq> carry a b i)"
    and "outputs (synthesizeAdder w) pis (po_gates (synthesizeAdder w) ! w) (carry a b w)"
proof -
  let ?n0 = "\<lparr>gates = [], po_gates = [], pi_width = 2 * w\<rparr>"
  obtain p g n1 where st: "ks_levels w 1 (fold (ks_pre w) [0..<w] ([], [], ?n0)) = (p, g, n1)"
    by (cases "ks_levels w 1 (fold (ks_pre w) [0..<w] ([], [], ?n0))") auto
  from ks_levels_inv [OF ks_pre_fold [of w w pis]] st
  obtain d where d: "w \<le> d" and inv: "ks_inv w pis d w (p, g, n1)" by auto
  have "ks_out w pis k n1 (fold (ks_sum p g) [0..<k] n1)" if "k \<le> w" for k
    using that
  proof (induction k)
    case 0
    then show ?case using inv by (simp add: ks_out_def ks_inv_def Let_def)
  next
    case (Suc k)
    then show ?case using ks_sum_out [OF inv d] by simp
  qed
  then have out: "ks_out w pis w n1 (fold (ks_sum p g) [0..<w] n1)" by simp
  define n2 where "n2 = fold (ks_sum p g) [0..<w] n1"
  define c where "c = last (g ! (w - 1))"
  have eq: "synthesizeAdder w = n2\<lparr>po_gates := po_gates n2 @ [c]\<rparr>"
    unfolding synthesizeAdder_def Let_def st prod.case n2_def c_def ..
  have ext: "extends n1 n2" and wf: "wf_net n2" and len: "length (po_gates n2) = w"
    and po: "\<And>i. i < w \<Longrightarrow> outputs n2 pis (po_gates n2 ! i) ((a i \<noteq> b i) \<noteq> carry a b i)"
    using out by (auto simp: ks_out_def n2_def Let_def a_def b_def)
  have "w - 1 < w" "Suc (w - 1) - d = 0" "Suc (w - 1) = w" using assms(1) d by simp_all
  with inv have "outputs n1 pis c (group_g a b 0 (w - 1))"
    by (fastforce simp: ks_inv_def Let_def c_def a_def b_def)
  then have c: "outputs n2 pis c (carry a b w)"
    using ext \<open>Suc (w - 1) = w\<close> by (auto simp: outputs_def group_g_carry intro: carries_extends)
  show "wf_net (synthesizeAdder w)" unfolding eq by (rule add_po_ok(1) [OF wf c])
  show "length (po_gates (synthesizeAdder w)) = Suc w" using len by (simp add: eq)
  show "pi_width (synthesizeAdder w) = 2 * w"
    using ext inv by (auto simp: eq extends_def ks_inv_def Let_def)
  show "i < w \<Longrightarrow> outputs (synthesizeAdder w) pis (po_gates (synthesizeAdder w) ! i)
      ((a i \<noteq> b i) \<noteq> carry a b i)"
    using po len by (simp add: eq add_po_ok(2) [OF wf c] nth_append)
  show "outputs (synthesizeAdder w) pis (po_gates (synthesizeAdder w) ! w) (carry a b w)"
    using c len by (simp add: eq add_po_ok(2) [OF wf c] nth_append)
qed

lemma evalNet_outputs:
  assumes "i < length (po_gates n)" and "outputs n pis (po_gates n ! i) v"
  shows "evalNet n pis (- 1) 0 ! i = v"
  using assms
  by (auto simp: evalNet_def outputs_def carries_def node_val_def read_node_def Let_def
      split: if_splits)

lemma length_evalNet [simp]: "length (evalNet n pis s sv) = length (po_gates n)"
  by (simp add: evalNet_def Let_def)

lemma adder_bits:
  assumes "0 < w" and "length pis = 2 * w"
  defines "A \<equiv> nat_of_bits (take w pis)" and "B \<equiv> nat_of_bits (drop w pis)"
  shows "evalNet (synthesizeAdder w) pis (- 1) 0 = map (bit (A + B)) [0..<Suc w]"
proof (rule nth_equalityI)
  show len: "length (evalNet (synthesizeAdder w) pis (- 1) 0) = length (map (bit (A + B)) [0..<Suc w])"
    using synthesizeAdder_outputs(2) [OF assms(1)] by simp
  have A: "bit A i \<longleftrightarrow> i < w \<and> pis ! i" and B: "bit B i \<longleftrightarrow> i < w \<and> pis ! (w + i)" for i
    using assms(2) by (auto simp: A_def B_def bit_nat_of_bits)
  have c: "carry (\<lambda>i. pis ! i) (\<lambda>i. pis ! (w + i)) i = carry (bit A) (bit B) i" if "i \<le> w" for i
    using that by (intro carry_cong) (auto simp: A B)
  fix i assume "i < length (evalNet (synthesizeAdder w) pis (- 1) 0)"
  then have "i < Suc w" using len by simp
  then consider "i < w" | "i = w" by linarith
  then show "evalNet (synthesizeAdder w) pis (- 1) 0 ! i = map (bit (A + B)) [0..<Suc w] ! i"
  proof cases
    case 1
    have "evalNet (synthesizeAdder w) pis (- 1) 0 ! i =
        ((pis ! i \<noteq> pis ! (w + i)) \<noteq> carry (\<lambda>i. pis ! i) (\<lambda>i. pis ! (w + i)) i)"
      using 1 synthesizeAdder_outputs(2,4) [OF assms(1)] by (intro evalNet_outputs) auto
    also have "\<dots> = bit (A + B) i"
      using 1 c [of i] by (simp add: bit_add_carry A B)
    finally show ?thesis using 1 by (simp add: nth_append)
  next
    case 2
    have "evalNet (synthesizeAdder w) pis (- 1) 0 ! w = carry (\<lambda>i. pis ! i) (\<lambda>i. pis ! (w + i)) w"
      using synthesizeAdder_outputs(2,5) [OF assms(1)] by (intro evalNet_outputs) auto
    also have "\<dots> = bit (A + B) w"
      using c [of w] by (simp add: bit_add_carry A B)
    finally show ?thesis using 2 by (simp add: nth_append)
  qed
qed

text \<open>C1: for every width the synthesised Kogge-Stone netlist is an adder.  Read as binary numbers,
  the \<open>width + 1\<close> primary outputs of the fault-free netlist are exactly the sum of the two operands
  on the primary inputs, carry-out included.\<close>

theorem adder_computes_sum:
  assumes "0 < w" and "length pis = 2 * w"
  shows "nat_of_bits (evalNet (synthesizeAdder w) pis (- 1) 0) =
    nat_of_bits (take w pis) + nat_of_bits (drop w pis)"
proof -
  let ?A = "nat_of_bits (take w pis)" and ?B = "nat_of_bits (drop w pis)"
  have "?A < 2 ^ w" "?B < 2 ^ w"
    using nat_of_bits_less [of "take w pis"] nat_of_bits_less [of "drop w pis"] assms(2) by auto
  then have "?A + ?B < 2 ^ Suc w" by simp
  then show ?thesis
    unfolding adder_bits [OF assms] nat_of_bits_map_bit by simp
qed

theorem adder_computes_sum_witness:
  "nat_of_bits (evalNet (synthesizeAdder 2) [True, True, False, True] (- 1) 0) = 3 + 2"
proof -
  have "nat_of_bits (evalNet (synthesizeAdder 2) [True, True, False, True] (- 1) 0) =
      nat_of_bits (take 2 [True, True, False, True]) + nat_of_bits (drop 2 [True, True, False, True])"
    by (rule adder_computes_sum) simp_all
  then show ?thesis by (simp add: nat_of_bits_def)
qed

subsection \<open>The multiplier computes multiplication\<close>

definition pp_row :: "nat \<Rightarrow> bool list \<Rightarrow> nat \<Rightarrow> netlist \<Rightarrow> int list \<Rightarrow> nat \<Rightarrow> bool" where
  "pp_row w pis i n row k \<longleftrightarrow>
     length row = k \<and> (\<forall>j < k. outputs n pis (row ! j) (pis ! j \<and> pis ! (w + i)))"

lemma pp_row_grows: "pp_row w pis i n row k \<Longrightarrow> grows n n' \<Longrightarrow> pp_row w pis i n' row k"
  by (auto simp: pp_row_def intro: outputs_grows)

lemma mul_pp_step:
  assumes row: "pp_row w pis i n row k" and "pi_width n = 2 * w" and "k < w" and "i < w"
    and eq: "mul_pp w i k (row, n) = (row', n')"
  shows "pp_row w pis i n' row' (Suc k) \<and> grows n n'"
proof -
  obtain gt where s: "synthGate GateAnd (pi_ref k) (pi_ref (w + i)) n = (gt, n')"
    and row': "row' = row @ [gt]"
    using eq by (auto simp: mul_pp_def Let_def split: prod.splits)
  have "carries n pis (pi_ref k) (pis ! k)" "carries n pis (pi_ref (w + i)) (pis ! (w + i))"
    using assms by (auto intro: carries_pi_ref)
  with s obtain gr: "grows n n'" and o: "outputs n' pis gt (pis ! k \<and> pis ! (w + i))"
    by (rule synthGate_step) simp
  then show ?thesis
    using pp_row_grows [OF row gr] by (auto simp: pp_row_def row' nth_append less_Suc_eq)
qed

lemma mul_pp_fold:
  assumes "pi_width n = 2 * w" and "i < w" and "k \<le> w"
    and "fold (mul_pp w i) [0..<k] ([], n) = (row, n')"
  shows "pp_row w pis i n' row k \<and> grows n n'"
  using assms(3,4)
proof (induction k arbitrary: row n')
  case (Suc k)
  obtain row0 n0 where st: "fold (mul_pp w i) [0..<k] ([], n) = (row0, n0)"
    by (cases "fold (mul_pp w i) [0..<k] ([], n)")
  from Suc st have "pp_row w pis i n0 row0 k \<and> grows n n0" by simp
  moreover have "mul_pp w i k (row0, n0) = (row, n')" using Suc.prems st by simp
  ultimately show ?case
    using mul_pp_step [of w pis i n0 row0 k row n'] assms Suc.prems(1) grows_pi_width [of n n0]
    by (auto intro: grows_trans)
qed (simp add: pp_row_def)

definition pp_all :: "nat \<Rightarrow> bool list \<Rightarrow> netlist \<Rightarrow> int list list \<Rightarrow> nat \<Rightarrow> bool" where
  "pp_all w pis n pp k \<longleftrightarrow> length pp = k \<and> (\<forall>i < k. pp_row w pis i n (pp ! i) w)"

lemma pp_all_grows: "pp_all w pis n pp k \<Longrightarrow> grows n n' \<Longrightarrow> pp_all w pis n' pp k"
  by (auto simp: pp_all_def intro: pp_row_grows)

lemma mul_pp_rows:
  assumes "pi_width n = 2 * w" and "k \<le> w"
    and "fold (mul_pp_row w) [0..<k] ([], n) = (pp, n')"
  shows "pp_all w pis n' pp k \<and> grows n n'"
  using assms(2,3)
proof (induction k arbitrary: pp n')
  case (Suc k)
  obtain pp0 n0 where st: "fold (mul_pp_row w) [0..<k] ([], n) = (pp0, n0)"
    by (cases "fold (mul_pp_row w) [0..<k] ([], n)")
  with Suc have IH: "pp_all w pis n0 pp0 k" "grows n n0" by simp_all
  obtain row where row: "fold (mul_pp w k) [0..<w] ([], n0) = (row, n')" and pp: "pp = pp0 @ [row]"
    using Suc.prems st mul_pp_row_def [of w k "(pp0, n0)"] by (auto split: prod.splits)
  from mul_pp_fold [OF _ _ _ row, of pis] IH(2) Suc.prems(1) assms(1)
  have r: "pp_row w pis k n' row w" "grows n0 n'" by (auto simp: grows_pi_width)
  show ?case
    using pp_all_grows [OF IH(1) r(2)] r IH(2)
    by (auto simp: pp_all_def pp nth_append less_Suc_eq intro: grows_trans)
qed (simp add: pp_all_def)

text \<open>The nodes of an accumulator carry the bits of a number.\<close>

definition holds :: "nat \<Rightarrow> bool list \<Rightarrow> netlist \<Rightarrow> int list \<Rightarrow> nat \<Rightarrow> bool" where
  "holds k pis n acc V \<longleftrightarrow> length acc = k \<and> (\<forall>j < k. outputs n pis (acc ! j) (bit V j))"

lemma holds_grows: "holds k pis n acc V \<Longrightarrow> grows n n' \<Longrightarrow> holds k pis n' acc V"
  by (auto simp: holds_def intro: outputs_grows)

definition row_value :: "nat \<Rightarrow> bool list \<Rightarrow> nat \<Rightarrow> nat" where
  "row_value w pis i = (if pis ! (w + i) then push_bit i (nat_of_bits (take w pis)) else 0)"

lemma bit_row_value:
  "w \<le> length pis \<Longrightarrow>
   bit (row_value w pis i) k \<longleftrightarrow> i \<le> k \<and> k - i < w \<and> pis ! (k - i) \<and> pis ! (w + i)"
  by (auto simp: row_value_def bit_push_bit_iff bit_nat_of_bits)

text \<open>One ripple step is a full adder.\<close>

lemma mul_bit_step:
  assumes st: "mul_bit w pp c0 acc i k (sumv, cin, n) = (sumv', cin', n')"
    and acc: "holds (2 * w) pis n acc V" and pp: "pp_all w pis n pp w" and "i < w" and "k < 2 * w"
    and c0: "outputs n pis c0 False" and len: "w \<le> length pis"
    and sumv: "holds k pis n sumv (V + row_value w pis i)"
    and cin: "outputs n pis cin (carry (bit V) (bit (row_value w pis i)) k)"
  shows "holds (Suc k) pis n' sumv' (V + row_value w pis i) \<and>
    outputs n' pis cin' (carry (bit V) (bit (row_value w pis i)) (Suc k)) \<and> grows n n'"
proof -
  let ?Y = "row_value w pis i" and ?x = "acc ! k"
  let ?y = "if i \<le> k \<and> k - i < w then pp ! i ! (k - i) else c0"
  let ?c = "carry (bit V) (bit ?Y) k"
  obtain xyc n1 where s1: "synthGate GateXor ?x ?y n = (xyc, n1)" by fastforce
  obtain xy n2 where s2: "synthGate GateAnd ?x ?y n1 = (xy, n2)" by fastforce
  obtain s n3 where s3: "synthGate GateXor xyc cin n2 = (s, n3)" by fastforce
  obtain xc n4 where s4: "synthGate GateAnd xyc cin n3 = (xc, n4)" by fastforce
  obtain c n5 where s5: "synthGate GateOr xy xc n4 = (c, n5)" by fastforce
  have x: "carries n pis ?x (bit V k)" using acc \<open>k < 2 * w\<close> by (auto simp: holds_def outputs_def)
  have y: "carries n pis ?y (bit ?Y k)"
    using pp c0 \<open>i < w\<close> len
    by (auto simp: pp_all_def pp_row_def outputs_def bit_row_value) (metis)?
  from s1 x y obtain g1: "grows n n1" and o1: "outputs n1 pis xyc (bit V k \<noteq> bit ?Y k)"
    by (rule synthGate_step) simp
  from s2 carries_grows [OF x g1] carries_grows [OF y g1]
  obtain g2: "grows n1 n2" and o2: "outputs n2 pis xy (bit V k \<and> bit ?Y k)"
    by (rule synthGate_step) simp
  note g02 = grows_trans [OF g1 g2] and xyc2 = outputs_carries [OF outputs_grows [OF o1 g2]]
  note cin2 = outputs_carries [OF outputs_grows [OF cin g02]]
  from s3 xyc2 cin2 obtain g3: "grows n2 n3" and o3: "outputs n3 pis s ((bit V k \<noteq> bit ?Y k) \<noteq> ?c)"
    by (rule synthGate_step) simp
  from s4 carries_grows [OF xyc2 g3] carries_grows [OF cin2 g3]
  obtain g4: "grows n3 n4" and o4: "outputs n4 pis xc ((bit V k \<noteq> bit ?Y k) \<and> ?c)"
    by (rule synthGate_step) simp
  note g24 = grows_trans [OF g3 g4]
  from s5 outputs_carries [OF outputs_grows [OF o2 g24]] outputs_carries [OF o4]
  obtain g5: "grows n4 n5" and o5: "outputs n5 pis c (carry (bit V) (bit ?Y) (Suc k))"
    by (rule synthGate_step) simp
  note g35 = grows_trans [OF g4 g5] and g05 = grows_trans [OF grows_trans [OF g02 g24] g5]
  have eq: "sumv' = sumv @ [s]" "cin' = c" "n' = n5"
    using st by (simp_all add: mul_bit_def s1 s2 s3 s4 s5 Let_def)
  show ?thesis
    using holds_grows [OF sumv g05] outputs_grows [OF o3 g35] o5 g05
    by (auto simp: eq holds_def nth_append less_Suc_eq bit_add_carry simp del: carry.simps)
qed

lemma mul_row_step:
  assumes st: "mul_row w pp c0 i (acc, n) = (acc', n')"
    and acc: "holds (2 * w) pis n acc V" and pp: "pp_all w pis n pp w" and "i < w"
    and c0: "outputs n pis c0 False" and len: "w \<le> length pis"
  shows "holds (2 * w) pis n' acc' (V + row_value w pis i) \<and> grows n n'"
proof -
  let ?Y = "row_value w pis i"
  have "holds k pis n1 sumv (V + ?Y) \<and> outputs n1 pis cin (carry (bit V) (bit ?Y) k) \<and> grows n n1"
    if "k \<le> 2 * w" and "fold (mul_bit w pp c0 acc i) [0..<k] ([], c0, n) = (sumv, cin, n1)"
    for k sumv cin n1
    using that
  proof (induction k arbitrary: sumv cin n1)
    case 0
    then show ?case using c0 by (simp add: holds_def)
  next
    case (Suc k)
    obtain sumv0 cin0 n0 where f: "fold (mul_bit w pp c0 acc i) [0..<k] ([], c0, n) = (sumv0, cin0, n0)"
      by (cases "fold (mul_bit w pp c0 acc i) [0..<k] ([], c0, n)") auto
    with Suc have IH: "holds k pis n0 sumv0 (V + ?Y)"
      "outputs n0 pis cin0 (carry (bit V) (bit ?Y) k)" "grows n n0" by auto
    have st0: "mul_bit w pp c0 acc i k (sumv0, cin0, n0) = (sumv, cin, n1)" using Suc.prems f by simp
    have "holds (Suc k) pis n1 sumv (V + ?Y) \<and> outputs n1 pis cin (carry (bit V) (bit ?Y) (Suc k)) \<and>
        grows n0 n1"
      using Suc.prems(1) IH \<open>i < w\<close> len
      by (intro mul_bit_step [OF st0 holds_grows [OF acc] pp_all_grows [OF pp]])
         (auto intro: outputs_grows [OF c0])
    with IH(3) show ?case by (blast intro: grows_trans)
  qed
  moreover obtain sumv cin n1
    where f: "fold (mul_bit w pp c0 acc i) [0..<2 * w] ([], c0, n) = (sumv, cin, n1)"
    by (cases "fold (mul_bit w pp c0 acc i) [0..<2 * w] ([], c0, n)") auto
  moreover have "acc' = sumv" "n' = n1" using st f by (simp_all add: mul_row_def)
  ultimately show ?thesis by blast
qed

lemma mul_rows:
  assumes acc: "holds (2 * w) pis n acc (\<Sum>i < 1. row_value w pis i)" and pp: "pp_all w pis n pp w"
    and c0: "outputs n pis c0 False" and len: "w \<le> length pis" and "1 \<le> k" and "k \<le> w"
    and "fold (mul_row w pp c0) [1..<k] (acc, n) = (acc', n')"
  shows "holds (2 * w) pis n' acc' (\<Sum>i < k. row_value w pis i) \<and> grows n n'"
  using assms(5-)
proof (induction k arbitrary: acc' n' rule: dec_induct)
  case base
  with acc show ?case by simp
next
  case (step k)
  obtain acc0 n0 where f: "fold (mul_row w pp c0) [1..<k] (acc, n) = (acc0, n0)"
    by (cases "fold (mul_row w pp c0) [1..<k] (acc, n)")
  with step have IH: "holds (2 * w) pis n0 acc0 (\<Sum>i < k. row_value w pis i)" "grows n n0" by auto
  have "mul_row w pp c0 k (acc0, n0) = (acc', n')" using step f by simp
  from mul_row_step [OF this IH(1) pp_all_grows [OF pp IH(2)] _ outputs_grows [OF c0 IH(2)] len]
  have "holds (2 * w) pis n' acc' ((\<Sum>i < k. row_value w pis i) + row_value w pis k) \<and> grows n0 n'"
    using step.prems(1) by simp
  with IH(2) show ?case by (auto intro: grows_trans)
qed

lemma sum_row_value:
  assumes "length pis = 2 * w" and "k \<le> w"
  shows "(\<Sum>i < k. row_value w pis i) = nat_of_bits (take w pis) * nat_of_bits (take k (drop w pis))"
  using assms(2)
proof (induction k)
  case (Suc k)
  have t: "take (Suc k) (drop w pis) = take k (drop w pis) @ [pis ! (w + k)]"
    using Suc.prems assms(1) by (simp add: take_Suc_conv_app_nth)
  have "row_value w pis k = nat_of_bits (take w pis) * (of_bool (pis ! (w + k)) * 2 ^ k)"
    by (simp add: row_value_def push_bit_eq_mult)
  with Suc t assms(1) show ?case
    by (simp add: nat_of_bits_snoc min_def algebra_simps)
qed simp

lemma synthesizeMultiplier_holds:
  assumes "0 < w" and "length pis = 2 * w"
  shows "holds (2 * w) pis (synthesizeMultiplier w) (po_gates (synthesizeMultiplier w))
      (nat_of_bits (take w pis) * nat_of_bits (drop w pis))"
    and "wf_net (synthesizeMultiplier w)" and "pi_width (synthesizeMultiplier w) = 2 * w"
proof -
  let ?n0 = "\<lparr>gates = [], po_gates = [], pi_width = 2 * w\<rparr>"
  obtain pp n1 where f1: "fold (mul_pp_row w) [0..<w] ([], ?n0) = (pp, n1)"
    by (cases "fold (mul_pp_row w) [0..<w] ([], ?n0)")
  obtain na n2 where s2: "synthGate GateNot (pi_ref 0) (pi_ref 0) n1 = (na, n2)" by fastforce
  obtain c0 n3 where s3: "synthGate GateAnd (pi_ref 0) na n2 = (c0, n3)" by fastforce
  let ?acc0 = "map (\<lambda>j. if j < w then pp ! 0 ! j else c0) [0..<2 * w]"
  obtain acc n4 where f4: "fold (mul_row w pp c0) [1..<w] (?acc0, n3) = (acc, n4)"
    by (cases "fold (mul_row w pp c0) [1..<w] (?acc0, n3)")
  have eq: "synthesizeMultiplier w = n4\<lparr>po_gates := po_gates n4 @ acc\<rparr>"
    unfolding synthesizeMultiplier_def Let_def f1 prod.case s2 s3 f4 ..
  have pp: "pp_all w pis n1 pp w" and g1: "grows ?n0 n1"
    using mul_pp_rows [OF _ _ f1, of pis] by auto
  have a: "carries n1 pis (pi_ref 0) (pis ! 0)"
    using assms(1) grows_pi_width [OF g1] by (intro carries_pi_ref) simp
  from s2 a a obtain g2: "grows n1 n2" and o2: "outputs n2 pis na (\<not> pis ! 0)"
    by (rule synthGate_step) simp
  from s3 carries_grows [OF a g2] outputs_carries [OF o2]
  obtain g3: "grows n2 n3" and c0: "outputs n3 pis c0 False" by (rule synthGate_step) simp
  note g13 = grows_trans [OF g2 g3]
  note pp3 = pp_all_grows [OF pp g13]
  have "holds (2 * w) pis n3 ?acc0 (\<Sum>i < 1. row_value w pis i)"
    using pp3 c0 assms by (auto simp: holds_def pp_all_def pp_row_def bit_row_value)
  from mul_rows [OF this pp3 c0 _ _ _ f4] assms
  have h: "holds (2 * w) pis n4 acc (\<Sum>i < w. row_value w pis i)" and g4: "grows n3 n4" by auto
  note g04 = grows_trans [OF g1 grows_trans [OF g13 g4]]
  have wf: "wf_net n4" and po: "po_gates n4 = []" and w: "pi_width n4 = 2 * w"
    using g04 by (auto simp: grows_def wf_net_def extends_def)
  show "pi_width (synthesizeMultiplier w) = 2 * w" using w by (simp add: eq)
  have "holds (2 * w) pis (synthesizeMultiplier w) acc (\<Sum>i < w. row_value w pis i)"
    using h by (auto simp: holds_def eq outputs_def carries_def node_ok_def node_val_def)
  then show "holds (2 * w) pis (synthesizeMultiplier w) (po_gates (synthesizeMultiplier w))
      (nat_of_bits (take w pis) * nat_of_bits (drop w pis))"
    using po assms by (simp add: eq sum_row_value)
  show "wf_net (synthesizeMultiplier w)"
    using wf h by (auto simp: eq wf_net_def holds_def outputs_def carries_def node_ok_def in_set_conv_nth)
qed

text \<open>C2: for every width the synthesised array netlist is a multiplier: its \<open>2 * width\<close> primary
  outputs, read as a binary number, are the full product of the two operands.\<close>

theorem multiplier_computes_product:
  assumes "0 < w" and "length pis = 2 * w"
  shows "nat_of_bits (evalNet (synthesizeMultiplier w) pis (- 1) 0) =
    nat_of_bits (take w pis) * nat_of_bits (drop w pis)"
proof -
  let ?A = "nat_of_bits (take w pis)" and ?B = "nat_of_bits (drop w pis)"
  let ?n = "synthesizeMultiplier w"
  have "length (po_gates ?n) = 2 * w"
    and "\<And>i. i < 2 * w \<Longrightarrow> evalNet ?n pis (- 1) 0 ! i = bit (?A * ?B) i"
    using synthesizeMultiplier_holds(1) [OF assms] evalNet_outputs by (auto simp: holds_def)
  then have "evalNet ?n pis (- 1) 0 = map (bit (?A * ?B)) [0..<2 * w]"
    by (intro nth_equalityI) auto
  then have eq: "nat_of_bits (evalNet ?n pis (- 1) 0) = ?A * ?B mod 2 ^ (2 * w)"
    by (simp add: nat_of_bits_map_bit)
  have "?A < 2 ^ w" "?B < 2 ^ w"
    using nat_of_bits_less [of "take w pis"] nat_of_bits_less [of "drop w pis"] assms(2) by auto
  then have "?A * ?B < 2 ^ w * 2 ^ w" by (intro mult_strict_mono) auto
  then show ?thesis using eq by (simp add: power_add [symmetric] mult_2)
qed

theorem multiplier_computes_product_witness:
  "nat_of_bits (evalNet (synthesizeMultiplier 2) [True, True, False, True] (- 1) 0) = 3 * 2"
proof -
  have "nat_of_bits (evalNet (synthesizeMultiplier 2) [True, True, False, True] (- 1) 0) =
      nat_of_bits (take 2 [True, True, False, True]) * nat_of_bits (drop 2 [True, True, False, True])"
    by (rule multiplier_computes_product) simp_all
  then show ?thesis by (simp add: nat_of_bits_def)
qed

subsection \<open>Stuck-at semantics\<close>

lemma eval_gates_no_stuck:
  assumes "s < int (length val) \<or> int (length val + length gs) \<le> s"
  shows "eval_gates pis s sv val gs = eval_gates pis (- 1) 0 val gs"
  using assms
proof (induction gs arbitrary: val)
  case (Cons g gs)
  then have "s < int (length (val @ [v])) \<or> int (length (val @ [v]) + length gs) \<le> s" for v by auto
  from Cons.IH [OF this] have "eval_gates pis s sv (val @ [v]) gs = eval_gates pis (- 1) 0 (val @ [v]) gs" for v .
  moreover have "int (length val) \<noteq> s" using Cons.prems by auto
  ultimately show ?case by (simp add: Let_def)
qed simp

lemma eval_gates_split_stuck:
  assumes "s < length gs"
  shows "eval_gates pis (int s) sv [] gs =
    eval_gates pis (- 1) 0 (eval_gates pis (- 1) 0 [] (take s gs) @ [sv \<noteq> 0]) (drop (Suc s) gs)"
proof -
  let ?v = "eval_gates pis (- 1) 0 [] (take s gs)"
  have len: "length ?v = s" using assms by simp
  have "eval_gates pis (int s) sv [] gs =
      eval_gates pis (int s) sv (eval_gates pis (int s) sv [] (take s gs)) (gs ! s # drop (Suc s) gs)"
    by (metis Cons_nth_drop_Suc append_take_drop_id assms eval_gates_append)
  also have "eval_gates pis (int s) sv [] (take s gs) = ?v"
    using assms by (intro eval_gates_no_stuck) simp
  also have "eval_gates pis (int s) sv ?v (gs ! s # drop (Suc s) gs) =
      eval_gates pis (int s) sv (?v @ [sv \<noteq> 0]) (drop (Suc s) gs)"
    using len by (simp add: Let_def)
  also have "\<dots> = eval_gates pis (- 1) 0 (?v @ [sv \<noteq> 0]) (drop (Suc s) gs)"
    using len by (intro eval_gates_no_stuck) simp
  finally show ?thesis .
qed

lemma eval_gates_split_clean:
  assumes "s < length gs"
  shows "eval_gates pis (- 1) 0 [] gs =
    eval_gates pis (- 1) 0 (eval_gates pis (- 1) 0 [] (take s gs)
      @ [eval_gates pis (- 1) 0 [] gs ! s]) (drop (Suc s) gs)"
proof -
  let ?v = "eval_gates pis (- 1) 0 [] (take s gs)" and ?x = "gate_value pis"
  have len: "length ?v = s" using assms by simp
  have eq: "eval_gates pis (- 1) 0 [] gs =
      eval_gates pis (- 1) 0 (?v @ [gate_value pis ?v (gs ! s)]) (drop (Suc s) gs)"
    using assms by (subst id_take_nth_drop [OF assms]) (simp add: eval_gates_append Let_def)
  have "eval_gates pis (- 1) 0 [] gs ! s = gate_value pis ?v (gs ! s)"
    unfolding eq using len by (subst eval_gates_prefix) (simp_all add: nth_append)
  with eq show ?thesis by simp
qed

text \<open>A fault that is not activated cannot be seen.\<close>

lemma eval_gates_inactive:
  assumes "s < length gs" and "eval_gates pis (- 1) 0 [] gs ! s = (sv \<noteq> 0)"
  shows "eval_gates pis (int s) sv [] gs = eval_gates pis (- 1) 0 [] gs"
  using eval_gates_split_stuck [OF assms(1), of pis sv] eval_gates_split_clean [OF assms(1), of pis]
    assms(2) by simp

text \<open>The fan-out cone of a gate.\<close>

inductive in_cone :: "gate list \<Rightarrow> nat \<Rightarrow> nat \<Rightarrow> bool" for gs s where
  cone_self: "in_cone gs s s"
| cone_in0: "in_cone gs s j \<Longrightarrow> k < length gs \<Longrightarrow> in0 (gs ! k) = int j \<Longrightarrow> in_cone gs s k"
| cone_in1: "in_cone gs s j \<Longrightarrow> k < length gs \<Longrightarrow> in1 (gs ! k) = int j \<Longrightarrow>
    gtype (gs ! k) \<noteq> GateNot \<Longrightarrow> in_cone gs s k"

lemma eval_gates_nth:
  assumes "k < length gs" and "int k \<noteq> s"
  shows "eval_gates pis s sv [] gs ! k =
    gate_value pis (take k (eval_gates pis s sv [] gs)) (gs ! k)"
proof -
  let ?v = "eval_gates pis s sv [] (take k gs)"
  have len: "length ?v = k" using assms by simp
  have eq: "eval_gates pis s sv [] gs =
      eval_gates pis s sv (?v @ [gate_value pis ?v (gs ! k)]) (drop (Suc k) gs)"
    using assms by (subst id_take_nth_drop [OF assms(1)]) (simp add: eval_gates_append Let_def)
  have "take k (eval_gates pis s sv [] gs) = ?v"
    by (rule nth_equalityI) (use assms len in \<open>simp_all add: eq eval_gates_prefix nth_append\<close>)
  moreover have "eval_gates pis s sv [] gs ! k = gate_value pis ?v (gs ! k)"
    unfolding eq using len by (subst eval_gates_prefix) (simp_all add: nth_append)
  ultimately show ?thesis by simp
qed

lemma eval_gates_outside_cone:
  assumes wf: "\<forall>k < length gs. gate_ok w k (gs ! k)" and "k < length gs" and "\<not> in_cone gs s k"
  shows "eval_gates pis (int s) sv [] gs ! k = eval_gates pis (- 1) 0 [] gs ! k"
  using assms(2,3)
proof (induction k rule: less_induct)
  case (less k)
  let ?S = "eval_gates pis (int s) sv [] gs" and ?C = "eval_gates pis (- 1) 0 [] gs"
  from less.prems have "int k \<noteq> int s" by (auto intro: cone_self)
  have read: "read_node pis (take k ?S) i = read_node pis (take k ?C) i"
    if "i < int k" and "\<And>j. i = int j \<Longrightarrow> \<not> in_cone gs s j" for i
  proof (cases "i < 0")
    case False
    then obtain j where j: "i = int j" by (metis nonneg_int_cases not_less)
    with that have "j < k" "\<not> in_cone gs s j" by auto
    with less.IH [of j] less.prems have "?S ! j = ?C ! j" by simp
    with j \<open>j < k\<close> show ?thesis by (simp add: read_node_def)
  qed (simp add: read_node_def)
  from wf less.prems(1) have ok: "gate_ok w k (gs ! k)" by simp
  have "gate_value pis (take k ?S) (gs ! k) = gate_value pis (take k ?C) (gs ! k)"
  proof (cases "gtype (gs ! k) = GateNot")
    case True
    with ok less.prems show ?thesis
      using read [of "in0 (gs ! k)"] by (auto simp: gate_value_def gate_ok_def intro: cone_in0)
  next
    case False
    with ok less.prems have "read_node pis (take k ?S) (in0 (gs ! k)) = read_node pis (take k ?C) (in0 (gs ! k))"
      "read_node pis (take k ?S) (in1 (gs ! k)) = read_node pis (take k ?C) (in1 (gs ! k))"
      by (auto simp: gate_ok_def intro!: read intro: cone_in0 cone_in1)
    then show ?thesis by (simp add: gate_value_op)
  qed
  then show ?case
    using less.prems(1) \<open>int k \<noteq> int s\<close> by (simp add: eval_gates_nth)
qed

text \<open>C4: what a structural stuck-at can do, for any well-formed netlist.  An out-of-range gate
  index is no fault at all; a gate already carrying the stuck value leaves every output as it was;
  and in every case an output whose gate is outside the fan-out cone of the stuck gate is
  unchanged.\<close>

theorem stuck_at_visibility:
  assumes "wf_net n"
  shows "(s < 0 \<or> int (length (gates n)) \<le> s \<longrightarrow> evalNet n pis s sv = evalNet n pis (- 1) 0)
    \<and> (0 \<le> s \<and> s < int (length (gates n)) \<and> eval_gates pis (- 1) 0 [] (gates n) ! nat s = (sv \<noteq> 0)
        \<longrightarrow> evalNet n pis s sv = evalNet n pis (- 1) 0)
    \<and> (0 \<le> s \<and> i < length (po_gates n) \<and> \<not> in_cone (gates n) (nat s) (nat (po_gates n ! i))
        \<longrightarrow> evalNet n pis s sv ! i = evalNet n pis (- 1) 0 ! i)"
proof (intro conjI impI; (elim conjE)?)
  assume "s < 0 \<or> int (length (gates n)) \<le> s"
  then show "evalNet n pis s sv = evalNet n pis (- 1) 0"
    using eval_gates_no_stuck [of s "[]" "gates n" pis sv] by (simp add: evalNet_def)
next
  assume "0 \<le> s" "s < int (length (gates n))" "eval_gates pis (- 1) 0 [] (gates n) ! nat s = (sv \<noteq> 0)"
  then show "evalNet n pis s sv = evalNet n pis (- 1) 0"
    using eval_gates_inactive [of "nat s" "gates n" pis sv] by (simp add: evalNet_def nat_less_iff)
next
  assume s: "0 \<le> s" and i: "i < length (po_gates n)"
    and c: "\<not> in_cone (gates n) (nat s) (nat (po_gates n ! i))"
  show "evalNet n pis s sv ! i = evalNet n pis (- 1) 0 ! i"
  proof (cases "0 \<le> po_gates n ! i")
    case True
    have "node_ok n (po_gates n ! i)" using assms i by (auto simp: wf_net_def)
    with True have "nat (po_gates n ! i) < length (gates n)" by (auto simp: node_ok_def)
    moreover have "\<forall>k<length (gates n). gate_ok (pi_width n) k (gates n ! k)"
      using assms by (simp add: wf_net_def)
    ultimately show ?thesis
      using eval_gates_outside_cone [OF _ _ c, of "pi_width n" pis sv] s i
      by (simp add: evalNet_def Let_def)
  qed (use i in \<open>simp add: evalNet_def Let_def\<close>)
qed

subsection \<open>The oracle\<close>

record gate_fu =
  net :: netlist
  gfu_target_opclass :: int
  stuck_gate :: int
  stuck_val :: int
  gfu_first_clock :: cycles
  eval_count :: nat
  diff_count :: nat
  numEvals :: nat
  numDiffs :: nat
  numGates :: nat

record gate_fu_params =
  p_cpu_is_o3 :: bool
  p_targetOpClass :: string
  p_targetGate :: int
  p_stuckPolarity :: int
  p_firstClock :: cycles

definition CHAOSGateFU :: "string list \<Rightarrow> gate_fu_params \<Rightarrow> ctor_error + gate_fu" where
  "CHAOSGateFU opclass_strings p =
     (let n = p_targetOpClass p; op = opclass_index opclass_strings n 0
      in if \<not> p_cpu_is_o3 p then Inl NotO3CPU
         else if op < 0 then Inl (UnknownOpClass n)
         else
           let mk = (\<lambda>nl. \<lparr>net = nl, gfu_target_opclass = op, stuck_gate = p_targetGate p,
             stuck_val = p_stuckPolarity p, gfu_first_clock = p_firstClock p, eval_count = 0,
             diff_count = 0, numEvals = 0, numDiffs = 0, numGates = length (gates nl)\<rparr>)
           in if n = ''IntAlu'' then Inr (mk (synthesizeAdder 64))
              else if n = ''IntMult'' then Inr (mk (synthesizeMultiplier 64))
              else Inl (NoNetlist n))"

text \<open>The first two integer source operands: \<open>got\<close> of them have been found.\<close>

fun source_operands :: "(reg_id \<Rightarrow> u64) \<Rightarrow> reg_id list \<Rightarrow> nat \<Rightarrow> u64 \<Rightarrow> u64 \<Rightarrow> nat \<times> u64 \<times> u64" where
  "source_operands getReg [] got a b = (got, a, b)"
| "source_operands getReg (r # rs) got a b =
     (if got < 2 then
        if classValue r = IntRegClass then
          if got = 0 then source_operands getReg rs (got + 1) (getReg r) b
          else source_operands getReg rs (got + 1) a (getReg r)
        else source_operands getReg rs got a b
      else (got, a, b))"

definition operand_pis :: "nat \<Rightarrow> u64 \<Rightarrow> u64 \<Rightarrow> bool list" where
  "operand_pis w a b =
     fold (\<lambda>i pis. let pis = pis[i := bit a i]
                    in if 64 + i < w then pis[64 + i := bit b i] else pis)
       [0..<64] (replicate w False)"

definition low_word :: "bool list \<Rightarrow> u64" where
  "low_word po = fold (\<lambda>i r. if po ! i then r OR push_bit i 1 else r) [0..<min (length po) 64] 0"

text \<open>\<open>Some delta\<close> is the return value true with \<open>result = delta\<close>, \<open>None\<close> the return value false.\<close>

definition evaluate :: "cycles \<Rightarrow> (reg_id \<Rightarrow> u64) \<Rightarrow> reg_id list \<Rightarrow> int \<Rightarrow> gate_fu
    \<Rightarrow> u64 option \<times> gate_fu" where
  "evaluate curCycle getReg srcs op_class g =
     (if stuck_gate g < 0 then (None, g)
      else if op_class \<noteq> gfu_target_opclass g then (None, g)
      else if curCycle < gfu_first_clock g then (None, g)
      else if length srcs < 2 then (None, g)
      else case source_operands getReg srcs 0 0 0 of (got, a, b) \<Rightarrow>
        if got < 2 then (None, g)
        else
          let g1 = g\<lparr>eval_count := eval_count g + 1, numEvals := numEvals g + 1\<rparr>;
              pis = operand_pis (pi_width (net g)) a b;
              r_clean = low_word (evalNet (net g) pis (- 1) 0);
              r_stuck = low_word (evalNet (net g) pis (stuck_gate g) (stuck_val g))
          in if r_stuck \<noteq> r_clean
             then (Some (r_clean XOR r_stuck),
               g1\<lparr>diff_count := diff_count g1 + 1, numDiffs := numDiffs g1 + 1\<rparr>)
             else (None, g1))"

definition gatefu_evaluate :: "cycles \<Rightarrow> (reg_id \<Rightarrow> u64) \<Rightarrow> reg_id list \<Rightarrow> int
    \<Rightarrow> gate_fu static_inst \<Rightarrow> u64 option \<times> gate_fu static_inst" where
  "gatefu_evaluate curCycle getReg srcs op_class st =
     (case the_instance st of None \<Rightarrow> (None, st)
      | Some g \<Rightarrow> (case evaluate curCycle getReg srcs op_class g of
          (r, g') \<Rightarrow> (r, update_instance g' st)))"

text \<open>The oracle fires on an instruction when every guard lets it through.\<close>

definition evaluates :: "cycles \<Rightarrow> reg_id list \<Rightarrow> int \<Rightarrow> gate_fu \<Rightarrow> bool" where
  "evaluates curCycle srcs op_class g \<longleftrightarrow>
     0 \<le> stuck_gate g \<and> op_class = gfu_target_opclass g \<and> gfu_first_clock g \<le> curCycle
     \<and> 2 \<le> length (filter (\<lambda>r. classValue r = IntRegClass) srcs)"

lemma source_operands_1:
  "source_operands getReg rs (Suc 0) a b =
    (case filter (\<lambda>r. classValue r = IntRegClass) rs of [] \<Rightarrow> (1, a, b) | r # _ \<Rightarrow> (2, a, getReg r))"
proof (induction rs)
  case (Cons r rs)
  have "source_operands getReg rs 2 a c = (2, a, c)" for c by (cases rs) auto
  with Cons show ?case by (auto simp: numeral_2_eq_2)
qed simp

lemma source_operands_0:
  "source_operands getReg rs 0 a b =
    (case filter (\<lambda>r. classValue r = IntRegClass) rs of
       [] \<Rightarrow> (0, a, b) | [r] \<Rightarrow> (1, getReg r, b) | r # r' # _ \<Rightarrow> (2, getReg r, getReg r'))"
  by (induction rs) (auto simp: source_operands_1 split: list.splits)

lemma operand_pis_bits:
  "k \<le> 64 \<Longrightarrow> 128 \<le> w \<Longrightarrow>
    fold (\<lambda>i pis. let pis = pis[i := bit a i] in if 64 + i < w then pis[64 + i := bit b i] else pis)
       [0..<k] (replicate w False) =
    map (\<lambda>i. i < k \<and> bit (a::u64) i \<or> 64 \<le> i \<and> i < 64 + k \<and> bit (b::u64) (i - 64)) [0..<w]"
proof (induction k)
  case (Suc k)
  then show ?case
    by (intro nth_equalityI) (auto simp: Let_def nth_list_update less_Suc_eq)
qed (intro nth_equalityI, auto)

lemma operand_pis_eq: "operand_pis 128 a b = map (bit a) [0..<64] @ map (bit b) [0..<64]"
proof -
  have "operand_pis 128 a b =
      map (\<lambda>i. i < 64 \<and> bit a i \<or> 64 \<le> i \<and> i < 64 + 64 \<and> bit b (i - 64)) [0..<128]"
    unfolding operand_pis_def by (rule operand_pis_bits) simp_all
  then show ?thesis
    by (intro nth_equalityI) (auto simp: nth_append)
qed

lemma bit_low_word_fold:
  "k \<le> 64 \<Longrightarrow> bit (fold (\<lambda>i r. if po ! i then r OR push_bit i (1::u64) else r) [0..<k] 0) n
    \<longleftrightarrow> n < k \<and> po ! n"
proof (induction k)
  case (Suc k)
  then show ?case by (auto simp: bit_simps less_Suc_eq bit_1_iff)
qed simp

lemma bit_low_word: "bit (low_word po) n \<longleftrightarrow> n < min (length po) 64 \<and> po ! n"
  unfolding low_word_def by (rule bit_low_word_fold) simp

text \<open>What the oracle relies on of a synthesised unit: a well-formed netlist over two 64-bit
  operands whose low 64 outputs, fault-free, are an arithmetic operation.\<close>

locale fu_netlist =
  fixes n :: netlist and f :: "u64 \<Rightarrow> u64 \<Rightarrow> u64"
  assumes net_wf: "wf_net n"
    and net_width: "pi_width n = 128"
    and net_outputs: "64 \<le> length (po_gates n)"
    and net_clean: "i < 64 \<Longrightarrow> evalNet n (operand_pis 128 a b) (- 1) 0 ! i = bit (f a b) i"
begin

lemma clean_word: "low_word (evalNet n (operand_pis 128 a b) (- 1) 0) = f a b"
  using net_outputs by (auto simp: bit_eq_iff bit_low_word net_clean dest: bit_imp_le_length)

text \<open>XORing the returned signature into the correct result gives the result of the faulted
  netlist, on every operand pair.\<close>

lemma delta_gives_faulted_result:
  assumes "net g = n" and "evaluates curCycle srcs op g"
    and "source_operands getReg srcs 0 0 0 = (2, a, b)"
  shows "(case fst (evaluate curCycle getReg srcs op g) of None \<Rightarrow> f a b | Some d \<Rightarrow> f a b XOR d) =
    low_word (evalNet n (operand_pis 128 a b) (stuck_gate g) (stuck_val g))"
proof -
  have "2 \<le> length srcs"
    using assms(2) length_filter_le [of "\<lambda>r. classValue r = IntRegClass" srcs]
    unfolding evaluates_def by linarith
  then show ?thesis
    using assms by (simp add: evaluate_def evaluates_def clean_word net_width Let_def
        xor.assoc [symmetric])
qed

lemma unactivated_fault_silent:
  assumes "net g = n"
    and "eval_gates (operand_pis 128 a b) (- 1) 0 [] (gates n) ! nat (stuck_gate g) = (stuck_val g \<noteq> 0)"
    and "stuck_gate g < int (length (gates n))"
    and "source_operands getReg srcs 0 0 0 = (2, a, b)"
  shows "fst (evaluate curCycle getReg srcs op g) = None"
proof (cases "0 \<le> stuck_gate g")
  case True
  have "evalNet n (operand_pis 128 a b) (stuck_gate g) (stuck_val g)
      = evalNet n (operand_pis 128 a b) (- 1) 0"
    using eval_gates_inactive [of "nat (stuck_gate g)" "gates n"] assms(2,3) True
    by (simp add: evalNet_def nat_less_iff)
  then show ?thesis using assms by (simp add: evaluate_def net_width Let_def)
qed (simp add: evaluate_def)

end

lemma nat_of_bits_word: "nat_of_bits (map (bit (a::u64)) [0..<64]) = unat a"
proof -
  have "nat_of_bits (map (bit a) [0..<64]) = nat_of_bits (map (bit (unat a)) [0..<64])"
    by (auto simp: bit_unsigned_iff intro!: arg_cong [of _ _ nat_of_bits])
  also have "\<dots> = unat a"
  proof -
    have "unat a < 2 ^ LENGTH(64)" by (rule unsigned_less)
    then show ?thesis by (simp add: nat_of_bits_map_bit)
  qed
  finally show ?thesis .
qed

lemma bit_word_of_nat64: "i < 64 \<Longrightarrow> bit (of_nat k :: u64) i = bit k i"
  by (simp add: bit_of_nat_iff)

lemma take_operand_pis [simp]: "take 64 (operand_pis 128 a b) = map (bit a) [0..<64]"
  and drop_operand_pis [simp]: "drop 64 (operand_pis 128 a b) = map (bit b) [0..<64]"
  and length_operand_pis [simp]: "length (operand_pis 128 a b) = 128"
  by (simp_all add: operand_pis_eq)

interpretation adder: fu_netlist "synthesizeAdder 64" "(+)"
proof unfold_locales
  show "pi_width (synthesizeAdder 64) = 128" "wf_net (synthesizeAdder 64)"
    "64 \<le> length (po_gates (synthesizeAdder 64))"
    using synthesizeAdder_outputs [of 64] by simp_all
  fix i a b assume i: "i < (64::nat)"
  have "evalNet (synthesizeAdder 64) (operand_pis 128 a b) (- 1) 0 ! i = bit (unat a + unat b) i"
    using adder_bits [of 64 "operand_pis 128 a b"] i by (simp add: nat_of_bits_word nth_append)
  also have "\<dots> = bit (a + b) i"
    using bit_word_of_nat64 [OF i, of "unat a + unat b"] by simp
  finally show "evalNet (synthesizeAdder 64) (operand_pis 128 a b) (- 1) 0 ! i = bit (a + b) i" .
qed

interpretation multiplier: fu_netlist "synthesizeMultiplier 64" "(*)"
proof unfold_locales
  note h = synthesizeMultiplier_holds [of 64 "operand_pis 128 0 0", simplified]
  show "pi_width (synthesizeMultiplier 64) = 128" "wf_net (synthesizeMultiplier 64)"
    "64 \<le> length (po_gates (synthesizeMultiplier 64))"
    using h by (simp_all add: holds_def)
  fix i a b assume i: "i < (64::nat)"
  have "evalNet (synthesizeMultiplier 64) (operand_pis 128 a b) (- 1) 0 ! i = bit (unat a * unat b) i"
    using synthesizeMultiplier_holds(1) [of 64 "operand_pis 128 a b"] i
    by (intro evalNet_outputs) (auto simp: holds_def nat_of_bits_word)
  also have "\<dots> = bit (a * b) i"
    using bit_word_of_nat64 [OF i, of "unat a * unat b"] by simp
  finally show "evalNet (synthesizeMultiplier 64) (operand_pis 128 a b) (- 1) 0 ! i = bit (a * b) i" .
qed

text \<open>C5: the writeback oracle is sound for the units the constructor builds.  When the guards let an
  instruction through, XORing what the oracle returns into the correct result (\<open>a + b\<close> for
  \<open>IntAlu\<close>, \<open>a * b\<close> for \<open>IntMult\<close>, both at 64 bits) yields exactly the low word of the netlist
  with the stuck gate, and a false return means the faulted netlist agrees with the correct
  result.\<close>

theorem oracle_applies_structural_fault:
  assumes "CHAOSGateFU names p = Inr g0" and "net g = net g0"
    and "evaluates curCycle srcs op g"
    and "source_operands getReg srcs 0 0 0 = (2, a, b)"
  shows "(let v = (if p_targetOpClass p = ''IntAlu'' then a + b else a * b) in
      (case fst (evaluate curCycle getReg srcs op g) of None \<Rightarrow> v | Some d \<Rightarrow> v XOR d) =
      low_word (evalNet (net g0) (operand_pis 128 a b) (stuck_gate g) (stuck_val g)))"
proof (cases "p_targetOpClass p = ''IntAlu''")
  case True
  then have "net g = synthesizeAdder 64" "net g0 = synthesizeAdder 64"
    using assms(1,2) by (auto simp: CHAOSGateFU_def Let_def split: if_splits)
  then show ?thesis
    using True adder.delta_gives_faulted_result [OF _ assms(3,4)] by simp
next
  case False
  then have "net g = synthesizeMultiplier 64" "net g0 = synthesizeMultiplier 64"
    using assms(1,2) by (auto simp: CHAOSGateFU_def Let_def split: if_splits)
  then show ?thesis
    using False multiplier.delta_gives_faulted_result [OF _ assms(3,4)] by simp
qed

definition demo_params :: gate_fu_params where
  "demo_params = \<lparr>p_cpu_is_o3 = True, p_targetOpClass = ''IntAlu'', p_targetGate = 0,
     p_stuckPolarity = 1, p_firstClock = 0\<rparr>"

definition demo_unit :: gate_fu where
  "demo_unit = \<lparr>net = synthesizeAdder 64, gfu_target_opclass = 1, stuck_gate = 0, stuck_val = 1,
     gfu_first_clock = 0, eval_count = 0, diff_count = 0, numEvals = 0, numDiffs = 0,
     numGates = length (gates (synthesizeAdder 64))\<rparr>"

theorem oracle_applies_structural_fault_witness:
  "(let r = \<lparr>classValue = IntRegClass, regIdx = 0\<rparr> in
    (case fst (evaluate 5 (\<lambda>_. 2) [r, r] 1 demo_unit) of None \<Rightarrow> 4 | Some d \<Rightarrow> 4 XOR d) =
    low_word (evalNet (synthesizeAdder 64) (operand_pis 128 2 2) 0 1))"
proof -
  let ?r = "\<lparr>classValue = IntRegClass, regIdx = 0\<rparr>"
  have c: "CHAOSGateFU [''No_OpClass'', ''IntAlu''] demo_params = Inr demo_unit"
    by (simp add: CHAOSGateFU_def demo_params_def demo_unit_def)
  have e: "evaluates 5 [?r, ?r] 1 demo_unit"
    by (simp add: evaluates_def demo_unit_def)
  have s: "source_operands (\<lambda>_. 2) [?r, ?r] 0 0 0 = (2, 2, 2)"
    by simp
  show ?thesis
    using oracle_applies_structural_fault [OF c refl e s]
    by (simp add: demo_params_def demo_unit_def Let_def)
qed

definition demo_net :: netlist where
  "demo_net = \<lparr>gates = [\<lparr>gtype = GateAnd, in0 = - 1, in1 = - 2\<rparr>, \<lparr>gtype = GateOr, in0 = - 1, in1 = - 2\<rparr>],
     po_gates = [0, 1], pi_width = 2\<rparr>"

theorem stuck_at_visibility_witness:
  "wf_net demo_net
   \<and> evalNet demo_net [True, True] 7 0 = evalNet demo_net [True, True] (- 1) 0
   \<and> evalNet demo_net [True, True] 0 1 = evalNet demo_net [True, True] (- 1) 0
   \<and> evalNet demo_net [True, True] 0 0 ! 1 = evalNet demo_net [True, True] (- 1) 0 ! 1"
proof -
  have wf: "wf_net demo_net"
    by (auto simp: wf_net_def demo_net_def gate_ok_def node_ok_def less_Suc_eq)
  have c: "\<not> in_cone (gates demo_net) 0 1"
    by (auto simp: demo_net_def elim: in_cone.cases)
  have "evalNet demo_net [True, True] 7 0 = evalNet demo_net [True, True] (- 1) 0"
    using stuck_at_visibility [OF wf, of 7 "[True, True]" 0] by (simp add: demo_net_def)
  moreover have "evalNet demo_net [True, True] 0 1 = evalNet demo_net [True, True] (- 1) 0"
    using stuck_at_visibility [OF wf, of 0 "[True, True]" 1]
    by (simp add: demo_net_def gate_value_def read_node_def)
  moreover have "evalNet demo_net [True, True] 0 0 ! 1 = evalNet demo_net [True, True] (- 1) 0 ! 1"
    using stuck_at_visibility [OF wf, of 0 "[True, True]" 0 1] c
    by (simp add: demo_net_def)
  ultimately show ?thesis using wf by simp
qed

end
