(* ===== verification/Fu_Perm.thy ===== *)
theory Fu_Perm
  imports O3_Types
begin

text \<open>
  \<open>CHAOSFUPerm\<close>: the execution-level permanent fault of a functional unit.  Every result of the
  target operation class is XORed with one mask from \<open>first_clock\<close> on.  The constructor, the mask
  oracle called from the writeback path, and its blob twin.
\<close>

record fu_perm =
  fup_target_opclass :: int
  fault_mask :: u64
  fup_first_clock :: cycles
  corrupt_count :: nat
  numCorrupted :: nat
  numMatchedOpClass :: nat

record fu_perm_params =
  p_cpu_is_o3 :: bool
  p_targetOpClass :: string
  p_firstClock :: cycles
  p_faultMask :: u64
  p_rngSeed :: u64

definition CHAOSFUPerm :: "string list \<Rightarrow> fu_perm_params \<Rightarrow> ctor_error + fu_perm" where
  "CHAOSFUPerm opclass_strings p =
     (let n = p_targetOpClass p; op = opclass_index opclass_strings n 0
      in if \<not> p_cpu_is_o3 p then Inl NotO3CPU
         else if op < 0 then Inl (UnknownOpClass n)
         else
           let mask = p_faultMask p;
               mask = (if mask = 0
                       then let seed = (if p_rngSeed p \<noteq> 0 then p_rngSeed p else 1)
                            in push_bit (unat (seed mod 64)) 1
                       else mask)
           in Inr \<lparr>fup_target_opclass = op, fault_mask = mask, fup_first_clock = p_firstClock p,
                corrupt_count = 0, numCorrupted = 0, numMatchedOpClass = 0\<rparr>)"

definition fu_perm_mask_for :: "cycles \<Rightarrow> int \<Rightarrow> fu_perm static_inst \<Rightarrow> u64 \<times> fu_perm static_inst" where
  "fu_perm_mask_for curCycle op_class st =
     (case the_instance st of None \<Rightarrow> (0, st)
      | Some self \<Rightarrow>
          if op_class \<noteq> fup_target_opclass self then (0, st)
          else if curCycle < fup_first_clock self then (0, st)
          else (fault_mask self,
            update_instance (self\<lparr>numMatchedOpClass := numMatchedOpClass self + 1,
              corrupt_count := corrupt_count self + 1,
              numCorrupted := numCorrupted self + 1\<rparr>) st))"

definition fu_perm_mask_for_blob :: "cycles \<Rightarrow> int \<Rightarrow> fu_perm static_inst \<Rightarrow> u64 \<times> fu_perm static_inst" where
  "fu_perm_mask_for_blob = fu_perm_mask_for"

lemma static_ok_mask_for [intro]:
  "static_ok st \<Longrightarrow> static_ok (snd (fu_perm_mask_for c op st))"
  by (auto simp: fu_perm_mask_for_def split: option.splits)

lemma enabled_mask_for [simp]: "enabled (snd (fu_perm_mask_for c op st)) = enabled st"
  by (auto simp: fu_perm_mask_for_def split: option.splits)

text \<open>A constructed injector always carries a fault: the mask is never 0, and when it is derived
  from the seed it is a single bit.\<close>

lemma fault_mask_nonzero:
  assumes "CHAOSFUPerm names p = Inr f"
  shows "fault_mask f \<noteq> 0" and "p_faultMask p = 0 \<Longrightarrow> popcount (fault_mask f) = 1"
proof -
  define seed :: u64 where "seed = (if p_rngSeed p \<noteq> 0 then p_rngSeed p else 1)"
  have less: "unat (seed mod 64) < 64"
    using word_mod_less_divisor [of "64 :: u64" seed] by (simp add: word_less_nat_alt)
  have bits: "{k. bit (push_bit (unat (seed mod 64)) (1::u64)) k} = {unat (seed mod 64)}"
    using less by (auto simp: bit_simps bit_1_iff)
  then have one: "popcount (push_bit (unat (seed mod 64)) (1::u64)) = 1"
    by (simp add: popcount_card)
  have m: "fault_mask f = (if p_faultMask p = 0 then push_bit (unat (seed mod 64)) 1 else p_faultMask p)"
    using assms by (auto simp: CHAOSFUPerm_def Let_def seed_def split: if_splits)
  show "p_faultMask p = 0 \<Longrightarrow> popcount (fault_mask f) = 1" using m one by simp
  show "fault_mask f \<noteq> 0"
  proof
    assume "fault_mask f = 0"
    then have "push_bit (unat (seed mod 64)) (1::u64) = 0" using m by (simp split: if_splits)
    then have "popcount (push_bit (unat (seed mod 64)) (1::u64)) = 0" by (simp only: popcount_0)
    with one show False by (simp only: zero_neq_one)
  qed
qed

text \<open>Permanence: from \<open>first_clock\<close> on the oracle answers every request for the target class with
  the same mask, whatever happened before, and the counters count exactly these answers.\<close>

fun oracle_run :: "(cycles \<times> int) list \<Rightarrow> fu_perm static_inst \<Rightarrow> u64 list \<times> fu_perm static_inst" where
  "oracle_run [] st = ([], st)"
| "oracle_run ((c, op) # rs) st =
     (case fu_perm_mask_for c op st of (m, st') \<Rightarrow>
        case oracle_run rs st' of (ms, st'') \<Rightarrow> (m # ms, st''))"

definition oracle_hits :: "fu_perm \<Rightarrow> cycles \<times> int \<Rightarrow> bool" where
  "oracle_hits f r \<longleftrightarrow> snd r = fup_target_opclass f \<and> fup_first_clock f \<le> fst r"

lemma oracle_run_permanent:
  assumes "static_ok st" and "the_instance st = Some f"
  shows "fst (oracle_run rs st) = map (\<lambda>r. if oracle_hits f r then fault_mask f else 0) rs"
    and "map_option (\<lambda>g. (numCorrupted g, numMatchedOpClass g, corrupt_count g))
        (the_instance (snd (oracle_run rs st))) =
      (let k = length (filter (oracle_hits f) rs)
       in Some (numCorrupted f + k, numMatchedOpClass f + k, corrupt_count f + k))"
proof -
  have "fst (oracle_run rs st) = map (\<lambda>r. if oracle_hits f r then fault_mask f else 0) rs
    \<and> map_option (\<lambda>g. (numCorrupted g, numMatchedOpClass g, corrupt_count g))
        (the_instance (snd (oracle_run rs st))) =
      (let k = length (filter (oracle_hits f) rs)
       in Some (numCorrupted f + k, numMatchedOpClass f + k, corrupt_count f + k))"
    using assms
  proof (induction rs arbitrary: st f)
    case (Cons r rs)
    obtain c op where r: "r = (c, op)" by (cases r)
    have en: "enabled st" using Cons.prems by (simp add: enabled_the_instance)
    show ?case
    proof (cases "oracle_hits f r")
      case False
      then have "fu_perm_mask_for c op st = (0, st)"
        using Cons.prems r by (auto simp: fu_perm_mask_for_def oracle_hits_def)
      with Cons.IH [OF Cons.prems] False r show ?thesis by (simp add: case_prod_unfold)
    next
      case True
      let ?f = "f\<lparr>numMatchedOpClass := numMatchedOpClass f + 1, corrupt_count := corrupt_count f + 1,
        numCorrupted := numCorrupted f + 1\<rparr>"
      have st': "fu_perm_mask_for c op st = (fault_mask f, update_instance ?f st)"
        using True Cons.prems r by (auto simp: fu_perm_mask_for_def oracle_hits_def)
      have "oracle_hits ?f = oracle_hits f" by (auto simp: oracle_hits_def fun_eq_iff)
      moreover have "static_ok (update_instance ?f st)" "the_instance (update_instance ?f st) = Some ?f"
        using Cons.prems en by (auto simp: the_instance_update)
      ultimately show ?thesis
        using Cons.IH [of "update_instance ?f st" ?f] True r st'
        by (simp add: case_prod_unfold Let_def)
    qed
  qed simp
  then show "fst (oracle_run rs st) = map (\<lambda>r. if oracle_hits f r then fault_mask f else 0) rs"
    and "map_option (\<lambda>g. (numCorrupted g, numMatchedOpClass g, corrupt_count g))
        (the_instance (snd (oracle_run rs st))) =
      (let k = length (filter (oracle_hits f) rs)
       in Some (numCorrupted f + k, numMatchedOpClass f + k, corrupt_count f + k))" by blast+
qed

text \<open>Permanence.  Once a unit is constructed and registered, the oracle answers every request for
  the target class from \<open>first_clock\<close> on with one and the same non-zero mask, and every other request
  with 0, however the requests are interleaved; the statistics count exactly the answers that
  carried the mask.\<close>

theorem fu_perm_permanent:
  assumes "CHAOSFUPerm names p = Inr f"
  shows "fault_mask f \<noteq> 0
    \<and> fst (oracle_run rs (register_instance i f st)) =
        map (\<lambda>r. if oracle_hits f r then fault_mask f else 0) rs
    \<and> map_option numCorrupted (the_instance (snd (oracle_run rs (register_instance i f st)))) =
        Some (length (filter (oracle_hits f) rs))"
proof -
  let ?st = "register_instance i f st"
  have zero: "numCorrupted f = 0"
    using assms by (auto simp: CHAOSFUPerm_def Let_def split: if_splits)
  have "the_instance (snd (oracle_run rs ?st)) \<noteq> None"
    and "numCorrupted (the (the_instance (snd (oracle_run rs ?st)))) = numCorrupted f + length (filter (oracle_hits f) rs)"
    using oracle_run_permanent(2) [of ?st f rs] by (auto simp: Let_def)
  with zero oracle_run_permanent(1) [of ?st f rs] fault_mask_nonzero(1) [OF assms] show ?thesis
    by auto
qed

theorem fu_perm_permanent_witness:
  "fst (oracle_run [(1, 0), (9, 0), (9, 1), (12, 0)]
      (register_instance 0 \<lparr>fup_target_opclass = 0, fault_mask = 4, fup_first_clock = 5,
        corrupt_count = 0, numCorrupted = 0, numMatchedOpClass = 0\<rparr>
        \<lparr>objs = Map.empty, instance_id = None, enabled = False\<rparr>)) = [0, 4, 0, 4]"
proof -
  have "CHAOSFUPerm [''IntAlu''] \<lparr>p_cpu_is_o3 = True, p_targetOpClass = ''IntAlu'', p_firstClock = 5,
      p_faultMask = 4, p_rngSeed = 0\<rparr> = Inr \<lparr>fup_target_opclass = 0, fault_mask = 4, fup_first_clock = 5,
        corrupt_count = 0, numCorrupted = 0, numMatchedOpClass = 0\<rparr>"
    by (simp add: CHAOSFUPerm_def)
  from fu_perm_permanent [OF this, of "[(1, 0), (9, 0), (9, 1), (12, 0)]" 0
      "\<lparr>objs = Map.empty, instance_id = None, enabled = False\<rparr>"]
  show ?thesis by (simp add: oracle_hits_def)
qed

end
