(* ===== verification/Event_Queue.thy ===== *)
theory Event_Queue
  imports Chaos_Prelude "HOL-Library.Product_Lexorder"
begin

text \<open>
  gem5's event queue (\<open>sim/eventq.hh\<close>, \<open>sim/eventq.cc\<close>) at the level of its pointers.  Events live
  in a store indexed by address; the queue is a list of bins linked through \<open>nextBin\<close>, every bin a
  stack of events with the same time and priority linked through \<open>nextInBin\<close>.  Only the
  \<open>nextBin\<close> of the top of a bin is meaningful: the code lets the others go stale, and the
  representation predicate \<open>bin_seg\<close> says nothing about them.

  The loops walk pointers, so they are \<open>partial_function (option)\<close>: \<open>None\<close> is a walk that never
  ends.  \<open>Inl\<close> is a \<open>panic\<close> or a failed \<open>assert\<close>.  The abstract queue is a list sorted by time and
  priority: \<open>insert\<close> is \<open>insort_key\<close>, \<open>remove\<close> is \<open>remove1\<close>, \<open>serviceOne\<close> takes the head.
\<close>

subsection \<open>Events and the queue\<close>

type_synonym eid = nat

record event =
  nextBin :: "eid option"
  nextInBin :: "eid option"
  ev_when :: tick
  priority :: int
  scheduled :: bool
  squashed :: bool
  isExitEvent :: bool

type_synonym heap = "eid \<Rightarrow> event"

record event_queue =
  events :: heap
  head :: "eid option"
  curTick :: tick
  async_queue :: "eid list"

datatype eq_error = EventNotFound | AssertFailed | NullHead

definition ev_less :: "event \<Rightarrow> event \<Rightarrow> bool" where
  "ev_less l r \<longleftrightarrow> ev_when l < ev_when r \<or> ev_when l = ev_when r \<and> priority l < priority r"

definition ev_less_eq :: "event \<Rightarrow> event \<Rightarrow> bool" where
  "ev_less_eq l r \<longleftrightarrow> ev_when l < ev_when r \<or> ev_when l = ev_when r \<and> priority l \<le> priority r"

definition ev_eq :: "event \<Rightarrow> event \<Rightarrow> bool" where
  "ev_eq l r \<longleftrightarrow> ev_when l = ev_when r \<and> priority l = priority r"

definition insertBefore :: "heap \<Rightarrow> eid \<Rightarrow> eid option \<Rightarrow> eid \<times> heap" where
  "insertBefore h e cur =
     (case cur of
        None \<Rightarrow> (e, h(e := (h e)\<lparr>nextBin := None, nextInBin := None\<rparr>))
      | Some c \<Rightarrow>
          if ev_less (h e) (h c) then (e, h(e := (h e)\<lparr>nextBin := Some c, nextInBin := None\<rparr>))
          else (e, h(e := (h e)\<lparr>nextBin := nextBin (h c), nextInBin := Some c\<rparr>)))"

text \<open>The loop of \<open>insert\<close> and \<open>remove\<close> over the bins: \<open>while (cur && *cur < *event)\<close>.\<close>

partial_function (option) find_bin :: "heap \<Rightarrow> eid \<Rightarrow> eid \<Rightarrow> eid option \<Rightarrow> (eid \<times> eid option) option" where
  "find_bin h e prev cur =
     (if cur \<noteq> None \<and> ev_less (h (the cur)) (h e) then find_bin h e (the cur) (nextBin (h (the cur)))
      else Some (prev, cur))"

definition eq_insert :: "eid \<Rightarrow> heap \<times> eid option \<Rightarrow> (heap \<times> eid option) option" where
  "eq_insert e q =
     (case q of (h, hp) \<Rightarrow>
       (case hp of
         None \<Rightarrow> (case insertBefore h e None of (t, h') \<Rightarrow> Some (h', Some t))
       | Some c \<Rightarrow>
           if ev_less_eq (h e) (h c)
           then (case insertBefore h e hp of (t, h') \<Rightarrow> Some (h', Some t))
           else (case find_bin h e c (nextBin (h c)) of None \<Rightarrow> None
             | Some (prev, cur) \<Rightarrow>
                 (case insertBefore h e cur of (t, h') \<Rightarrow>
                    Some (h'(prev := (h' prev)\<lparr>nextBin := Some t\<rparr>), hp)))))"

text \<open>The loop of \<open>removeItem\<close> inside a bin: the second component is \<open>None\<close> when the event is not
  found.\<close>

partial_function (option) find_in_bin :: "heap \<Rightarrow> eid \<Rightarrow> eid \<Rightarrow> eid option \<Rightarrow> (eid \<times> eid option) option" where
  "find_in_bin h e cur next =
     (if next \<noteq> Some e then
        if next = None then Some (cur, None)
        else find_in_bin h e (the next) (nextInBin (h (the next)))
      else Some (cur, next))"

definition removeItem :: "heap \<Rightarrow> eid \<Rightarrow> eid \<Rightarrow> (eq_error + eid option \<times> heap) option" where
  "removeItem h e tp =
     (if e = tp then
        (case nextInBin (h tp) of
           None \<Rightarrow> Some (Inr (nextBin (h tp), h))
         | Some n \<Rightarrow> Some (Inr (Some n, h(n := (h n)\<lparr>nextBin := nextBin (h tp)\<rparr>))))
      else
        (case find_in_bin h e tp (nextInBin (h tp)) of None \<Rightarrow> None
         | Some (cur, None) \<Rightarrow> Some (Inl EventNotFound)
         | Some (cur, Some n) \<Rightarrow>
             Some (Inr (Some tp, h(cur := (h cur)\<lparr>nextInBin := nextInBin (h n)\<rparr>)))))"

definition eq_remove :: "eid \<Rightarrow> heap \<times> eid option \<Rightarrow> (eq_error + heap \<times> eid option) option" where
  "eq_remove e q =
     (case q of (h, hp) \<Rightarrow>
       (case hp of
         None \<Rightarrow> Some (Inl EventNotFound)
       | Some c \<Rightarrow>
           if ev_eq (h c) (h e)
           then (case removeItem h e c of None \<Rightarrow> None
                 | Some (Inl err) \<Rightarrow> Some (Inl err)
                 | Some (Inr (tp, h')) \<Rightarrow> Some (Inr (h', tp)))
           else (case find_bin h e c (nextBin (h c)) of None \<Rightarrow> None
             | Some (prev, None) \<Rightarrow> Some (Inl EventNotFound)
             | Some (prev, Some cur) \<Rightarrow>
                 if \<not> ev_eq (h cur) (h e) then Some (Inl EventNotFound)
                 else (case removeItem h e cur of None \<Rightarrow> None
                   | Some (Inl err) \<Rightarrow> Some (Inl err)
                   | Some (Inr (tp, h')) \<Rightarrow>
                       Some (Inr (h'(prev := (h' prev)\<lparr>nextBin := tp\<rparr>), hp))))))"

text \<open>\<open>serviceOne\<close>: the head is unlinked (\<open>pop_head\<close>), then handled unless it is squashed.  The handler
  \<open>process\<close> of an event is a parameter.  The result is the exit event, if the serviced event is
  one.\<close>

definition pop_head :: "eid \<Rightarrow> event_queue \<Rightarrow> event_queue" where
  "pop_head e q =
     (let h = (events q)(e := (events q e)\<lparr>scheduled := False\<rparr>)
      in case nextInBin (events q e) of
           Some n \<Rightarrow> q\<lparr>events := h(n := (h n)\<lparr>nextBin := nextBin (h e)\<rparr>), head := Some n\<rparr>
         | None \<Rightarrow> q\<lparr>events := h, head := nextBin (h e)\<rparr>)"

definition serviceOne :: "(eid \<Rightarrow> event_queue \<Rightarrow> event_queue) \<Rightarrow> event_queue
    \<Rightarrow> eq_error + eid option \<times> event_queue" where
  "serviceOne process q =
     (case head q of None \<Rightarrow> Inl NullHead
      | Some e \<Rightarrow>
          let q1 = pop_head e q
          in if \<not> squashed (events q1 e) then
               let q2 = process e (q1\<lparr>curTick := ev_when (events q1 e)\<rparr>)
               in Inr (if isExitEvent (events q2 e) then Some e else None, q2)
             else Inr (None, q1\<lparr>events := (events q1)(e := (events q1 e)\<lparr>squashed := False\<rparr>)\<rparr>))"

text \<open>\<open>serviceEvents\<close>: the loop over \<open>serviceOne\<close>, then \<open>setCurTick\<close>.\<close>

partial_function (option) service_loop ::
    "(eid \<Rightarrow> event_queue \<Rightarrow> event_queue) \<Rightarrow> tick \<Rightarrow> event_queue \<Rightarrow> event_queue option" where
  "service_loop process t q =
     (if head q = None \<or> t < ev_when (events q (the (head q))) then Some q
      else service_loop process t (snd (projr (serviceOne process q))))"

definition serviceEvents :: "(eid \<Rightarrow> event_queue \<Rightarrow> event_queue) \<Rightarrow> tick \<Rightarrow> event_queue
    \<Rightarrow> event_queue option" where
  "serviceEvents process t q = map_option (\<lambda>q. q\<lparr>curTick := t\<rparr>) (service_loop process t q)"

definition lift_queue :: "event_queue \<Rightarrow> heap \<times> eid option \<Rightarrow> event_queue" where
  "lift_queue q r = q\<lparr>events := fst r, head := snd r\<rparr>"

definition asyncInsert :: "eid \<Rightarrow> event_queue \<Rightarrow> event_queue" where
  "asyncInsert e q = q\<lparr>async_queue := async_queue q @ [e]\<rparr>"

text \<open>\<open>async\<close> is the condition \<open>inParallelMode && (this != curEventQueue() || global)\<close>.\<close>

definition schedule :: "bool \<Rightarrow> eid \<Rightarrow> tick \<Rightarrow> event_queue \<Rightarrow> (eq_error + event_queue) option" where
  "schedule async e t q =
     (if t < curTick q then Some (Inl AssertFailed)
      else if scheduled (events q e) then Some (Inl AssertFailed)
      else
        let q1 = q\<lparr>events := (events q)(e := (events q e)\<lparr>ev_when := t\<rparr>)\<rparr>;
            set_scheduled = (\<lambda>q. q\<lparr>events := (events q)(e := (events q e)\<lparr>scheduled := True\<rparr>)\<rparr>)
        in if async then Some (Inr (set_scheduled (asyncInsert e q1)))
           else (case eq_insert e (events q1, head q1) of None \<Rightarrow> None
                 | Some r \<Rightarrow> Some (Inr (set_scheduled (lift_queue q1 r)))))"

definition deschedule :: "eid \<Rightarrow> event_queue \<Rightarrow> (eq_error + event_queue) option" where
  "deschedule e q =
     (if \<not> scheduled (events q e) then Some (Inl AssertFailed)
      else (case eq_remove e (events q, head q) of None \<Rightarrow> None
            | Some (Inl err) \<Rightarrow> Some (Inl err)
            | Some (Inr r) \<Rightarrow>
                let q1 = lift_queue q r
                in Some (Inr (q1\<lparr>events := (events q1)(e :=
                     (events q1 e)\<lparr>squashed := False, scheduled := False\<rparr>)\<rparr>))))"

definition reschedule :: "eid \<Rightarrow> tick \<Rightarrow> bool \<Rightarrow> event_queue \<Rightarrow> (eq_error + event_queue) option" where
  "reschedule e t always q =
     (if t < curTick q then Some (Inl AssertFailed)
      else if \<not> (always \<or> scheduled (events q e)) then Some (Inl AssertFailed)
      else
        let finish = (\<lambda>q.
          let q1 = q\<lparr>events := (events q)(e := (events q e)\<lparr>ev_when := t\<rparr>)\<rparr>
          in case eq_insert e (events q1, head q1) of None \<Rightarrow> None
             | Some r \<Rightarrow>
                 let q2 = lift_queue q1 r
                 in Some (Inr (q2\<lparr>events := (events q2)(e :=
                      (events q2 e)\<lparr>squashed := False, scheduled := True\<rparr>)\<rparr>)))
        in if scheduled (events q e)
           then (case eq_remove e (events q, head q) of None \<Rightarrow> None
                 | Some (Inl err) \<Rightarrow> Some (Inl err)
                 | Some (Inr r) \<Rightarrow> finish (lift_queue q r))
           else finish q)"

text \<open>The merge of the asynchronous queue, front to back.\<close>

fun insert_all :: "eid list \<Rightarrow> heap \<times> eid option \<Rightarrow> (heap \<times> eid option) option" where
  "insert_all [] r = Some r"
| "insert_all (e # es) r = (case eq_insert e r of None \<Rightarrow> None | Some r' \<Rightarrow> insert_all es r')"

definition handleAsyncInsertions :: "event_queue \<Rightarrow> event_queue option" where
  "handleAsyncInsertions q =
     (case insert_all (async_queue q) (events q, head q) of None \<Rightarrow> None
      | Some r \<Rightarrow> Some ((lift_queue q r)\<lparr>async_queue := []\<rparr>))"

definition checkpointReschedule :: "eid \<Rightarrow> event_queue \<Rightarrow> event_queue option" where
  "checkpointReschedule e q =
     (if scheduled (events q e)
      then map_option (lift_queue q) (eq_insert e (events q, head q)) else Some q)"

text \<open>\<open>debugVerify\<close>: the state is the last time and priority and the nodes already seen; the inner
  walk returns \<open>None\<close> inside \<open>Some\<close> when a check fails.\<close>

partial_function (option) verify_in_bin ::
    "heap \<Rightarrow> tick \<times> int \<times> eid list \<Rightarrow> eid option \<Rightarrow> (tick \<times> int \<times> eid list) option option" where
  "verify_in_bin h st p =
     (if p = None then Some (Some st)
      else if ev_when (h (the p)) < fst st then Some None
      else if ev_when (h (the p)) = fst st \<and> priority (h (the p)) < fst (snd st) then Some None
      else if the p \<in> set (snd (snd st)) then Some None
      else verify_in_bin h (ev_when (h (the p)), priority (h (the p)), the p # snd (snd st))
             (nextInBin (h (the p))))"

partial_function (option) verify_bins ::
    "heap \<Rightarrow> tick \<times> int \<times> eid list \<Rightarrow> eid option \<Rightarrow> bool option" where
  "verify_bins h st p =
     (if p = None then Some True
      else Option.bind (verify_in_bin h st p)
        (\<lambda>r. if r = None then Some False else verify_bins h (the r) (nextBin (h (the p)))))"

definition debugVerify :: "heap \<Rightarrow> eid option \<Rightarrow> bool option" where
  "debugVerify h hp = verify_bins h (0, 0, []) hp"

subsection \<open>Representation\<close>

definition key :: "heap \<Rightarrow> eid \<Rightarrow> tick \<times> int" where
  "key h e = (ev_when (h e), priority (h e))"

fun in_chain :: "heap \<Rightarrow> eid option \<Rightarrow> eid list \<Rightarrow> bool" where
  "in_chain h p [] \<longleftrightarrow> p = None"
| "in_chain h p (e # es) \<longleftrightarrow> p = Some e \<and> in_chain h (nextInBin (h e)) es"

fun bin_seg :: "heap \<Rightarrow> eid option \<Rightarrow> eid list list \<Rightarrow> eid option \<Rightarrow> bool" where
  "bin_seg h p [] q \<longleftrightarrow> p = q"
| "bin_seg h p ([] # bs) q \<longleftrightarrow> False"
| "bin_seg h p ((e # es) # bs) q \<longleftrightarrow>
     p = Some e \<and> in_chain h (nextInBin (h e)) es \<and> bin_seg h (nextBin (h e)) bs q"

definition uniform_bin :: "heap \<Rightarrow> eid list \<Rightarrow> bool" where
  "uniform_bin h b \<longleftrightarrow> (\<forall>x \<in> set b. key h x = key h (hd b))"

definition bins_sorted :: "heap \<Rightarrow> eid list list \<Rightarrow> bool" where
  "bins_sorted h bs \<longleftrightarrow>
     (\<forall>b \<in> set bs. uniform_bin h b)
     \<and> sorted_wrt (\<lambda>b c. key h (hd b) < key h (hd c)) bs"

definition represents :: "heap \<times> eid option \<Rightarrow> eid list list \<Rightarrow> bool" where
  "represents q bs \<longleftrightarrow>
     bin_seg (fst q) (snd q) bs None \<and> distinct (concat bs) \<and> bins_sorted (fst q) bs"

lemma ev_less_key: "ev_less (h a) (h b) \<longleftrightarrow> key h a < key h b"
  and ev_less_eq_key: "ev_less_eq (h a) (h b) \<longleftrightarrow> key h a \<le> key h b"
  and ev_eq_key: "ev_eq (h a) (h b) \<longleftrightarrow> key h a = key h b"
  by (auto simp: ev_less_def ev_less_eq_def ev_eq_def key_def less_prod_def less_eq_prod_def)

lemmas ev_key = ev_less_key ev_less_eq_key ev_eq_key

lemma in_chain_cong:
  "(\<And>x. x \<in> set es \<Longrightarrow> nextInBin (h x) = nextInBin (h' x)) \<Longrightarrow> in_chain h p es = in_chain h' p es"
  by (induction es arbitrary: p) auto

lemma bin_seg_cong:
  "(\<And>x. x \<in> set (concat bs) \<Longrightarrow> nextInBin (h x) = nextInBin (h' x)) \<Longrightarrow>
   (\<And>b. b \<in> set bs \<Longrightarrow> nextBin (h (hd b)) = nextBin (h' (hd b))) \<Longrightarrow>
   bin_seg h p bs q = bin_seg h' p bs q"
proof (induction h p bs q rule: bin_seg.induct)
  case (3 h p e es bs q)
  have "in_chain h r es = in_chain h' r es" for r
    using 3(2) by (intro in_chain_cong) auto
  moreover have "bin_seg h (nextBin (h e)) bs q = bin_seg h' (nextBin (h e)) bs q"
    using 3(2,3) by (intro 3(1)) auto
  ultimately show ?case using 3(2) [of e] 3(3) [of "e # es"] by simp
qed simp_all

lemma bin_seg_frame:
  assumes "\<And>x. x \<in> set (concat bs) \<Longrightarrow> h' x = h x" and "[] \<notin> set bs"
  shows "bin_seg h' p bs q = bin_seg h p bs q"
proof (rule bin_seg_cong)
  fix b assume "b \<in> set bs"
  then have "hd b \<in> set (concat bs)" using assms(2) by (auto intro!: bexI [of _ b] hd_in_set)
  then show "nextBin (h' (hd b)) = nextBin (h (hd b))" using assms(1) by simp
qed (use assms(1) in simp)

lemma bin_seg_append:
  "bin_seg h p (as @ bs) q \<longleftrightarrow> (\<exists>r. bin_seg h p as r \<and> bin_seg h r bs q)"
  by (induction h p as q rule: bin_seg.induct) auto

lemma bin_seg_hd: "bin_seg h p bs q \<Longrightarrow> bs \<noteq> [] \<Longrightarrow> hd bs \<noteq> [] \<and> p = Some (hd (hd bs))"
  by (induction h p bs q rule: bin_seg.induct) auto

lemma bin_seg_nonempty: "bin_seg h p bs q \<Longrightarrow> [] \<notin> set bs"
  by (induction h p bs q rule: bin_seg.induct) auto

lemma key_cong: "ev_when (h e) = ev_when (h' e) \<Longrightarrow> priority (h e) = priority (h' e) \<Longrightarrow> key h e = key h' e"
  by (simp add: key_def)

lemma bins_sorted_cong: "(\<And>x. key h x = key h' x) \<Longrightarrow> bins_sorted h bs = bins_sorted h' bs"
  by (simp add: bins_sorted_def uniform_bin_def)

text \<open>The walk over the bins always ends, and splits them at the first bin that is not earlier.\<close>

lemma find_bin_split:
  assumes "bin_seg h (Some prev) ((prev # ps) # bs) None"
  shows "find_bin h e prev (nextBin (h prev)) =
    (let bs1 = takeWhile (\<lambda>b. key h (hd b) < key h e) bs;
         bs2 = dropWhile (\<lambda>b. key h (hd b) < key h e) bs
     in Some (hd (last ((prev # ps) # bs1)), case bs2 of [] \<Rightarrow> None | b # _ \<Rightarrow> Some (hd b)))"
  using assms
proof (induction bs arbitrary: prev ps)
  case Nil
  then show ?case by (subst find_bin.simps) simp
next
  case (Cons b bs)
  then obtain c cs where b: "b = c # cs" by (cases b) auto
  with Cons.prems have n: "nextBin (h prev) = Some c" by simp
  show ?case
  proof (cases "key h c < key h e")
    case True
    from Cons.prems b have "bin_seg h (Some c) ((c # cs) # bs) None" by auto
    from Cons.IH [OF this] True b n show ?thesis
      by (subst find_bin.simps) (simp add: ev_key)
  next
    case False
    with b n show ?thesis by (subst find_bin.simps) (simp add: ev_key)
  qed
qed

subsection \<open>Insertion\<close>

text \<open>The abstract insertion on bins.\<close>

fun bins_insert :: "(eid \<Rightarrow> tick \<times> int) \<Rightarrow> eid \<Rightarrow> eid list list \<Rightarrow> eid list list" where
  "bins_insert k e [] = [[e]]"
| "bins_insert k e (b # bs) =
     (if k e < k (hd b) then [e] # b # bs
      else if k e = k (hd b) then (e # b) # bs
      else b # bins_insert k e bs)"

lemma bins_insert_append:
  "(\<And>b. b \<in> set as \<Longrightarrow> k (hd b) < k e) \<Longrightarrow> bins_insert k e (as @ bs) = as @ bins_insert k e bs"
proof (induction as)
  case (Cons a as)
  have "k (hd a) < k e" by (rule Cons.prems) simp
  moreover have "bins_insert k e (as @ bs) = as @ bins_insert k e bs"
    by (rule Cons.IH) (rule Cons.prems, simp)
  ultimately show ?case by auto
qed simp

lemma concat_bins_insert:
  assumes "\<And>b. b \<in> set bs \<Longrightarrow> b \<noteq> []" and "\<And>b x. b \<in> set bs \<Longrightarrow> x \<in> set b \<Longrightarrow> k x = k (hd b)"
  shows "concat (bins_insert k e bs) = insort_key k e (concat bs)"
  using assms
proof (induction bs)
  case (Cons b bs)
  obtain c cs where b: "b = c # cs" using Cons.prems(1) [of b] by (cases b) auto
  have IH: "concat (bins_insert k e bs) = insort_key k e (concat bs)"
  proof (rule Cons.IH)
    show "b' \<noteq> []" if "b' \<in> set bs" for b' using Cons.prems(1) [of b'] that by simp
    show "k x = k (hd b')" if "b' \<in> set bs" "x \<in> set b'" for b' x
      using Cons.prems(2) [of b' x] that by simp
  qed
  have skip: "insort_key k e (xs @ ys) = xs @ insort_key k e ys" if "\<forall>x \<in> set xs. k x < k e" for xs ys
    using that by (induction xs) auto
  show ?case
  proof (cases "k e \<le> k c")
    case True with b show ?thesis by auto
  next
    case False
    have "k x < k e" if "x \<in> set b" for x
      using Cons.prems(2) [of b x] that False b by simp
    then show ?thesis using IH False b by (auto simp: skip)
  qed
qed simp

lemma insertBefore_key [simp]: "key (snd (insertBefore h e cur)) x = key h x"
  by (auto simp: insertBefore_def key_def split: option.splits)

lemma insertBefore_seg:
  assumes seg: "bin_seg h cur bs None" and new: "e \<notin> set (concat bs)"
    and le: "\<forall>b bs'. bs = b # bs' \<longrightarrow> key h e \<le> key h (hd b)"
    and eq: "insertBefore h e cur = (t, h')"
  shows "t = e" and "bin_seg h' (Some e) (bins_insert (key h) e bs) None"
    and "\<And>x. x \<noteq> e \<Longrightarrow> h' x = h x"
proof -
  show "t = e" and frame: "\<And>x. x \<noteq> e \<Longrightarrow> h' x = h x"
    using eq by (auto simp: insertBefore_def split: option.splits if_splits)
  have seg': "bin_seg h' p cs q = bin_seg h p cs q" if "e \<notin> set (concat cs)" "[] \<notin> set cs" for p cs q
    using that by (intro bin_seg_frame frame) auto
  have ch': "in_chain h' p es = in_chain h p es" if "e \<notin> set es" for p es
  proof (rule in_chain_cong)
    fix x assume "x \<in> set es"
    with that have "x \<noteq> e" by auto
    then show "nextInBin (h' x) = nextInBin (h x)" by (simp add: frame)
  qed
  show "bin_seg h' (Some e) (bins_insert (key h) e bs) None"
  proof (cases bs)
    case Nil with seg eq show ?thesis by (auto simp: insertBefore_def)
  next
    case (Cons b bs')
    with seg obtain c cs where b: "b = c # cs" and cur: "cur = Some c" by (cases b) auto
    have ne: "[] \<notin> set bs" using seg by (rule bin_seg_nonempty)
    have fc: "h' c = h c" using new Cons b by (intro frame) auto
    show ?thesis
    proof (cases "key h e < key h c")
      case True
      then have h': "h' e = (h e)\<lparr>nextBin := Some c, nextInBin := None\<rparr>"
        using eq cur by (auto simp: insertBefore_def ev_key)
      then show ?thesis
        using True seg seg' [of bs "Some c" None] new ne Cons b cur by (simp del: bin_seg.simps(3)) simp
    next
      case False
      with le Cons b have keq: "key h e = key h c" by auto
      then have h': "h' e = (h e)\<lparr>nextBin := nextBin (h c), nextInBin := Some c\<rparr>"
        using eq cur by (auto simp: insertBefore_def ev_key)
      then show ?thesis
        using keq seg seg' [of bs'] ch' [of cs] new ne Cons b cur fc by simp
    qed
  qed
qed

text \<open>Only the links of events change.\<close>

definition links_only :: "heap \<Rightarrow> heap \<Rightarrow> bool" where
  "links_only h h' \<longleftrightarrow>
     (\<forall>x. (h' x)\<lparr>nextBin := None, nextInBin := None\<rparr> = (h x)\<lparr>nextBin := None, nextInBin := None\<rparr>)"

lemma links_only_data:
  assumes "links_only h h'"
  shows "ev_when (h' x) = ev_when (h x)" "priority (h' x) = priority (h x)"
    "scheduled (h' x) = scheduled (h x)" "squashed (h' x) = squashed (h x)"
    "isExitEvent (h' x) = isExitEvent (h x)"
proof -
  have eq: "f ((h' x)\<lparr>nextBin := None, nextInBin := None\<rparr>) = f ((h x)\<lparr>nextBin := None, nextInBin := None\<rparr>)" for f
    using assms by (simp only: links_only_def)
  show "ev_when (h' x) = ev_when (h x)" "priority (h' x) = priority (h x)"
    "scheduled (h' x) = scheduled (h x)" "squashed (h' x) = squashed (h x)"
    "isExitEvent (h' x) = isExitEvent (h x)"
    using eq [of ev_when] eq [of priority] eq [of scheduled] eq [of squashed] eq [of isExitEvent]
    by simp_all
qed

lemma links_only_key: "links_only h h' \<Longrightarrow> key h' x = key h x"
  by (simp add: key_def links_only_data)

lemma bins_sorted_links: "links_only h h' \<Longrightarrow> bins_sorted h' bs = bins_sorted h bs"
  by (simp add: bins_sorted_def uniform_bin_def links_only_key)

lemma bins_sortedD:
  assumes "bins_sorted h bs" and "b \<in> set bs" and "x \<in> set b"
  shows "key h x = key h (hd b)"
  using assms unfolding bins_sorted_def uniform_bin_def by blast

lemma bins_sorted_Cons:
  "bins_sorted h (b # bs) \<longleftrightarrow> uniform_bin h b
    \<and> (\<forall>c \<in> set bs. key h (hd b) < key h (hd c)) \<and> bins_sorted h bs"
  by (auto simp: bins_sorted_def)

lemma hd_bins_insert:
  "c \<in> set (bins_insert k e bs) \<Longrightarrow> hd c = e \<or> c \<in> set bs"
  by (induction bs) (auto split: if_splits)

lemma uniform_bin_single [simp]: "uniform_bin h [e]"
  by (simp add: uniform_bin_def)

lemma uniform_bin_push:
  "uniform_bin h b \<Longrightarrow> key h e = key h (hd b) \<Longrightarrow> uniform_bin h (e # b)"
  unfolding uniform_bin_def by (metis list.sel(1) set_ConsD)

lemma uniform_bin_pop:
  "uniform_bin h (e # n # ns) \<Longrightarrow> uniform_bin h (n # ns) \<and> key h n = key h e"
  unfolding uniform_bin_def by (metis list.sel(1) list.set_intros)

lemma bins_sorted_pop: "bins_sorted h ((e # n # ns) # bs) \<Longrightarrow> bins_sorted h ((n # ns) # bs)"
  unfolding bins_sorted_Cons list.sel using uniform_bin_pop [of h e n ns] by metis

lemma bins_sorted_insert:
  "bins_sorted h bs \<Longrightarrow> bins_sorted h (bins_insert (key h) e bs)"
proof (induction bs)
  case (Cons b bs)
  have "key h (hd b) < key h (hd c)"
    if "key h (hd b) < key h e" "c \<in> set (bins_insert (key h) e bs)" for c
    using that Cons.prems hd_bins_insert [OF that(2)] by (auto simp: bins_sorted_Cons)
  then show ?case
    using Cons by (auto simp: bins_sorted_Cons uniform_bin_push dest: order_less_trans)
qed (simp add: bins_sorted_def)

lemma set_bins_insert: "set (concat (bins_insert k e bs)) = insert e (set (concat bs))"
  by (induction bs) auto

lemma distinct_bins_insert:
  "distinct (concat bs) \<Longrightarrow> e \<notin> set (concat bs) \<Longrightarrow> distinct (concat (bins_insert k e bs))"
proof (induction bs)
  case (Cons b bs)
  then show ?case using set_bins_insert [of k e bs] by auto
qed simp

lemma bin_seg_set_last:
  assumes "bin_seg h p (bs @ [t # ts]) r" and "distinct (concat (bs @ [t # ts]))"
  shows "bin_seg (h(t := (h t)\<lparr>nextBin := q\<rparr>)) p (bs @ [t # ts]) q"
proof -
  let ?h = "h(t := (h t)\<lparr>nextBin := q\<rparr>)"
  obtain m where 1: "bin_seg h p bs m" and 2: "bin_seg h m [t # ts] r"
    using assms(1) by (auto simp: bin_seg_append)
  have "bin_seg ?h p bs m = bin_seg h p bs m"
    using assms(2) bin_seg_nonempty [OF 1] by (intro bin_seg_frame) auto
  moreover have "in_chain ?h x ts = in_chain h x ts" for x
    by (rule in_chain_cong) simp
  ultimately show ?thesis using 1 2 by (auto simp: bin_seg_append)
qed

lemma links_only_insertBefore: "links_only h (snd (insertBefore h e cur))"
  by (auto simp: links_only_def insertBefore_def split: option.splits)

lemma links_only_nextBin: "links_only h h' \<Longrightarrow> links_only h (h'(p := (h' p)\<lparr>nextBin := q\<rparr>))"
  by (auto simp: links_only_def)

text \<open>What the walk finds: the bins before the wanted position, the top of the last of them, and the
  bins from there on.\<close>

lemma find_bin_walk:
  assumes "represents (h, Some c) ((c # cs) # bs)"
  obtains l t ts bs2 r where "(c # cs) # bs = l @ bs2" "l = butlast l @ [t # ts]"
    "find_bin h e c (nextBin (h c)) = Some (t, r)" "bin_seg h (Some c) l r" "bin_seg h r bs2 None"
    "r = (case bs2 of [] \<Rightarrow> None | b # _ \<Rightarrow> Some (hd b))"
    "\<And>b. b \<in> set l \<Longrightarrow> b = c # cs \<or> key h (hd b) < key h e"
    "\<And>b bs3. bs2 = b # bs3 \<Longrightarrow> key h e \<le> key h (hd b)"
proof -
  let ?P = "\<lambda>b. key h (hd b) < key h e"
  define bs1 bs2 where "bs1 = takeWhile ?P bs" and "bs2 = dropWhile ?P bs"
  define l where "l = (c # cs) # bs1"
  have seg: "bin_seg h (Some c) ((c # cs) # bs) None" using assms by (simp add: represents_def)
  have split: "(c # cs) # bs = l @ bs2" by (simp add: l_def bs1_def bs2_def)
  with seg obtain r where r1: "bin_seg h (Some c) l r" and r2: "bin_seg h r bs2 None"
    by (auto simp: bin_seg_append)
  obtain t ts where last: "last l = t # ts"
    using bin_seg_nonempty [OF r1] by (metis l_def last_in_set list.distinct(1) list.exhaust)
  have l: "l = butlast l @ [t # ts]"
    using last append_butlast_last_id [of l] by (simp add: l_def)
  have r: "r = (case bs2 of [] \<Rightarrow> None | b # _ \<Rightarrow> Some (hd b))"
    using r2 bin_seg_hd [OF r2] by (cases bs2) auto
  have fb: "find_bin h e c (nextBin (h c)) = Some (t, r)"
    using find_bin_split [OF seg, of e] last unfolding Let_def r bs1_def bs2_def l_def by simp
  have "b = c # cs \<or> ?P b" if "b \<in> set l" for b
    using that by (auto simp: l_def bs1_def dest: set_takeWhileD)
  moreover have "key h e \<le> key h (hd b)" if "bs2 = b # bs3" for b bs3
    using hd_dropWhile [of ?P bs] that unfolding bs2_def by (metis list.discI list.sel(1) not_less)
  ultimately show ?thesis using that split l fb r1 r2 r by metis
qed

text \<open>Relinking: the last top before the position is pointed at a new tail.\<close>

lemma bin_seg_relink:
  assumes l: "l = butlast l @ [t # ts]" and seg: "bin_seg h hp l r" and dist: "distinct (concat l)"
    and frame: "\<And>x. x \<in> set (concat l) \<Longrightarrow> h' x = h x"
    and new: "bin_seg h' p bs None" and disj: "set (concat l) \<inter> set (concat bs) = {}"
  shows "bin_seg (h'(t := (h' t)\<lparr>nextBin := p\<rparr>)) hp (l @ bs) None"
proof -
  let ?h = "h'(t := (h' t)\<lparr>nextBin := p\<rparr>)"
  have "bin_seg h' hp l r = bin_seg h hp l r"
    using bin_seg_nonempty [OF seg] by (intro bin_seg_frame frame)
  with seg have "bin_seg ?h hp (butlast l @ [t # ts]) p"
    using bin_seg_set_last [of h' hp "butlast l" t ts r p] dist l by metis
  then have 1: "bin_seg ?h hp l p" using l by metis
  have "t \<in> set (concat l)" by (subst l) simp
  with disj have "t \<notin> set (concat bs)" by blast
  then have "bin_seg ?h p bs None = bin_seg h' p bs None"
    using bin_seg_nonempty [OF new] by (intro bin_seg_frame) auto
  with new 1 show ?thesis by (auto simp: bin_seg_append)
qed

text \<open>\<open>insert\<close> implements the insertion on bins, and always returns.\<close>

lemma eq_insert_refines:
  assumes rep: "represents (h, hp) bs" and new: "e \<notin> set (concat bs)"
  shows "\<exists>h' hp'. eq_insert e (h, hp) = Some (h', hp')
    \<and> represents (h', hp') (bins_insert (key h) e bs) \<and> links_only h h'"
proof -
  from rep have seg: "bin_seg h hp bs None" and dist: "distinct (concat bs)" and srt: "bins_sorted h bs"
    by (auto simp: represents_def)
  have fin: "represents (h', hp') (bins_insert (key h) e bs)"
    if "bin_seg h' hp' (bins_insert (key h) e bs) None" "links_only h h'" for h' hp'
    using that srt dist new
    by (simp add: represents_def bins_sorted_links bins_sorted_insert distinct_bins_insert)
  have ib: "\<exists>h'. insertBefore h e p = (e, h') \<and> links_only h h'" for p
    using links_only_insertBefore [of h e p]
    by (auto simp: insertBefore_def split: option.splits if_splits)
  show ?thesis
  proof (cases "\<exists>b bs'. bs = b # bs' \<and> key h (hd b) < key h e")
    case False
    obtain h' where ib: "insertBefore h e hp = (e, h')" and lo: "links_only h h'" using ib by blast
    have "bin_seg h' (Some e) (bins_insert (key h) e bs) None"
      using False by (intro insertBefore_seg(2) [OF seg new _ ib]) auto
    moreover have "eq_insert e (h, hp) = Some (h', Some e)"
      using ib seg False
      by (cases bs; cases "hd bs") (auto simp: eq_insert_def ev_key not_less split: prod.splits)
    ultimately show ?thesis using fin lo by blast
  next
    case True
    then obtain c cs bs' where bs: "bs = (c # cs) # bs'" and less: "key h c < key h e"
      using seg by (metis bin_seg.simps(2) list.exhaust list.sel(1))
    have hp: "hp = Some c" using seg bs by simp
    obtain l t ts bs2 r where w: "(c # cs) # bs' = l @ bs2" "l = butlast l @ [t # ts]"
      "find_bin h e c (nextBin (h c)) = Some (t, r)" "bin_seg h (Some c) l r" "bin_seg h r bs2 None"
      "\<And>b. b \<in> set l \<Longrightarrow> b = c # cs \<or> key h (hd b) < key h e"
      "\<And>b bs3. bs2 = b # bs3 \<Longrightarrow> key h e \<le> key h (hd b)"
      using find_bin_walk [of h c cs bs' e] rep bs hp by metis
    obtain h1 where ib: "insertBefore h e r = (e, h1)" and lo: "links_only h h1" using ib by blast
    have el: "e \<notin> set (concat l)" and e2: "e \<notin> set (concat bs2)" using new bs w(1) by auto
    note ins = insertBefore_seg [OF w(5) e2 _ ib]
    let ?h' = "h1(t := (h1 t)\<lparr>nextBin := Some e\<rparr>)"
    have "bin_seg ?h' hp (l @ bins_insert (key h) e bs2) None"
    proof (rule bin_seg_relink [OF w(2)])
      show "h1 x = h x" if "x \<in> set (concat l)" for x using that el w(7) by (intro ins(3)) auto
      show "set (concat l) \<inter> set (concat (bins_insert (key h) e bs2)) = {}"
        using el dist bs w(1) unfolding set_bins_insert by auto
    qed (use hp w(4,7) ins(2) dist bs w(1) in auto)
    moreover have "bins_insert (key h) e bs = l @ bins_insert (key h) e bs2"
    proof -
      have "key h (hd b) < key h e" if "b \<in> set l" for b using w(6) [OF that] less by auto
      then show ?thesis unfolding bs w(1) by (rule bins_insert_append)
    qed
    moreover have "eq_insert e (h, hp) = Some (?h', hp)"
      using w(3) ib less hp by (simp add: eq_insert_def ev_key not_le [symmetric])
    ultimately show ?thesis using fin links_only_nextBin [OF lo] by metis
  qed
qed

subsection \<open>Removal\<close>

definition bins_remove :: "eid \<Rightarrow> eid list list \<Rightarrow> eid list list" where
  "bins_remove e bs = filter (\<lambda>b. b \<noteq> []) (map (remove1 e) bs)"

lemma bins_remove_notin: "[] \<notin> set bs \<Longrightarrow> e \<notin> set (concat bs) \<Longrightarrow> bins_remove e bs = bs"
  by (induction bs) (auto simp: bins_remove_def remove1_idem)

lemma bins_remove_append: "bins_remove e (as @ bs) = bins_remove e as @ bins_remove e bs"
  by (simp add: bins_remove_def)

lemma concat_bins_remove:
  "distinct (concat bs) \<Longrightarrow> concat (bins_remove e bs) = remove1 e (concat bs)"
proof (induction bs)
  case (Cons b bs)
  have "concat (bins_remove e bs) = concat bs" if "e \<in> set b"
  proof -
    have "e \<notin> set (concat bs)" using that Cons.prems by auto
    then show ?thesis using Cons by (simp add: remove1_idem)
  qed
  with Cons show ?case by (auto simp: bins_remove_def remove1_append remove1_idem)
qed (simp add: bins_remove_def)

lemma find_in_bin_chain:
  "in_chain h nx es \<Longrightarrow> find_in_bin h e cur nx =
    (if e \<in> set es then Some (last (cur # takeWhile (\<lambda>x. x \<noteq> e) es), Some e)
     else Some (last (cur # es), None))"
proof (induction es arbitrary: cur nx)
  case Nil
  then show ?case by (subst find_in_bin.simps) simp
next
  case (Cons x es)
  show ?case
  proof (cases "x = e")
    case False
    with Cons.prems have "find_in_bin h e cur nx = find_in_bin h e x (nextInBin (h x))"
      by (subst find_in_bin.simps) simp
    with Cons.IH [of "nextInBin (h x)" x] Cons.prems False show ?thesis by simp
  qed (use Cons.prems in \<open>subst find_in_bin.simps, simp\<close>)
qed

lemma chain_unlink:
  assumes "in_chain h (nextInBin (h t)) (us @ e # vs)" and "distinct (t # us @ e # vs)"
    and "c = last (t # us)" and "h' = h(c := (h c)\<lparr>nextInBin := nextInBin (h e)\<rparr>)"
  shows "in_chain h' (nextInBin (h' t)) (us @ vs)"
  using assms
proof (induction us arbitrary: t)
  case Nil
  then have "in_chain h' p vs = in_chain h p vs" for p by (intro in_chain_cong) auto
  with Nil show ?case by auto
next
  case (Cons u us)
  have "c \<noteq> t" using Cons.prems(2,3) by (metis distinct.simps(2) in_set_conv_decomp last.simps
        last_in_set list.distinct(1) append_Cons Un_iff set_append)
  with Cons.prems Cons.IH [of u] show ?case by auto
qed

lemma removeItem_found:
  assumes seg: "bin_seg h (Some t) ((t # ts) # bs) None" and dist: "distinct (concat ((t # ts) # bs))"
    and e: "e \<in> set (t # ts)"
  shows "\<exists>p h'. removeItem h e t = Some (Inr (p, h')) \<and>
    bin_seg h' p (bins_remove e [t # ts] @ bs) None \<and> links_only h h' \<and> (\<forall>x. x \<notin> set (t # ts) \<longrightarrow> h' x = h x)"
proof -
  have frame: "bin_seg h' p bs None = bin_seg h p bs None"
    if "\<forall>x. x \<notin> set (t # ts) \<longrightarrow> h' x = h x" for h' p
  proof (rule bin_seg_frame)
    fix x assume "x \<in> set (concat bs)"
    then have "x \<notin> set (t # ts)" using dist by auto
    then show "h' x = h x" using that by blast
  qed (use seg bin_seg_nonempty in auto)
  have chain: "in_chain h (nextInBin (h t)) ts" and rest: "bin_seg h (nextBin (h t)) bs None"
    using seg by auto
  show ?thesis
  proof (cases "e = t")
    case True
    show ?thesis
    proof (cases ts)
      case Nil
      with True chain rest show ?thesis
        by (auto simp: removeItem_def bins_remove_def links_only_def)
    next
      case (Cons n ns)
      let ?h = "h(n := (h n)\<lparr>nextBin := nextBin (h t)\<rparr>)"
      have "in_chain ?h p ns = in_chain h p ns" for p by (rule in_chain_cong) simp
      moreover have "bin_seg ?h (nextBin (h t)) bs None"
        using rest frame [of ?h] Cons by simp
      ultimately show ?thesis
        using True Cons chain
        by (auto simp: removeItem_def bins_remove_def links_only_def)
    qed
  next
    case False
    with e have "e \<in> set ts" by simp
    then obtain us vs where ts: "ts = us @ e # vs" and eus: "e \<notin> set us" by (auto dest: split_list_first)
    define c where "c = last (t # us)"
    define h' where "h' = h(c := (h c)\<lparr>nextInBin := nextInBin (h e)\<rparr>)"
    have cin: "c \<in> set (t # ts)" using ts unfolding c_def by (metis Un_iff append_Cons last_in_set list.distinct(1) set_append)
    have "in_chain h' (nextInBin (h' t)) (us @ vs)"
      using chain dist ts by (intro chain_unlink [OF _ _ c_def h'_def]) auto
    moreover have "takeWhile (\<lambda>x. x \<noteq> e) ts = us"
      using eus ts by (simp add: takeWhile_append)
    then have "removeItem h e t = Some (Inr (Some t, h'))"
      using False find_in_bin_chain [OF chain, of e t] \<open>e \<in> set ts\<close>
      by (simp add: removeItem_def c_def h'_def)
    moreover have "bin_seg h' (nextBin (h' t)) bs None"
      using rest frame [of h'] cin by (auto simp: h'_def)
    moreover have "bins_remove e [t # ts] = [t # us @ vs]"
      using False eus ts by (simp add: bins_remove_def remove1_append)
    moreover have "links_only h h'" by (auto simp: links_only_def h'_def)
    moreover have "\<forall>x. x \<notin> set (t # ts) \<longrightarrow> h' x = h x" using cin by (auto simp: h'_def)
    ultimately show ?thesis by auto
  qed
qed

lemma removeItem_missing:
  assumes "bin_seg h (Some t) ((t # ts) # bs) None" and "e \<notin> set (t # ts)"
  shows "removeItem h e t = Some (Inl EventNotFound)"
  using assms find_in_bin_chain [of h "nextInBin (h t)" ts e t] by (auto simp: removeItem_def)

lemma bin_key_unique:
  assumes "bins_sorted h (as @ b # cs)" and "key h e = key h (hd b)"
  shows "e \<notin> set (concat as)" and "e \<notin> set (concat cs)"
proof -
  have less: "\<forall>a \<in> set as. key h (hd a) < key h (hd b)" "\<forall>c \<in> set cs. key h (hd b) < key h (hd c)"
    using assms(1) by (auto simp: bins_sorted_def sorted_wrt_append)
  show "e \<notin> set (concat as)" "e \<notin> set (concat cs)"
    using less assms(2) bins_sortedD [OF assms(1)] by fastforce+
qed

lemma key_not_in_bins:
  assumes "bins_sorted h bs" and "\<And>b. b \<in> set bs \<Longrightarrow> key h (hd b) \<noteq> key h e"
  shows "e \<notin> set (concat bs)"
  using assms(2) bins_sortedD [OF assms(1)] by fastforce

lemma bins_sorted_remove:
  assumes "bins_sorted h bs"
  shows "bins_sorted h (bins_remove e bs)"
  using assms
proof (induction bs)
  case (Cons b bs)
  have hd: "key h (hd (remove1 e c)) = key h (hd c)"
    if "remove1 e c \<noteq> []" "uniform_bin h c" for c
    using that hd_in_set [OF that(1)] set_remove1_subset [of e c] unfolding uniform_bin_def by blast
  have u: "uniform_bin h (remove1 e c)" if "uniform_bin h c" for c
    using that hd [OF _ that] set_remove1_subset [of e c] unfolding uniform_bin_def
    by (metis empty_iff empty_set subsetD)
  have "key h (hd b) < key h (hd c)" if "c \<in> set (bins_remove e bs)" for c
  proof -
    from that obtain c0 where "c0 \<in> set bs" "c = remove1 e c0" "c \<noteq> []" by (auto simp: bins_remove_def)
    with Cons.prems hd [of c0] show ?thesis by (auto simp: bins_sorted_Cons bins_sorted_def)
  qed
  with Cons hd [of b] u [of b] show ?case
    by (auto simp: bins_sorted_Cons bins_remove_def)
qed (simp add: bins_remove_def bins_sorted_def)

lemma distinct_bins_remove: "distinct (concat bs) \<Longrightarrow> distinct (concat (bins_remove e bs))"
  by (simp add: concat_bins_remove distinct_remove1)

text \<open>\<open>remove\<close> always returns: it unlinks a queued event, and panics exactly when the event is not
  in the queue.\<close>

lemma eq_remove_head:
  assumes rep: "represents (h, Some c) ((c # cs) # bs)" and key: "key h c = key h e"
  shows "if e \<in> set (c # cs)
    then \<exists>h' hp'. eq_remove e (h, Some c) = Some (Inr (h', hp'))
      \<and> bin_seg h' hp' (bins_remove e ((c # cs) # bs)) None \<and> links_only h h'
    else eq_remove e (h, Some c) = Some (Inl EventNotFound)" and "e \<notin> set (concat bs)"
proof -
  from rep have seg: "bin_seg h (Some c) ((c # cs) # bs) None"
    and dist: "distinct (concat ((c # cs) # bs))" and srt: "bins_sorted h ((c # cs) # bs)"
    by (auto simp: represents_def)
  show out: "e \<notin> set (concat bs)"
    using bin_key_unique(2) [of h "[]" "c # cs" bs e] srt key by simp
  have "bins_remove e ((c # cs) # bs) = bins_remove e [c # cs] @ bs"
    using bins_remove_append [of e "[c # cs]" bs] bins_remove_notin [OF _ out]
      bin_seg_nonempty [OF seg] by simp
  with removeItem_found [OF seg dist, of e] removeItem_missing [OF seg, of e] key
  show "if e \<in> set (c # cs)
    then \<exists>h' hp'. eq_remove e (h, Some c) = Some (Inr (h', hp'))
      \<and> bin_seg h' hp' (bins_remove e ((c # cs) # bs)) None \<and> links_only h h'
    else eq_remove e (h, Some c) = Some (Inl EventNotFound)"
    by (auto simp: eq_remove_def ev_key)
qed

lemma eq_remove_later:
  assumes rep: "represents (h, Some c) ((c # cs) # bs)" and key: "key h c \<noteq> key h e"
  shows "if e \<in> set (concat ((c # cs) # bs))
    then \<exists>h' hp'. eq_remove e (h, Some c) = Some (Inr (h', hp'))
      \<and> bin_seg h' hp' (bins_remove e ((c # cs) # bs)) None \<and> links_only h h'
    else eq_remove e (h, Some c) = Some (Inl EventNotFound)"
proof -
  obtain l t ts bs2 r where w: "(c # cs) # bs = l @ bs2" "l = butlast l @ [t # ts]"
    "find_bin h e c (nextBin (h c)) = Some (t, r)" "bin_seg h (Some c) l r" "bin_seg h r bs2 None"
    "r = (case bs2 of [] \<Rightarrow> None | b # _ \<Rightarrow> Some (hd b))"
    "\<And>b. b \<in> set l \<Longrightarrow> b = c # cs \<or> key h (hd b) < key h e"
    "\<And>b bs3. bs2 = b # bs3 \<Longrightarrow> key h e \<le> key h (hd b)"
    by (rule find_bin_walk [OF rep, of e], rule that)
  from rep w(1) have dist: "distinct (concat (l @ bs2))" and srt: "bins_sorted h (l @ bs2)"
    by (auto simp: represents_def)
  have srtl: "bins_sorted h l" and srt2: "bins_sorted h bs2"
    using srt by (auto simp: bins_sorted_def sorted_wrt_append)
  have "key h (hd b) \<noteq> key h e" if "b \<in> set l" for b using w(7) [OF that] key by auto
  then have el: "e \<notin> set (concat l)" by (rule key_not_in_bins [OF srtl])
  have disj: "set (concat l) \<inter> set (concat bs2) = {}"
    using dist unfolding concat_append distinct_append by simp
  have ne: "[] \<notin> set l" "[] \<notin> set bs2" using bin_seg_nonempty [OF w(4)] bin_seg_nonempty [OF w(5)] by auto
  show ?thesis
  proof (cases "\<exists>q qs bs3. bs2 = (q # qs) # bs3 \<and> key h q = key h e")
    case noteq: False
    have later: "key h e < key h (hd b)" if "b \<in> set bs2" for b
    proof -
      from that obtain d bs3 where bs2: "bs2 = d # bs3" by (cases bs2) auto
      with ne noteq have "key h (hd d) \<noteq> key h e" by (cases d) auto
      with w(8) [OF bs2] have "key h e < key h (hd d)" by simp
      with that srt bs2 show ?thesis
        by (auto simp: bins_sorted_def sorted_wrt_append dest: order_less_trans)
    qed
    have "key h (hd b) \<noteq> key h e" if "b \<in> set bs2" for b
      using later [OF that] by simp
    then have "e \<notin> set (concat bs2)" by (rule key_not_in_bins [OF srt2])
    moreover have "eq_remove e (h, Some c) = Some (Inl EventNotFound)"
    proof (cases bs2)
      case (Cons d bs3)
      with later [of d] w(3,6) key show ?thesis by (auto simp: eq_remove_def ev_key)
    qed (use w(3,6) key in \<open>auto simp: eq_remove_def ev_key\<close>)
    ultimately show ?thesis using el unfolding w(1) by simp
  next
    case True
    then obtain q qs bs3 where bs2: "bs2 = (q # qs) # bs3" and kq: "key h q = key h e" by auto
    have e3: "e \<notin> set (concat bs3)"
      using bin_key_unique(2) [of h l "q # qs" bs3 e] srt bs2 kq by simp
    have rq: "r = Some q" using w(6) bs2 by simp
    have seg2: "bin_seg h (Some q) ((q # qs) # bs3) None" and dist2: "distinct (concat ((q # qs) # bs3))"
      using w(5) rq bs2 dist by auto
    show ?thesis
    proof (cases "e \<in> set (q # qs)")
      case False
      then have "eq_remove e (h, Some c) = Some (Inl EventNotFound)"
        using removeItem_missing [OF seg2 False] w(3) rq kq key by (simp add: eq_remove_def ev_key)
      moreover have "e \<notin> set (concat ((c # cs) # bs))"
        unfolding w(1) bs2 using False el e3 by simp
      ultimately show ?thesis by (simp only: if_False)
    next
      case ein: True
      obtain p h' where rm: "removeItem h e q = Some (Inr (p, h'))"
        and sp: "bin_seg h' p (bins_remove e [q # qs] @ bs3) None" and lo: "links_only h h'"
        and frame: "\<forall>x. x \<notin> set (q # qs) \<longrightarrow> h' x = h x"
        using removeItem_found [OF seg2 dist2 ein] by blast
      have sub: "set (concat (bins_remove e [q # qs])) \<subseteq> set (q # qs)"
        using set_remove1_subset [of e "q # qs"] by (auto simp: bins_remove_def)
      have seg': "bin_seg (h'(t := (h' t)\<lparr>nextBin := p\<rparr>)) (Some c) (l @ bins_remove e [q # qs] @ bs3) None"
      proof (rule bin_seg_relink [OF w(2,4)])
        show "h' x = h x" if "x \<in> set (concat l)" for x
        proof -
          have "x \<notin> set (q # qs)" using that disj bs2 by auto
          then show ?thesis using frame by blast
        qed
        have "set (concat (bins_remove e [q # qs] @ bs3)) \<subseteq> set (concat bs2)"
          using sub bs2 by auto
        then show "set (concat l) \<inter> set (concat (bins_remove e [q # qs] @ bs3)) = {}"
          using disj by blast
      qed (use dist sp in auto)
      have rem': "bins_remove e ((c # cs) # bs) = l @ bins_remove e [q # qs] @ bs3"
        using bins_remove_append [of e l "[q # qs] @ bs3"] bins_remove_append [of e "[q # qs]" bs3]
          bins_remove_notin [OF ne(1) el] bins_remove_notin [OF _ e3] ne(2) bs2 w(1) by simp
      have eq': "eq_remove e (h, Some c) = Some (Inr (h'(t := (h' t)\<lparr>nextBin := p\<rparr>), Some c))"
        using w(3) rq rm kq key by (simp add: eq_remove_def ev_key)
      have "e \<in> set (concat ((c # cs) # bs))" unfolding w(1) bs2 using ein by auto
      then show ?thesis
        using seg' eq' links_only_nextBin [OF lo, of t p] unfolding rem' by simp
    qed
  qed
qed

lemma eq_remove_refines:
  assumes rep: "represents (h, hp) bs"
  shows "if e \<in> set (concat bs)
    then \<exists>h' hp'. eq_remove e (h, hp) = Some (Inr (h', hp'))
      \<and> represents (h', hp') (bins_remove e bs) \<and> links_only h h'
    else eq_remove e (h, hp) = Some (Inl EventNotFound)"
proof -
  have fin: "represents (h', hp') (bins_remove e bs)"
    if "bin_seg h' hp' (bins_remove e bs) None" "links_only h h'" for h' hp'
    using that rep
    by (simp add: represents_def bins_sorted_links bins_sorted_remove distinct_bins_remove)
  show ?thesis
  proof (cases bs)
    case Nil
    with rep show ?thesis by (simp add: represents_def eq_remove_def)
  next
    case (Cons b bs')
    then obtain c cs where bs: "bs = (c # cs) # bs'" and hp: "hp = Some c"
      using rep by (cases b) (auto simp: represents_def)
    show ?thesis
    proof (cases "key h c = key h e")
      case True
      with eq_remove_head [of h c cs bs' e] rep fin show ?thesis unfolding bs hp
        by (auto split: if_splits)
    next
      case False
      with eq_remove_later [of h c cs bs' e] rep fin show ?thesis unfolding bs hp
        by (auto split: if_splits)
    qed
  qed
qed

subsection \<open>The queue operations on the abstract queue\<close>

text \<open>The abstract queue is the list \<open>xs\<close> of queued events in service order.  Scheduled events are
  exactly those of the queue and of the asynchronous list, and no queued event lies in the past.\<close>

definition eq_inv :: "event_queue \<Rightarrow> eid list \<Rightarrow> bool" where
  "eq_inv q xs \<longleftrightarrow> (\<exists>bs. represents (events q, head q) bs \<and> concat bs = xs)
     \<and> distinct (xs @ async_queue q)
     \<and> (\<forall>x. scheduled (events q x) \<longleftrightarrow> x \<in> set xs \<or> x \<in> set (async_queue q))
     \<and> (\<forall>x \<in> set xs. curTick q \<le> ev_when (events q x))"

lemma represents_sorted:
  assumes "represents (h, hp) bs"
  shows "sorted (map (key h) (concat bs))"
proof -
  have "bins_sorted h bs" using assms by (simp add: represents_def)
  then show ?thesis
  proof (induction bs)
    case (Cons b bs)
    have b: "key h x = key h (hd b)" if "x \<in> set b" for x
      by (rule bins_sortedD [OF Cons.prems]) (use that in simp_all)
    have "key h x \<le> key h y" if "x \<in> set b" "c \<in> set bs" "y \<in> set c" for x c y
      using b [OF that(1)] bins_sortedD [OF Cons.prems, of c y] that Cons.prems
      by (auto simp: bins_sorted_Cons)
    moreover have "sorted (map (key h) b)"
      by (auto simp: sorted_iff_nth_mono b)
    ultimately show ?case
      using Cons by (auto simp: bins_sorted_Cons sorted_append)
  qed simp
qed

lemma represents_upd:
  assumes "represents (h, hp) bs" and "\<And>x. x \<in> set (concat bs) \<Longrightarrow> nextBin (h' x) = nextBin (h x)
      \<and> nextInBin (h' x) = nextInBin (h x) \<and> ev_when (h' x) = ev_when (h x) \<and> priority (h' x) = priority (h x)"
  shows "represents (h', hp) bs"
proof -
  have ne: "[] \<notin> set bs" using assms(1) by (auto simp: represents_def dest: bin_seg_nonempty)
  have hd: "hd b \<in> set (concat bs)" if "b \<in> set bs" for b
    using that ne by (auto intro!: bexI [of _ b] hd_in_set)
  have "bin_seg h' hp bs None = bin_seg h hp bs None"
    using assms(2) hd by (intro bin_seg_cong) auto
  moreover have k: "key h' x = key h x" if "x \<in> set (concat bs)" for x
    using assms(2) [OF that] by (simp add: key_def)
  have khd: "key h' (hd b) = key h (hd b)" if "b \<in> set bs" for b by (intro k hd that)
  have kb: "key h' x = key h x" if "b \<in> set bs" "x \<in> set b" for b x using that by (intro k) auto
  have "uniform_bin h' b = uniform_bin h b" if "b \<in> set bs" for b
    unfolding uniform_bin_def by (simp add: kb [OF that] khd [OF that])
  moreover have "sorted_wrt (\<lambda>b c. key h' (hd b) < key h' (hd c)) bs
      = sorted_wrt (\<lambda>b c. key h (hd b) < key h (hd c)) bs"
    unfolding sorted_wrt_iff_nth_less by (simp add: khd)
  ultimately show ?thesis using assms(1) by (auto simp: represents_def bins_sorted_def)
qed

lemma represents_concat_insert:
  assumes "represents (h, hp) bs"
  shows "concat (bins_insert (key h) e bs) = insort_key (key h) e (concat bs)"
proof (rule concat_bins_insert)
  show "b \<noteq> []" if "b \<in> set bs" for b
    using that assms by (auto simp: represents_def dest: bin_seg_nonempty)
  show "key h x = key h (hd b)" if "b \<in> set bs" "x \<in> set b" for b x
    using assms that by (auto simp: represents_def dest: bins_sortedD)
qed

lemma schedule_sync:
  assumes inv: "eq_inv q xs" and t: "curTick q \<le> t" and new: "\<not> scheduled (events q e)"
  shows "\<exists>q'. schedule False e t q = Some (Inr q') \<and> eq_inv q' (insort_key (key (events q')) e xs)
    \<and> ev_when (events q' e) = t \<and> priority (events q' e) = priority (events q e)
    \<and> squashed (events q' e) = squashed (events q e)
    \<and> (\<forall>x. x \<noteq> e \<longrightarrow> ev_when (events q' x) = ev_when (events q x) \<and> priority (events q' x) = priority (events q x)
        \<and> scheduled (events q' x) = scheduled (events q x) \<and> squashed (events q' x) = squashed (events q x))
    \<and> curTick q' = curTick q \<and> async_queue q' = async_queue q"
proof -
  obtain bs where rep: "represents (events q, head q) bs" and xs: "concat bs = xs"
    using inv by (auto simp: eq_inv_def)
  let ?h = "(events q)(e := (events q e)\<lparr>ev_when := t\<rparr>)"
  have enew: "e \<notin> set xs" "e \<notin> set (async_queue q)" using inv new by (auto simp: eq_inv_def)
  have rep1: "represents (?h, head q) bs"
    using enew xs by (intro represents_upd [OF rep]) auto
  obtain h' hp' where ins: "eq_insert e (?h, head q) = Some (h', hp')"
    and rep': "represents (h', hp') (bins_insert (key ?h) e bs)" and lo: "links_only ?h h'"
    using eq_insert_refines [OF rep1] enew xs by blast
  let ?q' = "q\<lparr>events := h'(e := (h' e)\<lparr>scheduled := True\<rparr>), head := hp'\<rparr>"
  have sched: "schedule False e t q = Some (Inr ?q')"
    using t new ins by (simp add: schedule_def lift_queue_def)
  have keys: "key (events ?q') = key ?h"
    using links_only_key [OF lo] by (auto simp: key_def fun_eq_iff)
  have conc: "concat (bins_insert (key ?h) e bs) = insort_key (key ?h) e xs"
    using represents_concat_insert [OF rep1, of e] xs by simp
  have rep2: "represents (events ?q', head ?q') (bins_insert (key ?h) e bs)"
    by (simp, rule represents_upd [OF rep']) simp
  have "eq_inv ?q' (insort_key (key ?h) e xs)"
    unfolding eq_inv_def
  proof (intro conjI)
    show "\<exists>bs. represents (events ?q', head ?q') bs \<and> concat bs = insort_key (key ?h) e xs"
      using rep2 conc by blast
    show "distinct (insort_key (key ?h) e xs @ async_queue ?q')"
      using inv enew by (simp add: eq_inv_def distinct_insort set_insort_key)
    show "\<forall>x. scheduled (events ?q' x) \<longleftrightarrow> x \<in> set (insort_key (key ?h) e xs) \<or> x \<in> set (async_queue ?q')"
      using inv links_only_data(3) [OF lo] by (simp add: eq_inv_def set_insort_key)
    show "\<forall>x \<in> set (insort_key (key ?h) e xs). curTick ?q' \<le> ev_when (events ?q' x)"
      using inv t links_only_data(1) [OF lo] by (simp add: eq_inv_def set_insort_key)
  qed
  then have "eq_inv ?q' (insort_key (key (events ?q')) e xs)" unfolding keys .
  then show ?thesis
    using sched links_only_data [OF lo] by (intro exI [of _ ?q'] conjI) simp_all
qed

lemma schedule_rejects:
  "t < curTick q \<or> scheduled (events q e) \<Longrightarrow> schedule async e t q = Some (Inl AssertFailed)"
  by (auto simp: schedule_def)

lemma eq_remove_inv:
  assumes inv: "eq_inv q xs" and e: "e \<in> set xs"
  obtains h' hp' where "eq_remove e (events q, head q) = Some (Inr (h', hp'))"
    "\<exists>bs. represents (h', hp') bs \<and> concat bs = remove1 e xs" "links_only (events q) h'"
proof -
  obtain bs where rep: "represents (events q, head q) bs" and xs: "concat bs = xs"
    using inv by (auto simp: eq_inv_def)
  then have "distinct (concat bs)" by (simp add: represents_def)
  then have "concat (bins_remove e bs) = remove1 e xs" using xs by (simp add: concat_bins_remove)
  then show ?thesis using that eq_remove_refines [OF rep, of e] e xs by auto
qed

lemma deschedule_queued:
  assumes inv: "eq_inv q xs" and e: "e \<in> set xs"
  shows "\<exists>q'. deschedule e q = Some (Inr q') \<and> eq_inv q' (remove1 e xs)
    \<and> \<not> squashed (events q' e) \<and> curTick q' = curTick q
    \<and> (\<forall>x. ev_when (events q' x) = ev_when (events q x) \<and> priority (events q' x) = priority (events q x))"
proof -
  obtain h' hp' where r: "eq_remove e (events q, head q) = Some (Inr (h', hp'))"
    and rep: "\<exists>bs. represents (h', hp') bs \<and> concat bs = remove1 e xs" and lo: "links_only (events q) h'"
    using eq_remove_inv [OF inv e] .
  let ?q' = "q\<lparr>events := h'(e := (h' e)\<lparr>squashed := False, scheduled := False\<rparr>), head := hp'\<rparr>"
  have sch: "scheduled (events q e)" and dist: "distinct xs" using inv e by (auto simp: eq_inv_def)
  have "eq_inv ?q' (remove1 e xs)"
    unfolding eq_inv_def
  proof (intro conjI)
    show "\<exists>bs. represents (events ?q', head ?q') bs \<and> concat bs = remove1 e xs"
    proof -
      obtain bs where b: "represents (h', hp') bs" "concat bs = remove1 e xs" using rep by blast
      have "represents (events ?q', head ?q') bs" by (simp, rule represents_upd [OF b(1)]) simp
      with b(2) show ?thesis by blast
    qed
    show "distinct (remove1 e xs @ async_queue ?q')"
      using inv dist by (auto simp: eq_inv_def)
    show "\<forall>x. scheduled (events ?q' x) \<longleftrightarrow> x \<in> set (remove1 e xs) \<or> x \<in> set (async_queue ?q')"
      using inv e dist links_only_data(3) [OF lo] by (auto simp: eq_inv_def)
    show "\<forall>x \<in> set (remove1 e xs). curTick ?q' \<le> ev_when (events ?q' x)"
      using inv dist links_only_data(1) [OF lo] by (simp add: eq_inv_def)
  qed
  moreover have "deschedule e q = Some (Inr ?q')"
    using r sch by (simp add: deschedule_def lift_queue_def)
  ultimately show ?thesis
    using links_only_data [OF lo] by (intro exI [of _ ?q'] conjI) simp_all
qed

lemma deschedule_rejects:
  assumes "eq_inv q xs" and "e \<notin> set xs"
  shows "deschedule e q = Some (Inl (if scheduled (events q e) then EventNotFound else AssertFailed))"
proof -
  obtain bs where "represents (events q, head q) bs" "concat bs = xs"
    using assms by (auto simp: eq_inv_def)
  with eq_remove_refines [of "events q" "head q" bs e] assms(2) show ?thesis
    by (simp add: deschedule_def)
qed

text \<open>Rescheduling is descheduling, if the event is queued, followed by scheduling.\<close>

lemma reschedule_queued:
  assumes inv: "eq_inv q xs" and t: "curTick q \<le> t" and e: "e \<notin> set (async_queue q)"
    and al: "always \<or> scheduled (events q e)"
  shows "\<exists>q'. reschedule e t always q = Some (Inr q')
    \<and> eq_inv q' (insort_key (key (events q')) e (remove1 e xs))
    \<and> ev_when (events q' e) = t \<and> priority (events q' e) = priority (events q e)
    \<and> \<not> squashed (events q' e) \<and> curTick q' = curTick q
    \<and> (\<forall>x. x \<noteq> e \<longrightarrow> ev_when (events q' x) = ev_when (events q x) \<and> priority (events q' x) = priority (events q x))"
proof -
  have dist: "distinct xs" using inv by (simp add: eq_inv_def)
  have "\<exists>h1 hp1 bs. (if scheduled (events q e) then eq_remove e (events q, head q) else Some (Inr (events q, head q)))
      = Some (Inr (h1, hp1)) \<and> represents (h1, hp1) bs \<and> concat bs = remove1 e xs \<and> links_only (events q) h1"
  proof (cases "scheduled (events q e)")
    case True
    then have "e \<in> set xs" using inv e by (simp add: eq_inv_def)
    from eq_remove_inv [OF inv this] True show ?thesis by simp blast
  next
    case False
    then have "e \<notin> set xs" using inv by (simp add: eq_inv_def)
    with inv False show ?thesis by (auto simp: eq_inv_def links_only_def remove1_idem)
  qed
  then obtain h1 hp1 bs where rm: "(if scheduled (events q e) then eq_remove e (events q, head q)
      else Some (Inr (events q, head q))) = Some (Inr (h1, hp1))"
    and rep: "represents (h1, hp1) bs" and bs: "concat bs = remove1 e xs" and lo1: "links_only (events q) h1"
    by blast
  let ?h = "h1(e := (h1 e)\<lparr>ev_when := t\<rparr>)"
  have enew: "e \<notin> set (concat bs)" using bs dist by simp
  have rep1: "represents (?h, hp1) bs"
    using enew by (intro represents_upd [OF rep]) auto
  obtain h' hp' where ins: "eq_insert e (?h, hp1) = Some (h', hp')"
    and rep': "represents (h', hp') (bins_insert (key ?h) e bs)" and lo: "links_only ?h h'"
    using eq_insert_refines [OF rep1 enew] by blast
  let ?q' = "q\<lparr>events := h'(e := (h' e)\<lparr>squashed := False, scheduled := True\<rparr>), head := hp'\<rparr>"
  have keys: "key (events ?q') = key ?h"
    using links_only_key [OF lo] by (auto simp: key_def fun_eq_iff)
  have conc: "concat (bins_insert (key ?h) e bs) = insort_key (key ?h) e (remove1 e xs)"
    using represents_concat_insert [OF rep1, of e] bs by simp
  have rep2: "represents (events ?q', head ?q') (bins_insert (key ?h) e bs)"
    by (simp, rule represents_upd [OF rep']) simp
  have "eq_inv ?q' (insort_key (key ?h) e (remove1 e xs))"
    unfolding eq_inv_def
  proof (intro conjI)
    show "\<exists>bs. represents (events ?q', head ?q') bs \<and> concat bs = insort_key (key ?h) e (remove1 e xs)"
      using rep2 conc by blast
    show "distinct (insort_key (key ?h) e (remove1 e xs) @ async_queue ?q')"
      using inv e dist by (auto simp: eq_inv_def distinct_insort set_insort_key)
    show "\<forall>x. scheduled (events ?q' x) \<longleftrightarrow>
        x \<in> set (insort_key (key ?h) e (remove1 e xs)) \<or> x \<in> set (async_queue ?q')"
      using inv dist links_only_data(3) [OF lo] links_only_data(3) [OF lo1]
      by (auto simp: eq_inv_def set_insort_key)
    show "\<forall>x \<in> set (insort_key (key ?h) e (remove1 e xs)). curTick ?q' \<le> ev_when (events ?q' x)"
      using inv t dist links_only_data(1) [OF lo] links_only_data(1) [OF lo1]
      by (simp add: eq_inv_def set_insort_key)
  qed
  then have "eq_inv ?q' (insort_key (key (events ?q')) e (remove1 e xs))" unfolding keys .
  moreover have "reschedule e t always q = Some (Inr ?q')"
    using rm ins t al by (auto simp: reschedule_def lift_queue_def Let_def split: if_splits)
  ultimately show ?thesis
    using links_only_data [OF lo] links_only_data [OF lo1] by (intro exI [of _ ?q'] conjI) simp_all
qed

text \<open>The head of the queue, unlinked.\<close>

lemma pop_head_inv:
  assumes inv: "eq_inv q (e # xs)"
  shows "head q = Some e \<and> eq_inv (pop_head e q) xs \<and> curTick (pop_head e q) = curTick q
    \<and> async_queue (pop_head e q) = async_queue q
    \<and> (\<forall>x. ev_when (events (pop_head e q) x) = ev_when (events q x)
        \<and> priority (events (pop_head e q) x) = priority (events q x)
        \<and> squashed (events (pop_head e q) x) = squashed (events q x))"
proof -
  obtain bs where rep: "represents (events q, head q) bs" and xs: "concat bs = e # xs"
    using inv by (auto simp: eq_inv_def)
  then obtain b bs' where bs: "bs = b # bs'" by (cases bs) auto
  with rep obtain c es where "b = c # es" by (cases b) (auto simp: represents_def)
  with xs bs have b: "b = e # es" and conc: "es @ concat bs' = xs" by auto
  let ?h = "(events q)(e := (events q e)\<lparr>scheduled := False\<rparr>)"
  have seg: "bin_seg (events q) (head q) ((e # es) # bs') None" and dist: "distinct (concat ((e # es) # bs'))"
    and srt: "bins_sorted (events q) ((e # es) # bs')"
    using rep bs b by (auto simp: represents_def)
  have hd: "head q = Some e" using seg by simp
  have rep0: "represents (?h, head q) ((e # es) # bs')"
    using bs b by (intro represents_upd [OF rep [unfolded bs b]]) auto
  have seg0: "in_chain ?h (nextInBin (events q e)) es" "bin_seg ?h (nextBin (events q e)) bs' None"
    using rep0 by (auto simp: represents_def)
  define q1 where "q1 = pop_head e q"
  have lo: "links_only ?h (events q1)" by (auto simp: q1_def pop_head_def Let_def links_only_def split: option.splits)
  have ex: "\<exists>bs. represents (events q1, head q1) bs \<and> concat bs = xs"
  proof (cases es)
    case Nil
    with seg0 have "represents (?h, nextBin (events q e)) bs'"
      using rep0 by (auto simp: represents_def bins_sorted_Cons)
    with Nil conc seg show ?thesis by (auto simp: q1_def pop_head_def)
  next
    case (Cons n ns)
    with seg0 have nx: "nextInBin (events q e) = Some n" by simp
    let ?h1 = "?h(n := (?h n)\<lparr>nextBin := nextBin (?h e)\<rparr>)"
    have "in_chain ?h1 p ns = in_chain ?h p ns" for p by (rule in_chain_cong) simp
    moreover have "bin_seg ?h1 p bs' None = bin_seg ?h p bs' None" for p
      using dist Cons bin_seg_nonempty [OF seg0(2)] by (intro bin_seg_frame) auto
    ultimately have "bin_seg ?h1 (Some n) (es # bs') None" using seg0 Cons by auto
    moreover have "bins_sorted ?h1 (es # bs')"
    proof -
      have "key ?h1 x = key (events q) x" for x by (simp add: key_def)
      then have "bins_sorted ?h1 (es # bs') = bins_sorted (events q) (es # bs')"
        by (rule bins_sorted_cong)
      with srt Cons show ?thesis by (simp add: bins_sorted_pop)
    qed
    ultimately have "represents (?h1, Some n) (es # bs')" using dist by (simp add: represents_def)
    with nx conc show ?thesis by (auto simp: q1_def pop_head_def)
  qed
  have a: "async_queue q1 = async_queue q" "curTick q1 = curTick q"
    by (simp_all add: q1_def pop_head_def Let_def split: option.splits)
  have inv1: "eq_inv q1 xs"
    unfolding eq_inv_def
  proof (intro conjI ex)
    show "distinct (xs @ async_queue q1)" using inv a by (simp add: eq_inv_def)
    show "\<forall>x. scheduled (events q1 x) \<longleftrightarrow> x \<in> set xs \<or> x \<in> set (async_queue q1)"
      using inv a links_only_data(3) [OF lo] by (auto simp: eq_inv_def)
    show "\<forall>x \<in> set xs. curTick q1 \<le> ev_when (events q1 x)"
      using inv a links_only_data(1) [OF lo] by (auto simp: eq_inv_def)
  qed
  have d: "ev_when (events q1 x) = ev_when (events q x) \<and> priority (events q1 x) = priority (events q x)
       \<and> squashed (events q1 x) = squashed (events q x)" for x
    using links_only_data [OF lo, of x] by simp
  show ?thesis using hd inv1 a d unfolding q1_def by simp
qed

lemma serviceOne_empty:
  assumes "eq_inv q []"
  shows "serviceOne process q = Inl NullHead"
proof -
  obtain bs where r: "represents (events q, head q) bs" and c: "concat bs = []"
    using assms unfolding eq_inv_def by (elim conjE exE) (rule that)
  have "bs = []"
  proof (cases bs)
    case (Cons b bs')
    with r have "b \<noteq> []" by (cases b) (simp_all add: represents_def)
    moreover have "b = []" using c unfolding Cons concat.simps append_is_Nil_conv by (rule conjunct1)
    ultimately show ?thesis by contradiction
  qed
  with r show ?thesis by (simp add: represents_def serviceOne_def)
qed

lemma insert_all_refines:
  assumes "represents (h, hp) bs" and "distinct es" and "set es \<inter> set (concat bs) = {}"
  shows "\<exists>h' hp' bs'. insert_all es (h, hp) = Some (h', hp') \<and> represents (h', hp') bs'
    \<and> concat bs' = fold (insort_key (key h)) es (concat bs) \<and> links_only h h'"
  using assms
proof (induction es arbitrary: h hp bs)
  case Nil
  then show ?case by (auto simp: links_only_def)
next
  case (Cons e es)
  have "e \<notin> set (concat bs)" using Cons.prems(3) by auto
  from eq_insert_refines [OF Cons.prems(1) this] obtain h1 hp1 where
    i: "eq_insert e (h, hp) = Some (h1, hp1)" and r: "represents (h1, hp1) (bins_insert (key h) e bs)"
    and lo: "links_only h h1" by blast
  have k: "key h1 = key h" using links_only_key [OF lo] by (simp add: fun_eq_iff)
  have "set es \<inter> set (concat (bins_insert (key h) e bs)) = {}"
    using Cons.prems unfolding set_bins_insert by auto
  from Cons.IH [OF r _ this] Cons.prems obtain h' hp' bs' where
    "insert_all es (h1, hp1) = Some (h', hp')" "represents (h', hp') bs'"
    "concat bs' = fold (insort_key (key h1)) es (concat (bins_insert (key h) e bs))" "links_only h1 h'"
    by auto
  moreover have "links_only h h'" using lo \<open>links_only h1 h'\<close> by (simp add: links_only_def)
  ultimately show ?case
    using i represents_concat_insert [OF Cons.prems(1), of e] k by auto
qed

lemma set_fold_insort: "set (fold (insort_key k) es xs) = set es \<union> set xs"
  by (induction es arbitrary: xs) (auto simp: set_insort_key)

lemma distinct_fold_insort:
  "distinct (es @ xs) \<Longrightarrow> distinct (fold (insort_key k) es xs)"
  by (induction es arbitrary: xs) (auto simp: set_insort_key distinct_insort)

lemma handleAsyncInsertions_inv:
  assumes inv: "eq_inv q xs" and fut: "\<forall>e \<in> set (async_queue q). curTick q \<le> ev_when (events q e)"
  shows "\<exists>q'. handleAsyncInsertions q = Some q' \<and> async_queue q' = [] \<and> curTick q' = curTick q
    \<and> eq_inv q' (fold (insort_key (key (events q))) (async_queue q) xs)"
proof -
  obtain bs where rep: "represents (events q, head q) bs" and xs: "concat bs = xs"
    using inv by (auto simp: eq_inv_def)
  have dist: "distinct (async_queue q)" "set (async_queue q) \<inter> set (concat bs) = {}"
    using inv xs by (auto simp: eq_inv_def)
  obtain h' hp' bs' where ins: "insert_all (async_queue q) (events q, head q) = Some (h', hp')"
    and r: "represents (h', hp') bs'" and c: "concat bs' = fold (insort_key (key (events q))) (async_queue q) (concat bs)"
    and lo: "links_only (events q) h'"
    using insert_all_refines [OF rep dist] by blast
  let ?q' = "q\<lparr>events := h', head := hp', async_queue := []\<rparr>"
  have "eq_inv ?q' (fold (insort_key (key (events q))) (async_queue q) xs)"
    unfolding eq_inv_def
  proof (intro conjI)
    show "\<exists>bs. represents (events ?q', head ?q') bs
        \<and> concat bs = fold (insort_key (key (events q))) (async_queue q) xs"
      using r c xs by auto
    show "distinct (fold (insort_key (key (events q))) (async_queue q) xs @ async_queue ?q')"
    proof -
      have "distinct (async_queue q @ xs)" using inv unfolding eq_inv_def distinct_append by blast
      then show ?thesis by (simp add: distinct_fold_insort)
    qed
    show "\<forall>x. scheduled (events ?q' x) \<longleftrightarrow>
        x \<in> set (fold (insort_key (key (events q))) (async_queue q) xs) \<or> x \<in> set (async_queue ?q')"
      using inv links_only_data(3) [OF lo] by (auto simp: eq_inv_def set_fold_insort)
    show "\<forall>x \<in> set (fold (insort_key (key (events q))) (async_queue q) xs). curTick ?q' \<le> ev_when (events ?q' x)"
      using inv fut links_only_data(1) [OF lo] by (auto simp: eq_inv_def set_fold_insort)
  qed
  then show ?thesis using ins by (auto simp: handleAsyncInsertions_def lift_queue_def)
qed

subsection \<open>The queue as a state machine\<close>

text \<open>One step is one operation of the interface.  The handler of a serviced event acts through
  further steps, so \<open>serviceOne\<close> appears here with the empty handler.\<close>

inductive eq_step :: "event_queue \<Rightarrow> event_queue \<Rightarrow> bool" where
  step_schedule: "schedule async e t q = Some (Inr q') \<Longrightarrow> eq_step q q'"
| step_deschedule: "deschedule e q = Some (Inr q') \<Longrightarrow> eq_step q q'"
| step_reschedule: "e \<notin> set (async_queue q) \<Longrightarrow> reschedule e t always q = Some (Inr q') \<Longrightarrow> eq_step q q'"
| step_squash: "eq_step q (q\<lparr>events := (events q)(e := (events q e)\<lparr>squashed := True\<rparr>)\<rparr>)"
| step_service: "serviceOne (\<lambda>_ q. q) q = Inr (r, q') \<Longrightarrow> eq_step q q'"
| step_async: "\<forall>e \<in> set (async_queue q). curTick q \<le> ev_when (events q e) \<Longrightarrow>
    handleAsyncInsertions q = Some q' \<Longrightarrow> eq_step q q'"

lemma eq_inv_upd:
  assumes "eq_inv q xs" and "\<And>x. nextBin (h x) = nextBin (events q x) \<and> nextInBin (h x) = nextInBin (events q x)
      \<and> ev_when (h x) = ev_when (events q x) \<and> priority (h x) = priority (events q x)
      \<and> scheduled (h x) = scheduled (events q x)"
  shows "eq_inv (q\<lparr>events := h\<rparr>) xs"
proof -
  obtain bs where rep: "represents (events q, head q) bs" and xs: "concat bs = xs"
    using assms(1) by (auto simp: eq_inv_def)
  have "represents (h, head q) bs" using assms(2) by (intro represents_upd [OF rep]) simp
  with xs assms show ?thesis by (auto simp: eq_inv_def)
qed

lemma eq_inv_setTick:
  assumes "eq_inv q xs" and "\<forall>x \<in> set xs. t \<le> ev_when (events q x)"
  shows "eq_inv (q\<lparr>curTick := t\<rparr>) xs"
  using assms by (simp add: eq_inv_def)

lemma eq_inv_sorted: "eq_inv q xs \<Longrightarrow> sorted (map (key (events q)) xs)"
  using represents_sorted by (auto simp: eq_inv_def)

lemma key_le_when: "key h a \<le> key h b \<Longrightarrow> ev_when (h a) \<le> ev_when (h b)"
  by (auto simp: key_def less_eq_prod_def)

lemma serviceOne_inv:
  assumes inv: "eq_inv q (e # xs)" and s: "serviceOne (\<lambda>_ q. q) q = Inr (r, q')"
  shows "eq_inv q' xs \<and> curTick q' = (if squashed (events q e) then curTick q else ev_when (events q e))"
proof -
  note p = pop_head_inv [OF inv]
  have min: "ev_when (events q e) \<le> ev_when (events q x)" if "x \<in> set xs" for x
    using eq_inv_sorted [OF inv] that by (auto intro: key_le_when)
  show ?thesis
  proof (cases "squashed (events q e)")
    case True
    with p s have "q' = (pop_head e q)\<lparr>events := (events (pop_head e q))(e :=
        (events (pop_head e q) e)\<lparr>squashed := False\<rparr>)\<rparr>" by (simp add: serviceOne_def Let_def)
    moreover have "eq_inv \<dots> xs" using p by (intro eq_inv_upd) auto
    ultimately show ?thesis using p True by simp
  next
    case False
    with p s have "q' = (pop_head e q)\<lparr>curTick := ev_when (events q e)\<rparr>"
      by (simp add: serviceOne_def Let_def)
    moreover have "eq_inv \<dots> xs" using p min by (intro eq_inv_setTick) auto
    ultimately show ?thesis using False by simp
  qed
qed

lemma schedule_async_inv:
  assumes inv: "eq_inv q xs" and s: "schedule True e t q = Some (Inr q')"
  shows "eq_inv q' xs \<and> curTick q' = curTick q"
proof -
  have ok: "curTick q \<le> t" "\<not> scheduled (events q e)" and
    q': "q' = q\<lparr>events := (events q)(e := (events q e)\<lparr>ev_when := t, scheduled := True\<rparr>),
      async_queue := async_queue q @ [e]\<rparr>"
    using s by (auto simp: schedule_def asyncInsert_def Let_def split: if_splits)
  have new: "e \<notin> set xs" "e \<notin> set (async_queue q)" using inv ok by (auto simp: eq_inv_def)
  obtain bs where rep: "represents (events q, head q) bs" and xs: "concat bs = xs"
    using inv by (auto simp: eq_inv_def)
  have "represents (events q', head q') bs"
    using new xs unfolding q' by (simp, intro represents_upd [OF rep]) auto
  with xs show ?thesis using inv new unfolding eq_inv_def q' by auto
qed

lemma eq_step_inv:
  assumes "eq_step q q'" and inv: "eq_inv q xs"
  shows "(\<exists>ys. eq_inv q' ys) \<and> curTick q \<le> curTick q'"
  using assms(1)
proof cases
  case (step_schedule async e t)
  then have ok: "curTick q \<le> t" "\<not> scheduled (events q e)"
    by (auto simp: schedule_def split: if_splits)
  show ?thesis
  proof (cases async)
    case True
    with step_schedule schedule_async_inv [OF inv] show ?thesis by auto
  next
    case False
    with step_schedule schedule_sync [OF inv ok] show ?thesis by auto
  qed
next
  case (step_deschedule e)
  then have "e \<in> set xs" using deschedule_rejects [OF inv, of e] by force
  with step_deschedule deschedule_queued [OF inv] show ?thesis by force
next
  case (step_reschedule e t always)
  then have ok: "curTick q \<le> t" "always \<or> scheduled (events q e)"
    by (auto simp: reschedule_def split: if_splits)
  with step_reschedule reschedule_queued [OF inv ok(1) _ ok(2)] show ?thesis by force
next
  case (step_squash e)
  have "eq_inv q' xs" unfolding step_squash using inv by (intro eq_inv_upd) auto
  with step_squash show ?thesis by auto
next
  case (step_service r)
  show ?thesis
  proof (cases xs)
    case Nil
    with step_service serviceOne_empty inv show ?thesis by simp
  next
    case (Cons e ys)
    with inv step_service serviceOne_inv [of q e ys r q'] have
      "eq_inv q' ys \<and> curTick q' = (if squashed (events q e) then curTick q else ev_when (events q e))"
      by simp
    moreover have "curTick q \<le> ev_when (events q e)" using inv Cons by (simp add: eq_inv_def)
    ultimately show ?thesis by auto
  qed
next
  case step_async
  with handleAsyncInsertions_inv [OF inv] show ?thesis by auto
qed

inductive eq_reach :: "event_queue \<Rightarrow> event_queue \<Rightarrow> bool" where
  reach_refl: "eq_reach q q"
| reach_step: "eq_reach q q' \<Longrightarrow> eq_step q' q'' \<Longrightarrow> eq_reach q q''"

definition empty_queue :: "(eid \<Rightarrow> int) \<Rightarrow> event_queue" where
  "empty_queue prio = \<lparr>events = (\<lambda>e. \<lparr>nextBin = None, nextInBin = None, ev_when = 0, priority = prio e,
     scheduled = False, squashed = False, isExitEvent = False\<rparr>), head = None, curTick = 0, async_queue = []\<rparr>"

lemma eq_inv_empty: "eq_inv (empty_queue prio) []"
  by (auto simp: eq_inv_def empty_queue_def represents_def bins_sorted_def intro!: exI [of _ "[]"])

lemma eq_reach_inv:
  "eq_reach q q' \<Longrightarrow> eq_inv q xs \<Longrightarrow> (\<exists>ys. eq_inv q' ys) \<and> curTick q \<le> curTick q'"
proof (induction rule: eq_reach.induct)
  case (reach_step q q' q'')
  then obtain ys where "eq_inv q' ys" "curTick q \<le> curTick q'" by blast
  with eq_step_inv [OF reach_step.hyps(2)] show ?case by (meson le_trans)
qed auto

text \<open>C3: the event queue is a priority queue.  On any state that represents the list \<open>xs\<close> of queued
  events, \<open>schedule\<close> returns a state that represents \<open>xs\<close> with the event inserted by time and
  priority (in front of its equals), \<open>deschedule\<close> removes exactly the given event, \<open>reschedule\<close>
  moves it, and \<open>serviceOne\<close> takes the first; each of them returns, and none loses or duplicates an
  event, whatever the stale \<open>nextBin\<close> pointers hold.\<close>

theorem event_queue_refines_sorted_list:
  assumes "eq_inv q xs"
  shows "(curTick q \<le> t \<and> \<not> scheduled (events q e) \<longrightarrow>
      (\<exists>q'. schedule False e t q = Some (Inr q') \<and> ev_when (events q' e) = t
        \<and> eq_inv q' (insort_key (key (events q')) e xs)))
    \<and> (e \<in> set xs \<longrightarrow> (\<exists>q'. deschedule e q = Some (Inr q') \<and> eq_inv q' (remove1 e xs)))
    \<and> (curTick q \<le> t \<and> e \<in> set xs \<longrightarrow>
      (\<exists>q'. reschedule e t always q = Some (Inr q') \<and> ev_when (events q' e) = t
        \<and> eq_inv q' (insort_key (key (events q')) e (remove1 e xs))))
    \<and> (xs = y # ys \<and> \<not> squashed (events q y) \<longrightarrow>
      (\<exists>q' r. serviceOne (\<lambda>_ q. q) q = Inr (r, q') \<and> eq_inv q' ys
        \<and> curTick q' = ev_when (events q y) \<and> curTick q \<le> curTick q'
        \<and> (\<forall>x \<in> set ys. key (events q) y \<le> key (events q) x)))"
proof (intro conjI impI; (elim conjE)?)
  assume "curTick q \<le> t" "\<not> scheduled (events q e)"
  from schedule_sync [OF assms this] show "\<exists>q'. schedule False e t q = Some (Inr q')
      \<and> ev_when (events q' e) = t \<and> eq_inv q' (insort_key (key (events q')) e xs)" by blast
next
  assume "e \<in> set xs"
  from deschedule_queued [OF assms this]
  show "\<exists>q'. deschedule e q = Some (Inr q') \<and> eq_inv q' (remove1 e xs)" by blast
next
  assume "curTick q \<le> t" and e: "e \<in> set xs"
  have "e \<notin> set (async_queue q)" "always \<or> scheduled (events q e)"
    using assms e by (auto simp: eq_inv_def)
  from reschedule_queued [OF assms \<open>curTick q \<le> t\<close> this]
  show "\<exists>q'. reschedule e t always q = Some (Inr q') \<and> ev_when (events q' e) = t
      \<and> eq_inv q' (insort_key (key (events q')) e (remove1 e xs))" by blast
next
  assume xs: "xs = y # ys" and ns: "\<not> squashed (events q y)"
  have p: "head q = Some y" "squashed (events (pop_head y q) y) = squashed (events q y)"
    using pop_head_inv [of q y ys] assms xs by auto
  then obtain r q' where s: "serviceOne (\<lambda>_ q. q) q = Inr (r, q')"
    using ns by (simp add: serviceOne_def Let_def)
  have "eq_inv q' ys \<and> curTick q' = ev_when (events q y)"
    using serviceOne_inv [of q y ys r q'] assms xs s ns by simp
  moreover have "curTick q \<le> ev_when (events q y)" using assms xs by (simp add: eq_inv_def)
  moreover have "\<forall>x \<in> set ys. key (events q) y \<le> key (events q) x"
    using eq_inv_sorted [OF assms] xs by simp
  ultimately show "\<exists>q' r. serviceOne (\<lambda>_ q. q) q = Inr (r, q') \<and> eq_inv q' ys
        \<and> curTick q' = ev_when (events q y) \<and> curTick q \<le> curTick q'
        \<and> (\<forall>x \<in> set ys. key (events q) y \<le> key (events q) x)" using s by auto
qed

theorem event_queue_refines_sorted_list_witness:
  "\<exists>q'. schedule False 7 3 (empty_queue (\<lambda>_. 0)) = Some (Inr q') \<and> ev_when (events q' 7) = 3
     \<and> eq_inv q' [7]"
proof -
  have "curTick (empty_queue (\<lambda>_. 0)) \<le> 3" "\<not> scheduled (events (empty_queue (\<lambda>_. 0)) 7)"
    by (simp_all add: empty_queue_def)
  then show ?thesis
    using event_queue_refines_sorted_list [OF eq_inv_empty [of "\<lambda>_. 0"], of 3 7 False 0 "[]"] by simp
qed



subsection \<open>Order of service\<close>

fun schedule_all :: "(eid \<times> tick) list \<Rightarrow> event_queue \<Rightarrow> event_queue option" where
  "schedule_all [] q = Some q"
| "schedule_all ((e, t) # es) q =
     (case schedule False e t q of Some (Inr q') \<Rightarrow> schedule_all es q' | _ \<Rightarrow> None)"

fun service_order :: "nat \<Rightarrow> event_queue \<Rightarrow> eid list" where
  "service_order 0 q = []"
| "service_order (Suc n) q =
     (case head q of None \<Rightarrow> []
      | Some e \<Rightarrow> (case serviceOne (\<lambda>_ q. q) q of Inl _ \<Rightarrow> [] | Inr (r, q') \<Rightarrow> e # service_order n q'))"

lemma serviceOne_noop:
  assumes inv: "eq_inv q (e # xs)" and ns: "\<not> squashed (events q e)"
  obtains r q' where "serviceOne (\<lambda>_ q. q) q = Inr (r, q')" "head q = Some e" "eq_inv q' xs"
    "curTick q' = ev_when (events q e)"
    "\<forall>x. ev_when (events q' x) = ev_when (events q x) \<and> priority (events q' x) = priority (events q x)
      \<and> squashed (events q' x) = squashed (events q x)"
proof -
  note p = pop_head_inv [OF inv]
  with ns have s: "serviceOne (\<lambda>_ q. q) q = Inr (if isExitEvent (events (pop_head e q) e) then Some e else None,
      (pop_head e q)\<lparr>curTick := ev_when (events q e)\<rparr>)"
    by (simp add: serviceOne_def Let_def)
  show ?thesis
    by (rule that [OF s]) (use p ns serviceOne_inv [OF inv s] in simp_all)
qed

lemma service_order_drains:
  "eq_inv q xs \<Longrightarrow> \<forall>x \<in> set xs. \<not> squashed (events q x) \<Longrightarrow> length xs \<le> n \<Longrightarrow> service_order n q = xs"
proof (induction n arbitrary: q xs)
  case (Suc n)
  show ?case
  proof (cases xs)
    case Nil
    with Suc.prems have "head q = None"
      using serviceOne_empty [of q "\<lambda>_ q. q"] by (cases "head q") (auto simp: serviceOne_def Let_def split: if_splits)
    with Nil show ?thesis by simp
  next
    case (Cons e ys)
    have i: "eq_inv q (e # ys)" and n: "\<not> squashed (events q e)" using Suc.prems Cons by auto
    obtain r q' where "serviceOne (\<lambda>_ q. q) q = Inr (r, q')" "head q = Some e" "eq_inv q' ys"
      "curTick q' = ev_when (events q e)"
      "\<forall>x. ev_when (events q' x) = ev_when (events q x) \<and> priority (events q' x) = priority (events q x)
        \<and> squashed (events q' x) = squashed (events q x)"
      by (rule serviceOne_noop [OF i n])
    with Suc.IH [of q' ys] Suc.prems Cons show ?thesis by simp
  qed
qed simp

definition queue_key :: "(eid \<Rightarrow> int) \<Rightarrow> eid \<times> tick \<Rightarrow> tick \<times> int" where
  "queue_key prio et = (snd et, prio (fst et))"

lemma insort_key_map_fst:
  assumes "distinct (map fst (et # ets))" and "\<And>x. x \<in> set (et # ets) \<Longrightarrow> k (fst x) = k' x"
  shows "insort_key k (fst et) (map fst ets) = map fst (insort_key k' et ets)"
  using assms by (induction ets) auto

lemma schedule_all_sorts:
  assumes "eq_inv q (map fst ets)" and "distinct (map fst (es @ ets))"
    and "\<And>x. priority (events q x) = prio x"
    and "\<forall>x \<in> set ets. ev_when (events q (fst x)) = snd x"
    and "\<forall>x \<in> set es. curTick q \<le> snd x" and "async_queue q = []"
    and "\<And>x. \<not> squashed (events q x)"
  shows "\<exists>q'. schedule_all es q = Some q' \<and> eq_inv q' (map fst (fold (insort_key (queue_key prio)) es ets))
    \<and> (\<forall>x. \<not> squashed (events q' x))"
  using assms
proof (induction es arbitrary: q ets)
  case (Cons et es)
  obtain e t where et: "et = (e, t)" by (cases et)
  have "e \<notin> set (map fst ets)" using Cons.prems(2) et by auto
  then have "\<not> scheduled (events q e)" using Cons.prems(1,6) by (simp add: eq_inv_def)
  moreover have "curTick q \<le> t" using Cons.prems(5) et by simp
  ultimately obtain q' where s: "schedule False e t q = Some (Inr q')"
    and inv: "eq_inv q' (insort_key (key (events q')) e (map fst ets))"
    and d: "ev_when (events q' e) = t" "priority (events q' e) = priority (events q e)"
      "squashed (events q' e) = squashed (events q e)"
      "\<And>x. x \<noteq> e \<Longrightarrow> ev_when (events q' x) = ev_when (events q x) \<and> priority (events q' x) = priority (events q x)
        \<and> squashed (events q' x) = squashed (events q x)"
      "curTick q' = curTick q" "async_queue q' = async_queue q"
    using schedule_sync [OF Cons.prems(1), of t e] by blast
  have prio': "priority (events q' x) = prio x" for x
    using d(2) d(4) [of x] Cons.prems(3) [of x] Cons.prems(3) [of e] by (cases "x = e") auto
  have when': "\<forall>x \<in> set (insort_key (queue_key prio) (e, t) ets). ev_when (events q' (fst x)) = snd x"
  proof
    fix x assume x: "x \<in> set (insort_key (queue_key prio) (e, t) ets)"
    show "ev_when (events q' (fst x)) = snd x"
    proof (cases "fst x = e")
      case True
      with x \<open>e \<notin> set (map fst ets)\<close> have "x = (e, t)" by (auto simp: set_insort_key)
      with d(1) show ?thesis by simp
    next
      case False
      with x have "x \<in> set ets" by (auto simp: set_insort_key)
      with Cons.prems(4) d(4) [OF False] show ?thesis by simp
    qed
  qed
  have "insort_key (key (events q')) e (map fst ets) = map fst (insort_key (queue_key prio) (e, t) ets)"
    using insort_key_map_fst [of "(e, t)" ets "key (events q')" "queue_key prio"] Cons.prems(2) et
      when' prio' by (auto simp: key_def queue_key_def set_insort_key)
  with inv have inv': "eq_inv q' (map fst (insort_key (queue_key prio) (e, t) ets))" by simp
  have "\<exists>q''. schedule_all es q' = Some q''
      \<and> eq_inv q'' (map fst (fold (insort_key (queue_key prio)) es (insort_key (queue_key prio) (e, t) ets)))
      \<and> (\<forall>x. \<not> squashed (events q'' x))"
  proof (rule Cons.IH [OF inv' _ prio' when'])
    show "distinct (map fst (es @ insort_key (queue_key prio) (e, t) ets))"
      using Cons.prems(2) et inv' by (auto simp: eq_inv_def set_insort_key)
    show "\<not> squashed (events q' x)" for x
      using d(3) d(4) [of x] Cons.prems(7) [of x] Cons.prems(7) [of e] by (cases "x = e") auto
  qed (use Cons.prems d et in auto)
  then show ?case using s et by simp
qed auto

text \<open>C6: service order.  Scheduling any distinct events on the empty queue and servicing them all
  serves them by time, then by priority, and among events of equal time and priority the one
  scheduled last is served first.\<close>

theorem service_order_sorted:
  assumes "distinct (map fst es)"
  shows "\<exists>q. schedule_all es (empty_queue prio) = Some q
    \<and> service_order (length es) q = map fst (sort_key (queue_key prio) (rev es))"
proof -
  have "\<exists>q. schedule_all es (empty_queue prio) = Some q
      \<and> eq_inv q (map fst (fold (insort_key (queue_key prio)) es [])) \<and> (\<forall>x. \<not> squashed (events q x))"
    using eq_inv_empty [of prio] assms
    by (intro schedule_all_sorts) (auto simp: empty_queue_def)
  moreover have eq: "fold (insort_key (queue_key prio)) es [] = sort_key (queue_key prio) (rev es)"
    by (simp add: sort_key_def foldr_conv_fold)
  ultimately obtain q where q: "schedule_all es (empty_queue prio) = Some q"
    "eq_inv q (map fst (sort_key (queue_key prio) (rev es)))" "\<forall>x. \<not> squashed (events q x)"
    unfolding eq by blast
  have "service_order (length es) q = map fst (sort_key (queue_key prio) (rev es))"
    using q by (intro service_order_drains) auto
  with q(1) show ?thesis by blast
qed

theorem service_order_sorted_witness:
  "\<exists>q. schedule_all [(1, 5), (2, 3), (3, 5)] (empty_queue (\<lambda>_. 0)) = Some q \<and> service_order 3 q = [2, 3, 1]"
  using service_order_sorted [of "[(1, 5), (2, 3), (3, 5)]" "\<lambda>_. 0"]
  by (simp add: queue_key_def sort_key_def numeral_3_eq_3 del: schedule_all.simps service_order.simps)

subsection \<open>\<open>serviceEvents\<close> and \<open>debugVerify\<close>\<close>

lemma service_loop_drains:
  "eq_inv q xs \<Longrightarrow> \<forall>x \<in> set xs. \<not> squashed (events q x) \<Longrightarrow> curTick q \<le> t \<Longrightarrow>
    \<exists>q'. service_loop (\<lambda>_ q. q) t q = Some q' \<and> eq_inv q' (filter (\<lambda>x. t < ev_when (events q x)) xs)
      \<and> curTick q' \<le> t \<and> (\<forall>x. ev_when (events q' x) = ev_when (events q x))"
proof (induction xs arbitrary: q)
  case Nil
  then have "head q = None"
    using serviceOne_empty [of q "\<lambda>_ q. q"] by (cases "head q") (auto simp: serviceOne_def Let_def split: if_splits)
  with Nil show ?case by (subst service_loop.simps) simp
next
  case (Cons e xs)
  have ns: "\<not> squashed (events q e)" using Cons.prems(2) by simp
  obtain r q' where s: "serviceOne (\<lambda>_ q. q) q = Inr (r, q')" "head q = Some e" "eq_inv q' xs"
    "curTick q' = ev_when (events q e)"
    and d: "\<forall>x. ev_when (events q' x) = ev_when (events q x) \<and> priority (events q' x) = priority (events q x)
      \<and> squashed (events q' x) = squashed (events q x)"
    by (rule serviceOne_noop [OF Cons.prems(1) ns])
  show ?case
  proof (cases "t < ev_when (events q e)")
    case True
    have "key (events q) e \<le> key (events q) x" if "x \<in> set xs" for x
      using eq_inv_sorted [OF Cons.prems(1)] that by simp
    then have "t < ev_when (events q x)" if "x \<in> set xs" for x
      using key_le_when [of "events q" e x] that True by (meson less_le_trans)
    then have "filter (\<lambda>x. t < ev_when (events q x)) (e # xs) = e # xs" using True by simp
    moreover have "service_loop (\<lambda>_ q. q) t q = Some q"
      using True s(2) by (subst service_loop.simps) simp
    ultimately show ?thesis using Cons.prems by auto
  next
    case False
    have "service_loop (\<lambda>_ q. q) t q = service_loop (\<lambda>_ q. q) t q'"
      using False s(1,2) by (subst service_loop.simps) simp
    with Cons.IH [OF s(3)] Cons.prems(2) d s(4) False show ?thesis by simp
  qed
qed



lemma verify_in_bin_chain:
  assumes "in_chain h p es" and "distinct es" and "set es \<inter> set seen = {}"
    and "\<And>x. x \<in> set es \<Longrightarrow> key h x = k" and "(t, pr) \<le> k"
  shows "verify_in_bin h (t, pr, seen) p =
    Some (Some (if es = [] then (t, pr, seen) else (fst k, snd k, rev es @ seen)))"
  using assms
proof (induction es arbitrary: p t pr seen)
  case Nil
  then show ?case by (subst verify_in_bin.simps) simp
next
  case (Cons e es)
  have k: "ev_when (h e) = fst k" "priority (h e) = snd k" using Cons.prems(4) [of e] by (auto simp: key_def)
  have step: "verify_in_bin h (t, pr, seen) p = verify_in_bin h (fst k, snd k, e # seen) (nextInBin (h e))"
    using Cons.prems(1,3,5) k by (subst verify_in_bin.simps) (auto simp: less_eq_prod_def)
  have kx: "key h x = k" if "x \<in> set es" for x using Cons.prems(4) that by simp
  have "verify_in_bin h (fst k, snd k, e # seen) (nextInBin (h e)) =
      Some (Some (if es = [] then (fst k, snd k, e # seen) else (fst k, snd k, rev es @ e # seen)))"
    using Cons.prems kx by (intro Cons.IH) (auto simp: less_eq_prod_def)
  with step show ?case by simp
qed

lemma verify_bins_seg:
  assumes "bin_seg h p bs None" and "distinct (concat bs @ seen)" and "bins_sorted h bs"
    and "\<And>b. b \<in> set bs \<Longrightarrow> (t, pr) \<le> key h (hd b)"
  shows "verify_bins h (t, pr, seen) p = Some True"
  using assms
proof (induction bs arbitrary: p t pr seen)
  case Nil
  then show ?case by (subst verify_bins.simps) simp
next
  case (Cons b bs)
  then obtain e es where b: "b = e # es" and p: "p = Some e" by (cases b) auto
  have kx: "key h x = key h e" if "x \<in> set b" for x
    using bins_sortedD [OF Cons.prems(3), of b x] that b by simp
  have "verify_in_bin h (t, pr, seen) p = Some (Some (fst (key h e), snd (key h e), rev b @ seen))"
  proof -
    have "in_chain h p b" using Cons.prems(1) b by simp
    moreover have "distinct b" "set b \<inter> set seen = {}" using Cons.prems(2) by auto
    moreover have "(t, pr) \<le> key h e" using Cons.prems(4) [of b] b by simp
    ultimately have "verify_in_bin h (t, pr, seen) p =
        Some (Some (if b = [] then (t, pr, seen) else (fst (key h e), snd (key h e), rev b @ seen)))"
      by (intro verify_in_bin_chain kx)
    with b show ?thesis by simp
  qed
  moreover have "verify_bins h (fst (key h e), snd (key h e), rev b @ seen) (nextBin (h e)) = Some True"
  proof (rule Cons.IH)
    show "bin_seg h (nextBin (h e)) bs None" using Cons.prems(1) b by simp
    show "distinct (concat bs @ rev b @ seen)" using Cons.prems(2) by auto
    show "bins_sorted h bs" using Cons.prems(3) by (simp add: bins_sorted_Cons)
    show "(fst (key h e), snd (key h e)) \<le> key h (hd c)" if "c \<in> set bs" for c
      using Cons.prems(3) that b by (auto simp: bins_sorted_Cons)
  qed
  ultimately show ?case using p by (subst verify_bins.simps) simp
qed

lemma debugVerify_early_negative:
  assumes "bin_seg h (Some e) (b # bs) None" and "ev_when (h e) = 0" and "priority (h e) < 0"
  shows "debugVerify h (Some e) = Some False"
proof -
  have "verify_in_bin h (0, 0, []) (Some e) = Some None"
    using assms by (subst verify_in_bin.simps) simp
  then show ?thesis unfolding debugVerify_def by (subst verify_bins.simps) simp
qed



end
