(* ===== verification/Clocked.thy ===== *)
theory Clocked
  imports Chaos_Prelude
begin

text \<open>
  Clocked objects (\<open>sim/clocked_object.hh\<close>): the lazily advanced pair of the next clock edge and its
  cycle number.  \<open>update\<close> is called by every query; the tick it is called at is a parameter, the
  period is positive.
\<close>

record clocked =
  clk_tick :: tick
  clk_cycle :: cycles
  clk_period :: tick

definition divCeil :: "nat \<Rightarrow> nat \<Rightarrow> nat" where
  "divCeil a b = (a + b - 1) div b"

definition clk_update :: "tick \<Rightarrow> clocked \<Rightarrow> clocked" where
  "clk_update now c =
     (if now \<le> clk_tick c then c
      else
        let c1 = c\<lparr>clk_tick := clk_tick c + clk_period c, clk_cycle := clk_cycle c + 1\<rparr>
        in if now \<le> clk_tick c1 then c1
           else let elapsed = divCeil (now - clk_tick c1) (clk_period c1)
                in c1\<lparr>clk_cycle := clk_cycle c1 + elapsed,
                     clk_tick := clk_tick c1 + elapsed * clk_period c1\<rparr>)"

definition clockEdge :: "tick \<Rightarrow> clocked \<Rightarrow> cycles \<Rightarrow> tick" where
  "clockEdge now c cs = (let c' = clk_update now c in clk_tick c' + clk_period c' * cs)"

definition curCycle :: "tick \<Rightarrow> clocked \<Rightarrow> cycles" where
  "curCycle now c = clk_cycle (clk_update now c)"

definition nextCycle :: "tick \<Rightarrow> clocked \<Rightarrow> tick" where
  "nextCycle now c = clockEdge now c 1"

definition ticksToCycles :: "tick \<Rightarrow> clocked \<Rightarrow> cycles" where
  "ticksToCycles t c = divCeil t (clk_period c)"

definition resetClock :: "tick \<Rightarrow> clocked \<Rightarrow> clocked" where
  "resetClock now c =
     (let elapsed = divCeil now (clk_period c)
      in c\<lparr>clk_cycle := elapsed, clk_tick := elapsed * clk_period c\<rparr>)"

lemma divCeil_bounds:
  assumes "0 < b"
  shows "a \<le> divCeil a b * b" and "divCeil a b * b < a + b"
proof -
  define q r where "q = (a + b - 1) div b" and "r = (a + b - 1) mod b"
  have e: "q * b + r = a + b - 1" and r: "r < b"
    using assms by (simp_all add: q_def r_def)
  show "a \<le> divCeil a b * b" and "divCeil a b * b < a + b"
    unfolding divCeil_def q_def [symmetric] using e r assms by linarith+
qed

text \<open>The cycle counter and the edge agree, and the edge is less than one period ahead of the last
  tick the clock was consulted at.\<close>

definition clk_ok :: "tick \<Rightarrow> clocked \<Rightarrow> bool" where
  "clk_ok now c \<longleftrightarrow> 0 < clk_period c \<and> clk_tick c = clk_cycle c * clk_period c
     \<and> clk_tick c < now + clk_period c"

lemma clk_ok_later: "clk_ok now c \<Longrightarrow> now \<le> now' \<Longrightarrow> clk_ok now' c"
  by (auto simp: clk_ok_def)

lemma clk_period_update [simp]: "clk_period (clk_update now c) = clk_period c"
  by (simp add: clk_update_def Let_def)

lemma clk_update_aligned:
  assumes "clk_ok now c"
  shows "clk_ok now (clk_update now c)" and "now \<le> clk_tick (clk_update now c)"
    and "clk_tick (clk_update now c) < now + clk_period c"
proof -
  let ?p = "clk_period c" and ?t = "clk_tick c + clk_period c"
  from assms have p: "0 < ?p" and t: "clk_tick c = clk_cycle c * ?p" and l: "clk_tick c < now + ?p"
    by (auto simp: clk_ok_def)
  have d: "now - ?t \<le> divCeil (now - ?t) ?p * ?p" "divCeil (now - ?t) ?p * ?p < (now - ?t) + ?p"
    using divCeil_bounds [OF p] by blast+
  show "now \<le> clk_tick (clk_update now c)" "clk_tick (clk_update now c) < now + ?p"
    using l d by (auto simp: clk_update_def Let_def)
  then show "clk_ok now (clk_update now c)"
    using p t by (auto simp: clk_ok_def clk_update_def Let_def algebra_simps)
qed

text \<open>The edge is the least multiple of the period that is not in the past.\<close>

lemma clk_update_unique:
  assumes "clk_ok now c" and "k * clk_period c < now + clk_period c" and "now \<le> k * clk_period c"
  shows "clk_tick (clk_update now c) = k * clk_period c" and "clk_cycle (clk_update now c) = k"
proof -
  let ?p = "clk_period c" and ?m = "clk_cycle (clk_update now c)"
  note u = clk_update_aligned [OF assms(1)]
  have p: "0 < ?p" and m: "clk_tick (clk_update now c) = ?m * ?p"
    using assms(1) u(1) by (auto simp: clk_ok_def)
  have "?m * ?p < (k + 1) * ?p" "k * ?p < (?m + 1) * ?p"
    using u(2,3) assms(2,3) m by (auto simp: algebra_simps)
  then have "?m < k + 1" "k < ?m + 1" unfolding mult_less_cancel2 by simp_all
  then have "?m = k" by simp
  with m show "clk_tick (clk_update now c) = k * ?p" "?m = k" by simp_all
qed

lemma clockEdge_bounds:
  assumes "clk_ok now c"
  shows "now + clk_period c * cs \<le> clockEdge now c cs"
    and "clockEdge now c cs < now + clk_period c + clk_period c * cs"
  using clk_update_aligned [OF assms] by (auto simp: clockEdge_def Let_def)

lemma clockEdge_zero_on_edge:
  assumes "clk_ok now c" and "clk_period c dvd now"
  shows "clockEdge now c 0 = now"
proof -
  from assms(2) obtain k where "now = k * clk_period c" by (metis dvd_def mult.commute)
  moreover have "0 < clk_period c" using assms(1) by (simp add: clk_ok_def)
  ultimately show ?thesis
    using clk_update_unique(1) [OF assms(1), of k] by (simp add: clockEdge_def)
qed

lemma clockEdge_on_edge:
  assumes "clk_ok now c"
  shows "clk_period c dvd clockEdge now c cs"
  using clk_update_aligned(1) [OF assms] by (auto simp: clockEdge_def Let_def clk_ok_def)



end
