(* ===== verification/Injector.thy ===== *)
theory Injector
  imports O3_Types Clocked
begin

text \<open>
  What the fault injectors share.  Every injector class declares the same configuration (probability,
  clock window, fault cap, generator) and counts its faults; here it is one record the component
  theories extend.  The theory holds the guards built from it, the random masks, the polling event
  the cycle-driven injectors schedule, and two interfaces: \<open>hook_injector\<close>, for code that is called
  at a hook of the simulator and may corrupt what passes through it, and \<open>poll_source\<close>, for the
  polling loop over the threads of a CPU.
\<close>

record injector =
  probability :: real
  first_clock :: cycles
  last_clock :: cycles
  max_faults :: nat
  faults_injected_count :: nat
  rng :: rng

subsection \<open>Guards\<close>

definition cap_reached :: "'a injector_scheme \<Rightarrow> bool" where
  "cap_reached s \<longleftrightarrow> max_faults s \<noteq> 0 \<and> max_faults s \<le> faults_injected_count s"

definition out_of_window :: "cycles \<Rightarrow> 'a injector_scheme \<Rightarrow> bool" where
  "out_of_window cur s \<longleftrightarrow> cur < first_clock s \<or> last_clock s \<noteq> 0 \<and> last_clock s < cur"

text \<open>One Bernoulli draw: \<open>dist(rng) >= probability\<close> means no fault.\<close>

definition bernoulli :: "'a injector_scheme \<Rightarrow> bool \<times> 'a injector_scheme" where
  "bernoulli s = (case uniform_real01 (rng s) of (u, r) \<Rightarrow> (u < probability s, s\<lparr>rng := r\<rparr>))"

lemma bernoulli_snd [simp]:
  "probability (snd (bernoulli s)) = probability s" "first_clock (snd (bernoulli s)) = first_clock s"
  "last_clock (snd (bernoulli s)) = last_clock s" "max_faults (snd (bernoulli s)) = max_faults s"
  "faults_injected_count (snd (bernoulli s)) = faults_injected_count s"
  by (simp_all add: bernoulli_def split: prod.splits)

lemma bernoulli_fst: "1 \<le> probability s \<Longrightarrow> fst (bernoulli s)" "probability s \<le> 0 \<Longrightarrow> \<not> fst (bernoulli s)"
  using uniform_real01_range [of "rng s"] by (auto simp: bernoulli_def split: prod.splits)

definition count_fault :: "'a injector_scheme \<Rightarrow> 'a injector_scheme" where
  "count_fault s = s\<lparr>faults_injected_count := faults_injected_count s + 1\<rparr>"

lemma count_fault_simps [simp]:
  "probability (count_fault s) = probability s" "first_clock (count_fault s) = first_clock s"
  "last_clock (count_fault s) = last_clock s" "max_faults (count_fault s) = max_faults s"
  "faults_injected_count (count_fault s) = Suc (faults_injected_count s)" "rng (count_fault s) = rng s"
  by (simp_all add: count_fault_def)

text \<open>The product of an \<open>unsigned\<close> number of cycles and an \<open>int\<close> clock ratio is a 32-bit value.\<close>

definition wrap32 :: "nat \<Rightarrow> nat" where
  "wrap32 n = n mod 2 ^ 32"

lemma wrap32_simps: "n < 2 ^ 32 \<Longrightarrow> wrap32 n = n" "wrap32 n < 2 ^ 32"
  by (simp_all add: wrap32_def)

subsection \<open>Random masks\<close>

text \<open>\<open>for (i = 0; i < n; ++i) m |= 1ULL << bd(rng)\<close> with \<open>bd\<close> uniform on \<open>[lo, hi]\<close>.\<close>

fun or_random_bits :: "nat \<Rightarrow> nat \<Rightarrow> nat \<Rightarrow> 'a::len word \<Rightarrow> rng \<Rightarrow> 'a word \<times> rng" where
  "or_random_bits lo hi 0 m r = (m, r)"
| "or_random_bits lo hi (Suc n) m r =
     (case uniform_nat lo hi r of (b, r') \<Rightarrow> or_random_bits lo hi n (m OR push_bit b 1) r')"

lemma or_random_bits_inside:
  assumes "lo \<le> hi" and "bit (fst (or_random_bits lo hi n m r)) k"
  shows "bit m k \<or> lo \<le> k \<and> k \<le> hi"
  using assms(2)
proof (induction n arbitrary: m r)
  case (Suc n)
  obtain b r' where u: "uniform_nat lo hi r = (b, r')" by (cases "uniform_nat lo hi r")
  have "lo \<le> b" "b \<le> hi" using uniform_nat_range [OF assms(1), of r] u by auto
  moreover from Suc.prems u have "bit (fst (or_random_bits lo hi n (m OR push_bit b 1) r')) k" by simp
  from Suc.IH [OF this] have "bit m k \<or> k = b \<or> lo \<le> k \<and> k \<le> hi"
    by (auto simp: bit_simps bit_1_iff)
  ultimately show ?case by auto
qed simp

lemma or_random_bits_mono: "bit m k \<Longrightarrow> bit (fst (or_random_bits lo hi n m r)) k"
proof (induction n arbitrary: m r)
  case (Suc n)
  obtain b r' where "uniform_nat lo hi r = (b, r')" by (cases "uniform_nat lo hi r")
  with Suc show ?case by (simp add: bit_or_iff)
qed simp

lemma or_random_bits_nonzero:
  fixes m :: "'a::len word"
  assumes "lo \<le> hi" and "hi < LENGTH('a)" and "0 < n"
  shows "fst (or_random_bits lo hi n m r) \<noteq> 0"
proof -
  obtain k where n: "n = Suc k" using assms(3) by (cases n) auto
  obtain b r' where u: "uniform_nat lo hi r = (b, r')" by (cases "uniform_nat lo hi r")
  have "b < LENGTH('a)" using uniform_nat_range [OF assms(1), of r] u assms(2) by auto
  then have "bit (m OR push_bit b 1) b" by (simp add: bit_simps bit_1_iff)
  then have "bit (fst (or_random_bits lo hi k (m OR push_bit b 1) r')) b" by (rule or_random_bits_mono)
  then have "bit (fst (or_random_bits lo hi n m r)) b" using n u by simp
  then show ?thesis by (metis bit_0_eq bot_apply bot_bool_def)
qed

lemma popcount_or_random_bits: "popcount (fst (or_random_bits lo hi n m r)) \<le> popcount m + n"
proof (induction n arbitrary: m r)
  case (Suc n)
  obtain b r' where u: "uniform_nat lo hi r = (b, r')" by (cases "uniform_nat lo hi r")
  have "popcount (fst (or_random_bits lo hi n (m OR push_bit b 1) r')) \<le> popcount (m OR push_bit b 1) + n"
    by (rule Suc.IH)
  also have "\<dots> \<le> popcount m + Suc n" using popcount_or_bit [of m b] by simp
  finally show ?case using u by simp
qed simp

subsection \<open>Hooks\<close>

text \<open>A hook is called with an input, may change what passes through, and updates the injector.\<close>

fun hook_run :: "('i \<Rightarrow> 's \<Rightarrow> 'o \<times> 's) \<Rightarrow> 'i list \<Rightarrow> 's \<Rightarrow> 'o list \<times> 's" where
  "hook_run hook [] s = ([], s)"
| "hook_run hook (i # is) s =
     (case hook i s of (out, s') \<Rightarrow> case hook_run hook is s' of (outs, s'') \<Rightarrow> (out # outs, s''))"

definition corrupted :: "('i \<Rightarrow> 'o) \<Rightarrow> 'i list \<Rightarrow> 'o list \<Rightarrow> nat" where
  "corrupted clean is outs = length (filter (\<lambda>(i, out). out \<noteq> clean i) (zip is outs))"

text \<open>The contract of a capped hook: a call counts at most one fault, never past the cap, and a call
  that counts none passes its input through unchanged.\<close>

locale hook_injector =
  fixes hook :: "'i \<Rightarrow> 's \<Rightarrow> 'o \<times> 's" and clean :: "'i \<Rightarrow> 'o"
    and count :: "'s \<Rightarrow> nat" and cap :: "'s \<Rightarrow> nat"
  assumes hook_cap: "cap (snd (hook i s)) = cap s"
    and hook_count: "count (snd (hook i s)) = count s \<or> count (snd (hook i s)) = Suc (count s)"
    and hook_capped: "cap s \<noteq> 0 \<Longrightarrow> cap s \<le> count s \<Longrightarrow> count (snd (hook i s)) = count s"
    and hook_clean: "count (snd (hook i s)) = count s \<Longrightarrow> fst (hook i s) = clean i"
begin

lemma run_cap: "cap (snd (hook_run hook is s)) = cap s"
  by (induction "is" arbitrary: s) (auto simp: hook_cap case_prod_unfold)

lemma run_counts_corruptions:
  "count s + corrupted clean is (fst (hook_run hook is s)) \<le> count (snd (hook_run hook is s))"
proof (induction "is" arbitrary: s)
  case (Cons i "is")
  have "corrupted clean (i # is) (fst (hook_run hook (i # is) s)) =
      (if fst (hook i s) \<noteq> clean i then 1 else 0)
      + corrupted clean is (fst (hook_run hook is (snd (hook i s))))"
    by (simp add: corrupted_def case_prod_unfold)
  moreover have "count s + (if fst (hook i s) \<noteq> clean i then 1 else 0) \<le> count (snd (hook i s))"
    using hook_count [of i s] hook_clean [of i s] by auto
  moreover have "snd (hook_run hook (i # is) s) = snd (hook_run hook is (snd (hook i s)))"
    by (simp add: case_prod_unfold)
  ultimately show ?case using Cons [of "snd (hook i s)"] by simp
qed (simp add: corrupted_def)

lemma run_within_cap:
  "cap s \<noteq> 0 \<Longrightarrow> count s \<le> cap s \<Longrightarrow> count (snd (hook_run hook is s)) \<le> cap s"
proof (induction "is" arbitrary: s)
  case (Cons i "is")
  have "count (snd (hook i s)) \<le> cap s"
    using Cons.prems hook_count [of i s] hook_capped [of s i] by (cases "count s = cap s") auto
  with Cons.IH [of "snd (hook i s)"] Cons.prems hook_cap [of i s] show ?case
    by (simp add: case_prod_unfold)
qed simp

text \<open>Over any sequence of calls, at most as many are corrupted as the cap has left.\<close>

lemma run_budget:
  assumes "cap s \<noteq> 0" and "count s \<le> cap s"
  shows "corrupted clean is (fst (hook_run hook is s)) \<le> cap s - count s"
  using run_counts_corruptions [of s "is"] run_within_cap [OF assms, of "is"] by linarith

end

subsection \<open>Polling\<close>

text \<open>The cycle-driven injectors poll: \<open>attack_at\<close> is the tick the pending \<open>attackEvent\<close> is scheduled
  for, if it is scheduled.\<close>

record poller = injector +
  attack_at :: "tick option"

lemma attack_at_count_fault [simp]: "attack_at (count_fault s) = attack_at s"
  by (simp add: count_fault_def)

lemma attack_at_bernoulli [simp]: "attack_at (snd (bernoulli s)) = attack_at s"
  by (simp add: bernoulli_def split: prod.splits)

definition scheduleAttackEvent :: "tick \<Rightarrow> clocked \<Rightarrow> cycles \<Rightarrow> 'a poller_scheme \<Rightarrow> 'a poller_scheme" where
  "scheduleAttackEvent now clk delay s =
     (if attack_at s = None then s\<lparr>attack_at := Some (clockEdge now clk delay)\<rparr> else s)"

definition poll_startup :: "tick \<Rightarrow> clocked \<Rightarrow> 'a poller_scheme \<Rightarrow> 'a poller_scheme" where
  "poll_startup now clk s =
     (if probability s = 0 then s
      else (case geometric (probability s) (rng s) of (d, r) \<Rightarrow>
              scheduleAttackEvent now clk (first_clock s + d) (s\<lparr>rng := r\<rparr>)))"

text \<open>The end of \<open>attackCheck\<close>: draw the distance to the next attempt and reschedule while the cap
  and the window allow it.\<close>

definition reschedule_attack :: "tick \<Rightarrow> clocked \<Rightarrow> 'a poller_scheme \<Rightarrow> 'a poller_scheme" where
  "reschedule_attack now clk s =
     (if max_faults s = 0 \<or> faults_injected_count s < max_faults s then
        (case geometric (probability s) (rng s) of (d, r) \<Rightarrow>
           let s1 = s\<lparr>rng := r\<rparr>; nc = curCycle now clk + d
           in if last_clock s = 0 \<or> nc \<le> last_clock s then scheduleAttackEvent now clk d s1 else s1)
      else s)"

text \<open>The variant with the backoff: when no fault landed since \<open>before\<close>, the distance is at least one
  cycle.\<close>

definition reschedule_attack_backoff ::
    "tick \<Rightarrow> clocked \<Rightarrow> nat \<Rightarrow> 'a poller_scheme \<Rightarrow> 'a poller_scheme" where
  "reschedule_attack_backoff now clk before s =
     (if max_faults s = 0 \<or> faults_injected_count s < max_faults s then
        (case geometric (probability s) (rng s) of (d0, r) \<Rightarrow>
           let d = (if faults_injected_count s = before then max d0 1 else d0);
               s1 = s\<lparr>rng := r\<rparr>; nc = curCycle now clk + d
           in if last_clock s = 0 \<or> nc \<le> last_clock s then scheduleAttackEvent now clk d s1 else s1)
      else s)"

lemma scheduleAttackEvent_simps [simp]:
  "probability (scheduleAttackEvent now clk d s) = probability s"
  "first_clock (scheduleAttackEvent now clk d s) = first_clock s"
  "last_clock (scheduleAttackEvent now clk d s) = last_clock s"
  "max_faults (scheduleAttackEvent now clk d s) = max_faults s"
  "faults_injected_count (scheduleAttackEvent now clk d s) = faults_injected_count s"
  by (simp_all add: scheduleAttackEvent_def)

lemma reschedule_attack_simps [simp]:
  "probability (reschedule_attack now clk s) = probability s"
  "first_clock (reschedule_attack now clk s) = first_clock s"
  "last_clock (reschedule_attack now clk s) = last_clock s"
  "max_faults (reschedule_attack now clk s) = max_faults s"
  "faults_injected_count (reschedule_attack now clk s) = faults_injected_count s"
  by (simp_all add: reschedule_attack_def Let_def split: prod.splits)

lemma reschedule_attack_backoff_simps [simp]:
  "probability (reschedule_attack_backoff now clk b s) = probability s"
  "first_clock (reschedule_attack_backoff now clk b s) = first_clock s"
  "last_clock (reschedule_attack_backoff now clk b s) = last_clock s"
  "max_faults (reschedule_attack_backoff now clk b s) = max_faults s"
  "faults_injected_count (reschedule_attack_backoff now clk b s) = faults_injected_count s"
  by (simp_all add: reschedule_attack_backoff_def Let_def split: prod.splits)

lemma reschedule_capped:
  "cap_reached s \<Longrightarrow> reschedule_attack now clk s = s"
  "cap_reached s \<Longrightarrow> reschedule_attack_backoff now clk b s = s"
  by (simp_all add: reschedule_attack_def reschedule_attack_backoff_def cap_reached_def)

lemma startup_not_early:
  assumes "clk_ok now clk" and "attack_at s = None" and "probability s \<noteq> 0"
  shows "\<exists>t. attack_at (poll_startup now clk s) = Some t \<and> now + clk_period clk * first_clock s \<le> t"
proof -
  obtain d r where g: "geometric (probability s) (rng s) = (d, r)"
    by (cases "geometric (probability s) (rng s)")
  have "now + clk_period clk * (first_clock s + d) \<le> clockEdge now clk (first_clock s + d)"
    by (rule clockEdge_bounds(1) [OF assms(1)])
  then have "now + clk_period clk * first_clock s \<le> clockEdge now clk (first_clock s + d)"
    by (simp add: algebra_simps)
  with g assms show ?thesis by (simp add: poll_startup_def scheduleAttackEvent_def)
qed

text \<open>Without the backoff an attempt with certain success of the draw is rescheduled for the very same
  tick; with it, an attempt that landed no fault is always followed by a later one.\<close>

lemma reschedule_attack_same_tick:
  assumes "clk_ok now clk" and "clk_period clk dvd now" and "1 \<le> probability s"
    and "\<not> cap_reached s" and "\<not> out_of_window (curCycle now clk) s" and "attack_at s = None"
  shows "attack_at (reschedule_attack now clk s) = Some now"
  using assms clockEdge_zero_on_edge [OF assms(1,2)]
  by (auto simp: reschedule_attack_def geometric_def cap_reached_def out_of_window_def
      scheduleAttackEvent_def)

lemma reschedule_attack_backoff_later:
  assumes "clk_ok now clk" and "faults_injected_count s = before" and "attack_at s = None"
    and "attack_at (reschedule_attack_backoff now clk before s) = Some t"
  shows "now + clk_period clk \<le> t"
proof -
  obtain d r where g: "geometric (probability s) (rng s) = (d, r)"
    by (cases "geometric (probability s) (rng s)")
  have t: "t = clockEdge now clk (max d 1)"
    using assms(2-4) g
    by (auto simp: reschedule_attack_backoff_def scheduleAttackEvent_def Let_def split: if_splits)
  have "now + clk_period clk * max d 1 \<le> t" unfolding t by (rule clockEdge_bounds(1) [OF assms(1)])
  moreover have "clk_period clk \<le> clk_period clk * max d 1" by simp
  ultimately show ?thesis by linarith
qed

subsection \<open>The polling loop over the threads\<close>

text \<open>\<open>for (tid = 0; tid < cpu->numThreads; ++tid)\<close>, skipping a thread without a context and a halted
  one.  \<open>tcs\<close> holds the status of every thread, \<open>None\<close> where \<open>getContext\<close> returns null; the step works
  on the injector and on the machine state it reaches through the CPU pointer.\<close>

fun poll_threads :: "(thread_id \<Rightarrow> 's \<Rightarrow> 's) \<Rightarrow> tc_status option list \<Rightarrow> thread_id \<Rightarrow> 's \<Rightarrow> 's" where
  "poll_threads proc [] tid c = c"
| "poll_threads proc (x # xs) tid c =
     poll_threads proc xs (Suc tid) (if x = None \<or> x = Some Halted then c else proc tid c)"

text \<open>The processing of \<open>attackEvent\<close>, which is no longer scheduled when it runs.\<close>

definition fire :: "'a poller_scheme \<times> 'm \<Rightarrow> 'a poller_scheme \<times> 'm" where
  "fire c = ((fst c)\<lparr>attack_at := None\<rparr>, snd c)"

definition poll_check :: "(thread_id \<Rightarrow> 'a poller_scheme \<times> 'm \<Rightarrow> 'a poller_scheme \<times> 'm) \<Rightarrow> tick \<Rightarrow> clocked
    \<Rightarrow> tc_status option list \<Rightarrow> 'a poller_scheme \<times> 'm \<Rightarrow> 'a poller_scheme \<times> 'm" where
  "poll_check proc now clk tcs c =
     (if probability (fst c) = 0 then fire c
      else (case poll_threads proc tcs 0 (fire c) of (s, m) \<Rightarrow> (reschedule_attack now clk s, m)))"

definition poll_check_backoff :: "(thread_id \<Rightarrow> 'a poller_scheme \<times> 'm \<Rightarrow> 'a poller_scheme \<times> 'm) \<Rightarrow> tick
    \<Rightarrow> clocked \<Rightarrow> tc_status option list \<Rightarrow> 'a poller_scheme \<times> 'm \<Rightarrow> 'a poller_scheme \<times> 'm" where
  "poll_check_backoff proc now clk tcs c =
     (if probability (fst c) = 0 then fire c
      else (case poll_threads proc tcs 0 (fire c) of
              (s, m) \<Rightarrow> (reschedule_attack_backoff now clk (faults_injected_count (fst c)) s, m)))"

text \<open>What the loop needs of one attempt: it keeps the configuration, counts at most one fault, and
  none at the cap.\<close>

locale poll_source =
  fixes proc :: "thread_id \<Rightarrow> 'a poller_scheme \<times> 'm \<Rightarrow> 'a poller_scheme \<times> 'm"
  assumes proc_config: "probability (fst (proc tid c)) = probability (fst c)"
      "last_clock (fst (proc tid c)) = last_clock (fst c)" "first_clock (fst (proc tid c)) = first_clock (fst c)"
      "max_faults (fst (proc tid c)) = max_faults (fst c)" "attack_at (fst (proc tid c)) = attack_at (fst c)"
    and proc_count: "faults_injected_count (fst (proc tid c)) = faults_injected_count (fst c)
      \<or> faults_injected_count (fst (proc tid c)) = Suc (faults_injected_count (fst c))"
    and proc_capped: "cap_reached (fst c) \<Longrightarrow> faults_injected_count (fst (proc tid c)) = faults_injected_count (fst c)"
begin

lemma poll_config:
  "probability (fst (poll_threads proc tcs tid c)) = probability (fst c)
   \<and> last_clock (fst (poll_threads proc tcs tid c)) = last_clock (fst c)
   \<and> first_clock (fst (poll_threads proc tcs tid c)) = first_clock (fst c)
   \<and> max_faults (fst (poll_threads proc tcs tid c)) = max_faults (fst c)
   \<and> attack_at (fst (poll_threads proc tcs tid c)) = attack_at (fst c)"
  by (induction tcs arbitrary: tid c) (simp_all add: proc_config)

lemma poll_count_mono:
  "faults_injected_count (fst c) \<le> faults_injected_count (fst (poll_threads proc tcs tid c))"
proof (induction tcs arbitrary: tid c)
  case (Cons x xs)
  show ?case
  proof (cases "x = None \<or> x = Some Halted")
    case False
    then show ?thesis using Cons [of "proc tid c" "Suc tid"] proc_count [of tid c] by auto
  qed (use Cons [of c "Suc tid"] in auto)
qed simp

lemma poll_within_cap:
  "max_faults (fst c) \<noteq> 0 \<Longrightarrow> faults_injected_count (fst c) \<le> max_faults (fst c) \<Longrightarrow>
     faults_injected_count (fst (poll_threads proc tcs tid c)) \<le> max_faults (fst c)"
proof (induction tcs arbitrary: tid c)
  case (Cons x xs)
  have "faults_injected_count (fst (proc tid c)) \<le> max_faults (fst c)"
    using Cons.prems proc_count [of tid c] proc_capped [of c tid]
    by (cases "faults_injected_count (fst c) = max_faults (fst c)") (auto simp: cap_reached_def)
  with Cons.IH [of "proc tid c" "Suc tid"] Cons.IH [of c "Suc tid"] Cons.prems show ?case
    by (simp add: proc_config)
qed simp

lemma fire_simps [simp]:
  "probability (fst (fire c)) = probability (fst c)" "last_clock (fst (fire c)) = last_clock (fst c)"
  "first_clock (fst (fire c)) = first_clock (fst c)" "max_faults (fst (fire c)) = max_faults (fst c)"
  "faults_injected_count (fst (fire c)) = faults_injected_count (fst c)" "attack_at (fst (fire c)) = None"
  for c :: "'a poller_scheme \<times> 'm"
  by (simp_all add: fire_def)

lemma check_within_cap:
  assumes "max_faults (fst c) \<noteq> 0" "faults_injected_count (fst c) \<le> max_faults (fst c)"
  shows "faults_injected_count (fst (poll_check proc now clk tcs c)) \<le> max_faults (fst c)"
    and "faults_injected_count (fst (poll_check_backoff proc now clk tcs c)) \<le> max_faults (fst c)"
  using assms poll_within_cap [of "fire c" tcs 0]
  by (simp_all add: poll_check_def poll_check_backoff_def case_prod_unfold)

text \<open>Once the cap is reached the event is not scheduled again.\<close>

lemma check_stops:
  assumes "cap_reached (fst (poll_check proc now clk tcs c))"
  shows "attack_at (fst (poll_check proc now clk tcs c)) = None"
proof (cases "probability (fst c) = 0")
  case False
  let ?p = "poll_threads proc tcs 0 (fire c)"
  from False have e: "fst (poll_check proc now clk tcs c) = reschedule_attack now clk (fst ?p)"
    by (simp add: poll_check_def case_prod_unfold)
  from assms have "cap_reached (fst ?p)" unfolding e by (simp add: cap_reached_def)
  then show ?thesis using poll_config [of tcs 0 "fire c"] unfolding e by (simp add: reschedule_capped)
qed (simp add: poll_check_def)

lemma check_backoff_stops:
  assumes "cap_reached (fst (poll_check_backoff proc now clk tcs c))"
  shows "attack_at (fst (poll_check_backoff proc now clk tcs c)) = None"
proof (cases "probability (fst c) = 0")
  case False
  let ?p = "poll_threads proc tcs 0 (fire c)"
  from False have e: "fst (poll_check_backoff proc now clk tcs c) = reschedule_attack_backoff now clk (faults_injected_count (fst c)) (fst ?p)"
    by (simp add: poll_check_backoff_def case_prod_unfold)
  from assms have "cap_reached (fst ?p)" unfolding e by (simp add: cap_reached_def)
  then show ?thesis using poll_config [of tcs 0 "fire c"] unfolding e by (simp add: reschedule_capped)
qed (simp add: poll_check_backoff_def)

text \<open>With the backoff an attempt that landed nothing is followed by a strictly later one; without it
  a certain draw on a clock edge is rescheduled for the same tick.\<close>

lemma check_backoff_progress:
  assumes "clk_ok now clk"
    and "faults_injected_count (fst (poll_check_backoff proc now clk tcs c)) = faults_injected_count (fst c)"
    and "attack_at (fst (poll_check_backoff proc now clk tcs c)) = Some t"
  shows "now + clk_period clk \<le> t"
proof -
  let ?p = "poll_threads proc tcs 0 (fire c)"
  have nz: "probability (fst c) \<noteq> 0" using assms(3) by (auto simp: poll_check_backoff_def)
  then have e: "poll_check_backoff proc now clk tcs c =
      (reschedule_attack_backoff now clk (faults_injected_count (fst c)) (fst ?p), snd ?p)"
    by (simp add: poll_check_backoff_def case_prod_unfold)
  have "faults_injected_count (fst ?p) = faults_injected_count (fst c)" using assms(2) unfolding e by simp
  then show ?thesis
    using reschedule_attack_backoff_later [OF assms(1), of "fst ?p" "faults_injected_count (fst c)" t]
      assms(3) poll_config [of tcs 0 "fire c"] unfolding e by simp
qed

lemma check_same_tick:
  assumes "clk_ok now clk" "clk_period clk dvd now" "1 \<le> probability (fst c)"
    and "faults_injected_count (fst (poll_check proc now clk tcs c)) = faults_injected_count (fst c)"
    and "\<not> cap_reached (fst c)" "\<not> out_of_window (curCycle now clk) (fst c)"
  shows "attack_at (fst (poll_check proc now clk tcs c)) = Some now"
proof -
  let ?p = "poll_threads proc tcs 0 (fire c)"
  have e: "poll_check proc now clk tcs c = (reschedule_attack now clk (fst ?p), snd ?p)"
    using assms(3) by (simp add: poll_check_def case_prod_unfold)
  have "faults_injected_count (fst ?p) = faults_injected_count (fst c)" using assms(4) unfolding e by simp
  then show ?thesis
    using reschedule_attack_same_tick [OF assms(1,2), of "fst ?p"] assms(3,5,6) poll_config [of tcs 0 "fire c"]
    unfolding e by (simp add: cap_reached_def out_of_window_def)
qed

end

end
