(* ===== verification/Addr_Path.thy ===== *)
theory Addr_Path
  imports Injector
begin

text \<open>
  \<open>CHAOSAddrPath\<close>: zeroes one byte of the effective address of a load before translation.  The
  constructor, \<open>startup\<close> and the hook \<open>corruptAddr\<close>.
\<close>

record addr_path = injector +
  byte_offset :: int
  first_tick :: tick
  last_tick :: tick
  numAddrFaults :: nat

text \<open>The constructor fails on a CPU that is not an O3 CPU; the second component says whether the
  injector attached itself to the CPU.\<close>

definition CHAOSAddrPath :: "bool \<Rightarrow> real \<Rightarrow> int \<Rightarrow> cycles \<Rightarrow> cycles \<Rightarrow> nat \<Rightarrow> rng
    \<Rightarrow> ctor_error + addr_path \<times> bool" where
  "CHAOSAddrPath is_o3 prob off fst_clk lst_clk cap r =
     (if \<not> is_o3 then Inl NotO3CPU
      else Inr (\<lparr>probability = prob, first_clock = fst_clk, last_clock = lst_clk, max_faults = cap,
        faults_injected_count = 0, rng = r, byte_offset = off, first_tick = 0, last_tick = 0,
        numAddrFaults = 0\<rparr>, 0 < prob))"

definition addr_path_startup :: "addr_path \<Rightarrow> addr_path" where
  "addr_path_startup s =
     s\<lparr>first_tick := first_clock s, last_tick := (if last_clock s = 0 then 0 else last_clock s)\<rparr>"

text \<open>The byte to clear: the configured one, a random one when it is negative, clamped to 7.\<close>

definition pick_byte :: "addr_path \<Rightarrow> nat \<times> addr_path" where
  "pick_byte s =
     (let (off, s') = (if byte_offset s < 0
        then (case uniform_int 0 7 (rng s) of (b, r) \<Rightarrow> (b, s\<lparr>rng := r\<rparr>)) else (byte_offset s, s))
      in (nat (if off < 0 \<or> 7 < off then 7 else off), s'))"

definition corruptAddr :: "tick \<Rightarrow> u64 \<Rightarrow> addr_path \<Rightarrow> (bool \<times> u64) \<times> addr_path" where
  "corruptAddr now addr s =
     (if probability s \<le> 0 then ((False, addr), s)
      else if now < first_tick s then ((False, addr), s)
      else if last_tick s \<noteq> 0 \<and> last_tick s < now then ((False, addr), s)
      else if cap_reached s then ((False, addr), s)
      else (case bernoulli s of (fires, s1) \<Rightarrow>
        if \<not> fires then ((False, addr), s1)
        else (case pick_byte s1 of (off, s2) \<Rightarrow>
          let mask = NOT (push_bit (8 * off) (0xFF :: u64))
          in ((True, addr AND mask),
              count_fault (s2\<lparr>numAddrFaults := numAddrFaults s2 + 1\<rparr>)))))"

lemma pick_byte_props:
  "fst (pick_byte s) < 8" "max_faults (snd (pick_byte s)) = max_faults s"
  "faults_injected_count (snd (pick_byte s)) = faults_injected_count s"
  "0 \<le> byte_offset s \<Longrightarrow> int (fst (pick_byte s)) = min (byte_offset s) 7"
  by (auto simp: pick_byte_def Let_def min_def split: prod.splits)

text \<open>The byte that is cleared.\<close>

definition zero_byte :: "nat \<Rightarrow> u64 \<Rightarrow> u64" where
  "zero_byte k a = a AND NOT (push_bit (8 * k) 0xFF)"

lemma bit_zero_byte: "bit (zero_byte k a) n \<longleftrightarrow> bit a n \<and> (n < 8 * k \<or> 8 * k + 8 \<le> n)"
  by (auto simp: zero_byte_def bit_simps bit_byte_mask dest: bit_imp_le_length)

lemma corruptAddr_cases:
  obtains (clean) s' where "corruptAddr now a s = ((False, a), s')" "max_faults s' = max_faults s"
      "faults_injected_count s' = faults_injected_count s"
  | (hit) k s' where "corruptAddr now a s = ((True, zero_byte k a), s')" "k < 8" "\<not> cap_reached s"
      "0 < probability s" "first_tick s \<le> now" "last_tick s = 0 \<or> now \<le> last_tick s"
      "max_faults s' = max_faults s" "faults_injected_count s' = Suc (faults_injected_count s)"
      "0 \<le> byte_offset s \<longrightarrow> int k = min (byte_offset s) 7"
proof (cases "0 < probability s \<and> first_tick s \<le> now \<and> (last_tick s = 0 \<or> now \<le> last_tick s)
    \<and> \<not> cap_reached s \<and> fst (bernoulli s)")
  case False
  then show ?thesis
    by (intro clean [of "snd (corruptAddr now a s)"])
      (auto simp: corruptAddr_def case_prod_unfold)
next
  case True
  let ?p = "pick_byte (snd (bernoulli s))"
  have bo: "byte_offset (snd (bernoulli s)) = byte_offset s" by (simp add: bernoulli_def split: prod.splits)
  have "corruptAddr now a s = ((True, zero_byte (fst ?p) a),
      count_fault (snd ?p\<lparr>numAddrFaults := numAddrFaults (snd ?p) + 1\<rparr>))"
    using True by (auto simp: corruptAddr_def zero_byte_def case_prod_unfold Let_def not_less)
  then show ?thesis
    by (rule hit) (use True pick_byte_props [of "snd (bernoulli s)"] bo in auto)
qed

interpretation addr_path_hook: hook_injector "\<lambda>(now, a). corruptAddr now a" "\<lambda>(now, a). (False, a)"
  faults_injected_count max_faults
proof unfold_locales
  fix i :: "tick \<times> u64" and s
  obtain now a where i: "i = (now, a)" by (cases i)
  let ?r = "(\<lambda>(now, a). corruptAddr now a) i s"
  show "max_faults (snd ?r) = max_faults s"
    by (cases rule: corruptAddr_cases [of now a s]) (simp_all add: i)
  show "faults_injected_count (snd ?r) = faults_injected_count s \<or>
     faults_injected_count (snd ?r) = Suc (faults_injected_count s)"
    by (cases rule: corruptAddr_cases [of now a s]) (simp_all add: i)
  show "faults_injected_count (snd ?r) = faults_injected_count s"
    if "max_faults s \<noteq> 0" "max_faults s \<le> faults_injected_count s"
    using that by (cases rule: corruptAddr_cases [of now a s]) (simp_all add: i cap_reached_def)
  show "fst ?r = (\<lambda>(now, a). (False, a)) i"
    if "faults_injected_count (snd ?r) = faults_injected_count s"
    using that by (cases rule: corruptAddr_cases [of now a s]) (simp_all add: i)
qed

text \<open>A load address is either passed through untouched or loses exactly one byte.  Only in the
  tick window and below the cap can it be corrupted, the cleared byte is the configured one (the
  most significant when the configuration is out of range), all other bits keep their value, and
  the fault is counted.\<close>

theorem corruptAddr_zeroes_one_byte:
  "(case corruptAddr now a s of ((hit, a'), s') \<Rightarrow>
     if \<not> hit then a' = a \<and> faults_injected_count s' = faults_injected_count s
     else first_tick s \<le> now \<and> (last_tick s = 0 \<or> now \<le> last_tick s) \<and> \<not> cap_reached s
       \<and> faults_injected_count s' = Suc (faults_injected_count s)
       \<and> (\<exists>k < 8. (0 \<le> byte_offset s \<longrightarrow> int k = min (byte_offset s) 7)
            \<and> (\<forall>n. bit a' n \<longleftrightarrow> bit a n \<and> (n < 8 * k \<or> 8 * k + 8 \<le> n))))"
proof (cases rule: corruptAddr_cases [of now a s])
  case (hit k s')
  then show ?thesis
    by (auto simp: bit_zero_byte intro!: exI [of _ k])
qed simp

definition demo_addr_path :: addr_path where
  "demo_addr_path = \<lparr>probability = 1, first_clock = 0, last_clock = 0, max_faults = 1,
     faults_injected_count = 0, rng = sconst 0, byte_offset = 7, first_tick = 0, last_tick = 0,
     numAddrFaults = 0\<rparr>"

theorem corruptAddr_zeroes_one_byte_witness:
  "fst (corruptAddr 5 0xD900000000000123 demo_addr_path) = (True, 0x123)
    \<and> faults_injected_count (snd (corruptAddr 5 0xD900000000000123 demo_addr_path)) = 1"
proof -
  have e: "fst (corruptAddr 5 0xD900000000000123 demo_addr_path) = (True, 0x123)"
    by (simp add: corruptAddr_def cap_reached_def bernoulli_def uniform_real01_def pick_byte_def
        demo_addr_path_def)
  have "faults_injected_count demo_addr_path = 0" by (simp add: demo_addr_path_def)
  with e corruptAddr_zeroes_one_byte [where now = 5 and a = "0xD900000000000123" and s = demo_addr_path]
  show ?thesis by (simp add: case_prod_unfold)
qed

end
