(* ===== verification/Bpu.thy ===== *)
theory Bpu
  imports Injector
begin

text \<open>
  \<open>CHAOSBPU\<close>: at \<open>BAC::predict\<close> the predicted target is replaced by the fall-through address, or the
  predicted direction is inverted.
\<close>

datatype bpu_mode = TargetSub | DirectionFlip

record pc_state =
  pc :: u64
  npc :: u64

record bpu = injector +
  bpu_fi_mode :: bpu_mode
  bpu_numFaultsInjected :: nat
  numTargetSub :: nat
  numDirectionFlip :: nat

definition bpu_stringToMode :: "string \<Rightarrow> bpu_mode" where
  "bpu_stringToMode s = (if s = ''direction_flip'' then DirectionFlip else TargetSub)"

definition CHAOSBPU :: "bool \<Rightarrow> real \<Rightarrow> string \<Rightarrow> cycles \<Rightarrow> cycles \<Rightarrow> nat \<Rightarrow> rng \<Rightarrow> ctor_error + bpu" where
  "CHAOSBPU is_o3 prob mode fst_clk lst_clk cap r =
     (if \<not> is_o3 then Inl NotO3CPU
      else Inr \<lparr>probability = prob, first_clock = fst_clk, last_clock = lst_clk, max_faults = cap,
        faults_injected_count = 0, rng = r, bpu_fi_mode = bpu_stringToMode mode,
        bpu_numFaultsInjected = 0, numTargetSub = 0, numDirectionFlip = 0\<rparr>)"

definition maybeSubstituteTarget :: "cycles \<Rightarrow> pc_state \<Rightarrow> bool \<Rightarrow> bpu \<Rightarrow> (pc_state \<times> bool) \<times> bpu" where
  "maybeSubstituteTarget cur p taken s =
     (if probability s \<le> 0 then ((p, taken), s)
      else if cur < first_clock s then ((p, taken), s)
      else if last_clock s \<noteq> 0 \<and> last_clock s < cur then ((p, taken), s)
      else if cap_reached s then ((p, taken), s)
      else (case bernoulli s of (fires, s1) \<Rightarrow>
        if \<not> fires then ((p, taken), s1)
        else
          let (p', taken', s2) =
            (if bpu_fi_mode s1 = TargetSub
             then (p\<lparr>npc := pc p + 4\<rparr>, taken, s1\<lparr>numTargetSub := numTargetSub s1 + 1\<rparr>)
             else (p, \<not> taken, s1\<lparr>numDirectionFlip := numDirectionFlip s1 + 1\<rparr>))
          in ((p', taken'), count_fault (s2\<lparr>bpu_numFaultsInjected := bpu_numFaultsInjected s2 + 1\<rparr>))))"

lemma bernoulli_bpu [simp]:
  "bpu_fi_mode (snd (bernoulli s)) = bpu_fi_mode s"
  "bpu_numFaultsInjected (snd (bernoulli s)) = bpu_numFaultsInjected s"
  "numTargetSub (snd (bernoulli s)) = numTargetSub s"
  "numDirectionFlip (snd (bernoulli s)) = numDirectionFlip s"
  by (simp_all add: bernoulli_def split: prod.splits)

lemma count_fault_bpu [simp]:
  "bpu_fi_mode (count_fault s) = bpu_fi_mode s"
  "bpu_numFaultsInjected (count_fault s) = bpu_numFaultsInjected s"
  "numTargetSub (count_fault s) = numTargetSub s"
  "numDirectionFlip (count_fault s) = numDirectionFlip s"
  by (simp_all add: count_fault_def)

interpretation bpu_hook: hook_injector "\<lambda>(cur, p, taken). maybeSubstituteTarget cur p taken"
  "\<lambda>(cur, p, taken). (p, taken)" faults_injected_count max_faults
  by unfold_locales (auto simp: maybeSubstituteTarget_def cap_reached_def case_prod_unfold Let_def)

text \<open>The statistics agree with the fault counter.\<close>

definition bpu_stats_ok :: "bpu \<Rightarrow> bool" where
  "bpu_stats_ok s \<longleftrightarrow> bpu_numFaultsInjected s = faults_injected_count s
     \<and> numTargetSub s + numDirectionFlip s = faults_injected_count s"

lemma bpu_stats_ok_step:
  "bpu_stats_ok s \<Longrightarrow> bpu_stats_ok (snd (maybeSubstituteTarget cur p taken s))"
  by (auto simp: maybeSubstituteTarget_def bpu_stats_ok_def case_prod_unfold Let_def)

text \<open>A corrupted prediction stays in the legal domain.  In target mode the direction is kept and
  the target becomes the fall-through \<open>pc + 4\<close>; in direction mode the program counters are kept and
  only \<open>taken\<close> is inverted; outside the window, at the cap or when the draw fails the prediction is
  unchanged.  The per-mode statistics always add up to the fault count.\<close>

theorem bpu_prediction_legal:
  assumes "bpu_stats_ok s"
  shows "case maybeSubstituteTarget cur p taken s of ((p', taken'), s') \<Rightarrow>
    bpu_stats_ok s' \<and> pc p' = pc p \<and>
    (if faults_injected_count s' = faults_injected_count s then p' = p \<and> taken' = taken
     else \<not> cap_reached s \<and> \<not> out_of_window cur s
       \<and> (if bpu_fi_mode s = TargetSub then npc p' = pc p + 4 \<and> taken' = taken
          else p' = p \<and> taken' = (\<not> taken)))"
  using bpu_stats_ok_step [OF assms, of cur p taken]
  by (auto simp: maybeSubstituteTarget_def out_of_window_def case_prod_unfold Let_def)

definition demo_bpu :: bpu where
  "demo_bpu = \<lparr>probability = 1, first_clock = 0, last_clock = 0, max_faults = 1, faults_injected_count = 0,
     rng = sconst 0, bpu_fi_mode = TargetSub, bpu_numFaultsInjected = 0, numTargetSub = 0,
     numDirectionFlip = 0\<rparr>"

theorem bpu_prediction_legal_witness:
  "bpu_stats_ok demo_bpu
   \<and> fst (maybeSubstituteTarget 9 \<lparr>pc = 0x1000, npc = 0x2000\<rparr> True demo_bpu)
     = (\<lparr>pc = 0x1000, npc = 0x1004\<rparr>, True)
   \<and> bpu_stats_ok (snd (maybeSubstituteTarget 9 \<lparr>pc = 0x1000, npc = 0x2000\<rparr> True demo_bpu))"
proof -
  have ok: "bpu_stats_ok demo_bpu" by (simp add: bpu_stats_ok_def demo_bpu_def)
  have e: "fst (maybeSubstituteTarget 9 \<lparr>pc = 0x1000, npc = 0x2000\<rparr> True demo_bpu)
      = (\<lparr>pc = 0x1000, npc = 0x1004\<rparr>, True)"
    by (simp add: maybeSubstituteTarget_def cap_reached_def bernoulli_def uniform_real01_def demo_bpu_def)
  show ?thesis
    using bpu_prediction_legal [OF ok, where cur = 9 and p = "\<lparr>pc = 0x1000, npc = 0x2000\<rparr>" and taken = True]
      ok e by (simp add: case_prod_unfold)
qed

end
