(* ===== verification/Ptw.thy ===== *)
theory Ptw
  imports Injector
begin

text \<open>
  \<open>CHAOSPTW\<close>: corrupts a page-table descriptor as the walker reads it.  Either the valid bits are
  cleared, or bits of one byte are flipped, subject to an error-correction model that absorbs
  single-bit flips.  A descriptor is its bytes, little-endian; \<open>memcpy\<close> to a 64-bit integer is
  \<open>le_word\<close>.
\<close>

record ptw = injector +
  ptw_num_bits :: int
  ptw_fault_mask :: u64
  ptw_byte_offset :: int
  clear_valid_bit :: bool
  ptw_ecc :: bool
  ptw_first_tick :: tick
  ptw_last_tick :: tick
  ptw_numFaultsInjected :: nat
  numSpuriousFaults :: nat
  numBenignFlips :: nat
  ptw_numEccCorrected :: nat

definition ptw_startup :: "ptw \<Rightarrow> ptw" where
  "ptw_startup s = s\<lparr>ptw_first_tick := first_clock s,
     ptw_last_tick := (if last_clock s = 0 then 0 else last_clock s)\<rparr>"

definition longDescInvalid :: "u64 \<Rightarrow> bool" where
  "longDescInvalid v \<longleftrightarrow> v AND 3 = 0"

definition shortDescInvalid :: "u64 \<Rightarrow> bool" where
  "shortDescInvalid v \<longleftrightarrow> v AND 1 = 0"

definition ptw_generateRandomMask :: "int \<Rightarrow> ptw \<Rightarrow> u64 \<times> ptw" where
  "ptw_generateRandomMask bits s =
     (case or_random_bits 0 7 (nat bits) 0 (rng s) of (m, r) \<Rightarrow> (m, s\<lparr>rng := r\<rparr>))"

definition ptw_pick_byte :: "nat \<Rightarrow> ptw \<Rightarrow> nat \<times> ptw" where
  "ptw_pick_byte sz s =
     (let (off, s') = (if ptw_byte_offset s < 0
        then (case uniform_int 0 (int sz - 1) (rng s) of (b, r) \<Rightarrow> (b, s\<lparr>rng := r\<rparr>))
        else (ptw_byte_offset s, s))
      in (nat (if int sz \<le> off then int sz - 1 else off), s'))"

definition ptw_choose_mask :: "ptw \<Rightarrow> u64 \<times> ptw" where
  "ptw_choose_mask s =
     (if ptw_fault_mask s \<noteq> 0 then (ptw_fault_mask s AND 0xFF, s)
      else ptw_generateRandomMask (ptw_num_bits s) s)"

text \<open>The end of both paths: classify the corrupted descriptor and count.\<close>

definition ptw_account :: "nat \<Rightarrow> u8 list \<Rightarrow> ptw \<Rightarrow> ptw" where
  "ptw_account sz data s =
     (let corr = le_word data;
          became_invalid = (if sz = 8 then longDescInvalid corr else shortDescInvalid corr);
          s1 = count_fault (s\<lparr>ptw_numFaultsInjected := ptw_numFaultsInjected s + 1\<rparr>)
      in if became_invalid then s1\<lparr>numSpuriousFaults := numSpuriousFaults s1 + 1\<rparr>
         else s1\<lparr>numBenignFlips := numBenignFlips s1 + 1\<rparr>)"

definition corruptDescriptor :: "tick \<Rightarrow> u8 list \<Rightarrow> ptw \<Rightarrow> u8 list \<times> ptw" where
  "corruptDescriptor now data s =
     (let sz = length data in
      if probability s \<le> 0 then (data, s)
      else if now < ptw_first_tick s then (data, s)
      else if ptw_last_tick s \<noteq> 0 \<and> ptw_last_tick s < now then (data, s)
      else if cap_reached s then (data, s)
      else (case bernoulli s of (fires, s1) \<Rightarrow>
        if \<not> fires then (data, s1)
        else if sz = 0 then (data, s1)
        else if clear_valid_bit s1 then
          let clear_mask = (if sz = 8 then 3 else 1);
              data' = le_bytes sz (le_word data AND NOT clear_mask)
          in (data', ptw_account sz data' s1)
        else (case ptw_pick_byte sz s1 of (off, s2) \<Rightarrow>
          (case ptw_choose_mask s2 of (m, s3) \<Rightarrow>
            if m = 0 then (data, s3)
            else if ptw_ecc s3 \<and> popcount m < 2
            then (data, s3\<lparr>ptw_numEccCorrected := ptw_numEccCorrected s3 + 1\<rparr>)
            else
              let data' = data[off := data ! off XOR ucast m]
              in (data', ptw_account sz data' s3)))))"

lemma ptw_account_simps [simp]:
  "max_faults (ptw_account sz d s) = max_faults s"
  "faults_injected_count (ptw_account sz d s) = Suc (faults_injected_count s)"
  by (simp_all add: ptw_account_def Let_def)

lemma ptw_generateRandomMask_simps [simp]:
  "max_faults (snd (ptw_generateRandomMask b s)) = max_faults s"
  "faults_injected_count (snd (ptw_generateRandomMask b s)) = faults_injected_count s"
  "ptw_ecc (snd (ptw_generateRandomMask b s)) = ptw_ecc s"
  by (simp_all add: ptw_generateRandomMask_def split: prod.splits)

lemma ptw_choose_mask_simps [simp]:
  "max_faults (snd (ptw_choose_mask s)) = max_faults s"
  "faults_injected_count (snd (ptw_choose_mask s)) = faults_injected_count s"
  "ptw_ecc (snd (ptw_choose_mask s)) = ptw_ecc s"
  by (simp_all add: ptw_choose_mask_def)

lemma ptw_pick_byte_simps [simp]:
  "max_faults (snd (ptw_pick_byte sz s)) = max_faults s"
  "faults_injected_count (snd (ptw_pick_byte sz s)) = faults_injected_count s"
  "ptw_ecc (snd (ptw_pick_byte sz s)) = ptw_ecc s"
  by (simp_all add: ptw_pick_byte_def Let_def split: prod.splits)

lemma bernoulli_ptw [simp]:
  "ptw_ecc (snd (bernoulli s)) = ptw_ecc s" "clear_valid_bit (snd (bernoulli s)) = clear_valid_bit s"
  by (simp_all add: bernoulli_def split: prod.splits)

interpretation ptw_hook: hook_injector "\<lambda>(now, d). corruptDescriptor now d" "\<lambda>(now, d). d"
  faults_injected_count max_faults
  by unfold_locales
    (auto simp: corruptDescriptor_def cap_reached_def case_prod_unfold Let_def)

text \<open>The masks of the bit-flip path have only the eight bits of one byte.\<close>

lemma ptw_mask_low:
  assumes "bit (fst (ptw_choose_mask s)) n"
  shows "n < 8"
proof (cases "ptw_fault_mask s = 0")
  case True
  with assms have "bit (fst (or_random_bits 0 7 (nat (ptw_num_bits s)) 0 (rng s)) :: u64) n"
    by (simp add: ptw_choose_mask_def ptw_generateRandomMask_def split: prod.splits)
  from or_random_bits_inside [OF _ this] show ?thesis by simp
qed (use assms in \<open>auto simp: ptw_choose_mask_def bit_and_iff bit_byte_mask\<close>)

lemma popcount_ucast_low:
  assumes "\<And>n. bit (m :: u64) n \<Longrightarrow> n < 8"
  shows "popcount (ucast m :: u8) = popcount m"
proof -
  have "bit (ucast m :: u8) n \<longleftrightarrow> bit m n" for n
    using assms by (auto simp: bit_unsigned_iff)
  then show ?thesis by (simp add: popcount_card)
qed

lemma ptw_pick_byte_less: "0 < sz \<Longrightarrow> fst (ptw_pick_byte sz s) < sz"
proof -
  assume "0 < sz"
  then have "fst (uniform_int 0 (int sz - 1) r) \<le> int sz - 1" "0 \<le> fst (uniform_int 0 (int sz - 1) r)" for r
    by (intro uniform_int_range; simp)+
  with \<open>0 < sz\<close> show ?thesis by (auto simp: ptw_pick_byte_def Let_def nat_less_iff split: prod.splits)
qed

lemma corruptDescriptor_flip:
  assumes "\<not> clear_valid_bit s"
    and "faults_injected_count (snd (corruptDescriptor now data s)) \<noteq> faults_injected_count s"
  obtains off m where "off < length data" "fst (corruptDescriptor now data s) = data[off := data ! off XOR m]"
    "m \<noteq> 0" "ptw_ecc s \<Longrightarrow> 2 \<le> popcount m"
proof -
  define pk where "pk = ptw_pick_byte (length data) (snd (bernoulli s))"
  define mk where "mk = ptw_choose_mask (snd pk)"
  have ecc: "ptw_ecc (snd mk) = ptw_ecc s" by (simp add: mk_def pk_def)
  have gates: "length data \<noteq> 0 \<and> fst mk \<noteq> 0 \<and> \<not> (ptw_ecc (snd mk) \<and> popcount (fst mk) < 2)
      \<and> fst (corruptDescriptor now data s) = data[fst pk := data ! fst pk XOR ucast (fst mk)]"
    using assms unfolding corruptDescriptor_def case_prod_unfold Let_def
      pk_def [symmetric] mk_def [symmetric]
    by (auto simp: mk_def pk_def split: if_splits)
  have pc: "popcount (ucast (fst mk) :: u8) = popcount (fst mk)"
    by (rule popcount_ucast_low) (unfold mk_def, rule ptw_mask_low)
  have "(ucast (fst mk) :: u8) \<noteq> 0"
    using gates pc popcount_eq_0_iff [of "fst mk"] popcount_eq_0_iff [of "ucast (fst mk) :: u8"] by metis
  moreover have "ptw_ecc s \<Longrightarrow> 2 \<le> popcount (ucast (fst mk) :: u8)"
    using gates pc ecc by (metis not_less)
  moreover have "fst pk < length data" using gates unfolding pk_def by (intro ptw_pick_byte_less) simp
  ultimately show ?thesis using that gates by blast
qed

lemma longDescInvalid_bits: "longDescInvalid v \<longleftrightarrow> \<not> bit v 0 \<and> \<not> bit v 1"
proof -
  have three: "(3 :: u64) = mask 2" by (simp add: mask_eq_exp_minus_1)
  have "v AND mask 2 = 0 \<longleftrightarrow> (\<forall>n < 2. \<not> bit v n)"
  proof safe
    fix n :: nat assume z: "v AND mask 2 = 0" and n: "n < 2" "bit v n"
    have "bit (v AND mask 2) n" using n by (simp only: bit_and_iff bit_mask_iff) (auto dest: bit_imp_le_length)
    with z show False by (simp only: bit_0_eq bot_apply bot_bool_def)
  qed (auto simp: bit_eq_iff bit_and_iff bit_mask_iff)
  then show ?thesis unfolding longDescInvalid_def three by (auto simp: numeral_2_eq_2 less_Suc_eq)
qed

lemma shortDescInvalid_bits: "shortDescInvalid v \<longleftrightarrow> \<not> bit v 0"
  by (simp add: shortDescInvalid_def and_one_eq bit_0 mod_2_eq_odd)

lemma cleared_descriptor_invalid:
  assumes "0 < sz" and "sz \<le> 8"
  shows "longDescInvalid (le_word (le_bytes sz (w AND NOT 3)))"
    and "shortDescInvalid (le_word (le_bytes sz (w AND NOT 1)))"
proof -
  have three: "(3 :: u64) = mask 2" by (simp add: mask_eq_exp_minus_1)
  show "longDescInvalid (le_word (le_bytes sz (w AND NOT 3)))"
    unfolding longDescInvalid_bits three
    using assms by (auto simp: bit_le_word bit_le_bytes bit_and_iff bit_not_iff bit_mask_iff)
  show "shortDescInvalid (le_word (le_bytes sz (w AND NOT 1)))"
    unfolding shortDescInvalid_bits
    using assms by (auto simp: bit_le_word bit_le_bytes bit_and_iff bit_not_iff bit_1_iff)
qed

lemma corruptDescriptor_clear:
  assumes "clear_valid_bit s" and "length data \<le> 8"
    and "faults_injected_count (snd (corruptDescriptor now data s)) \<noteq> faults_injected_count s"
  shows "(if length data = 8 then longDescInvalid (le_word (fst (corruptDescriptor now data s)))
      else shortDescInvalid (le_word (fst (corruptDescriptor now data s))))
    \<and> numSpuriousFaults (snd (corruptDescriptor now data s)) = Suc (numSpuriousFaults s)"
proof -
  define d where "d = le_bytes (length data) (le_word data AND NOT (if length data = 8 then 3 else 1))"
  have r: "0 < length data" "corruptDescriptor now data s = (d, ptw_account (length data) d (snd (bernoulli s)))"
    using assms(1,3) unfolding d_def
    by (auto simp: corruptDescriptor_def case_prod_unfold Let_def split: if_splits)
  have inv: "if length data = 8 then longDescInvalid (le_word d) else shortDescInvalid (le_word d)"
    using cleared_descriptor_invalid [OF r(1) assms(2), of "le_word data"]
    by (cases "length data = 8") (simp_all add: d_def)
  moreover have "numSpuriousFaults (ptw_account (length data) d (snd (bernoulli s))) = Suc (numSpuriousFaults s)"
    using inv by (auto simp: ptw_account_def Let_def count_fault_def bernoulli_def split: prod.splits)
  ultimately show ?thesis using r(2) by simp
qed

text \<open>What an injected descriptor fault is.  With \<open>clearValidBit\<close> the descriptor the walker goes on
  with is invalid, and is counted as spurious; otherwise exactly one byte changes, by a non-zero
  mask, and under the error-correction model only by a mask of two or more bits, so a single-bit
  flip never reaches the walker.\<close>

theorem ptw_descriptor_faults:
  assumes "length data \<le> 8"
    and "faults_injected_count (snd (corruptDescriptor now data s)) \<noteq> faults_injected_count s"
  shows "if clear_valid_bit s
    then (if length data = 8 then longDescInvalid (le_word (fst (corruptDescriptor now data s)))
          else shortDescInvalid (le_word (fst (corruptDescriptor now data s))))
      \<and> numSpuriousFaults (snd (corruptDescriptor now data s)) = Suc (numSpuriousFaults s)
    else (\<exists>off m. off < length data \<and> fst (corruptDescriptor now data s) = data[off := data ! off XOR m]
      \<and> m \<noteq> 0 \<and> (ptw_ecc s \<longrightarrow> 2 \<le> popcount m))"
proof (cases "clear_valid_bit s")
  case True
  with corruptDescriptor_clear [OF True assms] show ?thesis by simp
next
  case False
  obtain off m where "off < length data" "fst (corruptDescriptor now data s) = data[off := data ! off XOR m]"
    "m \<noteq> 0" "ptw_ecc s \<longrightarrow> 2 \<le> popcount m"
    using corruptDescriptor_flip [OF False assms(2)] by metis
  with False show ?thesis by auto
qed

definition demo_ptw :: ptw where
  "demo_ptw = \<lparr>probability = 1, first_clock = 0, last_clock = 0, max_faults = 0, faults_injected_count = 0,
     rng = sconst 0, ptw_num_bits = 1, ptw_fault_mask = 6, ptw_byte_offset = 2, clear_valid_bit = False,
     ptw_ecc = True, ptw_first_tick = 0, ptw_last_tick = 0, ptw_numFaultsInjected = 0,
     numSpuriousFaults = 0, numBenignFlips = 0, ptw_numEccCorrected = 0\<rparr>"

theorem ptw_descriptor_faults_witness:
  "fst (corruptDescriptor 7 [3, 0, 1, 0] demo_ptw) = [3, 0, 7, 0]
   \<and> (\<exists>off m. off < 4 \<and> [3, 0, 7, 0] = [3, 0, 1, 0 :: u8][off := [3, 0, 1, 0] ! off XOR m]
        \<and> m \<noteq> 0 \<and> 2 \<le> popcount m)"
proof -
  have pc: "popcount (6 :: u64) = 2" by (simp add: popcount_def upt_rec)
  have e: "fst (corruptDescriptor 7 [3, 0, 1, 0] demo_ptw) = [3, 0, 7, 0]"
    "faults_injected_count (snd (corruptDescriptor 7 [3, 0, 1, 0] demo_ptw)) \<noteq> faults_injected_count demo_ptw"
    using pc by (simp_all add: corruptDescriptor_def demo_ptw_def cap_reached_def bernoulli_def uniform_real01_def
        ptw_pick_byte_def ptw_choose_mask_def Let_def)
  have "clear_valid_bit demo_ptw = False" "ptw_ecc demo_ptw" by (simp_all add: demo_ptw_def)
  with ptw_descriptor_faults [OF _ e(2)] e(1) show ?thesis 
    by (simp add: numeral_eq_Suc del: list_update.simps)
qed

end
