(* ===== verification/Ex_Mon.thy ===== *)
theory Ex_Mon
  imports Injector
begin

text \<open>
  The exclusive monitor of the Arm ISA (\<open>arch/arm/isa.cc\<close>: the misc registers \<open>LOCKFLAG\<close>,
  \<open>LOCKADDR\<close> and \<open>SEV_MAILBOX\<close> and the handlers that read and write them) together with
  \<open>CHAOSExMon\<close>, which makes a store-conditional fail despite its reservation or succeed without one.
  The monitor is shown to implement an abstract reservation, and the injector's two modes are
  described by how far the outcomes depart from it.
\<close>

datatype exmon_mode = ClearReservation | StaleReservation

record exmon = injector +
  exmon_fault_mode :: exmon_mode
  exmon_numFaultsInjected :: nat
  numClearReservations :: nat
  numStaleReservations :: nat
  numInWindowChecks :: nat
  numOutOfWindow :: nat

definition CHAOSExMon ::
    "string \<Rightarrow> real \<Rightarrow> cycles \<Rightarrow> cycles \<Rightarrow> nat \<Rightarrow> rng \<Rightarrow> ctor_error + exmon" where
  "CHAOSExMon m prob fst_clk lst_clk cap r =
     (let mk = (\<lambda>md. \<lparr>probability = prob, first_clock = fst_clk, last_clock = lst_clk, max_faults = cap,
            faults_injected_count = 0, rng = r, exmon_fault_mode = md, exmon_numFaultsInjected = 0,
            numClearReservations = 0, numStaleReservations = 0, numInWindowChecks = 0,
            numOutOfWindow = 0\<rparr>)
      in if m = ''clear_reservation'' then Inr (mk ClearReservation)
         else if m = ''stale_reservation'' then Inr (mk StaleReservation)
         else Inl (InvalidParam ''mode'' m))"

definition shouldInject :: "tick \<Rightarrow> exmon \<Rightarrow> bool \<times> exmon" where
  "shouldInject now s =
     (if cap_reached s then (False, s)
      else if last_clock s \<noteq> 0 \<and> last_clock s * 1000 < now then (False, s)
      else if now < first_clock s * 1000 then (False, s\<lparr>numOutOfWindow := numOutOfWindow s + 1\<rparr>)
      else
        let s1 = s\<lparr>numInWindowChecks := numInWindowChecks s + 1\<rparr>
        in if 1 \<le> probability s1 then (True, s1) else bernoulli s1)"

definition maybeClearReservationSC :: "tick \<Rightarrow> exmon \<Rightarrow> bool \<times> exmon" where
  "maybeClearReservationSC now s =
     (if exmon_fault_mode s \<noteq> ClearReservation then (False, s)
      else if last_clock s \<noteq> 0 \<and> last_clock s * 1000 < now then (False, s)
      else if now < first_clock s * 1000 then (False, s\<lparr>numOutOfWindow := numOutOfWindow s + 1\<rparr>)
      else
        let s1 = s\<lparr>numInWindowChecks := numInWindowChecks s + 1\<rparr>;
            (fires, s2) = (if probability s1 < 1 then bernoulli s1 else (True, s1))
        in if \<not> fires then (False, s2)
           else
             let s3 = s2\<lparr>numClearReservations := numClearReservations s2 + 1\<rparr>;
                 s4 = (if faults_injected_count s3 = 0
                       then s3\<lparr>exmon_numFaultsInjected := exmon_numFaultsInjected s3 + 1\<rparr> else s3)
             in (True, count_fault s4))"

definition maybeStaleReservation :: "tick \<Rightarrow> exmon \<Rightarrow> bool \<times> exmon" where
  "maybeStaleReservation now s =
     (if exmon_fault_mode s \<noteq> StaleReservation then (False, s)
      else (case shouldInject now s of (xm, s1) \<Rightarrow>
        if \<not> xm then (False, s1)
        else
          let s2 = count_fault s1;
              s3 = s2\<lparr>exmon_numFaultsInjected := exmon_numFaultsInjected s2 + 1\<rparr>
          in (True, s3\<lparr>numStaleReservations := numStaleReservations s3 + 1\<rparr>)))"

subsection \<open>The monitor\<close>

record monitor =
  LOCKFLAG :: bool
  LOCKADDR :: u64
  SEV_MAILBOX :: bool
  stCondFailures :: nat

definition handleLockedRead :: "u64 \<Rightarrow> monitor \<Rightarrow> monitor" where
  "handleLockedRead paddr mon = mon\<lparr>LOCKADDR := paddr, LOCKFLAG := True\<rparr>"

definition handleLockedSnoopHit :: "monitor \<Rightarrow> monitor" where
  "handleLockedSnoopHit mon = mon\<lparr>LOCKFLAG := False, SEV_MAILBOX := True\<rparr>"

definition lockedSnoopHandler :: "u64 \<Rightarrow> u64 \<Rightarrow> monitor \<Rightarrow> monitor" where
  "lockedSnoopHandler cacheBlockMask addr mon =
     (if \<not> LOCKFLAG mon then mon
      else
        let locked_addr = LOCKADDR mon AND cacheBlockMask; snoop_addr = addr AND cacheBlockMask
        in if locked_addr = snoop_addr then mon\<lparr>LOCKFLAG := False, SEV_MAILBOX := True\<rparr> else mon)"

text \<open>The hooks are behind a pointer that may be null: \<open>None\<close> is no injector.\<close>

definition hook_opt :: "(exmon \<Rightarrow> bool \<times> exmon) \<Rightarrow> exmon option \<Rightarrow> bool \<times> exmon option" where
  "hook_opt h xm = (case xm of None \<Rightarrow> (False, None) | Some s \<Rightarrow> (case h s of (b, s') \<Rightarrow> (b, Some s')))"

definition lockedWriteHandler ::
    "tick \<Rightarrow> u64 \<Rightarrow> bool \<Rightarrow> u64 \<Rightarrow> monitor \<times> exmon option \<Rightarrow> bool \<times> monitor \<times> exmon option" where
  "lockedWriteHandler now cacheBlockMask isSwap paddr = (\<lambda>(mon, xm).
     if isSwap then (True, mon, xm)
     else
       let lock_flag = LOCKFLAG mon; lock_addr = LOCKADDR mon AND cacheBlockMask
       in if \<not> lock_flag \<or> (paddr AND cacheBlockMask) \<noteq> lock_addr then
            (case hook_opt (maybeStaleReservation now) xm of (granted, xm1) \<Rightarrow>
               if granted then (True, mon, xm1)
               else (False, mon\<lparr>LOCKFLAG := False, stCondFailures := stCondFailures mon + 1\<rparr>, xm1))
          else
            (case hook_opt (maybeClearReservationSC now) xm of (cleared, xm1) \<Rightarrow>
               if cleared then (False, mon\<lparr>LOCKFLAG := False\<rparr>, xm1) else (True, mon, xm1)))"

subsection \<open>Sequences of monitor operations\<close>

datatype monitor_op = LoadExclusive u64 | Snoop u64 | SnoopHit | StoreConditional u64 | Swap u64

definition monitor_step ::
    "u64 \<Rightarrow> tick \<times> monitor_op \<Rightarrow> monitor \<times> exmon option \<Rightarrow> bool \<times> monitor \<times> exmon option" where
  "monitor_step blk = (\<lambda>(now, oper) (mon, xm).
     (case oper of
        LoadExclusive a \<Rightarrow> (True, handleLockedRead a mon, xm)
      | Snoop a \<Rightarrow> (True, lockedSnoopHandler blk a mon, xm)
      | SnoopHit \<Rightarrow> (True, handleLockedSnoopHit mon, xm)
      | StoreConditional a \<Rightarrow> lockedWriteHandler now blk False a (mon, xm)
      | Swap a \<Rightarrow> lockedWriteHandler now blk True a (mon, xm)))"

text \<open>The abstract monitor is the block reserved, if any.\<close>

definition reservation :: "u64 \<Rightarrow> monitor \<Rightarrow> u64 option" where
  "reservation blk mon = (if LOCKFLAG mon then Some (LOCKADDR mon AND blk) else None)"

fun reserve_step :: "u64 \<Rightarrow> monitor_op \<Rightarrow> u64 option \<Rightarrow> bool \<times> u64 option" where
  "reserve_step blk (LoadExclusive a) v = (True, Some (a AND blk))"
| "reserve_step blk (Snoop a) v = (True, if v = Some (a AND blk) then None else v)"
| "reserve_step blk SnoopHit v = (True, None)"
| "reserve_step blk (StoreConditional a) v = (if v = Some (a AND blk) then (True, v) else (False, None))"
| "reserve_step blk (Swap a) v = (True, v)"

lemma monitor_step_refines:
  "fst (monitor_step blk (now, oper) (mon, None)) = fst (reserve_step blk oper (reservation blk mon))
   \<and> reservation blk (fst (snd (monitor_step blk (now, oper) (mon, None))))
     = snd (reserve_step blk oper (reservation blk mon))
   \<and> snd (snd (monitor_step blk (now, oper) (mon, None))) = None"
  by (cases oper) (auto simp: monitor_step_def handleLockedRead_def lockedSnoopHandler_def
      handleLockedSnoopHit_def lockedWriteHandler_def hook_opt_def reservation_def Let_def)

fun monitor_run :: "u64 \<Rightarrow> (tick \<times> monitor_op) list \<Rightarrow> monitor \<times> exmon option \<Rightarrow> bool list \<times> monitor \<times> exmon option" where
  "monitor_run blk [] c = ([], c)"
| "monitor_run blk (x # xs) c =
     (case monitor_step blk x c of (b, c') \<Rightarrow> case monitor_run blk xs c' of (bs, c'') \<Rightarrow> (b # bs, c''))"

fun reserve_run :: "u64 \<Rightarrow> monitor_op list \<Rightarrow> u64 option \<Rightarrow> bool list" where
  "reserve_run blk [] v = []"
| "reserve_run blk (x # xs) v = (case reserve_step blk x v of (b, v') \<Rightarrow> b # reserve_run blk xs v')"

lemma monitor_run_refines:
  "fst (monitor_run blk xs (mon, None)) = reserve_run blk (map snd xs) (reservation blk mon)"
proof (induction xs arbitrary: mon)
  case (Cons x xs)
  obtain now oper where x: "x = (now, oper)" by (cases x)
  obtain b mon' i where s: "monitor_step blk x (mon, None) = (b, mon', i)"
    by (cases "monitor_step blk x (mon, None)")
  have "b = fst (reserve_step blk oper (reservation blk mon))"
    "reservation blk mon' = snd (reserve_step blk oper (reservation blk mon))" "i = None"
    using monitor_step_refines [of blk now oper mon] s x by auto
  with Cons [of mon'] s x show ?case by (simp add: case_prod_unfold)
qed simp

text \<open>The false successes of a run: store-conditionals granted although the monitor held no
  reservation for their block.\<close>

definition unreserved :: "u64 \<Rightarrow> monitor \<Rightarrow> monitor_op \<Rightarrow> bool" where
  "unreserved blk mon oper = (case oper of StoreConditional a \<Rightarrow> reservation blk mon \<noteq> Some (a AND blk) | _ \<Rightarrow> False)"

fun false_successes :: "u64 \<Rightarrow> (tick \<times> monitor_op) list \<Rightarrow> monitor \<times> exmon option \<Rightarrow> nat" where
  "false_successes blk [] c = 0"
| "false_successes blk (x # xs) c =
     (case monitor_step blk x c of (b, c') \<Rightarrow>
        (if b \<and> unreserved blk (fst c) (snd x) then 1 else 0) + false_successes blk xs c')"

lemma bernoulli_exmon [simp]:
  "exmon_fault_mode (snd (bernoulli s)) = exmon_fault_mode s"
  by (simp add: bernoulli_def split: prod.splits)

lemma count_fault_exmon [simp]: "exmon_fault_mode (count_fault s) = exmon_fault_mode s"
  by (simp add: count_fault_def)

interpretation stale_hook: hook_injector maybeStaleReservation "\<lambda>now. False" faults_injected_count max_faults
  by unfold_locales
    (auto simp: maybeStaleReservation_def shouldInject_def cap_reached_def case_prod_unfold Let_def)

lemma stale_mode [simp]: "exmon_fault_mode (snd (maybeStaleReservation now s)) = exmon_fault_mode s"
  by (auto simp: maybeStaleReservation_def shouldInject_def case_prod_unfold Let_def)

lemma clear_mode [simp]:
  "exmon_fault_mode s = StaleReservation \<Longrightarrow> maybeClearReservationSC now s = (False, s)"
  by (simp add: maybeClearReservationSC_def)

lemma stale_step:
  assumes "exmon_fault_mode s = StaleReservation" and "monitor_step blk x (mon, Some s) = (b, mon', i)"
  obtains s' where "i = Some s'" "exmon_fault_mode s' = StaleReservation" "max_faults s' = max_faults s"
    "faults_injected_count s + (if b \<and> unreserved blk mon (snd x) then 1 else 0) \<le> faults_injected_count s'"
    "max_faults s \<noteq> 0 \<longrightarrow> faults_injected_count s \<le> max_faults s
      \<longrightarrow> faults_injected_count s' \<le> max_faults s"
proof -
  obtain now oper where x: "x = (now, oper)" by (cases x)
  note st = stale_hook.hook_cap [of now s] stale_hook.hook_count [of now s]
    stale_hook.hook_capped [of s now] stale_hook.hook_clean [of now s]
  have within: "max_faults s \<noteq> 0 \<longrightarrow> faults_injected_count s \<le> max_faults s \<longrightarrow>
      faults_injected_count (snd (maybeStaleReservation now s)) \<le> max_faults s"
    using st by (cases "faults_injected_count s = max_faults s") auto
  show ?thesis
  proof (cases "unreserved blk mon oper")
    case True
    then have "b = fst (maybeStaleReservation now s)" "i = Some (snd (maybeStaleReservation now s))"
      using assms(2) x by (auto simp: monitor_step_def unreserved_def reservation_def lockedWriteHandler_def
          hook_opt_def Let_def case_prod_unfold split: monitor_op.splits if_splits)
    moreover have "fst (maybeStaleReservation now s) \<Longrightarrow>
        Suc (faults_injected_count s) \<le> faults_injected_count (snd (maybeStaleReservation now s))"
      using st by auto
    ultimately show ?thesis
      using that [of "snd (maybeStaleReservation now s)"] st(1,2) within assms(1) by auto
  next
    case False
    then have "i = Some s"
      using assms x by (auto simp: monitor_step_def unreserved_def reservation_def lockedWriteHandler_def
          hook_opt_def Let_def case_prod_unfold split: monitor_op.splits if_splits)
    then show ?thesis using that [of s] False assms(1) x by simp
  qed
qed

lemma false_successes_counted:
  assumes "exmon_fault_mode s = StaleReservation" and "max_faults s \<noteq> 0"
    and "faults_injected_count s \<le> max_faults s"
  shows "faults_injected_count s + false_successes blk xs (mon, Some s) \<le> max_faults s"
  using assms
proof (induction xs arbitrary: mon s)
  case (Cons x xs)
  obtain b mon' i where st: "monitor_step blk x (mon, Some s) = (b, mon', i)"
    by (cases "monitor_step blk x (mon, Some s)")
  from stale_step [OF Cons.prems(1) st] obtain s' where
    s': "i = Some s'" "exmon_fault_mode s' = StaleReservation" "max_faults s' = max_faults s"
    "faults_injected_count s + (if b \<and> unreserved blk mon (snd x) then 1 else 0) \<le> faults_injected_count s'"
    "faults_injected_count s' \<le> max_faults s"
    using Cons.prems(2,3) by blast
  have "faults_injected_count s' + false_successes blk xs (mon', Some s') \<le> max_faults s'"
    by (rule Cons.IH) (use s' Cons.prems in simp_all)
  then show ?case using s'(3,4) st s'(1) by simp
qed simp

lemma clear_certain:
  assumes "exmon_fault_mode s = ClearReservation" "1 \<le> probability s" "first_clock s * 1000 \<le> now"
    "last_clock s = 0 \<or> now \<le> last_clock s * 1000"
  shows "fst (maybeClearReservationSC now s)"
  using assms by (auto simp: maybeClearReservationSC_def Let_def)

text \<open>C39: with no injector the monitor is exactly a reservation on one cache block: over every
  sequence of load-exclusives, snoops, store-conditionals and swaps the outcomes are those of the
  abstract reservation.\<close>

theorem monitor_implements_reservation:
  "fst (monitor_run blk xs (mon, None)) = reserve_run blk (map snd xs) (reservation blk mon)"
  by (rule monitor_run_refines)

text \<open>C40: what the injector changes.  In stale mode a run has at most as many false successes as the
  fault cap has left; in clear mode, with probability 1 inside the window, no store-conditional
  succeeds, with or without a reservation, and the cap does not end it.\<close>

theorem exmon_fault_bounds:
  "(exmon_fault_mode s = StaleReservation \<and> max_faults s \<noteq> 0 \<and> faults_injected_count s \<le> max_faults s
     \<longrightarrow> false_successes blk xs (mon, Some s) \<le> max_faults s - faults_injected_count s)
   \<and> (exmon_fault_mode s = ClearReservation \<and> 1 \<le> probability s \<and> first_clock s * 1000 \<le> now
       \<and> (last_clock s = 0 \<or> now \<le> last_clock s * 1000)
     \<longrightarrow> \<not> fst (lockedWriteHandler now blk False a (mon, Some s)))"
proof (intro conjI impI)
  assume "exmon_fault_mode s = StaleReservation \<and> max_faults s \<noteq> 0 \<and> faults_injected_count s \<le> max_faults s"
  then show "false_successes blk xs (mon, Some s) \<le> max_faults s - faults_injected_count s"
    using false_successes_counted [of s blk xs mon] by linarith
next
  assume a: "exmon_fault_mode s = ClearReservation \<and> 1 \<le> probability s \<and> first_clock s * 1000 \<le> now
       \<and> (last_clock s = 0 \<or> now \<le> last_clock s * 1000)"
  then have "fst (maybeClearReservationSC now s)" by (intro clear_certain) auto
  with a show "\<not> fst (lockedWriteHandler now blk False a (mon, Some s))"
    by (auto simp: lockedWriteHandler_def hook_opt_def maybeStaleReservation_def Let_def case_prod_unfold)
qed

definition demo_exmon :: "exmon_mode \<Rightarrow> exmon" where
  "demo_exmon md = \<lparr>probability = 1, first_clock = 0, last_clock = 0, max_faults = 1,
     faults_injected_count = 0, rng = sconst 0, exmon_fault_mode = md, exmon_numFaultsInjected = 0,
     numClearReservations = 0, numStaleReservations = 0, numInWindowChecks = 0, numOutOfWindow = 0\<rparr>"

definition demo_monitor :: monitor where
  "demo_monitor = \<lparr>LOCKFLAG = False, LOCKADDR = 0, SEV_MAILBOX = False, stCondFailures = 0\<rparr>"

theorem exmon_fault_bounds_witness:
  "fst (monitor_run 0xFFC0 [(1, StoreConditional 64), (2, StoreConditional 64)]
      (demo_monitor, Some (demo_exmon StaleReservation))) = [True, False]
   \<and> false_successes 0xFFC0 [(1, StoreConditional 64), (2, StoreConditional 64)]
      (demo_monitor, Some (demo_exmon StaleReservation)) \<le> 1
   \<and> \<not> fst (lockedWriteHandler 2 0xFFC0 False 64
        (handleLockedRead 64 demo_monitor, Some (demo_exmon ClearReservation)))"
proof -
  have "fst (monitor_run 0xFFC0 [(1, StoreConditional 64), (2, StoreConditional 64)]
      (demo_monitor, Some (demo_exmon StaleReservation))) = [True, False]"
    by (simp add: monitor_step_def lockedWriteHandler_def hook_opt_def maybeStaleReservation_def
        shouldInject_def cap_reached_def count_fault_def demo_exmon_def demo_monitor_def)
  then show ?thesis
    using exmon_fault_bounds [of "demo_exmon StaleReservation" "0xFFC0"
        "[(1, StoreConditional 64), (2, StoreConditional 64)]" demo_monitor]
      exmon_fault_bounds [of "demo_exmon ClearReservation" "0xFFC0" "[]" "handleLockedRead 64 demo_monitor" 2 64]
    by (simp add: demo_exmon_def del: monitor_run.simps false_successes.simps)
qed

end
