(* ===== verification/Sys_Reg.thy ===== *)
theory Sys_Reg
  imports Injector
begin

text \<open>
  \<open>CHAOSArmSysReg\<close> and the read of a miscellaneous register it hooks
  (\<open>ISA::readMiscRegNoEffect\<close>): the whitelist parser, the fault applied to the value read, and the
  order of the architectural masks and the fault.  The table \<open>miscRegName\<close> is generated by the
  preprocessor from the register list and is an argument; an entry may be null.
\<close>

datatype sysreg_fault = Basic fault_type | ValueToLegal

record sysreg = injector +
  sysreg_fault_type :: sysreg_fault
  sysreg_fault_mask :: u64
  sysreg_num_bits :: int
  whitelist :: "nat set"
  sysreg_first_tick :: tick
  sysreg_last_tick :: tick
  sysreg_numFaultsInjected :: nat
  sysreg_numBitFlips :: nat
  sysreg_numStuckAtZero :: nat
  sysreg_numStuckAtOne :: nat

definition sysreg_stringToFaultType :: "string \<Rightarrow> sysreg_fault" where
  "sysreg_stringToFaultType s =
     (if s = ''bit_flip'' then Basic BitFlip
      else if s = ''stuck_at_zero'' then Basic StuckAtZero
      else if s = ''stuck_at_one'' then Basic StuckAtOne
      else if s = ''value_to_legal'' then ValueToLegal
      else Basic RandomFault)"

definition sysreg_startup :: "sysreg \<Rightarrow> sysreg" where
  "sysreg_startup s = s\<lparr>sysreg_first_tick := first_clock s,
     sysreg_last_tick := (if last_clock s = 0 then 0 else last_clock s)\<rparr>"

subsection \<open>The whitelist\<close>

text \<open>\<open>std::getline(ss, tok, ',')\<close> until the stream ends.\<close>

fun split_comma :: "string \<Rightarrow> string list" where
  "split_comma [] = [[]]"
| "split_comma (c # cs) =
     (if c = CHR '','' then [] # split_comma cs
      else (case split_comma cs of [] \<Rightarrow> [[c]] | t # ts \<Rightarrow> (c # t) # ts))"

definition is_blank :: "char \<Rightarrow> bool" where
  "is_blank c \<longleftrightarrow> c = CHR '' '' \<or> c = CHR 0x09"

definition trim_blanks :: "string \<Rightarrow> string" where
  "trim_blanks t = rev (dropWhile is_blank (rev (dropWhile is_blank t)))"

fun misc_reg_index :: "string option list \<Rightarrow> string \<Rightarrow> nat \<Rightarrow> nat option" where
  "misc_reg_index [] t i = None"
| "misc_reg_index (n # ns) t i = (if n = Some t then Some i else misc_reg_index ns t (Suc i))"

fun insert_tokens :: "string option list \<Rightarrow> string list \<Rightarrow> nat set \<Rightarrow> nat set" where
  "insert_tokens names [] w = w"
| "insert_tokens names (t # ts) w =
     (let tok = trim_blanks t
      in if tok = [] then insert_tokens names ts w
         else (case misc_reg_index names tok 0 of
                 None \<Rightarrow> insert_tokens names ts w
               | Some i \<Rightarrow> insert_tokens names ts (insert i w)))"

definition parseWhitelist :: "string option list \<Rightarrow> string \<Rightarrow> sysreg \<Rightarrow> sysreg" where
  "parseWhitelist names s st =
     (if s = [] then st else st\<lparr>whitelist := insert_tokens names (split_comma s) (whitelist st)\<rparr>)"

subsection \<open>The fault\<close>

definition sysreg_generateRandomMask :: "int \<Rightarrow> sysreg \<Rightarrow> u64 \<times> sysreg" where
  "sysreg_generateRandomMask bits s =
     (case or_random_bits 0 63 (nat bits) 0 (rng s) of (m, r) \<Rightarrow> (m, s\<lparr>rng := r\<rparr>))"

fun strstr :: "string \<Rightarrow> string \<Rightarrow> bool" where
  "strstr [] n = (n = [])"
| "strstr (c # cs) n = (take (length n) (c # cs) = n \<or> strstr cs n)"

definition is_ttbr :: "string option \<Rightarrow> bool" where
  "is_ttbr reg_name = (case reg_name of None \<Rightarrow> False | Some n \<Rightarrow> strstr n ''ttbr0'' \<or> strstr n ''ttbr1'')"

definition legal_mask :: "string option \<Rightarrow> u64" where
  "legal_mask reg_name = (if is_ttbr reg_name then NOT 0xFFF else push_bit 32 0xFFFFFFFF)"

definition sysreg_choose_fault :: "sysreg \<Rightarrow> sysreg_fault \<times> sysreg" where
  "sysreg_choose_fault s =
     (if sysreg_fault_type s = Basic RandomFault then
        (case discrete [0.9, 0.05, 0.05] (rng s) of (i, r) \<Rightarrow> (Basic (fault_type_of_index i), s\<lparr>rng := r\<rparr>))
      else (sysreg_fault_type s, s))"

definition sysreg_choose_mask :: "sysreg \<Rightarrow> u64 \<times> sysreg" where
  "sysreg_choose_mask s =
     (if sysreg_fault_mask s \<noteq> 0 then (sysreg_fault_mask s, s)
      else sysreg_generateRandomMask (sysreg_num_bits s) s)"

text \<open>The switch: the new value, or \<open>None\<close> where it returns without a fault.\<close>

definition sysreg_apply :: "string option \<Rightarrow> sysreg_fault \<Rightarrow> u64 \<Rightarrow> u64 \<Rightarrow> sysreg \<Rightarrow> u64 option \<times> sysreg" where
  "sysreg_apply reg_name chosen m val s =
     (case chosen of
        ValueToLegal \<Rightarrow>
          (let v = val AND legal_mask reg_name in (if v = val then None else Some v, s))
      | Basic StuckAtZero \<Rightarrow> (Some (val AND NOT m), s\<lparr>sysreg_numStuckAtZero := sysreg_numStuckAtZero s + 1\<rparr>)
      | Basic StuckAtOne \<Rightarrow> (Some (val OR m), s\<lparr>sysreg_numStuckAtOne := sysreg_numStuckAtOne s + 1\<rparr>)
      | Basic BitFlip \<Rightarrow> (Some (val XOR m), s\<lparr>sysreg_numBitFlips := sysreg_numBitFlips s + 1\<rparr>)
      | Basic RandomFault \<Rightarrow> (Some val, s))"

definition sysreg_maybeCorrupt :: "tick \<Rightarrow> nat \<Rightarrow> string option \<Rightarrow> u64 \<Rightarrow> sysreg \<Rightarrow> u64 \<times> sysreg" where
  "sysreg_maybeCorrupt now idx reg_name val s =
     (if probability s \<le> 0 \<or> whitelist s = {} then (val, s)
      else if idx \<notin> whitelist s then (val, s)
      else if cap_reached s then (val, s)
      else if now < sysreg_first_tick s then (val, s)
      else if sysreg_last_tick s \<noteq> 0 \<and> sysreg_last_tick s < now then (val, s)
      else (case bernoulli s of (fires, s1) \<Rightarrow>
        if \<not> fires then (val, s1)
        else (case sysreg_choose_fault s1 of (chosen, s2) \<Rightarrow>
          (case sysreg_choose_mask s2 of (m, s3) \<Rightarrow>
            if m = 0 then (val, s3)
            else (case sysreg_apply reg_name chosen m val s3 of
                (None, s4) \<Rightarrow> (val, s4)
              | (Some v, s4) \<Rightarrow>
                  (v, count_fault (s4\<lparr>sysreg_numFaultsInjected := sysreg_numFaultsInjected s4 + 1\<rparr>)))))))"

text \<open>The register read: the mapped halves are joined, the architectural read-as-zero and
  read-as-one bits enforced, and only then the injector consulted.  \<open>raz\<close>, \<open>rao\<close> and the pair of
  mapped indices are the register's entries in \<open>lookUpMiscReg\<close> and \<open>getMiscIndices\<close>.\<close>

definition readMiscRegNoEffect ::
    "tick \<Rightarrow> string option list \<Rightarrow> u64 \<Rightarrow> u64 \<Rightarrow> nat \<times> nat \<Rightarrow> (nat \<Rightarrow> u64) \<Rightarrow> nat \<Rightarrow> sysreg option
      \<Rightarrow> u64 \<times> sysreg option" where
  "readMiscRegNoEffect now names raz rao ix miscRegs idx chaosSysReg =
     (let (lower, upper) = ix;
          val = (if upper = 0 then miscRegs lower
                 else (miscRegs lower AND mask 32) OR push_bit 32 (miscRegs upper));
          val = (val AND NOT raz) OR rao
      in (case chaosSysReg of None \<Rightarrow> (val, None)
          | Some s \<Rightarrow> (case sysreg_maybeCorrupt now idx (names ! idx) val s of (v, s') \<Rightarrow> (v, Some s'))))"

subsection \<open>Facts\<close>

lemma sysreg_choose_simps [simp]:
  "max_faults (snd (sysreg_choose_fault s)) = max_faults s"
  "faults_injected_count (snd (sysreg_choose_fault s)) = faults_injected_count s"
  "max_faults (snd (sysreg_choose_mask s)) = max_faults s"
  "faults_injected_count (snd (sysreg_choose_mask s)) = faults_injected_count s"
  by (simp_all add: sysreg_choose_fault_def sysreg_choose_mask_def sysreg_generateRandomMask_def
      split: prod.splits)

lemma sysreg_apply_simps [simp]:
  "max_faults (snd (sysreg_apply n c m v s)) = max_faults s"
  "faults_injected_count (snd (sysreg_apply n c m v s)) = faults_injected_count s"
  by (simp_all add: sysreg_apply_def Let_def split: sysreg_fault.splits fault_type.splits)

lemma sysreg_maybeCorrupt_contract:
  fixes now idx n v s
  defines "res \<equiv> sysreg_maybeCorrupt now idx n v s"
  shows "max_faults (snd res) = max_faults s
    \<and> (faults_injected_count (snd res) = faults_injected_count s \<and> fst res = v
       \<or> faults_injected_count (snd res) = Suc (faults_injected_count s) \<and> \<not> cap_reached s)"
proof -
  define c where "c = sysreg_choose_fault (snd (bernoulli s))"
  define k where "k = sysreg_choose_mask (snd c)"
  define a where "a = sysreg_apply n (fst c) (fst k) v (snd k)"
  have k: "max_faults (snd k) = max_faults s" "faults_injected_count (snd k) = faults_injected_count s"
    "max_faults (snd a) = max_faults s" "faults_injected_count (snd a) = faults_injected_count s"
    by (simp_all add: a_def k_def c_def)
  show ?thesis
    unfolding res_def sysreg_maybeCorrupt_def case_prod_unfold Let_def
      a_def [symmetric] k_def [symmetric] c_def [symmetric]
    using k by (cases "fst a") auto
qed

interpretation sysreg_hook: hook_injector "\<lambda>(now, idx, n, v). sysreg_maybeCorrupt now idx n v"
  "\<lambda>(now, idx, n, v). v" faults_injected_count max_faults
  by unfold_locales
    (use sysreg_maybeCorrupt_contract in \<open>fastforce simp: cap_reached_def\<close>)+

lemma misc_reg_index_some:
  "misc_reg_index ns t i = Some j \<Longrightarrow> i \<le> j \<and> j < i + length ns \<and> ns ! (j - i) = Some t"
proof (induction ns t i rule: misc_reg_index.induct)
  case (2 n ns t i)
  then show ?case by (cases "n = Some t") (auto simp: nth_Cons' Suc_le_eq)
qed simp

lemma misc_reg_index_none: "misc_reg_index ns t i = None \<longleftrightarrow> Some t \<notin> set ns"
  by (induction ns t i rule: misc_reg_index.induct) auto

lemma insert_tokens_iff:
  "i \<in> insert_tokens names ts w \<longleftrightarrow>
     i \<in> w \<or> (\<exists>t \<in> set ts. trim_blanks t \<noteq> [] \<and> misc_reg_index names (trim_blanks t) 0 = Some i)"
  by (induction names ts w rule: insert_tokens.induct) (auto simp: Let_def split: option.splits)

lemma split_comma_no_comma: "t \<in> set (split_comma s) \<Longrightarrow> CHR '','' \<notin> set t"
  by (induction s arbitrary: t rule: split_comma.induct) (auto split: if_splits list.splits)

text \<open>The whitelist parser is sound and complete.  The parsed whitelist holds exactly the indices
  at which some comma-separated, blank-trimmed, non-empty token is first found in the name table,
  so every index of it is within the table and names a token of the string; unknown names add
  nothing.\<close>

theorem parseWhitelist_exact:
  assumes "whitelist st = {}" and "s \<noteq> []"
  shows "whitelist (parseWhitelist names s st) =
      {i. \<exists>t \<in> set (split_comma s). trim_blanks t \<noteq> [] \<and> misc_reg_index names (trim_blanks t) 0 = Some i}
    \<and> (\<forall>i \<in> whitelist (parseWhitelist names s st). i < length names
        \<and> (\<exists>t \<in> set (split_comma s). CHR '','' \<notin> set t \<and> names ! i = Some (trim_blanks t)))"
proof -
  have w: "whitelist (parseWhitelist names s st) =
      {i. \<exists>t \<in> set (split_comma s). trim_blanks t \<noteq> [] \<and> misc_reg_index names (trim_blanks t) 0 = Some i}"
    using assms by (auto simp: parseWhitelist_def insert_tokens_iff)
  moreover have "i < length names \<and> (\<exists>t \<in> set (split_comma s). CHR '','' \<notin> set t \<and> names ! i = Some (trim_blanks t))"
    if "t \<in> set (split_comma s)" "misc_reg_index names (trim_blanks t) 0 = Some i" for t i
    using misc_reg_index_some [OF that(2)] split_comma_no_comma [OF that(1)] that(1) by auto
  ultimately show ?thesis by auto
qed

lemma sysreg_fault_kind:
  assumes "faults_injected_count (snd (sysreg_maybeCorrupt now idx n v s)) \<noteq> faults_injected_count s"
  shows "idx \<in> whitelist s \<and> (if sysreg_fault_type s = ValueToLegal
    then fst (sysreg_maybeCorrupt now idx n v s) = v AND legal_mask n
      \<and> fst (sysreg_maybeCorrupt now idx n v s) \<noteq> v
    else \<exists>f m. m \<noteq> 0 \<and> fst (sysreg_maybeCorrupt now idx n v s) = apply_fault f m v)"
proof -
  define c where "c = sysreg_choose_fault (snd (bernoulli s))"
  define k where "k = sysreg_choose_mask (snd c)"
  define a where "a = sysreg_apply n (fst c) (fst k) v (snd k)"
  have r: "idx \<in> whitelist s" "fst k \<noteq> 0" "fst a = Some (fst (sysreg_maybeCorrupt now idx n v s))"
    using assms unfolding sysreg_maybeCorrupt_def case_prod_unfold Let_def
      a_def [symmetric] k_def [symmetric] c_def [symmetric]
    by (auto simp: a_def k_def c_def split: if_splits option.splits)
  have ft: "sysreg_fault_type (snd (bernoulli s)) = sysreg_fault_type s"
    by (simp add: bernoulli_def split: prod.splits)
  show ?thesis
  proof (cases "fst c")
    case ValueToLegal
    then have "sysreg_fault_type s = ValueToLegal"
      using ft by (auto simp: c_def sysreg_choose_fault_def split: prod.splits if_splits)
    with ValueToLegal r show ?thesis by (auto simp: a_def sysreg_apply_def Let_def split: if_splits)
  next
    case (Basic f)
    then have "sysreg_fault_type s \<noteq> ValueToLegal"
      using ft by (auto simp: c_def sysreg_choose_fault_def split: prod.splits if_splits)
    moreover have "fst (sysreg_maybeCorrupt now idx n v s) = apply_fault f (fst k) v"
      using Basic r(3) by (cases f) (simp_all add: a_def sysreg_apply_def)
    ultimately show ?thesis using r by auto
  qed
qed

text \<open>What a register read returns.  A register outside the whitelist reads as the architecture
  says and leaves the injector untouched; a whitelisted one reads so too unless a fault is counted,
  and then the value differs by the configured kind of fault: the legal-form mask of the register,
  which changes the value, or one non-zero mask.\<close>

theorem sysreg_read_faults:
  fixes names raz rao ix regs idx s now
  defines "arch \<equiv> fst (readMiscRegNoEffect now names raz rao ix regs idx None)"
  defines "v \<equiv> fst (readMiscRegNoEffect now names raz rao ix regs idx (Some s))"
  defines "s' \<equiv> the (snd (readMiscRegNoEffect now names raz rao ix regs idx (Some s)))"
  shows "arch AND raz = rao AND raz \<and> arch AND rao = rao
    \<and> (idx \<notin> whitelist s \<longrightarrow> v = arch \<and> s' = s)
    \<and> (if faults_injected_count s' = faults_injected_count s then v = arch
       else if sysreg_fault_type s = ValueToLegal then v = arch AND legal_mask (names ! idx) \<and> v \<noteq> arch
       else \<exists>f m. m \<noteq> 0 \<and> v = apply_fault f m arch)"
proof -
  have v: "v = fst (sysreg_maybeCorrupt now idx (names ! idx) arch s)"
    "s' = snd (sysreg_maybeCorrupt now idx (names ! idx) arch s)"
    by (simp_all add: v_def s'_def arch_def readMiscRegNoEffect_def Let_def case_prod_unfold)
  have "arch AND raz = rao AND raz" "arch AND rao = rao"
    by (auto simp: arch_def readMiscRegNoEffect_def Let_def case_prod_unfold
        intro!: bit_word_eqI simp: bit_simps)
  moreover have "idx \<notin> whitelist s \<longrightarrow> v = arch \<and> s' = s"
    by (simp add: v sysreg_maybeCorrupt_def)
  ultimately show ?thesis
    using sysreg_maybeCorrupt_contract [of now idx "names ! idx" arch s]
      sysreg_fault_kind [of now idx "names ! idx" arch s] unfolding v by (auto split: if_splits)
qed

definition demo_sysreg :: sysreg where
  "demo_sysreg = \<lparr>probability = 1, first_clock = 0, last_clock = 0, max_faults = 1,
     faults_injected_count = 0, rng = sconst 0, sysreg_fault_type = ValueToLegal,
     sysreg_fault_mask = 1, sysreg_num_bits = 1, whitelist = {}, sysreg_first_tick = 0,
     sysreg_last_tick = 0, sysreg_numFaultsInjected = 0, sysreg_numBitFlips = 0,
     sysreg_numStuckAtZero = 0, sysreg_numStuckAtOne = 0\<rparr>"

definition demo_names :: "string option list" where
  "demo_names = [None, Some ''sctlr_el1'', Some ''ttbr0_el1'']"

theorem parseWhitelist_exact_witness:
  "whitelist (parseWhitelist demo_names ''x, ttbr0_el1'' demo_sysreg) = {2}
   \<and> 2 < length demo_names"
proof -
  have "whitelist (parseWhitelist demo_names ''x, ttbr0_el1'' demo_sysreg) = {2}"
    by (simp add: parseWhitelist_def demo_sysreg_def demo_names_def trim_blanks_def is_blank_def)
  then show ?thesis
    using parseWhitelist_exact [of demo_sysreg "''x, ttbr0_el1''" demo_names]
    by (simp add: demo_sysreg_def)
qed

theorem sysreg_read_faults_witness:
  "fst (readMiscRegNoEffect 5 demo_names 0 0 (2, 0) (\<lambda>_. 0x1234) 2
      (Some (demo_sysreg\<lparr>whitelist := {2}\<rparr>))) = 0x1000
   \<and> 0x1000 = (0x1234 :: u64) AND legal_mask (Some ''ttbr0_el1'')
   \<and> fst (readMiscRegNoEffect 5 demo_names 0 0 (1, 0) (\<lambda>_. 0x1234) 1
      (Some (demo_sysreg\<lparr>whitelist := {2}\<rparr>))) = 0x1234"
proof -
  have lm: "legal_mask (Some ''ttbr0_el1'') = NOT 0xFFF"
    by (simp add: legal_mask_def is_ttbr_def)
  have "fst (readMiscRegNoEffect 5 demo_names 0 0 (2, 0) (\<lambda>_. 0x1234) 2
      (Some (demo_sysreg\<lparr>whitelist := {2}\<rparr>))) = 0x1000"
    by (simp add: readMiscRegNoEffect_def sysreg_maybeCorrupt_def demo_sysreg_def demo_names_def
        cap_reached_def bernoulli_def uniform_real01_def sysreg_choose_fault_def sysreg_choose_mask_def
        sysreg_apply_def lm)
  then show ?thesis
    using sysreg_read_faults [of 5 demo_names 0 0 "(1, 0)" "\<lambda>_. 0x1234" 1 "demo_sysreg\<lparr>whitelist := {2}\<rparr>"]
    by (simp add: lm) (simp add: readMiscRegNoEffect_def)
qed

end
