(* ===== verification/Rob_Head.thy ===== *)
theory Rob_Head
  imports Injector
begin

text \<open>
  The reorder buffer as the polling injectors see it: per thread a list of in-flight instructions,
  oldest first, of which \<open>ROB::readHeadInst\<close> returns the head, and the part of a \<open>DynInst\<close> they
  read or corrupt.  A \<open>Fault\<close> is its name, \<open>NoFault\<close> is \<open>None\<close>; a renamed register may be null.
\<close>

datatype inst_result = ResVal u64 | ResBlob "u8 list"

record rob_inst =
  seqNum :: u64
  inst_fault :: "string option"
  isInteger :: bool
  isLoad :: bool
  instResult :: "inst_result list"
  renamedDests :: "reg_id option list"
  renamedSrcs :: "reg_id option list"
  readySrcs :: "bool list"

type_synonym rob_lists = "thread_id \<Rightarrow> rob_inst list"

definition readHeadInst :: "thread_id \<Rightarrow> rob_lists \<Rightarrow> rob_inst option" where
  "readHeadInst tid rob = (case rob tid of [] \<Rightarrow> None | h # _ \<Rightarrow> Some h)"

definition set_head :: "thread_id \<Rightarrow> rob_inst \<Rightarrow> rob_lists \<Rightarrow> rob_lists" where
  "set_head tid h rob = rob(tid := h # tl (rob tid))"

fun corruptRegVal :: "u64 \<Rightarrow> inst_result \<Rightarrow> bool \<times> inst_result" where
  "corruptRegVal m (ResBlob b) = (False, ResBlob b)"
| "corruptRegVal m (ResVal v) = (True, ResVal (v XOR m))"

definition corruptResultRegVal :: "u64 \<Rightarrow> rob_inst \<Rightarrow> bool \<times> rob_inst" where
  "corruptResultRegVal m h =
     (case instResult h of [] \<Rightarrow> (False, h)
      | r # rs \<Rightarrow> (case corruptRegVal m r of (ok, r') \<Rightarrow> (ok, h\<lparr>instResult := r' # rs\<rparr>)))"

lemma corruptResultRegVal_iff:
  "fst (corruptResultRegVal m h) \<longleftrightarrow> (\<exists>v rs. instResult h = ResVal v # rs)"
  by (auto simp: corruptResultRegVal_def split: list.splits inst_result.splits prod.splits
      elim!: corruptRegVal.elims)

lemma corruptResultRegVal_ok:
  "instResult h = ResVal v # rs \<Longrightarrow>
     corruptResultRegVal m h = (True, h\<lparr>instResult := ResVal (v XOR m) # rs\<rparr>)"
  by (simp add: corruptResultRegVal_def)

lemma corruptResultRegVal_not: "\<not> fst (corruptResultRegVal m h) \<Longrightarrow> snd (corruptResultRegVal m h) = h"
proof (cases "instResult h")
  case (Cons r rs)
  then show "\<not> fst (corruptResultRegVal m h) \<Longrightarrow> snd (corruptResultRegVal m h) = h"
    by (cases r) (simp_all add: corruptResultRegVal_def)
qed (simp add: corruptResultRegVal_def)

lemma head_set_head [simp]: "readHeadInst tid (set_head tid h rob) = Some h"
  by (simp add: readHeadInst_def set_head_def)

lemma set_head_same [simp]: "readHeadInst tid rob = Some h \<Longrightarrow> set_head tid h rob = rob"
  by (auto simp: readHeadInst_def set_head_def split: list.splits)

text \<open>A landed fault changes one result of one head, by a non-zero mask, and nothing else.\<close>

definition head_result_xor :: "thread_id \<Rightarrow> rob_lists \<Rightarrow> rob_lists \<Rightarrow> (rob_inst \<Rightarrow> bool) \<Rightarrow> (u64 \<Rightarrow> bool) \<Rightarrow> bool" where
  "head_result_xor tid rob rob' elig ok_mask \<longleftrightarrow> (\<exists>h v rs m. readHeadInst tid rob = Some h \<and> elig h
     \<and> inst_fault h = None \<and> instResult h = ResVal v # rs \<and> m \<noteq> 0 \<and> ok_mask m
     \<and> rob' = set_head tid (h\<lparr>instResult := ResVal (v XOR m) # rs\<rparr>) rob)"

lemma head_result_xorI:
  assumes "readHeadInst tid rob = Some h" "elig h" "inst_fault h = None" "m \<noteq> 0" "ok_mask m"
    and "fst (corruptResultRegVal m h)"
  shows "head_result_xor tid rob (set_head tid (snd (corruptResultRegVal m h)) rob) elig ok_mask"
proof -
  obtain v rs where r: "instResult h = ResVal v # rs" using assms(6) by (auto simp: corruptResultRegVal_iff)
  then show ?thesis unfolding head_result_xor_def corruptResultRegVal_ok [OF r] snd_conv
    using assms(1-5) by blast
qed

subsection \<open>Bit segments\<close>

text \<open>The bit segments of \<open>CHAOSExec\<close> and \<open>CHAOSFPU\<close>; the execution injector knows the first four.\<close>

datatype bit_seg = SegAll | SegLow | SegMid | SegHigh | SegSign | SegExp | SegMantissa

fun seg_range :: "bit_seg \<Rightarrow> nat \<times> nat" where
  "seg_range SegLow = (0, 11)"
| "seg_range SegMid = (12, 47)"
| "seg_range SegHigh = (48, 63)"
| "seg_range SegSign = (63, 63)"
| "seg_range SegExp = (52, 62)"
| "seg_range SegMantissa = (0, 51)"
| "seg_range SegAll = (0, 63)"

definition seg_mask :: "u64 \<Rightarrow> bit_seg \<Rightarrow> int \<Rightarrow> rng \<Rightarrow> u64 \<times> rng" where
  "seg_mask fmask seg bits r =
     (if fmask \<noteq> 0 then (fmask, r)
      else (case seg_range seg of (lo, hi) \<Rightarrow> or_random_bits lo hi (nat bits) 0 r))"

lemma seg_range_ok: "fst (seg_range seg) \<le> snd (seg_range seg)" "snd (seg_range seg) \<le> 63"
  by (cases seg; simp)+

lemma seg_mask_inside:
  assumes "bit (fst (seg_mask 0 seg bits r)) k"
  shows "fst (seg_range seg) \<le> k \<and> k \<le> snd (seg_range seg)"
  using assms or_random_bits_inside [OF seg_range_ok(1) [of seg], of "nat bits" "0 :: u64" r k]
  by (simp add: seg_mask_def case_prod_unfold)

text \<open>The masks a configuration can produce: the fixed mask, or bits of the segment.\<close>

definition seg_mask_ok :: "u64 \<Rightarrow> bit_seg \<Rightarrow> u64 \<Rightarrow> bool" where
  "seg_mask_ok fmask seg m \<longleftrightarrow> (if fmask \<noteq> 0 then m = fmask
     else \<forall>k. bit m k \<longrightarrow> fst (seg_range seg) \<le> k \<and> k \<le> snd (seg_range seg))"

lemma seg_mask_okI: "seg_mask_ok fmask seg (fst (seg_mask fmask seg bits r))"
proof (cases "fmask = 0")
  case True
  then show ?thesis using seg_mask_inside [of seg bits r] by (simp add: seg_mask_ok_def)
qed (simp add: seg_mask_ok_def seg_mask_def)

lemma seg_mask_nonzero:
  assumes "0 < bits"
  shows "fst (seg_mask 0 seg bits r) \<noteq> 0"
  using or_random_bits_nonzero [OF seg_range_ok(1) [of seg], where 'a = 64, of "nat bits" 0 r]
    seg_range_ok(2) [of seg] assms by (simp add: seg_mask_def case_prod_unfold)

end
