(* ===== verification/Exec.thy ===== *)
theory Exec
  imports Rob_Head
begin

text \<open>
  \<open>CHAOSExec\<close> and \<open>CHAOSL1DForward\<close>: polling injectors that corrupt the front result of the
  instruction at the head of the reorder buffer, if it is an integer instruction, respectively a
  load.  Neither backs off when an attempt lands nothing, which is shown to stop simulated time when
  the probability is 1.
\<close>

record exec_inj = poller +
  exec_fault_mask :: u64
  exec_num_bits :: int
  exec_bit_seg :: bit_seg
  exec_numFaultsInjected :: nat
  numIntResultCorrupted :: nat
  numSkippedNonInt :: nat

definition exec_stringToBitSeg :: "string \<Rightarrow> bit_seg" where
  "exec_stringToBitSeg s = (if s = ''low'' then SegLow else if s = ''mid'' then SegMid
     else if s = ''high'' then SegHigh else SegAll)"

definition CHAOSExec :: "bool \<Rightarrow> real \<Rightarrow> u64 \<Rightarrow> int \<Rightarrow> string \<Rightarrow> cycles \<Rightarrow> cycles \<Rightarrow> nat \<Rightarrow> rng
    \<Rightarrow> ctor_error + exec_inj" where
  "CHAOSExec is_o3 prob fmask bits seg fst_clk lst_clk cap r =
     (if \<not> is_o3 then Inl NotO3CPU
      else Inr \<lparr>probability = prob, first_clock = fst_clk, last_clock = lst_clk, max_faults = cap,
        faults_injected_count = 0, rng = r, attack_at = None, exec_fault_mask = fmask,
        exec_num_bits = bits, exec_bit_seg = exec_stringToBitSeg seg, exec_numFaultsInjected = 0,
        numIntResultCorrupted = 0, numSkippedNonInt = 0\<rparr>)"

definition exec_startup :: "tick \<Rightarrow> clocked \<Rightarrow> exec_inj \<Rightarrow> exec_inj" where
  "exec_startup = poll_startup"

definition exec_genMask :: "exec_inj \<Rightarrow> u64 \<times> exec_inj" where
  "exec_genMask s =
     (case seg_mask (exec_fault_mask s) (exec_bit_seg s) (exec_num_bits s) (rng s) of
        (m, r) \<Rightarrow> (m, s\<lparr>rng := r\<rparr>))"

definition exec_processFault :: "thread_id \<Rightarrow> exec_inj \<times> rob_lists \<Rightarrow> exec_inj \<times> rob_lists" where
  "exec_processFault tid = (\<lambda>(s, rob).
     let skip = s\<lparr>numSkippedNonInt := numSkippedNonInt s + 1\<rparr> in
     if cap_reached s then (s, rob)
     else (case readHeadInst tid rob of None \<Rightarrow> (skip, rob)
       | Some h \<Rightarrow>
           if \<not> isInteger h then (skip, rob)
           else if inst_fault h \<noteq> None then (skip, rob)
           else (case exec_genMask s of (m, s1) \<Rightarrow>
             if m = 0 then (s1, rob)
             else (case corruptResultRegVal m h of (ok, h') \<Rightarrow>
               if \<not> ok then (s1\<lparr>numSkippedNonInt := numSkippedNonInt s1 + 1\<rparr>, rob)
               else (count_fault (s1\<lparr>numIntResultCorrupted := numIntResultCorrupted s1 + 1,
                       exec_numFaultsInjected := exec_numFaultsInjected s1 + 1\<rparr>),
                     set_head tid h' rob)))))"

definition exec_attackCheck :: "tick \<Rightarrow> clocked \<Rightarrow> tc_status option list \<Rightarrow> exec_inj \<times> rob_lists \<Rightarrow> exec_inj \<times> rob_lists" where
  "exec_attackCheck = poll_check exec_processFault"

record l1d_inj = poller +
  l1d_fault_mask :: u64
  l1d_num_bits :: int
  l1d_numFaultsInjected :: nat
  numLoadResultCorrupted :: nat
  numSkippedNonLoad :: nat

definition CHAOSL1DForward :: "bool \<Rightarrow> real \<Rightarrow> u64 \<Rightarrow> int \<Rightarrow> cycles \<Rightarrow> cycles \<Rightarrow> nat \<Rightarrow> rng
    \<Rightarrow> ctor_error + l1d_inj" where
  "CHAOSL1DForward is_o3 prob fmask bits fst_clk lst_clk cap r =
     (if \<not> is_o3 then Inl NotO3CPU
      else Inr \<lparr>probability = prob, first_clock = fst_clk, last_clock = lst_clk, max_faults = cap,
        faults_injected_count = 0, rng = r, attack_at = None, l1d_fault_mask = fmask,
        l1d_num_bits = bits, l1d_numFaultsInjected = 0, numLoadResultCorrupted = 0,
        numSkippedNonLoad = 0\<rparr>)"

definition l1d_startup :: "tick \<Rightarrow> clocked \<Rightarrow> l1d_inj \<Rightarrow> l1d_inj" where
  "l1d_startup = poll_startup"

definition l1d_genMask :: "l1d_inj \<Rightarrow> u64 \<times> l1d_inj" where
  "l1d_genMask s =
     (case seg_mask (l1d_fault_mask s) SegAll (l1d_num_bits s) (rng s) of (m, r) \<Rightarrow> (m, s\<lparr>rng := r\<rparr>))"

definition l1d_processFault :: "thread_id \<Rightarrow> l1d_inj \<times> rob_lists \<Rightarrow> l1d_inj \<times> rob_lists" where
  "l1d_processFault tid = (\<lambda>(s, rob).
     let skip = s\<lparr>numSkippedNonLoad := numSkippedNonLoad s + 1\<rparr> in
     if cap_reached s then (s, rob)
     else (case readHeadInst tid rob of None \<Rightarrow> (skip, rob)
       | Some h \<Rightarrow>
           if \<not> isLoad h then (skip, rob)
           else if inst_fault h \<noteq> None then (skip, rob)
           else (case l1d_genMask s of (m, s1) \<Rightarrow>
             if m = 0 then (s1, rob)
             else (case corruptResultRegVal m h of (ok, h') \<Rightarrow>
               if \<not> ok then (s1\<lparr>numSkippedNonLoad := numSkippedNonLoad s1 + 1\<rparr>, rob)
               else (count_fault (s1\<lparr>numLoadResultCorrupted := numLoadResultCorrupted s1 + 1,
                       l1d_numFaultsInjected := l1d_numFaultsInjected s1 + 1\<rparr>),
                     set_head tid h' rob)))))"

definition l1d_attackCheck :: "tick \<Rightarrow> clocked \<Rightarrow> tc_status option list \<Rightarrow> l1d_inj \<times> rob_lists \<Rightarrow> l1d_inj \<times> rob_lists" where
  "l1d_attackCheck = poll_check l1d_processFault"

subsection \<open>Facts\<close>

lemma exec_genMask_simps [simp]:
  "probability (snd (exec_genMask s)) = probability s" "first_clock (snd (exec_genMask s)) = first_clock s"
  "last_clock (snd (exec_genMask s)) = last_clock s" "max_faults (snd (exec_genMask s)) = max_faults s"
  "faults_injected_count (snd (exec_genMask s)) = faults_injected_count s"
  "attack_at (snd (exec_genMask s)) = attack_at s"
  by (simp_all add: exec_genMask_def split: prod.splits)

lemma l1d_genMask_simps [simp]:
  "probability (snd (l1d_genMask s)) = probability s" "first_clock (snd (l1d_genMask s)) = first_clock s"
  "last_clock (snd (l1d_genMask s)) = last_clock s" "max_faults (snd (l1d_genMask s)) = max_faults s"
  "faults_injected_count (snd (l1d_genMask s)) = faults_injected_count s"
  "attack_at (snd (l1d_genMask s)) = attack_at s"
  by (simp_all add: l1d_genMask_def split: prod.splits)

interpretation exec_poll: poll_source exec_processFault
  by unfold_locales
    (auto simp: exec_processFault_def case_prod_unfold Let_def split: option.splits)

interpretation l1d_poll: poll_source l1d_processFault
  by unfold_locales
    (auto simp: l1d_processFault_def case_prod_unfold Let_def split: option.splits)

lemma exec_processFault_effect:
  "if faults_injected_count (fst (exec_processFault tid (s, rob))) = faults_injected_count s
   then snd (exec_processFault tid (s, rob)) = rob
   else head_result_xor tid rob (snd (exec_processFault tid (s, rob))) isInteger
     (seg_mask_ok (exec_fault_mask s) (exec_bit_seg s))"
proof -
  have "seg_mask_ok (exec_fault_mask s) (exec_bit_seg s) (fst (exec_genMask s))"
    using seg_mask_okI by (simp add: exec_genMask_def case_prod_unfold)
  then show ?thesis
    by (auto simp: exec_processFault_def case_prod_unfold Let_def split: option.split
        intro!: head_result_xorI)
qed

lemma l1d_processFault_effect:
  "if faults_injected_count (fst (l1d_processFault tid (s, rob))) = faults_injected_count s
   then snd (l1d_processFault tid (s, rob)) = rob
   else head_result_xor tid rob (snd (l1d_processFault tid (s, rob))) isLoad
     (seg_mask_ok (l1d_fault_mask s) SegAll)"
proof -
  have "seg_mask_ok (l1d_fault_mask s) SegAll (fst (l1d_genMask s))"
    using seg_mask_okI by (simp add: l1d_genMask_def case_prod_unfold)
  then show ?thesis
    by (auto simp: l1d_processFault_def case_prod_unfold Let_def split: option.split
        intro!: head_result_xorI)
qed

text \<open>A writeback fault.  An attempt of the execution injector that counts a fault has XORed the
  front result of the integer, non-faulting head of the reorder buffer with one non-zero mask, the
  configured one or one inside the configured bit segment; any other attempt leaves the buffer as it
  is.  The same holds of the post-cache injector for loads.\<close>

theorem writeback_faults:
  "(if faults_injected_count (fst (exec_processFault tid (s, rob))) = faults_injected_count s
    then snd (exec_processFault tid (s, rob)) = rob
    else head_result_xor tid rob (snd (exec_processFault tid (s, rob))) isInteger
      (seg_mask_ok (exec_fault_mask s) (exec_bit_seg s)))
   \<and> (if faults_injected_count (fst (l1d_processFault tid (l, rob))) = faults_injected_count l
    then snd (l1d_processFault tid (l, rob)) = rob
    else head_result_xor tid rob (snd (l1d_processFault tid (l, rob))) isLoad
      (seg_mask_ok (l1d_fault_mask l) SegAll))"
  using exec_processFault_effect l1d_processFault_effect by blast

text \<open>The head of a thread cannot be corrupted: it is missing, not an integer instruction, faulting, or
  has no scalar result.\<close>

definition exec_blocked :: "thread_id \<Rightarrow> rob_lists \<Rightarrow> bool" where
  "exec_blocked tid rob \<longleftrightarrow> (case readHeadInst tid rob of None \<Rightarrow> True
     | Some h \<Rightarrow> \<not> isInteger h \<or> inst_fault h \<noteq> None \<or> \<not> (\<exists>v rs. instResult h = ResVal v # rs))"

definition exec_ineligible :: "tc_status option list \<Rightarrow> rob_lists \<Rightarrow> bool" where
  "exec_ineligible tcs rob \<longleftrightarrow> (\<forall>tid < length tcs. exec_blocked tid rob)"

lemma exec_skip:
  assumes "exec_blocked tid rob"
  shows "snd (exec_processFault tid (s, rob)) = rob
    \<and> faults_injected_count (fst (exec_processFault tid (s, rob))) = faults_injected_count s"
proof -
  have "\<not> head_result_xor tid rob rob' isInteger ok" for rob' ok
    using assms by (auto simp: head_result_xor_def exec_blocked_def)
  then show ?thesis using exec_processFault_effect [of tid s rob] by (auto split: if_splits)
qed

lemma exec_skip_all:
  assumes "\<forall>k < length tcs. exec_blocked (tid + k) rob"
  shows "snd (poll_threads exec_processFault tcs tid (s, rob)) = rob
    \<and> faults_injected_count (fst (poll_threads exec_processFault tcs tid (s, rob))) = faults_injected_count s"
  using assms
proof (induction tcs arbitrary: tid s)
  case (Cons x xs)
  define s1 where "s1 = (if x = None \<or> x = Some Halted then s else fst (exec_processFault tid (s, rob)))"
  have "exec_blocked tid rob" using Cons.prems by (metis add_0_right length_Cons zero_less_Suc)
  from exec_skip [OF this, of s]
  have s1: "(if x = None \<or> x = Some Halted then (s, rob) else exec_processFault tid (s, rob)) = (s1, rob)"
      "faults_injected_count s1 = faults_injected_count s"
    by (simp_all add: s1_def prod_eq_iff)
  have "\<forall>k < length xs. exec_blocked (Suc tid + k) rob" using Cons.prems by auto
  from Cons.IH [OF this, of s1] s1 show ?case by simp
qed simp

lemma exec_check_stays:
  assumes "clk_ok now clk" "clk_period clk dvd now" "1 \<le> probability s" "\<not> cap_reached s"
    "\<not> out_of_window (curCycle now clk) s" "exec_ineligible tcs rob"
  obtains s' where "exec_attackCheck now clk tcs (s, rob) = (s', rob)" "attack_at s' = Some now"
    "probability s' = probability s" "max_faults s' = max_faults s" "last_clock s' = last_clock s"
    "first_clock s' = first_clock s" "faults_injected_count s' = faults_injected_count s"
proof -
  let ?c = "(s, rob)"
  have sk: "snd (poll_threads exec_processFault tcs 0 (fire ?c)) = rob"
    "faults_injected_count (fst (poll_threads exec_processFault tcs 0 (fire ?c))) = faults_injected_count s"
    using exec_skip_all [of tcs 0 rob "fst (fire ?c)"] assms(6) by (simp_all add: exec_ineligible_def fire_def)
  define s' where "s' = fst (exec_attackCheck now clk tcs ?c)"
  have e: "exec_attackCheck now clk tcs ?c =
      (reschedule_attack now clk (fst (poll_threads exec_processFault tcs 0 (fire ?c))), rob)"
    using assms(3) sk(1) by (simp add: exec_attackCheck_def poll_check_def case_prod_unfold)
  have same: "faults_injected_count (fst (poll_check exec_processFault now clk tcs ?c)) = faults_injected_count s"
    using e sk(2) by (simp add: exec_attackCheck_def)
  have "attack_at s' = Some now"
    using exec_poll.check_same_tick [of now clk ?c tcs] assms(1-5) same by (simp add: s'_def exec_attackCheck_def)
  moreover have "probability s' = probability s" "max_faults s' = max_faults s" "last_clock s' = last_clock s"
    "first_clock s' = first_clock s" "faults_injected_count s' = faults_injected_count s"
    using exec_poll.poll_config [of tcs 0 "fire ?c"] sk(2) e by (simp_all add: s'_def fire_def)
  ultimately show ?thesis using that [of s'] e by (simp add: s'_def)
qed

text \<open>C16: without a backoff simulated time stops.  With probability 1 on a clock edge inside the window,
  while no head of the reorder buffer is eligible, every processing of the attack event schedules it
  again for the same tick: after any number of rounds the event is still due now, no fault has been
  injected and the pipeline, whose events come later, has not moved.\<close>

theorem exec_poll_livelock:
  assumes "clk_ok now clk" "clk_period clk dvd now" "1 \<le> probability s" "\<not> cap_reached s"
    "\<not> out_of_window (curCycle now clk) s" "exec_ineligible tcs rob"
  shows "snd ((exec_attackCheck now clk tcs ^^ Suc k) (s, rob)) = rob
    \<and> attack_at (fst ((exec_attackCheck now clk tcs ^^ Suc k) (s, rob))) = Some now
    \<and> faults_injected_count (fst ((exec_attackCheck now clk tcs ^^ Suc k) (s, rob))) = faults_injected_count s"
  using assms(3-5)
proof (induction k arbitrary: s)
  case 0
  show ?case by (rule exec_check_stays [OF assms(1,2) 0 assms(6)]) simp
next
  case (Suc k)
  obtain s' where s': "exec_attackCheck now clk tcs (s, rob) = (s', rob)" "probability s' = probability s"
    "max_faults s' = max_faults s" "last_clock s' = last_clock s" "first_clock s' = first_clock s"
    "faults_injected_count s' = faults_injected_count s"
    by (rule exec_check_stays [OF assms(1,2) Suc.prems assms(6)])
  have "1 \<le> probability s'" "\<not> cap_reached s'" "\<not> out_of_window (curCycle now clk) s'"
    using Suc.prems s' by (simp_all add: cap_reached_def out_of_window_def)
  from Suc.IH [OF this] s'(1,6) show ?case by (simp add: funpow_swap1)
qed

definition demo_exec :: exec_inj where
  "demo_exec = \<lparr>probability = 1, first_clock = 0, last_clock = 0, max_faults = 1, faults_injected_count = 0,
     rng = sconst 3, attack_at = None, exec_fault_mask = 0, exec_num_bits = 1, exec_bit_seg = SegMid,
     exec_numFaultsInjected = 0, numIntResultCorrupted = 0, numSkippedNonInt = 0\<rparr>"

definition demo_l1d :: l1d_inj where
  "demo_l1d = \<lparr>probability = 1, first_clock = 0, last_clock = 0, max_faults = 1, faults_injected_count = 0,
     rng = sconst 3, attack_at = None, l1d_fault_mask = 4, l1d_num_bits = 1, l1d_numFaultsInjected = 0,
     numLoadResultCorrupted = 0, numSkippedNonLoad = 0\<rparr>"

theorem exec_poll_livelock_witness:
  "attack_at (fst ((exec_attackCheck 1000 \<lparr>clk_tick = 0, clk_cycle = 0, clk_period = 500\<rparr> [Some Active]
     ^^ Suc 41) (demo_exec, \<lambda>_. []))) = Some 1000"
proof -
  let ?clk = "\<lparr>clk_tick = 0, clk_cycle = 0, clk_period = 500\<rparr>"
  have "clk_ok 1000 ?clk" "clk_period ?clk dvd 1000" by (simp_all add: clk_ok_def)
  moreover have "1 \<le> probability demo_exec" "\<not> cap_reached demo_exec"
    "\<not> out_of_window (curCycle 1000 ?clk) demo_exec"
    by (simp_all add: demo_exec_def cap_reached_def out_of_window_def)
  moreover have "exec_ineligible [Some Active] (\<lambda>_. [])" by (simp add: exec_ineligible_def exec_blocked_def readHeadInst_def)
  ultimately show ?thesis
    by (rule exec_poll_livelock [THEN conjunct2, THEN conjunct1])
qed

theorem writeback_faults_witness:
  "snd (exec_processFault 0 (demo_exec, (\<lambda>_. [\<lparr>seqNum = 1, inst_fault = None, isInteger = True, isLoad = False,
      instResult = [ResVal 0], renamedDests = [], renamedSrcs = [], readySrcs = []\<rparr>]))) 0 =
     [\<lparr>seqNum = 1, inst_fault = None, isInteger = True, isLoad = False, instResult = [ResVal 32768],
       renamedDests = [], renamedSrcs = [], readySrcs = []\<rparr>]
   \<and> snd (exec_processFault 0 (demo_exec, \<lambda>_. [])) = (\<lambda>_. [])"
proof -
  have c: "faults_injected_count (fst (exec_processFault 0 (demo_exec, \<lambda>_. []))) = faults_injected_count demo_exec"
    by (simp add: exec_processFault_def readHeadInst_def Let_def)
  have "snd (exec_processFault 0 (demo_exec, \<lambda>_. [])) = (\<lambda>_. [])"
    by (rule conjunct1 [OF writeback_faults [of 0 demo_exec "\<lambda>_. []" demo_l1d], unfolded if_P [OF c]])
  moreover have "exec_genMask demo_exec = (32768, demo_exec)"
    by (simp add: uniform_nat_def exec_genMask_def seg_mask_def demo_exec_def)
  moreover have "\<not> cap_reached demo_exec" by (simp add: demo_exec_def cap_reached_def)
  ultimately show ?thesis
    by (simp add: exec_processFault_def readHeadInst_def corruptResultRegVal_def set_head_def Let_def)
qed

end
