(* ===== verification/Fpu.thy ===== *)
theory Fpu
  imports Rob_Head
begin

text \<open>
  \<open>CHAOSFPU\<close>: the floating-point injector.  Four hooks corrupt floating-point and vector values on
  their way to and from the register file; a polling fallback corrupts the front result of the head
  of the reorder buffer.  Its polling loop backs off by a cycle when an attempt lands nothing.  A value
  behind a \<open>void *\<close> is either a scalar or the bytes of a vector; the hooks change its first eight bytes.
\<close>

record fpu = poller +
  fpu_fault_mask :: u64
  fpu_num_bits :: int
  fpu_bit_seg :: bit_seg
  fpu_numFaultsInjected :: nat
  numFpResultCorrupted :: nat
  numSkippedNonFp :: nat
  numResultPopped :: nat

definition fpu_stringToBitSeg :: "string \<Rightarrow> bit_seg" where
  "fpu_stringToBitSeg s = (if s = ''low'' then SegLow else if s = ''mid'' then SegMid
     else if s = ''high'' then SegHigh else if s = ''sign'' then SegSign
     else if s = ''exp'' then SegExp else if s = ''mantissa'' then SegMantissa else SegAll)"

text \<open>The constructor also attaches the object to the CPU when its probability is positive: the second
  component is the new value of \<open>chaosFPUHook\<close>.\<close>

definition CHAOSFPU :: "bool \<Rightarrow> real \<Rightarrow> u64 \<Rightarrow> int \<Rightarrow> string \<Rightarrow> cycles \<Rightarrow> cycles \<Rightarrow> nat \<Rightarrow> rng \<Rightarrow> fpu option
    \<Rightarrow> ctor_error + fpu \<times> fpu option" where
  "CHAOSFPU is_o3 prob fmask bits seg fst_clk lst_clk cap r hook =
     (if \<not> is_o3 then Inl NotO3CPU
      else let s = \<lparr>probability = prob, first_clock = fst_clk, last_clock = lst_clk, max_faults = cap,
             faults_injected_count = 0, rng = r, attack_at = None, fpu_fault_mask = fmask,
             fpu_num_bits = bits, fpu_bit_seg = fpu_stringToBitSeg seg, fpu_numFaultsInjected = 0,
             numFpResultCorrupted = 0, numSkippedNonFp = 0, numResultPopped = 0\<rparr>
           in Inr (s, if 0 < prob then Some s else hook))"

definition fpu_startup :: "tick \<Rightarrow> clocked \<Rightarrow> fpu \<Rightarrow> fpu" where
  "fpu_startup = poll_startup"

definition fpu_genMask :: "fpu \<Rightarrow> u64 \<times> fpu" where
  "fpu_genMask s =
     (case seg_mask (fpu_fault_mask s) (fpu_bit_seg s) (fpu_num_bits s) (rng s) of
        (m, r) \<Rightarrow> (m, s\<lparr>rng := r\<rparr>))"

definition is_fp_class :: "reg_class_type \<Rightarrow> bool" where
  "is_fp_class c \<longleftrightarrow> c = FloatRegClass \<or> c = VecRegClass"

definition fpu_count :: "fpu \<Rightarrow> fpu" where
  "fpu_count s = count_fault (s\<lparr>numFpResultCorrupted := numFpResultCorrupted s + 1,
     fpu_numFaultsInjected := fpu_numFaultsInjected s + 1\<rparr>)"

text \<open>The gates the four hooks share, in the order of the code, and the mask; \<open>None\<close> when the hook
  returns early.\<close>

definition fpu_gate :: "cycles \<Rightarrow> reg_id \<Rightarrow> fpu \<Rightarrow> u64 option \<times> fpu" where
  "fpu_gate cur reg s =
     (if \<not> is_fp_class (classValue reg) then (None, s)
      else if out_of_window cur s then (None, s)
      else if cap_reached s then (None, s)
      else (case bernoulli s of (hit, s1) \<Rightarrow>
        if \<not> hit then (None, s1)
        else (case fpu_genMask s1 of (m, s2) \<Rightarrow> (if m = 0 then None else Some m, s2))))"

fun xor_first8 :: "u64 \<Rightarrow> u64 + u8 list \<Rightarrow> u64 + u8 list" where
  "xor_first8 m (Inl v) = Inl (v XOR m)"
| "xor_first8 m (Inr bs) = Inr (le_bytes 8 (le_word (take 8 bs) XOR m) @ drop 8 bs)"

definition maybeCorruptWriteback :: "cycles \<Rightarrow> reg_id \<Rightarrow> u64 \<Rightarrow> fpu \<Rightarrow> u64 \<times> fpu" where
  "maybeCorruptWriteback cur reg v s =
     (case fpu_gate cur reg s of (None, s') \<Rightarrow> (v, s') | (Some m, s') \<Rightarrow> (v XOR m, fpu_count s'))"

definition maybeCorruptWritebackBlob ::
    "cycles \<Rightarrow> reg_id \<Rightarrow> u64 + u8 list \<Rightarrow> fpu \<Rightarrow> (u64 + u8 list) \<times> fpu" where
  "maybeCorruptWritebackBlob cur reg b s =
     (case fpu_gate cur reg s of (None, s') \<Rightarrow> (b, s') | (Some m, s') \<Rightarrow> (xor_first8 m b, fpu_count s'))"

definition maybeCorruptRead :: "cycles \<Rightarrow> reg_id \<Rightarrow> u64 \<Rightarrow> fpu \<Rightarrow> u64 \<times> fpu" where
  "maybeCorruptRead cur reg v s =
     (case fpu_gate cur reg s of (None, s') \<Rightarrow> (v, s') | (Some m, s') \<Rightarrow> (v XOR m, fpu_count s'))"

definition maybeCorruptReadBlob ::
    "cycles \<Rightarrow> reg_id \<Rightarrow> u64 + u8 list \<Rightarrow> fpu \<Rightarrow> (u64 + u8 list) \<times> fpu" where
  "maybeCorruptReadBlob cur reg b s =
     (case fpu_gate cur reg s of (None, s') \<Rightarrow> (b, s') | (Some m, s') \<Rightarrow> (xor_first8 m b, fpu_count s'))"

subsection \<open>Polling\<close>

fun fpu_is_fp :: "reg_id option list \<Rightarrow> bool" where
  "fpu_is_fp [] = False"
| "fpu_is_fp (None # ds) = fpu_is_fp ds"
| "fpu_is_fp (Some d # ds) = (if is_fp_class (classValue d) then True else fpu_is_fp ds)"

definition fpu_processFault :: "thread_id \<Rightarrow> fpu \<times> rob_lists \<Rightarrow> fpu \<times> rob_lists" where
  "fpu_processFault tid = (\<lambda>(s, rob).
     let skip = s\<lparr>numSkippedNonFp := numSkippedNonFp s + 1\<rparr> in
     if cap_reached s then (s, rob)
     else (case readHeadInst tid rob of None \<Rightarrow> (skip, rob)
       | Some h \<Rightarrow>
           if \<not> fpu_is_fp (renamedDests h) then (skip, rob)
           else if inst_fault h \<noteq> None then (skip, rob)
           else (case fpu_genMask s of (m, s1) \<Rightarrow>
             if m = 0 then (s1, rob)
             else (case corruptResultRegVal m h of (ok, h') \<Rightarrow>
               if \<not> ok then (s1\<lparr>numResultPopped := numResultPopped s1 + 1\<rparr>, rob)
               else (fpu_count s1, set_head tid h' rob)))))"

definition fpu_attackCheck :: "tick \<Rightarrow> clocked \<Rightarrow> tc_status option list \<Rightarrow> fpu \<times> rob_lists \<Rightarrow> fpu \<times> rob_lists" where
  "fpu_attackCheck = poll_check_backoff fpu_processFault"

subsection \<open>Facts\<close>

lemma fpu_genMask_simps [simp]:
  "probability (snd (fpu_genMask s)) = probability s" "first_clock (snd (fpu_genMask s)) = first_clock s"
  "last_clock (snd (fpu_genMask s)) = last_clock s" "max_faults (snd (fpu_genMask s)) = max_faults s"
  "faults_injected_count (snd (fpu_genMask s)) = faults_injected_count s"
  "attack_at (snd (fpu_genMask s)) = attack_at s"
  by (simp_all add: fpu_genMask_def split: prod.splits)

lemma fpu_count_simps [simp]:
  "probability (fpu_count s) = probability s" "first_clock (fpu_count s) = first_clock s"
  "last_clock (fpu_count s) = last_clock s" "max_faults (fpu_count s) = max_faults s"
  "faults_injected_count (fpu_count s) = Suc (faults_injected_count s)" "attack_at (fpu_count s) = attack_at s"
  by (simp_all add: fpu_count_def)

lemma fpu_genMask_ok: "seg_mask_ok (fpu_fault_mask s) (fpu_bit_seg s) (fst (fpu_genMask s))"
  using seg_mask_okI by (simp add: fpu_genMask_def case_prod_unfold)

lemma fpu_is_fp_iff: "fpu_is_fp ds \<longleftrightarrow> (\<exists>d. Some d \<in> set ds \<and> is_fp_class (classValue d))"
  by (induction ds rule: fpu_is_fp.induct) auto

lemma fpu_config_bernoulli [simp]:
  "fpu_fault_mask (snd (bernoulli s)) = fpu_fault_mask s" "fpu_bit_seg (snd (bernoulli s)) = fpu_bit_seg s"
  "fpu_num_bits (snd (bernoulli s)) = fpu_num_bits s"
  by (simp_all add: bernoulli_def split: prod.splits)

lemma fpu_gate_simps [simp]:
  "faults_injected_count (snd (fpu_gate cur reg s)) = faults_injected_count s"
  "max_faults (snd (fpu_gate cur reg s)) = max_faults s"
  by (simp_all add: fpu_gate_def case_prod_unfold)

text \<open>When the gate opens, and what it then yields.\<close>

lemma fpu_gate_Some:
  assumes "fst (fpu_gate cur reg s) = Some m"
  shows "is_fp_class (classValue reg)" "\<not> out_of_window cur s" "\<not> cap_reached s" "m \<noteq> 0"
    "seg_mask_ok (fpu_fault_mask s) (fpu_bit_seg s) m"
  using assms fpu_genMask_ok [of "snd (bernoulli s)"]
  by (auto simp: fpu_gate_def case_prod_unfold split: if_splits)

lemma fpu_gate_certain:
  assumes "is_fp_class (classValue reg)" "\<not> out_of_window cur s" "\<not> cap_reached s" "1 \<le> probability s"
    "0 < fpu_num_bits s"
  shows "fst (fpu_gate cur reg s) \<noteq> None"
proof -
  have "fst (fpu_genMask (snd (bernoulli s))) \<noteq> 0"
    using seg_mask_nonzero [OF assms(5), of "fpu_bit_seg s" "rng (snd (bernoulli s))"]
    by (cases "fpu_fault_mask s = 0") (simp_all add: fpu_genMask_def case_prod_unfold seg_mask_def)
  then show ?thesis using assms bernoulli_fst(1) [OF assms(4)] by (simp add: fpu_gate_def case_prod_unfold)
qed

lemma xor_mask_same: "v XOR m = v \<longleftrightarrow> m = 0" for v m :: "'a::len word"
  using apply_fault_bit_flip_changes [of m v] by auto

lemma xor_first8_changes: "m \<noteq> 0 \<Longrightarrow> xor_first8 m b \<noteq> b"
proof (cases b)
  case (Inr bs)
  assume m: "m \<noteq> 0"
  show ?thesis
  proof
    assume "xor_first8 m b = b"
    then have "le_bytes 8 (le_word (take 8 bs) XOR m) @ drop 8 bs = bs" using Inr by simp
    then have "take 8 bs = le_bytes 8 (le_word (take 8 bs) XOR m)"
      by (metis append_eq_conv_conj length_le_bytes)
    then have "le_word (take 8 bs) = le_word (take 8 bs) XOR m" by (metis le_word_le_bytes)
    with m xor_mask_same show False by metis
  qed
qed (simp add: xor_mask_same)

interpretation fpu_poll: poll_source fpu_processFault
  by unfold_locales
    (auto simp: fpu_processFault_def case_prod_unfold Let_def split: option.splits)

subsection \<open>The four hooks as one\<close>

datatype fpu_call =
    Writeback cycles reg_id u64
  | WritebackBlob cycles reg_id "u64 + u8 list"
  | ReadReg cycles reg_id u64
  | ReadBlob cycles reg_id "u64 + u8 list"

fun fpu_value :: "fpu_call \<Rightarrow> u64 + u8 list" where
  "fpu_value (Writeback cur reg v) = Inl v"
| "fpu_value (WritebackBlob cur reg b) = b"
| "fpu_value (ReadReg cur reg v) = Inl v"
| "fpu_value (ReadBlob cur reg b) = b"

fun fpu_reg :: "fpu_call \<Rightarrow> reg_id" where
  "fpu_reg (Writeback cur reg v) = reg"
| "fpu_reg (WritebackBlob cur reg b) = reg"
| "fpu_reg (ReadReg cur reg v) = reg"
| "fpu_reg (ReadBlob cur reg b) = reg"

fun fpu_cycle :: "fpu_call \<Rightarrow> cycles" where
  "fpu_cycle (Writeback cur reg v) = cur"
| "fpu_cycle (WritebackBlob cur reg b) = cur"
| "fpu_cycle (ReadReg cur reg v) = cur"
| "fpu_cycle (ReadBlob cur reg b) = cur"

fun fpu_hook :: "fpu_call \<Rightarrow> fpu \<Rightarrow> (u64 + u8 list) \<times> fpu" where
  "fpu_hook (Writeback cur reg v) s = (case maybeCorruptWriteback cur reg v s of (v', s') \<Rightarrow> (Inl v', s'))"
| "fpu_hook (WritebackBlob cur reg b) s = maybeCorruptWritebackBlob cur reg b s"
| "fpu_hook (ReadReg cur reg v) s = (case maybeCorruptRead cur reg v s of (v', s') \<Rightarrow> (Inl v', s'))"
| "fpu_hook (ReadBlob cur reg b) s = maybeCorruptReadBlob cur reg b s"

lemma fpu_hook_gate:
  "fpu_hook c s = (case fpu_gate (fpu_cycle c) (fpu_reg c) s of
     (None, s') \<Rightarrow> (fpu_value c, s') | (Some m, s') \<Rightarrow> (xor_first8 m (fpu_value c), fpu_count s'))"
  by (cases c) (simp_all add: maybeCorruptWriteback_def maybeCorruptWritebackBlob_def maybeCorruptRead_def
      maybeCorruptReadBlob_def split: prod.splits option.splits)

interpretation fpu_hooks: hook_injector fpu_hook fpu_value faults_injected_count max_faults
proof
  fix c s
  obtain g s' where g: "fpu_gate (fpu_cycle c) (fpu_reg c) s = (g, s')" by (cases "fpu_gate (fpu_cycle c) (fpu_reg c) s")
  have keep: "faults_injected_count s' = faults_injected_count s" "max_faults s' = max_faults s"
    using fpu_gate_simps [of "fpu_cycle c" "fpu_reg c" s] g by simp_all
  show "max_faults (snd (fpu_hook c s)) = max_faults s"
    "faults_injected_count (snd (fpu_hook c s)) = faults_injected_count s
      \<or> faults_injected_count (snd (fpu_hook c s)) = Suc (faults_injected_count s)"
    "faults_injected_count (snd (fpu_hook c s)) = faults_injected_count s \<Longrightarrow> fst (fpu_hook c s) = fpu_value c"
    using keep g by (simp_all add: fpu_hook_gate split: option.splits)
  show "faults_injected_count (snd (fpu_hook c s)) = faults_injected_count s"
    if "max_faults s \<noteq> 0" "max_faults s \<le> faults_injected_count s"
    using that keep g fpu_gate_Some(3) [of "fpu_cycle c" "fpu_reg c" s] by (cases g) (auto simp: fpu_hook_gate cap_reached_def)
qed

lemma fpu_hook_cases:
  "(fpu_hook c s = (fpu_value c, snd (fpu_hook c s))
      \<and> faults_injected_count (snd (fpu_hook c s)) = faults_injected_count s
      \<and> fst (fpu_gate (fpu_cycle c) (fpu_reg c) s) = None)
    \<or> (\<exists>m. m \<noteq> 0 \<and> seg_mask_ok (fpu_fault_mask s) (fpu_bit_seg s) m
      \<and> fst (fpu_hook c s) = xor_first8 m (fpu_value c) \<and> fst (fpu_hook c s) \<noteq> fpu_value c
      \<and> faults_injected_count (snd (fpu_hook c s)) = Suc (faults_injected_count s)
      \<and> is_fp_class (classValue (fpu_reg c)) \<and> \<not> out_of_window (fpu_cycle c) s \<and> \<not> cap_reached s)"
proof -
  obtain g s' where g: "fpu_gate (fpu_cycle c) (fpu_reg c) s = (g, s')" by (cases "fpu_gate (fpu_cycle c) (fpu_reg c) s")
  have keep: "faults_injected_count s' = faults_injected_count s"
    using fpu_gate_simps(1) [of "fpu_cycle c" "fpu_reg c" s] g by simp
  show ?thesis
  proof (cases g)
    case (Some m)
    have "fst (fpu_gate (fpu_cycle c) (fpu_reg c) s) = Some m" using g Some by simp
    note fpu_gate_Some [OF this]
    moreover have "fpu_hook c s = (xor_first8 m (fpu_value c), fpu_count s')"
      using g Some by (simp add: fpu_hook_gate)
    ultimately show ?thesis using keep xor_first8_changes [of m "fpu_value c"] by auto
  qed (use g keep in \<open>simp add: fpu_hook_gate\<close>)
qed

text \<open>C18: a floating-point data fault.  A call of any of the four hooks either passes its value through
  and counts nothing, or counts one fault and XORs the first eight bytes with a non-zero mask the
  configuration allows, so the value really changes; that happens only to a floating-point or vector
  register, inside the clock window and below the cap, and it does happen there when the probability
  is 1.  Over any sequence of calls at most as many values are corrupted as the cap leaves.\<close>

theorem fpu_data_faults:
  "((fpu_hook c s = (fpu_value c, snd (fpu_hook c s))
      \<and> faults_injected_count (snd (fpu_hook c s)) = faults_injected_count s)
    \<or> (\<exists>m. m \<noteq> 0 \<and> seg_mask_ok (fpu_fault_mask s) (fpu_bit_seg s) m
      \<and> fst (fpu_hook c s) = xor_first8 m (fpu_value c) \<and> fst (fpu_hook c s) \<noteq> fpu_value c
      \<and> faults_injected_count (snd (fpu_hook c s)) = Suc (faults_injected_count s)
      \<and> is_fp_class (classValue (fpu_reg c)) \<and> \<not> out_of_window (fpu_cycle c) s \<and> \<not> cap_reached s))
   \<and> (is_fp_class (classValue (fpu_reg c)) \<and> \<not> out_of_window (fpu_cycle c) s \<and> \<not> cap_reached s
      \<and> 1 \<le> probability s \<and> 0 < fpu_num_bits s \<longrightarrow> fst (fpu_hook c s) \<noteq> fpu_value c)
   \<and> (max_faults s \<noteq> 0 \<and> faults_injected_count s \<le> max_faults s \<longrightarrow>
      corrupted fpu_value cs (fst (hook_run fpu_hook cs s)) \<le> max_faults s - faults_injected_count s)"
  using fpu_hook_cases [of c s] fpu_gate_certain [of "fpu_reg c" "fpu_cycle c" s]
    fpu_hooks.run_budget [of s cs] by metis

definition demo_fpu :: fpu where
  "demo_fpu = \<lparr>probability = 1, first_clock = 0, last_clock = 0, max_faults = 1, faults_injected_count = 0,
     rng = sconst 0, attack_at = None, fpu_fault_mask = 0x8000000000000000, fpu_num_bits = 1,
     fpu_bit_seg = SegSign, fpu_numFaultsInjected = 0, numFpResultCorrupted = 0, numSkippedNonFp = 0,
     numResultPopped = 0\<rparr>"

theorem fpu_data_faults_witness:
  "fst (fpu_hook (Writeback 5 \<lparr>classValue = FloatRegClass, regIdx = 3\<rparr> 7) demo_fpu) \<noteq> Inl 7
   \<and> corrupted fpu_value [ReadReg 1 \<lparr>classValue = FloatRegClass, regIdx = 3\<rparr> 7,
         WritebackBlob 2 \<lparr>classValue = VecRegClass, regIdx = 0\<rparr> (Inr (replicate 16 0))]
       (fst (hook_run fpu_hook [ReadReg 1 \<lparr>classValue = FloatRegClass, regIdx = 3\<rparr> 7,
         WritebackBlob 2 \<lparr>classValue = VecRegClass, regIdx = 0\<rparr> (Inr (replicate 16 0))] demo_fpu)) \<le> 1"
  using fpu_data_faults [of "Writeback 5 \<lparr>classValue = FloatRegClass, regIdx = 3\<rparr> 7" demo_fpu
      "[ReadReg 1 \<lparr>classValue = FloatRegClass, regIdx = 3\<rparr> 7,
        WritebackBlob 2 \<lparr>classValue = VecRegClass, regIdx = 0\<rparr> (Inr (replicate 16 0))]"]
  by (simp add: demo_fpu_def is_fp_class_def out_of_window_def cap_reached_def del: hook_run.simps fpu_hook.simps)

lemma fpu_processFault_effect:
  "if faults_injected_count (fst (fpu_processFault tid (s, rob))) = faults_injected_count s
   then snd (fpu_processFault tid (s, rob)) = rob
   else head_result_xor tid rob (snd (fpu_processFault tid (s, rob))) (\<lambda>h. fpu_is_fp (renamedDests h))
     (seg_mask_ok (fpu_fault_mask s) (fpu_bit_seg s))"
  using fpu_genMask_ok [of s]
  by (auto simp: fpu_processFault_def case_prod_unfold Let_def split: option.split intro!: head_result_xorI)

end
