(* ===== verification/Ras.thy ===== *)
theory Ras
  imports Fpu
begin

text \<open>
  \<open>CHAOSRAS\<close>: suppresses the exception of a faulting instruction at the head of the reorder buffer, so
  that a detected error commits unreported.  System calls, which present as faults at the head, are
  left alone.  The theory ends with the progress of the two polling loops that back off.
\<close>

record ras = poller +
  ras_numFaultsInjected :: nat
  numRasRecordMisses :: nat
  numSkippedNoFault :: nat

definition CHAOSRAS :: "bool \<Rightarrow> real \<Rightarrow> cycles \<Rightarrow> cycles \<Rightarrow> nat \<Rightarrow> rng \<Rightarrow> ctor_error + ras" where
  "CHAOSRAS is_o3 prob fst_clk lst_clk cap r =
     (if \<not> is_o3 then Inl NotO3CPU
      else Inr \<lparr>probability = prob, first_clock = fst_clk, last_clock = lst_clk, max_faults = cap,
        faults_injected_count = 0, rng = r, attack_at = None, ras_numFaultsInjected = 0,
        numRasRecordMisses = 0, numSkippedNoFault = 0\<rparr>)"

definition ras_startup :: "tick \<Rightarrow> clocked \<Rightarrow> ras \<Rightarrow> ras" where
  "ras_startup = poll_startup"

definition is_syscall_fault :: "string \<Rightarrow> bool" where
  "is_syscall_fault f \<longleftrightarrow> f = ''Supervisor Call'' \<or> f = ''System Call''"

definition ras_processFault :: "cycles \<Rightarrow> thread_id \<Rightarrow> ras \<times> rob_lists \<Rightarrow> ras \<times> rob_lists" where
  "ras_processFault cur tid = (\<lambda>(s, rob).
     let skip = s\<lparr>numSkippedNoFault := numSkippedNoFault s + 1\<rparr> in
     if cap_reached s then (s, rob)
     else (case readHeadInst tid rob of None \<Rightarrow> (skip, rob)
       | Some h \<Rightarrow> (case inst_fault h of None \<Rightarrow> (skip, rob)
           | Some f \<Rightarrow>
               if is_syscall_fault f then (skip, rob)
               else if out_of_window cur s then (s, rob)
               else (case bernoulli s of (hit, s1) \<Rightarrow>
                 if \<not> hit then (s1, rob)
                 else (count_fault (s1\<lparr>ras_numFaultsInjected := ras_numFaultsInjected s1 + 1,
                         numRasRecordMisses := numRasRecordMisses s1 + 1\<rparr>),
                       set_head tid (h\<lparr>inst_fault := None\<rparr>) rob)))))"

definition ras_attackCheck :: "tick \<Rightarrow> clocked \<Rightarrow> tc_status option list \<Rightarrow> ras \<times> rob_lists \<Rightarrow> ras \<times> rob_lists" where
  "ras_attackCheck now clk = poll_check_backoff (ras_processFault (curCycle now clk)) now clk"

interpretation ras_poll: poll_source "ras_processFault cur" for cur
  by unfold_locales
    (auto simp: ras_processFault_def case_prod_unfold Let_def split: option.splits)

text \<open>The head a suppression applies to.\<close>

definition ras_eligible :: "thread_id \<Rightarrow> rob_lists \<Rightarrow> rob_inst \<Rightarrow> bool" where
  "ras_eligible tid rob h \<longleftrightarrow> readHeadInst tid rob = Some h
     \<and> (\<exists>f. inst_fault h = Some f \<and> \<not> is_syscall_fault f)"

lemma ras_processFault_effect:
  "if faults_injected_count (fst (ras_processFault cur tid (s, rob))) = faults_injected_count s
   then snd (ras_processFault cur tid (s, rob)) = rob
     \<and> numRasRecordMisses (fst (ras_processFault cur tid (s, rob))) = numRasRecordMisses s
   else numRasRecordMisses (fst (ras_processFault cur tid (s, rob))) = Suc (numRasRecordMisses s)
     \<and> \<not> out_of_window cur s \<and> \<not> cap_reached s
     \<and> (\<exists>h. ras_eligible tid rob h
         \<and> snd (ras_processFault cur tid (s, rob)) = set_head tid (h\<lparr>inst_fault := None\<rparr>) rob)"
proof -
  have "numRasRecordMisses (snd (bernoulli s)) = numRasRecordMisses s"
    by (simp add: bernoulli_def split: prod.splits)
  then show ?thesis
    by (auto simp: ras_processFault_def ras_eligible_def case_prod_unfold Let_def count_fault_def split: option.split)
qed

lemma ras_processFault_certain:
  assumes "ras_eligible tid rob h" "\<not> out_of_window cur s" "\<not> cap_reached s" "1 \<le> probability s"
  shows "snd (ras_processFault cur tid (s, rob)) = set_head tid (h\<lparr>inst_fault := None\<rparr>) rob"
  using assms bernoulli_fst(1) [OF assms(4)]
  by (auto simp: ras_eligible_def ras_processFault_def case_prod_unfold Let_def)

text \<open>A suppressed error report.  An attempt either leaves the reorder buffer and the count of
  record misses as they are, or counts one miss and clears the exception of the head instruction,
  which had one and not that of a system call, inside the window and below the cap; with probability
  1 such a head is always suppressed.  A system call at the head is never touched.\<close>

theorem ras_suppression:
  "(if faults_injected_count (fst (ras_processFault cur tid (s, rob))) = faults_injected_count s
    then snd (ras_processFault cur tid (s, rob)) = rob
      \<and> numRasRecordMisses (fst (ras_processFault cur tid (s, rob))) = numRasRecordMisses s
    else numRasRecordMisses (fst (ras_processFault cur tid (s, rob))) = Suc (numRasRecordMisses s)
      \<and> \<not> out_of_window cur s \<and> \<not> cap_reached s
      \<and> (\<exists>h. ras_eligible tid rob h
          \<and> snd (ras_processFault cur tid (s, rob)) = set_head tid (h\<lparr>inst_fault := None\<rparr>) rob))
   \<and> (ras_eligible tid rob h \<and> \<not> out_of_window cur s \<and> \<not> cap_reached s \<and> 1 \<le> probability s
      \<longrightarrow> snd (ras_processFault cur tid (s, rob)) = set_head tid (h\<lparr>inst_fault := None\<rparr>) rob)
   \<and> (readHeadInst tid rob = Some g \<and> inst_fault g = Some f \<and> is_syscall_fault f
      \<longrightarrow> snd (ras_processFault cur tid (s, rob)) = rob)"
proof -
  have "snd (ras_processFault cur tid (s, rob)) = rob"
    if "readHeadInst tid rob = Some g" "inst_fault g = Some f" "is_syscall_fault f"
    using that by (simp add: ras_processFault_def Let_def)
  then show ?thesis using ras_processFault_effect ras_processFault_certain by blast
qed

definition demo_ras :: ras where
  "demo_ras = \<lparr>probability = 1, first_clock = 0, last_clock = 0, max_faults = 1, faults_injected_count = 0,
     rng = sconst 0, attack_at = None, ras_numFaultsInjected = 0, numRasRecordMisses = 0,
     numSkippedNoFault = 0\<rparr>"

definition faulting_inst :: "string \<Rightarrow> rob_inst" where
  "faulting_inst f = \<lparr>seqNum = 9, inst_fault = Some f, isInteger = False, isLoad = True, instResult = [],
     renamedDests = [], renamedSrcs = [], readySrcs = []\<rparr>"

theorem ras_suppression_witness:
  "snd (ras_processFault 3 0 (demo_ras, \<lambda>_. [faulting_inst ''Data Abort'']))
     = set_head 0 ((faulting_inst ''Data Abort'')\<lparr>inst_fault := None\<rparr>) (\<lambda>_. [faulting_inst ''Data Abort''])
   \<and> snd (ras_processFault 3 0 (demo_ras, \<lambda>_. [faulting_inst ''Supervisor Call'']))
     = (\<lambda>_. [faulting_inst ''Supervisor Call''])"
proof -
  have "ras_eligible 0 (\<lambda>_. [faulting_inst ''Data Abort'']) (faulting_inst ''Data Abort'')"
    by (simp add: ras_eligible_def readHeadInst_def faulting_inst_def is_syscall_fault_def)
  moreover have "\<not> out_of_window 3 demo_ras" "\<not> cap_reached demo_ras" "1 \<le> probability demo_ras"
    by (simp_all add: demo_ras_def out_of_window_def cap_reached_def)
  moreover have "readHeadInst 0 (\<lambda>_. [faulting_inst ''Supervisor Call'']) = Some (faulting_inst ''Supervisor Call'')"
    "inst_fault (faulting_inst ''Supervisor Call'') = Some ''Supervisor Call''" "is_syscall_fault ''Supervisor Call''"
    by (simp_all add: readHeadInst_def faulting_inst_def is_syscall_fault_def)
  ultimately show ?thesis using ras_suppression by blast
qed

text \<open>C17: polling with a backoff makes progress.  When a processing of the attack event of the
  floating-point or of the error-report injector lands no fault and reschedules the event, the new
  time is at least one clock period later, so simulated time advances, also with probability 1; and
  once the cap is reached the event is not scheduled again.\<close>

theorem backoff_progress:
  assumes "clk_ok now clk"
  shows "(faults_injected_count (fst (fpu_attackCheck now clk tcs (s, rob))) = faults_injected_count s
      \<and> attack_at (fst (fpu_attackCheck now clk tcs (s, rob))) = Some t \<longrightarrow> now + clk_period clk \<le> t)
    \<and> (faults_injected_count (fst (ras_attackCheck now clk tcs (e, rob))) = faults_injected_count e
      \<and> attack_at (fst (ras_attackCheck now clk tcs (e, rob))) = Some t \<longrightarrow> now + clk_period clk \<le> t)
    \<and> (cap_reached (fst (fpu_attackCheck now clk tcs (s, rob)))
      \<longrightarrow> attack_at (fst (fpu_attackCheck now clk tcs (s, rob))) = None)
    \<and> (cap_reached (fst (ras_attackCheck now clk tcs (e, rob)))
      \<longrightarrow> attack_at (fst (ras_attackCheck now clk tcs (e, rob))) = None)"
  using fpu_poll.check_backoff_progress [OF assms, of tcs "(s, rob)" t] fpu_poll.check_backoff_stops [of now clk tcs "(s, rob)"]
    ras_poll.check_backoff_progress [OF assms, of "curCycle now clk" tcs "(e, rob)" t]
    ras_poll.check_backoff_stops [of "curCycle now clk" now clk tcs "(e, rob)"]
  unfolding fpu_attackCheck_def ras_attackCheck_def fst_conv by blast

theorem backoff_progress_witness:
  "attack_at (fst (fpu_attackCheck 1000 \<lparr>clk_tick = 0, clk_cycle = 0, clk_period = 500\<rparr> [Some Active]
     (demo_fpu, \<lambda>_. []))) = Some 1500 \<and> (1000 :: nat) + 500 \<le> 1500"
proof -
  let ?clk = "\<lparr>clk_tick = 0, clk_cycle = 0, clk_period = 500\<rparr>"
  let ?r = "fst (fpu_attackCheck 1000 ?clk [Some Active] (demo_fpu, \<lambda>_. []))"
  have ok: "clk_ok 1000 ?clk" by (simp add: clk_ok_def)
  have p: "fpu_processFault 0 (fire (demo_fpu, \<lambda>_. [])) =
      (demo_fpu\<lparr>attack_at := None, numSkippedNonFp := numSkippedNonFp demo_fpu + 1\<rparr>, \<lambda>_. [])"
    by (simp add: fpu_processFault_def fire_def readHeadInst_def Let_def cap_reached_def demo_fpu_def)
  have r: "attack_at ?r = Some 1500" "faults_injected_count ?r = faults_injected_count demo_fpu"
    by (simp_all add: fpu_attackCheck_def poll_check_backoff_def p)
      (simp_all add: demo_fpu_def reschedule_attack_backoff_def geometric_def scheduleAttackEvent_def
        clockEdge_def clk_update_def Let_def divCeil_def)
  then show ?thesis using backoff_progress [OF ok, of "[Some Active]" demo_fpu "\<lambda>_. []" 1500 demo_ras] by simp
qed

end
