(* ===== verification/Rename_Stage.thy ===== *)
theory Rename_Stage
  imports O3_Types "HOL-Library.Multiset"
begin

text \<open>
  Register renaming of the out-of-order CPU: the per-class free lists (\<open>free_list.hh\<close>), the rename
  map (\<open>rename_map.hh\<close>, \<open>rename_map.cc\<close>), the scoreboard, and the history buffer of the rename stage
  (\<open>renameSrcRegs\<close>, \<open>renameDestRegs\<close>, \<open>doSquash\<close>, \<open>removeFromHistory\<close> and the release of squashed
  registers in \<open>rename.cc\<close>).  The main fact is a census: every physical register is, at every
  moment, exactly one of free, mapped, waiting in the history, or being freed.

  A physical register is its \<^typ>\<open>reg_id\<close>; a map entry is null (\<open>None\<close>) until the constructor of the
  CPU or the activation of a thread fills it.  Operations that an assertion, a null pointer or an
  index past the end would stop return \<open>None\<close>.  The coverage events a free list emits are those of
  \<open>CHAOSCov\<close> and change nothing here.
\<close>

record rename_history =
  instSeqNum :: nat
  archReg :: reg_id
  newPhysReg :: reg_id
  prevPhysReg :: reg_id

record rename_state =
  rmap :: "thread_id \<Rightarrow> reg_class_type \<Rightarrow> reg_id option list"
  commitMap :: "thread_id \<Rightarrow> reg_class_type \<Rightarrow> reg_id option list"
  freeLists :: "reg_class_type \<Rightarrow> reg_id list"
  numPinnedWrites :: "reg_id \<Rightarrow> int"
  numPinnedWritesToComplete :: "reg_id \<Rightarrow> int"
  regScoreBoard :: "reg_id \<Rightarrow> bool"
  alwaysReady :: "reg_id \<Rightarrow> bool"
  historyBuffer :: "thread_id \<Rightarrow> rename_history list"
  freeingInProgress :: "thread_id \<Rightarrow> reg_id list"
  renamedOperands :: nat
  undoneMaps :: nat
  committedMaps :: nat
  fpReturned :: nat
  intReturned :: nat
  lookups :: nat
  classLookups :: "reg_class_type \<Rightarrow> nat"

definition isRenameable :: "reg_id \<Rightarrow> bool" where
  "isRenameable r \<longleftrightarrow> classValue r \<noteq> MiscRegClass \<and> classValue r \<noteq> InvalidRegClass"

definition invalidPhysRegId :: reg_id where
  "invalidPhysRegId = \<lparr>classValue = InvalidRegClass, regIdx = 65535\<rparr>"

subsection \<open>Free lists\<close>

definition fl_addReg :: "reg_id \<Rightarrow> rename_state \<Rightarrow> rename_state" where
  "fl_addReg reg st =
     st\<lparr>freeLists := (freeLists st)(classValue reg := freeLists st (classValue reg) @ [reg])\<rparr>"

definition fl_getReg :: "reg_class_type \<Rightarrow> rename_state \<Rightarrow> (reg_id \<times> rename_state) option" where
  "fl_getReg c st = (case freeLists st c of [] \<Rightarrow> None
     | r # rs \<Rightarrow> Some (r, st\<lparr>freeLists := (freeLists st)(c := rs)\<rparr>))"

definition numFreeRegs :: "reg_class_type \<Rightarrow> rename_state \<Rightarrow> nat" where
  "numFreeRegs c st = length (freeLists st c)"

definition isFree :: "reg_class_type \<Rightarrow> reg_id \<Rightarrow> rename_state \<Rightarrow> bool" where
  "isFree c reg st \<longleftrightarrow> reg \<in> set (freeLists st c)"

subsection \<open>The scoreboard\<close>

definition sb_getReg :: "reg_id \<Rightarrow> rename_state \<Rightarrow> bool" where
  "sb_getReg r st = (if alwaysReady st r then True else regScoreBoard st r)"

definition sb_setReg :: "reg_id \<Rightarrow> rename_state \<Rightarrow> rename_state" where
  "sb_setReg r st = (if alwaysReady st r then st else st\<lparr>regScoreBoard := (regScoreBoard st)(r := True)\<rparr>)"

definition sb_unsetReg :: "reg_id \<Rightarrow> rename_state \<Rightarrow> rename_state" where
  "sb_unsetReg r st = (if alwaysReady st r then st else st\<lparr>regScoreBoard := (regScoreBoard st)(r := False)\<rparr>)"

subsection \<open>The rename map\<close>

definition rat_lookup :: "thread_id \<Rightarrow> reg_id \<Rightarrow> rename_state \<Rightarrow> reg_id option" where
  "rat_lookup tid arch st =
     (let c = classValue arch in
      if c = InvalidRegClass then Some invalidPhysRegId
      else if c = MiscRegClass then Some \<lparr>classValue = MiscRegClass, regIdx = regIdx arch\<rparr>
      else if regIdx arch < length (rmap st tid c) then rmap st tid c ! regIdx arch else None)"

definition set_map :: "thread_id \<Rightarrow> reg_class_type \<Rightarrow> nat \<Rightarrow> reg_id \<Rightarrow> rename_state \<Rightarrow> rename_state" where
  "set_map tid c i r st =
     st\<lparr>rmap := (rmap st)(tid := (rmap st tid)(c := (rmap st tid c)[i := Some r]))\<rparr>"

definition setEntry :: "thread_id \<Rightarrow> reg_id \<Rightarrow> reg_id \<Rightarrow> rename_state \<Rightarrow> rename_state option" where
  "setEntry tid arch phys st =
     (if classValue phys \<noteq> classValue arch then None
      else if \<not> isRenameable arch then (if rat_lookup tid arch st = Some phys then Some st else None)
      else if regIdx arch < length (rmap st tid (classValue arch))
      then Some (set_map tid (classValue arch) (regIdx arch) phys st) else None)"

definition set_pins :: "reg_id \<Rightarrow> int \<Rightarrow> rename_state \<Rightarrow> rename_state" where
  "set_pins r pins st = st\<lparr>numPinnedWrites := (numPinnedWrites st)(r := pins),
     numPinnedWritesToComplete := (numPinnedWritesToComplete st)(r := pins + 1)\<rparr>"

definition simple_rename ::
    "thread_id \<Rightarrow> reg_id \<Rightarrow> int \<Rightarrow> rename_state \<Rightarrow> ((reg_id \<times> reg_id) \<times> rename_state) option" where
  "simple_rename tid arch pins st =
     (let c = classValue arch; i = regIdx arch; m = rmap st tid c in
      if length m \<le> i then None
      else (case m ! i of None \<Rightarrow> None
        | Some prev \<Rightarrow>
            if c = InvalidRegClass then
              (if classValue prev = InvalidRegClass then Some ((prev, prev), st) else None)
            else if 0 < numPinnedWrites st prev then
              (if pins = 0
               then Some ((prev, prev), st\<lparr>numPinnedWrites := (numPinnedWrites st)(prev := numPinnedWrites st prev - 1)\<rparr>)
               else None)
            else (case fl_getReg c st of None \<Rightarrow> None
              | Some (r, st1) \<Rightarrow> Some ((r, prev), set_pins r pins (set_map tid c i r st1)))))"

definition unified_rename ::
    "thread_id \<Rightarrow> reg_id \<Rightarrow> int \<Rightarrow> rename_state \<Rightarrow> ((reg_id \<times> reg_id) \<times> rename_state) option" where
  "unified_rename tid arch pins st =
     (if \<not> isRenameable arch then
        (case rat_lookup tid arch st of None \<Rightarrow> None
         | Some p \<Rightarrow> Some ((p, p), if alwaysReady st p then st else set_pins p pins st))
      else simple_rename tid arch pins st)"

definition renameable_classes :: "reg_class_type list" where
  "renameable_classes =
     [IntRegClass, FloatRegClass, VecRegClass, VecElemClass, VecPredRegClass, MatRegClass, CCRegClass]"

definition canRename :: "reg_id list \<Rightarrow> rename_state \<Rightarrow> bool" where
  "canRename dests st \<longleftrightarrow>
     (\<forall>c \<in> set renameable_classes. length (filter (\<lambda>d. classValue d = c) dests) \<le> numFreeRegs c st)"

definition minFreeEntries :: "thread_id \<Rightarrow> rename_state \<Rightarrow> u32" where
  "minFreeEntries tid st =
     foldl (\<lambda>m c. if rmap st tid c \<noteq> [] then min m (of_nat (numFreeRegs c st)) else m)
       (- 1) renameable_classes"

subsection \<open>The rename stage\<close>

text \<open>Which lookup statistic a class counts in: vector elements share the vector counter, and condition
  codes, miscellaneous and invalid registers have none.\<close>

fun lookup_stat :: "reg_class_type \<Rightarrow> reg_class_type option" where
  "lookup_stat VecElemClass = Some VecRegClass"
| "lookup_stat CCRegClass = None"
| "lookup_stat MiscRegClass = None"
| "lookup_stat InvalidRegClass = None"
| "lookup_stat c = Some c"

definition count_lookup :: "reg_class_type \<Rightarrow> rename_state \<Rightarrow> rename_state" where
  "count_lookup c st =
     (let st1 = (case lookup_stat c of None \<Rightarrow> st
          | Some k \<Rightarrow> st\<lparr>classLookups := (classLookups st)(k := classLookups st k + 1)\<rparr>)
      in st1\<lparr>lookups := lookups st1 + 1\<rparr>)"

fun renameSrcRegs ::
    "thread_id \<Rightarrow> reg_id list \<Rightarrow> rename_state \<Rightarrow> ((reg_id \<times> bool) list \<times> rename_state) option" where
  "renameSrcRegs tid [] st = Some ([], st)"
| "renameSrcRegs tid (arch # rest) st =
     (case rat_lookup tid arch st of None \<Rightarrow> None
      | Some r \<Rightarrow>
          (case renameSrcRegs tid rest (count_lookup (classValue arch) st) of
             None \<Rightarrow> None
           | Some (rs, st') \<Rightarrow> Some ((r, sb_getReg r st) # rs, st')))"

definition push_history :: "thread_id \<Rightarrow> rename_history \<Rightarrow> rename_state \<Rightarrow> rename_state" where
  "push_history tid h st = st\<lparr>historyBuffer := (historyBuffer st)(tid := h # historyBuffer st tid)\<rparr>"

fun renameDestRegs ::
    "thread_id \<Rightarrow> nat \<Rightarrow> (reg_id \<times> int) list \<Rightarrow> rename_state \<Rightarrow> ((reg_id \<times> reg_id) list \<times> rename_state) option" where
  "renameDestRegs tid seq [] st = Some ([], st)"
| "renameDestRegs tid seq ((arch, pins) # rest) st =
     (case unified_rename tid arch pins st of None \<Rightarrow> None
      | Some ((new, prev), st1) \<Rightarrow>
          let st2 = push_history tid \<lparr>instSeqNum = seq, archReg = arch, newPhysReg = new, prevPhysReg = prev\<rparr>
                (sb_unsetReg new st1)
          in (case renameDestRegs tid seq rest (st2\<lparr>renamedOperands := renamedOperands st2 + 1\<rparr>) of
                None \<Rightarrow> None
              | Some (rs, st') \<Rightarrow> Some ((new, prev) # rs, st')))"

text \<open>\<open>doSquash\<close>.  The hook is the reorder-buffer injector, which may keep a register from being
  freed; \<open>no_hook\<close> is the null pointer.\<close>

definition no_hook :: "reg_id \<Rightarrow> unit \<Rightarrow> bool \<times> unit" where
  "no_hook r u = (False, u)"

definition squash_entry ::
    "(reg_id \<Rightarrow> 'r \<Rightarrow> bool \<times> 'r) \<Rightarrow> thread_id \<Rightarrow> rename_history \<Rightarrow> rename_state \<times> 'r \<Rightarrow> (rename_state \<times> 'r) option" where
  "squash_entry hook tid h = (\<lambda>(st, rob).
     (let fin = (\<lambda>st. let st1 = sb_setReg (newPhysReg h) st
                     in st1\<lparr>historyBuffer := (historyBuffer st1)(tid := tl (historyBuffer st1 tid)),
                          undoneMaps := undoneMaps st1 + 1\<rparr>)
      in if newPhysReg h \<noteq> prevPhysReg h then
           (case setEntry tid (archReg h) (prevPhysReg h) st of None \<Rightarrow> None
            | Some st1 \<Rightarrow>
                (case hook (newPhysReg h) rob of (skip, rob') \<Rightarrow>
                   Some (fin (if skip then st1
                     else st1\<lparr>freeingInProgress :=
                       (freeingInProgress st1)(tid := freeingInProgress st1 tid @ [newPhysReg h])\<rparr>), rob')))
         else Some (fin st, rob)))"

fun squash_entries ::
    "(reg_id \<Rightarrow> 'r \<Rightarrow> bool \<times> 'r) \<Rightarrow> nat \<Rightarrow> thread_id \<Rightarrow> rename_history list \<Rightarrow> rename_state \<times> 'r
      \<Rightarrow> (rename_state \<times> 'r) option" where
  "squash_entries hook s tid [] c = Some c"
| "squash_entries hook s tid (h # hs) c =
     (if s < instSeqNum h
      then (case squash_entry hook tid h c of None \<Rightarrow> None | Some c' \<Rightarrow> squash_entries hook s tid hs c')
      else Some c)"

definition doSquash ::
    "(reg_id \<Rightarrow> 'r \<Rightarrow> bool \<times> 'r) \<Rightarrow> nat \<Rightarrow> thread_id \<Rightarrow> rename_state \<times> 'r \<Rightarrow> (rename_state \<times> 'r) option" where
  "doSquash hook s tid c = squash_entries hook s tid (historyBuffer (fst c) tid) c"

text \<open>The release of squashed registers once the reorder buffer has stopped squashing.\<close>

definition free_squashed :: "thread_id \<Rightarrow> rename_state \<Rightarrow> rename_state" where
  "free_squashed tid st =
     (fold fl_addReg (freeingInProgress st tid) st)\<lparr>freeingInProgress := (freeingInProgress st)(tid := [])\<rparr>"

definition commit_entry :: "thread_id \<Rightarrow> rename_history \<Rightarrow> rename_state \<Rightarrow> rename_state" where
  "commit_entry tid h st =
     (let st1 = (if newPhysReg h \<noteq> prevPhysReg h then fl_addReg (prevPhysReg h) st else st);
          st2 = (if classValue (prevPhysReg h) = FloatRegClass then st1\<lparr>fpReturned := fpReturned st1 + 1\<rparr> else st1);
          st3 = (if classValue (prevPhysReg h) = IntRegClass then st2\<lparr>intReturned := intReturned st2 + 1\<rparr> else st2)
      in st3\<lparr>committedMaps := committedMaps st3 + 1,
           historyBuffer := (historyBuffer st3)(tid := butlast (historyBuffer st3 tid))\<rparr>)"

text \<open>The argument is the history from its oldest entry on.\<close>

fun commit_entries :: "nat \<Rightarrow> thread_id \<Rightarrow> rename_history list \<Rightarrow> rename_state \<Rightarrow> rename_state" where
  "commit_entries s tid [] st = st"
| "commit_entries s tid (h # hs) st =
     (if instSeqNum h \<le> s then commit_entries s tid hs (commit_entry tid h st) else st)"

definition removeFromHistory :: "nat \<Rightarrow> thread_id \<Rightarrow> rename_state \<Rightarrow> rename_state" where
  "removeFromHistory s tid st = commit_entries s tid (rev (historyBuffer st tid)) st"

text \<open>The constructor of the CPU: every physical register goes to its free list, then the active
  threads map every architectural register to a register taken from there, in both maps.\<close>

definition phys_regs :: "reg_class_type \<Rightarrow> nat \<Rightarrow> reg_id list" where
  "phys_regs c n = map (\<lambda>i. \<lparr>classValue = c, regIdx = i\<rparr>) [0..<n]"

fun map_class :: "thread_id \<Rightarrow> reg_class_type \<Rightarrow> nat list \<Rightarrow> rename_state \<Rightarrow> rename_state option" where
  "map_class tid c [] st = Some st"
| "map_class tid c (i # is) st =
     (case fl_getReg c st of None \<Rightarrow> None
      | Some (r, st1) \<Rightarrow>
          let st2 = set_map tid c i r st1
          in map_class tid c is (st2\<lparr>commitMap :=
               (commitMap st2)(tid := (commitMap st2 tid)(c := (commitMap st2 tid c)[i := Some r]))\<rparr>))"

fun map_classes :: "thread_id \<Rightarrow> (reg_class_type \<Rightarrow> nat) \<Rightarrow> reg_class_type list \<Rightarrow> rename_state \<Rightarrow> rename_state option" where
  "map_classes tid nregs [] st = Some st"
| "map_classes tid nregs (c # cs) st =
     (case map_class tid c [0..<nregs c] st of None \<Rightarrow> None | Some st1 \<Rightarrow> map_classes tid nregs cs st1)"

fun map_threads :: "thread_id list \<Rightarrow> (reg_class_type \<Rightarrow> nat) \<Rightarrow> rename_state \<Rightarrow> rename_state option" where
  "map_threads [] nregs st = Some st"
| "map_threads (t # ts) nregs st =
     (case map_classes t nregs renameable_classes st of None \<Rightarrow> None | Some st1 \<Rightarrow> map_threads ts nregs st1)"

definition init_rename :: "(reg_id \<Rightarrow> bool) \<Rightarrow> (reg_class_type \<Rightarrow> nat) \<Rightarrow> (reg_class_type \<Rightarrow> nat) \<Rightarrow> rename_state" where
  "init_rename ready nphys nregs =
     \<lparr>rmap = (\<lambda>t c. if c \<in> set renameable_classes then replicate (nregs c) None else []),
      commitMap = (\<lambda>t c. if c \<in> set renameable_classes then replicate (nregs c) None else []),
      freeLists = (\<lambda>c. if c \<in> set renameable_classes then phys_regs c (nphys c) else []),
      numPinnedWrites = (\<lambda>_. 0), numPinnedWritesToComplete = (\<lambda>_. 0), regScoreBoard = (\<lambda>_. True),
      alwaysReady = ready, historyBuffer = (\<lambda>_. []), freeingInProgress = (\<lambda>_. []), renamedOperands = 0,
      undoneMaps = 0, committedMaps = 0, fpReturned = 0, intReturned = 0, lookups = 0,
      classLookups = (\<lambda>_. 0)\<rparr>"


subsection \<open>The census\<close>

definition held_prevs :: "reg_class_type \<Rightarrow> rename_history list \<Rightarrow> reg_id list" where
  "held_prevs c hs = map prevPhysReg
     (filter (\<lambda>h. newPhysReg h \<noteq> prevPhysReg h \<and> classValue (prevPhysReg h) = c) hs)"

definition thread_regs :: "thread_id \<Rightarrow> reg_class_type \<Rightarrow> rename_state \<Rightarrow> reg_id option multiset" where
  "thread_regs t c st = mset (rmap st t c) + image_mset Some (mset (held_prevs c (historyBuffer st t)))
     + image_mset Some (mset (filter (\<lambda>r. classValue r = c) (freeingInProgress st t)))"

definition census :: "nat \<Rightarrow> reg_class_type \<Rightarrow> rename_state \<Rightarrow> reg_id option multiset" where
  "census n c st = image_mset Some (mset (freeLists st c)) + (\<Sum>t<n. thread_regs t c st)"

lemma census_thread:
  assumes "tid < n" and "\<forall>t. t \<noteq> tid \<longrightarrow> thread_regs t c st' = thread_regs t c st"
  shows "census n c st = image_mset Some (mset (freeLists st c)) + thread_regs tid c st
      + (\<Sum>t \<in> {..<n} - {tid}. thread_regs t c st)"
    and "census n c st' = image_mset Some (mset (freeLists st' c)) + thread_regs tid c st'
      + (\<Sum>t \<in> {..<n} - {tid}. thread_regs t c st)"
proof -
  have r: "(\<Sum>t<n. f t) = f tid + (\<Sum>t \<in> {..<n} - {tid}. f t)" for f :: "nat \<Rightarrow> reg_id option multiset"
    using assms(1) by (intro sum.remove) auto
  show "census n c st = image_mset Some (mset (freeLists st c)) + thread_regs tid c st
      + (\<Sum>t \<in> {..<n} - {tid}. thread_regs t c st)"
    unfolding census_def r by (simp add: ac_simps)
  have "(\<Sum>t \<in> {..<n} - {tid}. thread_regs t c st') = (\<Sum>t \<in> {..<n} - {tid}. thread_regs t c st)"
    using assms(2) by (intro sum.cong) auto
  then show "census n c st' = image_mset Some (mset (freeLists st' c)) + thread_regs tid c st'
      + (\<Sum>t \<in> {..<n} - {tid}. thread_regs t c st)"
    unfolding census_def r by (simp add: ac_simps)
qed

lemma census_eqI:
  assumes "tid < n" and "\<forall>t. t \<noteq> tid \<longrightarrow> thread_regs t c st' = thread_regs t c st"
    and "image_mset Some (mset (freeLists st' c)) + thread_regs tid c st'
      = image_mset Some (mset (freeLists st c)) + thread_regs tid c st"
  shows "census n c st' = census n c st"
  using census_thread [OF assms(1,2)] assms(3) by simp

text \<open>Undoing the history, newest entry first, must be possible at every moment: the map holds the new
  register of an entry when the entry's turn comes.\<close>

definition undo :: "rename_history \<Rightarrow> (reg_class_type \<Rightarrow> reg_id option list) \<Rightarrow> reg_class_type \<Rightarrow> reg_id option list" where
  "undo h m = (if newPhysReg h = prevPhysReg h then m
     else m(classValue (archReg h) := (m (classValue (archReg h)))[regIdx (archReg h) := Some (prevPhysReg h)]))"

definition entry_ok :: "(reg_class_type \<Rightarrow> reg_id option list) \<Rightarrow> rename_history \<Rightarrow> bool" where
  "entry_ok m h \<longleftrightarrow> (newPhysReg h \<noteq> prevPhysReg h \<longrightarrow>
     isRenameable (archReg h) \<and> classValue (newPhysReg h) = classValue (archReg h)
     \<and> classValue (prevPhysReg h) = classValue (archReg h)
     \<and> regIdx (archReg h) < length (m (classValue (archReg h)))
     \<and> m (classValue (archReg h)) ! regIdx (archReg h) = Some (newPhysReg h))"

fun unwind_ok :: "(reg_class_type \<Rightarrow> reg_id option list) \<Rightarrow> rename_history list \<Rightarrow> bool" where
  "unwind_ok m [] = True"
| "unwind_ok m (h # hs) = (entry_ok m h \<and> unwind_ok (undo h m) hs)"

definition typed_map :: "(reg_class_type \<Rightarrow> reg_id option list) \<Rightarrow> bool" where
  "typed_map m \<longleftrightarrow> (\<forall>c r. Some r \<in> set (m c) \<longrightarrow> classValue r = c)"

definition rn_inv :: "rename_state \<Rightarrow> bool" where
  "rn_inv st \<longleftrightarrow> (\<forall>c. \<forall>r \<in> set (freeLists st c). classValue r = c)
     \<and> (\<forall>t. typed_map (rmap st t) \<and> unwind_ok (rmap st t) (historyBuffer st t))"

definition census_unique :: "nat \<Rightarrow> rename_state \<Rightarrow> bool" where
  "census_unique n st \<longleftrightarrow> (\<forall>c r. count (census n c st) (Some r) \<le> 1)"

lemma state_simps [simp]:
  "rmap (fl_addReg r st) = rmap st" "historyBuffer (fl_addReg r st) = historyBuffer st"
  "freeingInProgress (fl_addReg r st) = freeingInProgress st"
  "freeLists (fl_addReg r st) = (freeLists st)(classValue r := freeLists st (classValue r) @ [r])"
  "freeLists (set_map t c i r st) = freeLists st" "historyBuffer (set_map t c i r st) = historyBuffer st"
  "freeingInProgress (set_map t c i r st) = freeingInProgress st"
  "rmap (set_map t c i r st) = (rmap st)(t := (rmap st t)(c := (rmap st t c)[i := Some r]))"
  "rmap (set_pins r p st) = rmap st" "historyBuffer (set_pins r p st) = historyBuffer st"
  "freeingInProgress (set_pins r p st) = freeingInProgress st" "freeLists (set_pins r p st) = freeLists st"
  "rmap (sb_setReg r st) = rmap st" "historyBuffer (sb_setReg r st) = historyBuffer st"
  "freeingInProgress (sb_setReg r st) = freeingInProgress st" "freeLists (sb_setReg r st) = freeLists st"
  "rmap (sb_unsetReg r st) = rmap st" "historyBuffer (sb_unsetReg r st) = historyBuffer st"
  "freeingInProgress (sb_unsetReg r st) = freeingInProgress st" "freeLists (sb_unsetReg r st) = freeLists st"
  "rmap (push_history t h st) = rmap st" "freeLists (push_history t h st) = freeLists st"
  "freeingInProgress (push_history t h st) = freeingInProgress st"
  "historyBuffer (push_history t h st) = (historyBuffer st)(t := h # historyBuffer st t)"
  by (simp_all add: fl_addReg_def set_map_def set_pins_def sb_setReg_def sb_unsetReg_def push_history_def)

text \<open>What one renaming does to the state: it keeps the mapping, or takes the head of the free list.\<close>

lemma unified_rename_cases:
  assumes "unified_rename tid arch pins st = Some ((new, prev), st')"
  obtains (keep) "new = prev" "rmap st' = rmap st" "freeLists st' = freeLists st"
      "historyBuffer st' = historyBuffer st" "freeingInProgress st' = freeingInProgress st"
  | (alloc) rs where "isRenameable arch" "freeLists st (classValue arch) = new # rs"
      "freeLists st' = (freeLists st)(classValue arch := rs)"
      "regIdx arch < length (rmap st tid (classValue arch))"
      "rmap st tid (classValue arch) ! regIdx arch = Some prev"
      "rmap st' = (rmap st)(tid := (rmap st tid)(classValue arch := (rmap st tid (classValue arch))[regIdx arch := Some new]))"
      "historyBuffer st' = historyBuffer st" "freeingInProgress st' = freeingInProgress st"
proof -
  have "new = prev \<and> rmap st' = rmap st \<and> freeLists st' = freeLists st
      \<and> historyBuffer st' = historyBuffer st \<and> freeingInProgress st' = freeingInProgress st
    \<or> (\<exists>rs. isRenameable arch \<and> freeLists st (classValue arch) = new # rs
      \<and> freeLists st' = (freeLists st)(classValue arch := rs)
      \<and> regIdx arch < length (rmap st tid (classValue arch))
      \<and> rmap st tid (classValue arch) ! regIdx arch = Some prev
      \<and> rmap st' = (rmap st)(tid := (rmap st tid)(classValue arch := (rmap st tid (classValue arch))[regIdx arch := Some new]))
      \<and> historyBuffer st' = historyBuffer st \<and> freeingInProgress st' = freeingInProgress st)"
  proof (cases "isRenameable arch")
    case False
    then show ?thesis using assms by (auto simp: unified_rename_def split: option.splits if_splits)
  next
    case True
    then have "simple_rename tid arch pins st = Some ((new, prev), st')"
      using assms by (simp add: unified_rename_def)
    then show ?thesis using True
      by (auto simp: simple_rename_def fl_getReg_def Let_def not_le split: option.splits if_splits list.splits)
  qed
  then show ?thesis
  proof (elim disjE exE conjE)
  qed (rule keep alloc; assumption)+
qed

lemma mset_list_update:
  assumes "i < length xs"
  shows "add_mset (xs ! i) (mset (xs[i := v])) = add_mset v (mset xs)"
proof -
  have "xs ! i \<in># mset xs" using assms by simp
  then have "add_mset (xs ! i) (mset xs - {#xs ! i#}) = mset xs" by (rule insert_DiffM)
  then show ?thesis unfolding mset_update [OF assms] by (subst add_mset_commute) (simp only:)
qed

lemma count_image_Some: "count (image_mset Some M) (Some r) = count M r"
  by (induction M) auto

lemma mapped_in_census:
  assumes "tid < n" and "i < length (rmap st tid c)" and "rmap st tid c ! i = Some r"
  shows "count (census n c st) (Some r) \<ge> count (mset (freeLists st c)) r + 1"
proof -
  have c: "census n c st = image_mset Some (mset (freeLists st c)) + thread_regs tid c st
      + (\<Sum>t \<in> {..<n} - {tid}. thread_regs t c st)"
    by (rule census_thread(1) [OF assms(1), of c st]) simp
  have "Some r \<in> set (rmap st tid c)" using nth_mem [OF assms(2)] assms(3) by simp
  then have "0 < count (mset (rmap st tid c)) (Some r)" by (simp add: count_greater_zero_iff)
  then have "1 \<le> count (thread_regs tid c st) (Some r)"
    unfolding thread_regs_def count_union by linarith
  then show ?thesis unfolding c count_union count_image_Some by linarith
qed

lemma same_regs:
  assumes "rmap st' = rmap st" "freeLists st' = freeLists st" "historyBuffer st' = historyBuffer st"
    "freeingInProgress st' = freeingInProgress st"
  shows "census n c st' = census n c st" "rn_inv st' = rn_inv st" "thread_regs t c st' = thread_regs t c st"
  using assms by (simp_all add: census_def thread_regs_def rn_inv_def)

lemma held_prevs_Nil [simp]: "held_prevs c [] = []"
  by (simp add: held_prevs_def)

lemma held_prevs_Cons [simp]:
  "held_prevs c (h # hs) = (if newPhysReg h \<noteq> prevPhysReg h \<and> classValue (prevPhysReg h) = c
     then prevPhysReg h # held_prevs c hs else held_prevs c hs)"
  by (simp add: held_prevs_def)

lemma held_prevs_append [simp]: "held_prevs c (xs @ ys) = held_prevs c xs @ held_prevs c ys"
  by (simp add: held_prevs_def)

lemma typed_map_upd:
  assumes "typed_map m" and "classValue r = c"
  shows "typed_map (m(c := (m c)[i := Some r]))"
  using assms by (auto simp: typed_map_def dest!: set_update_subset_insert [THEN subsetD])

text \<open>Renaming one destination and recording it keeps the census and the invariant, and the recorded
  entry undoes exactly this renaming.\<close>

lemma rename_one:
  assumes ren: "unified_rename tid arch pins st = Some ((new, prev), st1)"
    and inv: "rn_inv st" and uniq: "census_unique n st" and tid: "tid < n"
    and h: "h = \<lparr>instSeqNum = seq, archReg = arch, newPhysReg = new, prevPhysReg = prev\<rparr>"
    and st2: "rmap st2 = rmap st1" "freeLists st2 = freeLists st1"
      "freeingInProgress st2 = freeingInProgress st1"
      "historyBuffer st2 = (historyBuffer st1)(tid := h # historyBuffer st1 tid)"
  shows "rn_inv st2 \<and> (\<forall>c. census n c st2 = census n c st) \<and> undo h (rmap st2 tid) = rmap st tid
    \<and> historyBuffer st2 = (historyBuffer st)(tid := h # historyBuffer st tid)
    \<and> freeingInProgress st2 = freeingInProgress st \<and> (\<forall>t. t \<noteq> tid \<longrightarrow> rmap st2 t = rmap st t)"
  using ren
proof (cases rule: unified_rename_cases)
  case keep
  have "rn_inv st2"
    using inv st2 keep h by (auto simp: rn_inv_def entry_ok_def undo_def)
  moreover have "census n c st2 = census n c st" for c
    by (rule census_eqI [OF tid]) (use st2 keep h in \<open>simp_all add: thread_regs_def\<close>)
  ultimately show ?thesis using st2 keep h by (simp add: undo_def)
next
  case (alloc rs)
  let ?c = "classValue arch" and ?i = "regIdx arch"
  have cls: "classValue new = ?c"
    using inv alloc(2) by (auto simp: rn_inv_def)
  have pcls: "classValue prev = ?c"
    using inv alloc(4,5) nth_mem [OF alloc(4)] unfolding rn_inv_def typed_map_def by metis
  have "count (census n ?c st) (Some prev) \<le> 1" using uniq by (simp add: census_unique_def)
  moreover have "count (mset (freeLists st ?c)) prev + 1 \<le> count (census n ?c st) (Some prev)"
    by (rule mapped_in_census [OF tid alloc(4,5)])
  ultimately have "count (mset (freeLists st ?c)) prev = 0" by linarith
  then have np: "new \<noteq> prev" using alloc(2) by auto
  have undone: "undo h (rmap st2 tid) = rmap st tid"
    using alloc(4,5,6) st2 np h by (auto simp: undo_def list_update_same_conv)
  have free: "freeLists st2 = (freeLists st)(?c := rs)" using alloc st2 by simp
  have map2: "rmap st2 = (rmap st)(tid := (rmap st tid)(?c := (rmap st tid ?c)[?i := Some new]))"
    using alloc st2 by simp
  have hist: "historyBuffer st2 = (historyBuffer st)(tid := h # historyBuffer st tid)"
    using alloc st2 by simp
  have "entry_ok (rmap st2 tid) h"
    using alloc(1,4) map2 cls pcls h by (auto simp: entry_ok_def)
  then have "unwind_ok (rmap st2 t) (historyBuffer st2 t)" for t
    using inv undone map2 hist by (auto simp: rn_inv_def)
  moreover have "typed_map (rmap st2 t)" for t
    using inv map2 cls by (auto simp: rn_inv_def intro: typed_map_upd)
  ultimately have "rn_inv st2" using inv free alloc(2) by (auto simp: rn_inv_def)
  moreover have "census n c st2 = census n c st" for c
  proof (rule census_eqI [OF tid])
    show "\<forall>t. t \<noteq> tid \<longrightarrow> thread_regs t c st2 = thread_regs t c st"
      using map2 hist alloc st2 by (simp add: thread_regs_def)
    have m: "add_mset (Some prev) (mset ((rmap st tid ?c)[?i := Some new])) = add_mset (Some new) (mset (rmap st tid ?c))"
      using mset_list_update [OF alloc(4), of "Some new"] alloc(5) by simp
    show "image_mset Some (mset (freeLists st2 c)) + thread_regs tid c st2
        = image_mset Some (mset (freeLists st c)) + thread_regs tid c st"
    proof (cases "c = ?c")
      case True
      have "image_mset Some (mset (freeLists st c)) = add_mset (Some new) (image_mset Some (mset rs))"
        using True alloc(2) by simp
      moreover have "add_mset (Some prev) (mset (rmap st2 tid c)) = add_mset (Some new) (mset (rmap st tid c))"
        using m map2 True by simp
      moreover have "held_prevs c (historyBuffer st2 tid) = prev # held_prevs c (historyBuffer st tid)"
        using hist np True pcls h by simp
      moreover have "freeingInProgress st2 = freeingInProgress st" using alloc st2 by simp
      ultimately show ?thesis using free True by (simp add: thread_regs_def)
    next
      case False
      then show ?thesis using free map2 hist alloc st2 pcls h by (simp add: thread_regs_def)
    qed
  qed
  ultimately show ?thesis using undone hist alloc st2 map2 by simp
qed

lemma renameDestRegs_ok:
  assumes "renameDestRegs tid seq ds st = Some (rs, st')" "rn_inv st" "census_unique n st" "tid < n"
  shows "rn_inv st' \<and> (\<forall>c. census n c st' = census n c st) \<and> freeingInProgress st' = freeingInProgress st
    \<and> (\<forall>t. t \<noteq> tid \<longrightarrow> rmap st' t = rmap st t)
    \<and> (\<exists>news. historyBuffer st' = (historyBuffer st)(tid := news @ historyBuffer st tid)
        \<and> (\<forall>h \<in> set news. instSeqNum h = seq) \<and> fold undo news (rmap st' tid) = rmap st tid)"
  using assms
proof (induction tid seq ds st arbitrary: rs rule: renameDestRegs.induct)
  case (1 tid seq st)
  then have "st' = st" by simp
  then show ?case using 1 by (intro conjI exI [of _ "[]"]) simp_all
next
  case (2 tid seq arch pins rest st)
  obtain new prev st1 where ren: "unified_rename tid arch pins st = Some ((new, prev), st1)"
    using "2.prems"(1) by (auto split: option.splits)
  let ?h = "\<lparr>instSeqNum = seq, archReg = arch, newPhysReg = new, prevPhysReg = prev\<rparr>"
  define st2 where "st2 = push_history tid ?h (sb_unsetReg new st1)"
  define st3 where "st3 = st2\<lparr>renamedOperands := renamedOperands st2 + 1\<rparr>"
  obtain rs' where rest: "renameDestRegs tid seq rest st3 = Some (rs', st')"
    using "2.prems"(1) ren by (auto simp: st3_def st2_def Let_def split: option.splits)
  have one: "rn_inv st3 \<and> (\<forall>c. census n c st3 = census n c st) \<and> undo ?h (rmap st3 tid) = rmap st tid
    \<and> historyBuffer st3 = (historyBuffer st)(tid := ?h # historyBuffer st tid)
    \<and> freeingInProgress st3 = freeingInProgress st \<and> (\<forall>t. t \<noteq> tid \<longrightarrow> rmap st3 t = rmap st t)"
    by (rule rename_one [OF ren "2.prems"(2,3,4) refl]) (simp_all add: st3_def st2_def)
  then have u: "census_unique n st3" using "2.prems"(3) by (simp add: census_unique_def)
  have IH: "rn_inv st' \<and> (\<forall>c. census n c st' = census n c st3) \<and> freeingInProgress st' = freeingInProgress st3
    \<and> (\<forall>t. t \<noteq> tid \<longrightarrow> rmap st' t = rmap st3 t)
    \<and> (\<exists>news. historyBuffer st' = (historyBuffer st3)(tid := news @ historyBuffer st3 tid)
        \<and> (\<forall>h \<in> set news. instSeqNum h = seq) \<and> fold undo news (rmap st' tid) = rmap st3 tid)"
    by (rule "2.IH" [OF ren refl refl st2_def, folded st3_def, OF rest _ u "2.prems"(4)]) (use one in blast)
  then obtain news where "historyBuffer st' = (historyBuffer st3)(tid := news @ historyBuffer st3 tid)"
    "\<forall>h \<in> set news. instSeqNum h = seq" "fold undo news (rmap st' tid) = rmap st3 tid" by blast
  then have "historyBuffer st' = (historyBuffer st)(tid := (news @ [?h]) @ historyBuffer st tid)
      \<and> (\<forall>h \<in> set (news @ [?h]). instSeqNum h = seq) \<and> fold undo (news @ [?h]) (rmap st' tid) = rmap st tid"
    using one by simp
  then have "\<exists>news. historyBuffer st' = (historyBuffer st)(tid := news @ historyBuffer st tid)
      \<and> (\<forall>h \<in> set news. instSeqNum h = seq) \<and> fold undo news (rmap st' tid) = rmap st tid" by blast
  moreover have "rn_inv st' \<and> (\<forall>c. census n c st' = census n c st) \<and> freeingInProgress st' = freeingInProgress st
      \<and> (\<forall>t. t \<noteq> tid \<longrightarrow> rmap st' t = rmap st t)"
    using IH one by simp
  ultimately show ?case by blast
qed

text \<open>The registers a hook keeps from being freed, over a list of candidates.\<close>

fun leaks :: "(reg_id \<Rightarrow> 'r \<Rightarrow> bool \<times> 'r) \<Rightarrow> reg_id list \<Rightarrow> 'r \<Rightarrow> reg_id list \<times> 'r" where
  "leaks hook [] rob = ([], rob)"
| "leaks hook (r # rs) rob =
     (case hook r rob of (skip, rob1) \<Rightarrow> case leaks hook rs rob1 of (l, rob2) \<Rightarrow>
        (if skip then r # l else l, rob2))"

definition to_free :: "rename_history list \<Rightarrow> reg_id list" where
  "to_free hs = map newPhysReg (filter (\<lambda>h. newPhysReg h \<noteq> prevPhysReg h) hs)"

lemma leaks_no_hook [simp]: "leaks no_hook rs u = ([], u)"
  by (induction rs arbitrary: u) (simp_all add: no_hook_def)

lemma mset_swap:
  assumes "add_mset a X = add_mset b Y"
  shows "add_mset a (X + P + Q) = add_mset b (Y + P + Q)"
proof -
  have "add_mset a X + (P + Q) = add_mset b Y + (P + Q)" using assms by (simp only:)
  then show ?thesis by (simp add: add.assoc)
qed

lemma census_plusI:
  assumes "tid < n" and "\<forall>t. t \<noteq> tid \<longrightarrow> thread_regs t c st' = thread_regs t c st"
    and "thread_regs tid c st' + L = thread_regs tid c st" and "freeLists st' c = freeLists st c"
  shows "census n c st' + L = census n c st"
proof -
  have "A + X' + S + L = A + X + S" if "X' + L = X" for A S X X' :: "reg_id option multiset"
    unfolding that [symmetric] by (simp only: add.assoc add.left_commute add.commute)
  from this [OF assms(3)] show ?thesis
    using census_thread [OF assms(1,2)] assms(4) by (simp only:)
qed

lemma squash_entry_ok:
  assumes inv: "rn_inv st" and hist: "historyBuffer st tid = h # hs" and tid: "tid < n"
  shows "\<exists>st'. squash_entry hook tid h (st, rob) = Some (st', snd (leaks hook (to_free [h]) rob))
    \<and> rn_inv st' \<and> freeLists st' = freeLists st
    \<and> rmap st' = (rmap st)(tid := undo h (rmap st tid)) \<and> historyBuffer st' = (historyBuffer st)(tid := hs)
    \<and> (\<forall>t. t \<noteq> tid \<longrightarrow> freeingInProgress st' t = freeingInProgress st t)
    \<and> (\<forall>c. census n c st' + image_mset Some (mset (filter (\<lambda>r. classValue r = c) (fst (leaks hook (to_free [h]) rob))))
          = census n c st)"
proof (cases "newPhysReg h = prevPhysReg h")
  case True
  define st' where "st' = (sb_setReg (newPhysReg h) st)\<lparr>historyBuffer := (historyBuffer st)(tid := hs), undoneMaps := undoneMaps (sb_setReg (newPhysReg h) st) + 1\<rparr>"
  have e: "squash_entry hook tid h (st, rob) = Some (st', snd (leaks hook (to_free [h]) rob))"
    using True hist by (simp add: squash_entry_def st'_def to_free_def Let_def)
  have f: "rmap st' = rmap st" "freeLists st' = freeLists st" "freeingInProgress st' = freeingInProgress st"
    "historyBuffer st' = (historyBuffer st)(tid := hs)" by (simp_all add: st'_def)
  have "unwind_ok (rmap st tid) (h # hs)" using inv hist unfolding rn_inv_def by metis
  then have "rn_inv st'" using inv f True by (auto simp: rn_inv_def undo_def)
  moreover have "census n c st' = census n c st" for c
    by (rule census_eqI [OF tid]) (use f True hist in \<open>simp_all add: thread_regs_def\<close>)
  moreover have "rmap st' = (rmap st)(tid := undo h (rmap st tid))" using f True by (simp add: undo_def)
  ultimately show ?thesis using e f True by (intro exI [of _ st']) (simp add: to_free_def)
next
  case False
  let ?c = "classValue (archReg h)" and ?i = "regIdx (archReg h)"
  have uw: "entry_ok (rmap st tid) h" "unwind_ok (undo h (rmap st tid)) hs"
  proof -
    have "unwind_ok (rmap st tid) (h # hs)" using inv hist unfolding rn_inv_def by metis
    then show "entry_ok (rmap st tid) h" "unwind_ok (undo h (rmap st tid)) hs" by simp_all
  qed
  then have eo: "isRenameable (archReg h)" "classValue (newPhysReg h) = ?c" "classValue (prevPhysReg h) = ?c"
    "?i < length (rmap st tid ?c)" "rmap st tid ?c ! ?i = Some (newPhysReg h)"
    using False by (simp_all add: entry_ok_def)
  define st1 where "st1 = set_map tid ?c ?i (prevPhysReg h) st"
  obtain skip rob' where hk: "hook (newPhysReg h) rob = (skip, rob')" by (cases "hook (newPhysReg h) rob")
  define st2 where "st2 = (if skip then st1 else st1\<lparr>freeingInProgress :=
      (freeingInProgress st1)(tid := freeingInProgress st1 tid @ [newPhysReg h])\<rparr>)"
  define st3 where "st3 = sb_setReg (newPhysReg h) st2"
  define st' where "st' = st3\<lparr>historyBuffer := (historyBuffer st3)(tid := tl (historyBuffer st3 tid)), undoneMaps := undoneMaps st3 + 1\<rparr>"
  have lk: "leaks hook (to_free [h]) rob = (if skip then [newPhysReg h] else [], rob')"
    using False hk by (simp add: to_free_def)
  have "setEntry tid (archReg h) (prevPhysReg h) st = Some st1"
    using eo by (simp add: setEntry_def st1_def)
  then have e: "squash_entry hook tid h (st, rob) = Some (st', rob')"
    using False hk by (simp add: squash_entry_def st'_def st3_def st2_def Let_def)
  have map': "rmap st' = (rmap st)(tid := undo h (rmap st tid))"
    using False by (simp add: st'_def st3_def st2_def st1_def undo_def)
  have hist': "historyBuffer st' = (historyBuffer st)(tid := hs)"
    using hist by (simp add: st'_def st3_def st2_def st1_def)
  have free': "freeLists st' = freeLists st" by (simp add: st'_def st3_def st2_def st1_def)
  have fr: "freeingInProgress st' = (if skip then freeingInProgress st
      else (freeingInProgress st)(tid := freeingInProgress st tid @ [newPhysReg h]))"
    by (simp add: st'_def st3_def st2_def st1_def)
  have "typed_map (undo h (rmap st tid))"
    using inv eo(3) False by (auto simp: rn_inv_def undo_def intro: typed_map_upd)
  then have "rn_inv st'" using inv uw(2) map' hist' free' by (auto simp: rn_inv_def)
  moreover have "census n c st' + image_mset Some (mset (filter (\<lambda>r. classValue r = c) (if skip then [newPhysReg h] else [])))
      = census n c st" for c
  proof -
    have oth: "\<forall>t. t \<noteq> tid \<longrightarrow> thread_regs t c st' = thread_regs t c st"
      using map' hist' fr by (simp add: thread_regs_def)
    have m: "add_mset (Some (newPhysReg h)) (mset ((rmap st tid ?c)[?i := Some (prevPhysReg h)]))
        = add_mset (Some (prevPhysReg h)) (mset (rmap st tid ?c))"
      using mset_list_update [OF eo(4), of "Some (prevPhysReg h)"] eo(5) by simp
    have "thread_regs tid c st' + image_mset Some (mset (filter (\<lambda>r. classValue r = c) (if skip then [newPhysReg h] else [])))
        = thread_regs tid c st"
    proof (cases "c = ?c")
      case True
      have "mset (rmap st' tid c) = mset ((rmap st tid ?c)[?i := Some (prevPhysReg h)])"
        using map' True False by (simp add: undo_def)
      moreover have "held_prevs c (historyBuffer st tid) = prevPhysReg h # held_prevs c hs"
        using hist False True eo(3) by simp
      moreover have "held_prevs c (historyBuffer st' tid) = held_prevs c hs" using hist' by simp
      moreover have "mset (filter (\<lambda>r. classValue r = c) (freeingInProgress st' tid))
          + mset (filter (\<lambda>r. classValue r = c) (if skip then [newPhysReg h] else []))
          = add_mset (newPhysReg h) (mset (filter (\<lambda>r. classValue r = c) (freeingInProgress st tid)))"
        using fr True eo(2) by simp
      ultimately show ?thesis
        using mset_swap [OF m, of "image_mset Some (mset (held_prevs c hs))"
            "image_mset Some (mset (filter (\<lambda>r. classValue r = c) (freeingInProgress st tid)))"] True
        unfolding thread_regs_def add.assoc image_mset_union [symmetric]
        by (simp add: add.assoc)
    next
      case F: False
      then show ?thesis using fr hist hist' map' eo(2,3) by (simp add: thread_regs_def undo_def)
    qed
    from census_plusI [OF tid oth this] free' show ?thesis by simp
  qed
  ultimately show ?thesis using e lk free' map' hist' fr by (intro exI [of _ st']) simp
qed

lemma leaks_append:
  "leaks hook (xs @ ys) rob =
     (fst (leaks hook xs rob) @ fst (leaks hook ys (snd (leaks hook xs rob))),
      snd (leaks hook ys (snd (leaks hook xs rob))))"
  by (induction xs arbitrary: rob) (auto simp: case_prod_unfold)

lemma to_free_Cons: "to_free (h # hs) = to_free [h] @ to_free hs"
  by (simp add: to_free_def)

lemma squash_entries_ok:
  fixes s :: nat
  assumes "rn_inv st" "historyBuffer st tid = hs" "tid < n"
  defines "es \<equiv> takeWhile (\<lambda>h. s < instSeqNum h) hs"
  shows "\<exists>st'. squash_entries hook s tid hs (st, rob) = Some (st', snd (leaks hook (to_free es) rob))
    \<and> rn_inv st' \<and> freeLists st' = freeLists st
    \<and> rmap st' = (rmap st)(tid := fold undo es (rmap st tid))
    \<and> historyBuffer st' = (historyBuffer st)(tid := dropWhile (\<lambda>h. s < instSeqNum h) hs)
    \<and> (\<forall>t. t \<noteq> tid \<longrightarrow> freeingInProgress st' t = freeingInProgress st t)
    \<and> (\<forall>c. census n c st' + image_mset Some (mset (filter (\<lambda>r. classValue r = c) (fst (leaks hook (to_free es) rob))))
          = census n c st)"
  using assms(1,2) unfolding es_def
proof (induction hs arbitrary: st rob)
  case Nil
  then show ?case by (intro exI [of _ st]) (auto simp: to_free_def)
next
  case (Cons h hs)
  show ?case
  proof (cases "s < instSeqNum h")
    case False
    then show ?thesis using Cons.prems by (intro exI [of _ st]) (auto simp: to_free_def)
  next
    case True
    obtain st1 where s1: "squash_entry hook tid h (st, rob) = Some (st1, snd (leaks hook (to_free [h]) rob))"
      "rn_inv st1" "freeLists st1 = freeLists st"
      "rmap st1 = (rmap st)(tid := undo h (rmap st tid))" "historyBuffer st1 = (historyBuffer st)(tid := hs)"
      "\<forall>t. t \<noteq> tid \<longrightarrow> freeingInProgress st1 t = freeingInProgress st t"
      "\<forall>c. census n c st1 + image_mset Some (mset (filter (\<lambda>r. classValue r = c) (fst (leaks hook (to_free [h]) rob))))
          = census n c st"
      using squash_entry_ok [OF Cons.prems(1,2) assms(3), of hook rob] by blast
    have "historyBuffer st1 tid = hs" using s1(5) by simp
    from Cons.IH [OF s1(2) this, of "snd (leaks hook (to_free [h]) rob)"] obtain st' where
      s2: "squash_entries hook s tid hs (st1, snd (leaks hook (to_free [h]) rob)) =
          Some (st', snd (leaks hook (to_free (takeWhile (\<lambda>h. s < instSeqNum h) hs)) (snd (leaks hook (to_free [h]) rob))))"
      "rn_inv st'" "freeLists st' = freeLists st1"
      "rmap st' = (rmap st1)(tid := fold undo (takeWhile (\<lambda>h. s < instSeqNum h) hs) (rmap st1 tid))"
      "historyBuffer st' = (historyBuffer st1)(tid := dropWhile (\<lambda>h. s < instSeqNum h) hs)"
      "\<forall>t. t \<noteq> tid \<longrightarrow> freeingInProgress st' t = freeingInProgress st1 t"
      "\<forall>c. census n c st' + image_mset Some (mset (filter (\<lambda>r. classValue r = c)
          (fst (leaks hook (to_free (takeWhile (\<lambda>h. s < instSeqNum h) hs)) (snd (leaks hook (to_free [h]) rob))))))
          = census n c st1" by blast
    have lk: "leaks hook (to_free (takeWhile (\<lambda>h. s < instSeqNum h) (h # hs))) rob =
        (fst (leaks hook (to_free [h]) rob)
           @ fst (leaks hook (to_free (takeWhile (\<lambda>h. s < instSeqNum h) hs)) (snd (leaks hook (to_free [h]) rob))),
         snd (leaks hook (to_free (takeWhile (\<lambda>h. s < instSeqNum h) hs)) (snd (leaks hook (to_free [h]) rob))))"
    proof -
      have tw: "takeWhile (\<lambda>h. s < instSeqNum h) (h # hs) = h # takeWhile (\<lambda>h. s < instSeqNum h) hs"
        using True by simp
      show ?thesis unfolding tw by (subst to_free_Cons) (rule leaks_append)
    qed
    have "census n c st' + image_mset Some (mset (filter (\<lambda>r. classValue r = c)
        (fst (leaks hook (to_free (takeWhile (\<lambda>h. s < instSeqNum h) (h # hs))) rob)))) = census n c st" for c
    proof -
      have "census n c st' + (A + B) = census n c st"
        if "census n c st1 + A = census n c st" "census n c st' + B = census n c st1" for A B
        using that by (metis add.assoc add.commute)
      from this [OF s1(7) [rule_format] s2(7) [rule_format]] show ?thesis
        unfolding lk fst_conv filter_append mset_append image_mset_union .
    qed
    then show ?thesis
      using True s1 s2 lk by (intro exI [of _ st']) simp
  qed
qed

lemma unwind_ok_append: "unwind_ok m (xs @ ys) \<longleftrightarrow> unwind_ok m xs \<and> unwind_ok (fold undo xs m) ys"
  by (induction xs arbitrary: m) auto

lemma commit_entry_ok:
  assumes inv: "rn_inv st" and hist: "historyBuffer st tid = hs @ [h]" and tid: "tid < n"
  shows "rn_inv (commit_entry tid h st) \<and> census n c (commit_entry tid h st) = census n c st
    \<and> historyBuffer (commit_entry tid h st) = (historyBuffer st)(tid := hs)
    \<and> rmap (commit_entry tid h st) = rmap st"
proof -
  define st' where "st' = commit_entry tid h st"
  have f: "rmap st' = rmap st" "freeingInProgress st' = freeingInProgress st"
    "historyBuffer st' = (historyBuffer st)(tid := hs)"
    "freeLists st' = (if newPhysReg h \<noteq> prevPhysReg h
       then (freeLists st)(classValue (prevPhysReg h) := freeLists st (classValue (prevPhysReg h)) @ [prevPhysReg h])
       else freeLists st)"
    using hist by (simp_all add: st'_def commit_entry_def Let_def)
  have "unwind_ok (rmap st tid) (hs @ [h])" using inv hist unfolding rn_inv_def by metis
  then have "unwind_ok (rmap st tid) hs" by (simp add: unwind_ok_append)
  then have "rn_inv st'" using inv f by (auto simp: rn_inv_def)
  moreover have "census n c st' = census n c st"
    by (rule census_eqI [OF tid]) (use f hist in \<open>auto simp: thread_regs_def\<close>)
  ultimately show ?thesis using f by (simp add: st'_def)
qed

lemma commit_entries_ok:
  assumes "rn_inv st" "historyBuffer st tid = rev hs" "tid < n"
  shows "rn_inv (commit_entries s tid hs st) \<and> census n c (commit_entries s tid hs st) = census n c st
    \<and> rmap (commit_entries s tid hs st) = rmap st
    \<and> historyBuffer (commit_entries s tid hs st) =
        (historyBuffer st)(tid := rev (dropWhile (\<lambda>h. instSeqNum h \<le> s) hs))"
  using assms(1,2)
proof (induction hs arbitrary: st)
  case (Cons h hs)
  then show ?case
    using commit_entry_ok [OF Cons.prems(1), of tid "rev hs" h n c] assms(3)
      Cons.IH [of "commit_entry tid h st"] by (auto simp: fun_upd_idem)
qed auto

lemma fold_addReg:
  "rmap (fold fl_addReg rs st) = rmap st \<and> historyBuffer (fold fl_addReg rs st) = historyBuffer st
   \<and> freeingInProgress (fold fl_addReg rs st) = freeingInProgress st
   \<and> freeLists (fold fl_addReg rs st) = (\<lambda>c. freeLists st c @ filter (\<lambda>r. classValue r = c) rs)"
  by (induction rs arbitrary: st) (auto simp: fun_eq_iff)

lemma free_squashed_ok:
  assumes "rn_inv st" "tid < n"
  shows "rn_inv (free_squashed tid st) \<and> census n c (free_squashed tid st) = census n c st
    \<and> rmap (free_squashed tid st) = rmap st \<and> historyBuffer (free_squashed tid st) = historyBuffer st"
proof -
  define st' where "st' = free_squashed tid st"
  have f: "rmap st' = rmap st" "historyBuffer st' = historyBuffer st"
    "freeingInProgress st' = (freeingInProgress st)(tid := [])"
    "freeLists st' = (\<lambda>c. freeLists st c @ filter (\<lambda>r. classValue r = c) (freeingInProgress st tid))"
    using fold_addReg [of "freeingInProgress st tid" st] by (simp_all add: st'_def free_squashed_def)
  have "rn_inv st'" using assms(1) f by (auto simp: rn_inv_def)
  moreover have "census n c st' = census n c st"
    by (rule census_eqI [OF assms(2)]) (use f in \<open>simp_all add: thread_regs_def\<close>)
  ultimately show ?thesis using f by (simp add: st'_def)
qed


subsection \<open>Reachable states\<close>

inductive rename_step :: "nat \<Rightarrow> rename_state \<Rightarrow> rename_state \<Rightarrow> bool" for n where
  ren_src: "tid < n \<Longrightarrow> renameSrcRegs tid srcs st = Some (rs, st') \<Longrightarrow> rename_step n st st'"
| ren_dest: "tid < n \<Longrightarrow> renameDestRegs tid seq ds st = Some (rs, st') \<Longrightarrow> rename_step n st st'"
| squash: "tid < n \<Longrightarrow> doSquash no_hook s tid (st, ()) = Some (st', ()) \<Longrightarrow> rename_step n st st'"
| release: "tid < n \<Longrightarrow> rename_step n st (free_squashed tid st)"
| retire: "tid < n \<Longrightarrow> rename_step n st (removeFromHistory s tid st)"

inductive rename_reach :: "nat \<Rightarrow> rename_state \<Rightarrow> rename_state \<Rightarrow> bool" for n where
  start: "rename_reach n st st"
| onward: "rename_reach n st0 st \<Longrightarrow> rename_step n st st' \<Longrightarrow> rename_reach n st0 st'"

lemma renameSrcRegs_same:
  "renameSrcRegs tid srcs st = Some (rs, st') \<Longrightarrow>
     rmap st' = rmap st \<and> freeLists st' = freeLists st \<and> historyBuffer st' = historyBuffer st
     \<and> freeingInProgress st' = freeingInProgress st"
proof (induction tid srcs st arbitrary: rs rule: renameSrcRegs.induct)
  case (2 tid arch rest st)
  then obtain r rs' where "rat_lookup tid arch st = Some r"
    "renameSrcRegs tid rest (count_lookup (classValue arch) st) = Some (rs', st')"
    by (auto split: option.splits)
  from "2.IH" [OF this] show ?case by (simp add: count_lookup_def Let_def split: option.splits)
qed simp

lemma rename_step_ok:
  assumes "rename_step n st st'" and "rn_inv st" and "census_unique n st"
  shows "rn_inv st' \<and> (\<forall>c. census n c st' = census n c st)"
  using assms(1)
proof cases
  case (ren_src tid srcs rs)
  then show ?thesis using renameSrcRegs_same [OF ren_src(2)] assms(2) same_regs(1,2) [of st' st] by auto
next
  case (ren_dest tid seq ds rs)
  then show ?thesis using renameDestRegs_ok [OF ren_dest(2) assms(2,3) ren_dest(1)] by simp
next
  case (squash tid s)
  then have "squash_entries no_hook s tid (historyBuffer st tid) (st, ()) = Some (st', ())"
    by (simp add: doSquash_def)
  then show ?thesis using squash_entries_ok [OF assms(2) refl squash(1), where hook = no_hook and s = s and rob = "()"]
    by auto
next
  case (release tid)
  then show ?thesis using free_squashed_ok [OF assms(2) release(2)] by simp
next
  case (retire tid s)
  then show ?thesis
    using commit_entries_ok [OF assms(2), of tid "rev (historyBuffer st tid)" n s]
    by (simp add: removeFromHistory_def)
qed

lemma rename_reach_ok:
  assumes "rename_reach n st0 st" and "rn_inv st0" and "census_unique n st0"
  shows "rn_inv st \<and> (\<forall>c. census n c st = census n c st0)"
  using assms
proof (induction rule: rename_reach.induct)
  case (onward st0 st st')
  then have "rn_inv st" "\<forall>c. census n c st = census n c st0" by auto
  moreover from this have "census_unique n st" using onward.prems by (simp add: census_unique_def)
  ultimately show ?case using rename_step_ok [OF onward(2)] by simp
qed auto

subsection \<open>The initial mapping\<close>

definition some_count :: "nat \<Rightarrow> rename_state \<Rightarrow> reg_class_type \<Rightarrow> reg_id \<Rightarrow> nat" where
  "some_count n st c r = count (census n c st) (Some r)"

lemma map_one:
  assumes "tid < n" and "i < length (rmap st tid c)" and "rmap st tid c ! i = None"
    and "freeLists st c = r # rs"
    and st': "freeLists st' = (freeLists st)(c := rs)" "historyBuffer st' = historyBuffer st"
      "freeingInProgress st' = freeingInProgress st"
      "rmap st' = (rmap st)(tid := (rmap st tid)(c := (rmap st tid c)[i := Some r]))"
  shows "some_count n st' = some_count n st"
proof (intro ext)
  fix c' q
  have oth: "\<forall>t. t \<noteq> tid \<longrightarrow> thread_regs t c' st' = thread_regs t c' st"
    using st' by (simp add: thread_regs_def)
  have m: "add_mset None (mset ((rmap st tid c)[i := Some r])) = add_mset (Some r) (mset (rmap st tid c))"
    using mset_list_update [OF assms(2), of "Some r"] assms(3) by simp
  have "count (add_mset None (mset ((rmap st tid c)[i := Some r]))) (Some q)
      = count (add_mset (Some r) (mset (rmap st tid c))) (Some q)" using m by (simp only:)
  then have cnt: "count (mset ((rmap st tid c)[i := Some r])) (Some q)
      = count (mset (rmap st tid c)) (Some q) + (if q = r then 1 else 0)" by simp
  have "count (image_mset Some (mset (freeLists st' c'))) (Some q) + count (thread_regs tid c' st') (Some q)
      = count (image_mset Some (mset (freeLists st c'))) (Some q) + count (thread_regs tid c' st) (Some q)"
    using cnt st' assms(4) by (cases "c' = c") (simp_all add: thread_regs_def count_image_Some)
  then show "some_count n st' c' q = some_count n st c' q"
    using census_thread [OF assms(1) oth] by (simp add: some_count_def)
qed

definition fresh_class :: "rename_state \<Rightarrow> thread_id \<Rightarrow> reg_class_type \<Rightarrow> nat \<Rightarrow> bool" where
  "fresh_class st t c k \<longleftrightarrow> length (rmap st t c) = k \<and> (\<forall>i<k. rmap st t c ! i = None)"

definition mapping_kept :: "nat \<Rightarrow> rename_state \<Rightarrow> rename_state \<Rightarrow> bool" where
  "mapping_kept n st st' \<longleftrightarrow> some_count n st' = some_count n st \<and> rn_inv st'
     \<and> historyBuffer st' = historyBuffer st"

lemma map_class_ok:
  assumes "map_class tid c is st = Some st'" "tid < n" "distinct is"
    "\<forall>i \<in> set is. i < length (rmap st tid c) \<and> rmap st tid c ! i = None" "rn_inv st" "historyBuffer st = (\<lambda>_. [])"
  shows "mapping_kept n st st' \<and> (\<forall>t d. t \<noteq> tid \<or> d \<noteq> c \<longrightarrow> rmap st' t d = rmap st t d)"
  using assms
proof (induction tid c "is" st rule: map_class.induct)
  case (1 tid c st)
  then show ?case by (simp add: mapping_kept_def)
next
  case (2 tid c i "is" st)
  obtain r rs where fr: "freeLists st c = r # rs"
    using "2.prems"(1) by (auto simp: fl_getReg_def split: list.splits)
  define st1 where "st1 = st\<lparr>freeLists := (freeLists st)(c := rs)\<rparr>"
  define st2 where "st2 = set_map tid c i r st1"
  define st3 where "st3 = st2\<lparr>commitMap := (commitMap st2)(tid := (commitMap st2 tid)(c := (commitMap st2 tid c)[i := Some r]))\<rparr>"
  have g: "fl_getReg c st = Some (r, st1)" using fr by (simp add: fl_getReg_def st1_def)
  have rest: "map_class tid c is st3 = Some st'"
    using "2.prems"(1) g by (simp add: st3_def st2_def Let_def)
  have f3: "freeLists st3 = (freeLists st)(c := rs)" "historyBuffer st3 = historyBuffer st"
    "freeingInProgress st3 = freeingInProgress st"
    "rmap st3 = (rmap st)(tid := (rmap st tid)(c := (rmap st tid c)[i := Some r]))"
    by (simp_all add: st3_def st2_def st1_def)
  have cnt: "some_count n st3 = some_count n st"
    by (rule map_one [OF "2.prems"(2) _ _ fr f3]) (use "2.prems"(4) in auto)
  have "classValue r = c" using "2.prems"(5) fr by (auto simp: rn_inv_def)
  then have "typed_map ((rmap st tid)(c := (rmap st tid c)[i := Some r]))"
    using "2.prems"(5) by (intro typed_map_upd) (auto simp: rn_inv_def)
  then have inv3: "rn_inv st3" using "2.prems"(5,6) f3 fr by (auto simp: rn_inv_def)
  have "\<forall>j \<in> set is. j < length (rmap st3 tid c) \<and> rmap st3 tid c ! j = None"
    using "2.prems"(3,4) f3(4) by (auto simp: nth_list_update)
  from "2.IH" [OF g refl st2_def, folded st3_def, OF rest "2.prems"(2) _ this inv3] "2.prems"(3,6) f3
  have "mapping_kept n st3 st' \<and> (\<forall>t d. t \<noteq> tid \<or> d \<noteq> c \<longrightarrow> rmap st' t d = rmap st3 t d)" by simp
  then show ?case using cnt f3 by (auto simp: mapping_kept_def)
qed

lemma map_classes_ok:
  assumes "map_classes tid nregs cs st = Some st'" "tid < n" "distinct cs"
    "\<forall>c \<in> set cs. fresh_class st tid c (nregs c)" "rn_inv st" "historyBuffer st = (\<lambda>_. [])"
  shows "mapping_kept n st st' \<and> (\<forall>t. t \<noteq> tid \<longrightarrow> rmap st' t = rmap st t)"
  using assms
proof (induction tid nregs cs st rule: map_classes.induct)
  case (1 tid nregs st)
  then show ?case by (simp add: mapping_kept_def)
next
  case (2 tid nregs c cs st)
  obtain st1 where s1: "map_class tid c [0..<nregs c] st = Some st1" "map_classes tid nregs cs st1 = Some st'"
    using "2.prems"(1) by (auto split: option.splits)
  have k: "mapping_kept n st st1 \<and> (\<forall>t d. t \<noteq> tid \<or> d \<noteq> c \<longrightarrow> rmap st1 t d = rmap st t d)"
    by (rule map_class_ok [OF s1(1) "2.prems"(2) _ _ "2.prems"(5,6)])
      (use "2.prems"(4) in \<open>auto simp: fresh_class_def\<close>)
  have "rmap st1 tid d = rmap st tid d" if "d \<in> set cs" for d
    using k "2.prems"(3) that by auto
  then have "\<forall>d \<in> set cs. fresh_class st1 tid d (nregs d)"
    using "2.prems"(4) by (simp add: fresh_class_def)
  moreover have "rn_inv st1" "historyBuffer st1 = (\<lambda>_. [])" "distinct cs"
    using k "2.prems"(3,6) by (simp_all add: mapping_kept_def)
  ultimately have "mapping_kept n st1 st' \<and> (\<forall>t. t \<noteq> tid \<longrightarrow> rmap st' t = rmap st1 t)"
    using "2.IH" [OF s1(1) s1(2) "2.prems"(2)] by simp
  moreover have "rmap st1 t = rmap st t" if "t \<noteq> tid" for t using k that by (simp add: fun_eq_iff)
  ultimately show ?case using k by (auto simp: mapping_kept_def)
qed

lemma map_threads_ok:
  assumes "map_threads ts nregs st = Some st'" "\<forall>t \<in> set ts. t < n" "distinct ts"
    "\<forall>t \<in> set ts. \<forall>c \<in> set renameable_classes. fresh_class st t c (nregs c)" "rn_inv st"
    "historyBuffer st = (\<lambda>_. [])"
  shows "mapping_kept n st st'"
  using assms
proof (induction ts nregs st rule: map_threads.induct)
  case (1 nregs st)
  then show ?case by (simp add: mapping_kept_def)
next
  case (2 t ts nregs st)
  obtain st1 where s1: "map_classes t nregs renameable_classes st = Some st1" "map_threads ts nregs st1 = Some st'"
    using "2.prems"(1) by (auto split: option.splits)
  have "distinct renameable_classes" by (simp add: renameable_classes_def)
  then have k: "mapping_kept n st st1 \<and> (\<forall>u. u \<noteq> t \<longrightarrow> rmap st1 u = rmap st u)"
    using map_classes_ok [OF s1(1) _ _ _ "2.prems"(5,6), of n] "2.prems"(2,4) by simp
  have "\<forall>u \<in> set ts. \<forall>c \<in> set renameable_classes. fresh_class st1 u c (nregs c)"
    using k "2.prems"(3,4) by (auto simp: fresh_class_def)
  from "2.IH" [OF s1(1,2) _ _ this] k "2.prems"(2,3,6) show ?case by (auto simp: mapping_kept_def)
qed

lemma init_rename_ok:
  "rn_inv (init_rename rdy nphys nregs)"
  "some_count n (init_rename rdy nphys nregs) c r =
     (if c \<in> set renameable_classes \<and> r \<in> set (phys_regs c (nphys c)) then 1 else 0)"
proof -
  have d: "distinct (phys_regs c k)" for c k
    unfolding phys_regs_def by (simp add: distinct_map inj_on_def)
  have t: "classValue q = c" if "q \<in> set (phys_regs c k)" for q c k using that by (auto simp: phys_regs_def)
  show "rn_inv (init_rename rdy nphys nregs)"
    using t by (auto simp: rn_inv_def init_rename_def typed_map_def)
  have "count (thread_regs u c (init_rename rdy nphys nregs)) (Some r) = 0" for u
    by (auto simp: thread_regs_def init_rename_def count_eq_zero_iff)
  then have "count (\<Sum>u<n. thread_regs u c (init_rename rdy nphys nregs)) (Some r) = 0"
    by (simp add: count_sum)
  moreover have "count (mset (freeLists (init_rename rdy nphys nregs) c)) r =
      (if c \<in> set renameable_classes \<and> r \<in> set (phys_regs c (nphys c)) then 1 else 0)"
    using d [of c "nphys c"] by (simp add: init_rename_def distinct_count_atmost_1)
  ultimately show "some_count n (init_rename rdy nphys nregs) c r =
     (if c \<in> set renameable_classes \<and> r \<in> set (phys_regs c (nphys c)) then 1 else 0)"
    by (simp add: some_count_def census_def count_image_Some)
qed

lemma reachable_count:
  assumes "map_threads [0..<k] nregs (init_rename rdy nphys nregs) = Some st0" "k \<le> n" "rename_reach n st0 st"
  shows "rn_inv st \<and> census_unique n st \<and> some_count n st c r =
    (if c \<in> set renameable_classes \<and> r \<in> set (phys_regs c (nphys c)) then 1 else 0)"
proof -
  have "mapping_kept n (init_rename rdy nphys nregs) st0"
    by (rule map_threads_ok [OF assms(1)])
      (use assms(2) init_rename_ok(1) in \<open>auto simp: init_rename_def fresh_class_def\<close>)
  then have 0: "rn_inv st0" "some_count n st0 c r =
      (if c \<in> set renameable_classes \<and> r \<in> set (phys_regs c (nphys c)) then 1 else 0)" for c r
    by (simp_all add: mapping_kept_def init_rename_ok(2))
  then have u0: "census_unique n st0" unfolding census_unique_def some_count_def by (metis le_refl zero_le_one)
  from rename_reach_ok [OF assms(3) 0(1) u0] show ?thesis
    using 0(2) u0 by (simp add: some_count_def census_unique_def)
qed

text \<open>C11: the census.  In every state reachable from the construction of the CPU by renaming,
  squashing, releasing and retiring, every physical register is in exactly one place: on its free
  list, in one entry of one rename map, held by one history entry, or waiting to be freed.  So no
  register is lost, and none is ever free and mapped at once or mapped twice.\<close>

theorem registers_partitioned:
  assumes "map_threads [0..<k] nregs (init_rename rdy nphys nregs) = Some st0" "k \<le> n" "rename_reach n st0 st"
    and "c \<in> set renameable_classes"
  shows "count (mset (freeLists st c)) r
    + (\<Sum>t<n. count (mset (rmap st t c)) (Some r) + count (mset (held_prevs c (historyBuffer st t))) r
        + count (mset (filter (\<lambda>q. classValue q = c) (freeingInProgress st t))) r)
    = (if r \<in> set (phys_regs c (nphys c)) then 1 else 0)"
  using reachable_count [OF assms(1-3), of c r] assms(4)
  by (simp add: some_count_def census_def count_sum thread_regs_def count_image_Some)

text \<open>C12: squashing is the inverse of renaming.  Renaming the destinations of an instruction and
  squashing it restores every rename map and every history buffer, and once the squashed registers
  are released each free list has its registers back.\<close>

theorem squash_undoes_rename:
  assumes "rn_inv st" "census_unique n st" "tid < n" "renameDestRegs tid seq ds st = Some (rs, st')"
    and "\<forall>h \<in> set (historyBuffer st tid). instSeqNum h \<le> s" "s < seq"
  shows "\<exists>st2. doSquash no_hook s tid (st', ()) = Some (st2, ()) \<and> rmap st2 = rmap st
    \<and> historyBuffer st2 = historyBuffer st
    \<and> mset (freeLists (free_squashed tid st2) c) =
        mset (freeLists st c) + mset (filter (\<lambda>r. classValue r = c) (freeingInProgress st tid))"
proof -
  from renameDestRegs_ok [OF assms(4,1,2,3)] obtain news where
    r: "rn_inv st'" "\<And>c. census n c st' = census n c st" "freeingInProgress st' = freeingInProgress st"
    "\<And>t. t \<noteq> tid \<Longrightarrow> rmap st' t = rmap st t"
    "historyBuffer st' = (historyBuffer st)(tid := news @ historyBuffer st tid)"
    "\<forall>h \<in> set news. instSeqNum h = seq" "fold undo news (rmap st' tid) = rmap st tid" by blast
  have h': "historyBuffer st' tid = news @ historyBuffer st tid" using r(5) by simp
  have "takeWhile (\<lambda>h. s < instSeqNum h) (historyBuffer st tid) = []"
    "dropWhile (\<lambda>h. s < instSeqNum h) (historyBuffer st tid) = historyBuffer st tid"
    using assms(5) by (cases "historyBuffer st tid"; force)+
  then have tw: "takeWhile (\<lambda>h. s < instSeqNum h) (news @ historyBuffer st tid) = news"
    "dropWhile (\<lambda>h. s < instSeqNum h) (news @ historyBuffer st tid) = historyBuffer st tid"
    using r(6) assms(6) by (simp_all add: takeWhile_append dropWhile_append)
  obtain st2 where s2: "squash_entries no_hook s tid (news @ historyBuffer st tid) (st', ()) = Some (st2, ())"
    "rn_inv st2" "rmap st2 = (rmap st')(tid := rmap st tid)"
    "historyBuffer st2 = (historyBuffer st')(tid := historyBuffer st tid)"
    "\<And>t. t \<noteq> tid \<Longrightarrow> freeingInProgress st2 t = freeingInProgress st' t"
    "\<And>c. census n c st2 = census n c st'"
    using squash_entries_ok [OF r(1) h' assms(3), where hook = no_hook and s = s and rob = "()"] tw r(7) by auto
  have m: "rmap st2 = rmap st" "historyBuffer st2 = historyBuffer st"
    using s2(3,4) r(4,5) by (auto simp: fun_eq_iff)
  define st3 where "st3 = free_squashed tid st2"
  have c3: "census n c st3 = census n c st" "rmap st3 = rmap st" "historyBuffer st3 = historyBuffer st"
    using free_squashed_ok [OF s2(2) assms(3), of c] s2(6) r(2) m by (simp_all add: st3_def)
  have f3: "freeingInProgress st3 tid = []" "\<And>t. t \<noteq> tid \<Longrightarrow> freeingInProgress st3 t = freeingInProgress st t"
    using s2(5) r(3) by (simp_all add: st3_def free_squashed_def)
  have oth: "\<forall>t. t \<noteq> tid \<longrightarrow> thread_regs t c st3 = thread_regs t c st"
    using c3 f3 by (simp add: thread_regs_def)
  have e: "image_mset Some (mset (freeLists st3 c)) + thread_regs tid c st3
      = image_mset Some (mset (freeLists st c)) + thread_regs tid c st"
    using census_thread [OF assms(3) oth] c3(1) by simp
  have "count (mset (freeLists st3 c)) q =
      count (mset (freeLists st c) + mset (filter (\<lambda>r. classValue r = c) (freeingInProgress st tid))) q" for q
    using arg_cong [OF e, of "\<lambda>M. count M (Some q)"] c3 f3(1)
    by (simp add: thread_regs_def count_image_Some)
  then have "mset (freeLists st3 c) =
      mset (freeLists st c) + mset (filter (\<lambda>r. classValue r = c) (freeingInProgress st tid))"
    by (rule multiset_eqI)
  then show ?thesis using s2(1) m h' by (intro exI [of _ st2]) (simp add: doSquash_def st3_def)
qed


definition dest_ok :: "thread_id \<Rightarrow> rename_state \<Rightarrow> reg_id \<times> int \<Rightarrow> bool" where
  "dest_ok tid st d \<longleftrightarrow> (isRenameable (fst d) \<longrightarrow> snd d = 0
     \<and> regIdx (fst d) < length (rmap st tid (classValue (fst d)))
     \<and> rmap st tid (classValue (fst d)) ! regIdx (fst d) \<noteq> None)"

lemma renameable_class: "isRenameable r \<Longrightarrow> classValue r \<in> set renameable_classes"
  by (cases "classValue r") (simp_all add: isRenameable_def renameable_classes_def)

lemma unified_rename_some:
  assumes "dest_ok tid st (arch, pins)" and "isRenameable arch \<Longrightarrow> freeLists st (classValue arch) \<noteq> []"
  shows "\<exists>new prev st1. unified_rename tid arch pins st = Some ((new, prev), st1)"
proof (cases "isRenameable arch")
  case False
  then show ?thesis by (auto simp: unified_rename_def rat_lookup_def isRenameable_def)
next
  case True
  then show ?thesis using assms
    by (auto simp: unified_rename_def simple_rename_def dest_ok_def fl_getReg_def isRenameable_def Let_def
        split: option.splits list.splits)
qed

lemma unified_rename_uses:
  assumes "unified_rename tid arch pins st = Some ((new, prev), st1)"
  shows "numFreeRegs c st \<le> numFreeRegs c st1 + (if classValue arch = c then 1 else 0)"
    and "dest_ok tid st d \<Longrightarrow> dest_ok tid st1 d"
proof -
  show "numFreeRegs c st \<le> numFreeRegs c st1 + (if classValue arch = c then 1 else 0)"
    using assms by (cases rule: unified_rename_cases) (auto simp: numFreeRegs_def)
  assume "dest_ok tid st d"
  with assms show "dest_ok tid st1 d"
    by (cases rule: unified_rename_cases) (auto simp: dest_ok_def nth_list_update)
qed

lemma canRename_progress:
  assumes "canRename (map fst ds) st" and "\<forall>d \<in> set ds. dest_ok tid st d"
  shows "\<exists>rs st'. renameDestRegs tid seq ds st = Some (rs, st')"
  using assms
proof (induction ds arbitrary: st)
  case (Cons d ds)
  obtain arch pins where d: "d = (arch, pins)" by (cases d)
  have "freeLists st (classValue arch) \<noteq> []" if "isRenameable arch"
    using Cons.prems(1) renameable_class [OF that] d by (auto simp: canRename_def numFreeRegs_def dest!: bspec)
  then obtain new prev st1 where r: "unified_rename tid arch pins st = Some ((new, prev), st1)"
    using unified_rename_some [of tid st arch pins] Cons.prems(2) d by auto
  define st2 where "st2 = push_history tid \<lparr>instSeqNum = seq, archReg = arch, newPhysReg = new, prevPhysReg = prev\<rparr>
    (sb_unsetReg new st1)"
  define st3 where "st3 = st2\<lparr>renamedOperands := renamedOperands st2 + 1\<rparr>"
  have f: "freeLists st3 = freeLists st1" "rmap st3 = rmap st1" by (simp_all add: st3_def st2_def)
  have "length (filter (\<lambda>e. classValue e = c) (map fst ds)) \<le> numFreeRegs c st3"
    if "c \<in> set renameable_classes" for c
  proof -
    have "length (filter (\<lambda>e. classValue e = c) (map fst (d # ds))) \<le> numFreeRegs c st"
      using Cons.prems(1) that unfolding canRename_def by blast
    then show ?thesis using unified_rename_uses(1) [OF r, of c] d f
      by (auto simp: numFreeRegs_def split: if_splits)
  qed
  then have "canRename (map fst ds) st3" unfolding canRename_def by blast
  moreover have "\<forall>e \<in> set ds. dest_ok tid st3 e"
    using Cons.prems(2) unified_rename_uses(2) [OF r] f by (simp add: dest_ok_def)
  ultimately obtain rs st' where "renameDestRegs tid seq ds st3 = Some (rs, st')" using Cons.IH by blast
  then show ?case using r d by (simp add: st3_def st2_def Let_def)
qed simp


definition demo_cpu :: rename_state where
  "demo_cpu = the (map_threads [0..<1] (\<lambda>c. if c = IntRegClass then 2 else 0)
     (init_rename (\<lambda>_. False) (\<lambda>c. if c = IntRegClass then 4 else 0) (\<lambda>c. if c = IntRegClass then 2 else 0)))"

abbreviation int_reg :: "nat \<Rightarrow> reg_id" where
  "int_reg i \<equiv> \<lparr>classValue = IntRegClass, regIdx = i\<rparr>"

lemma demo_cpu_init:
  "map_threads [0..<1] (\<lambda>c. if c = IntRegClass then 2 else 0)
     (init_rename (\<lambda>_. False) (\<lambda>c. if c = IntRegClass then 4 else 0) (\<lambda>c. if c = IntRegClass then 2 else 0))
   = Some demo_cpu"
  "freeLists demo_cpu IntRegClass = [int_reg 2, int_reg 3]"
  "rmap demo_cpu 0 IntRegClass = [Some (int_reg 0), Some (int_reg 1)]"
  "numPinnedWrites demo_cpu = (\<lambda>_. 0)" "historyBuffer demo_cpu = (\<lambda>_. [])" "freeingInProgress demo_cpu = (\<lambda>_. [])"
  by (simp_all add: demo_cpu_def renameable_classes_def init_rename_def phys_regs_def fl_getReg_def set_map_def
      upt_rec numeral_eq_Suc)


theorem registers_partitioned_witness:
  "count (mset (freeLists demo_cpu IntRegClass)) (int_reg 2)
    + (\<Sum>t<1. count (mset (rmap demo_cpu t IntRegClass)) (Some (int_reg 2))
        + count (mset (held_prevs IntRegClass (historyBuffer demo_cpu t))) (int_reg 2)
        + count (mset (filter (\<lambda>q. classValue q = IntRegClass) (freeingInProgress demo_cpu t))) (int_reg 2)) = 1"
  using registers_partitioned [OF demo_cpu_init(1) _ start, of 1 IntRegClass "int_reg 2"]
  by (simp add: renameable_classes_def phys_regs_def)

theorem squash_undoes_rename_witness:
  "\<exists>st' st2. doSquash no_hook 6 0 (st', ()) = Some (st2, ()) \<and> rmap st2 = rmap demo_cpu
    \<and> rmap st' 0 IntRegClass = [Some (int_reg 0), Some (int_reg 2)]
    \<and> mset (freeLists (free_squashed 0 st2) IntRegClass) = {#int_reg 2, int_reg 3#}"
proof -
  have ok: "rn_inv demo_cpu" "census_unique 1 demo_cpu"
    using reachable_count [OF demo_cpu_init(1) order_refl start] by auto
  obtain rs st' where r: "renameDestRegs 0 7 [(int_reg 1, 0)] demo_cpu = Some (rs, st')"
    "rmap st' 0 IntRegClass = [Some (int_reg 0), Some (int_reg 2)]"
    by (simp add: unified_rename_def isRenameable_def simple_rename_def fl_getReg_def demo_cpu_init Let_def)
  show ?thesis
    using squash_undoes_rename [OF ok _ r(1), of 6 IntRegClass] r(2) by (auto simp: demo_cpu_init)
qed

end
