(* ===== verification/Reg_File.thy ===== *)
theory Reg_File
  imports O3_Types
begin

text \<open>
  The physical register file (\<open>cpu/o3/regfile.hh\<close>) with the two hooks the injectors use: the
  read-trace counter, which counts the reads of an injected value until its slot is overwritten, and
  the stuck-at mask applied on the write path.  Scalar classes hold 64-bit values, vector, predicate
  and matrix classes hold bytes.  A class an operation does not support panics in the code and is
  \<open>None\<close> here, as is an index past the end.
\<close>

record reg_file =
  scalarRegs :: "reg_class_type \<Rightarrow> u64 list"
  blobRegs :: "reg_class_type \<Rightarrow> u8 list list"
  trace_type :: reg_class_type
  trace_idx :: int
  reads_before_overwrite :: nat
  trace_overwritten :: bool
  stuck_type :: reg_class_type
  stuck_idx :: int
  stuck_mask :: u64
  stuck_polarity :: u8

definition setReadTraceTarget :: "reg_class_type \<Rightarrow> int \<Rightarrow> reg_file \<Rightarrow> reg_file" where
  "setReadTraceTarget c i rf = rf\<lparr>trace_type := c, trace_idx := i, reads_before_overwrite := 0,
     trace_overwritten := False\<rparr>"

definition clearReadTraceTarget :: "reg_file \<Rightarrow> reg_file" where
  "clearReadTraceTarget rf = rf\<lparr>trace_type := InvalidRegClass, trace_idx := - 1\<rparr>"

definition setStuckTarget :: "reg_class_type \<Rightarrow> int \<Rightarrow> u64 \<Rightarrow> u8 \<Rightarrow> reg_file \<Rightarrow> reg_file" where
  "setStuckTarget c i m pol rf = rf\<lparr>stuck_type := c, stuck_idx := i, stuck_mask := m, stuck_polarity := pol\<rparr>"

definition clearStuckTarget :: "reg_file \<Rightarrow> reg_file" where
  "clearStuckTarget rf = rf\<lparr>stuck_type := InvalidRegClass, stuck_idx := - 1, stuck_mask := 0, stuck_polarity := 0\<rparr>"

definition count_read :: "reg_class_type \<Rightarrow> nat \<Rightarrow> reg_file \<Rightarrow> reg_file" where
  "count_read c i rf =
     (if trace_type rf = c \<and> \<not> trace_overwritten rf \<and> int i = trace_idx rf
      then rf\<lparr>reads_before_overwrite := reads_before_overwrite rf + 1\<rparr> else rf)"

definition note_write :: "reg_class_type \<Rightarrow> nat \<Rightarrow> reg_file \<Rightarrow> reg_file" where
  "note_write c i rf = (if trace_type rf = c \<and> int i = trace_idx rf then rf\<lparr>trace_overwritten := True\<rparr> else rf)"

definition stick :: "reg_class_type \<Rightarrow> nat \<Rightarrow> u64 \<Rightarrow> reg_file \<Rightarrow> u64" where
  "stick c i v rf =
     (if stuck_type rf = c \<and> int i = stuck_idx rf
      then (if stuck_polarity rf = 0 then v AND NOT (stuck_mask rf) else v OR stuck_mask rf) else v)"

definition rf_getReg :: "reg_id \<Rightarrow> reg_file \<Rightarrow> (u64 \<times> reg_file) option" where
  "rf_getReg r rf =
     (let c = classValue r; i = regIdx r in
      if c \<notin> {IntRegClass, FloatRegClass, VecElemClass, CCRegClass} \<or> length (scalarRegs rf c) \<le> i then None
      else Some (scalarRegs rf c ! i, if c \<in> {IntRegClass, FloatRegClass} then count_read c i rf else rf))"

definition rf_getReg_blob :: "reg_id \<Rightarrow> reg_file \<Rightarrow> ((u64 + u8 list) \<times> reg_file) option" where
  "rf_getReg_blob r rf =
     (let c = classValue r; i = regIdx r in
      if c \<in> {IntRegClass, FloatRegClass, VecElemClass, CCRegClass}
      then (case rf_getReg r rf of None \<Rightarrow> None | Some (v, rf') \<Rightarrow> Some (Inl v, rf'))
      else if c \<in> {VecRegClass, VecPredRegClass, MatRegClass} \<and> i < length (blobRegs rf c)
      then Some (Inr (blobRegs rf c ! i), if c = VecRegClass then count_read c i rf else rf)
      else None)"

definition rf_setReg :: "reg_id \<Rightarrow> u64 \<Rightarrow> reg_file \<Rightarrow> reg_file option" where
  "rf_setReg r v rf =
     (let c = classValue r; i = regIdx r in
      if c = InvalidRegClass then Some rf
      else if c \<notin> {IntRegClass, FloatRegClass, VecElemClass, CCRegClass} \<or> length (scalarRegs rf c) \<le> i then None
      else if c \<in> {IntRegClass, FloatRegClass} then
        let rf1 = note_write c i rf
        in Some (rf1\<lparr>scalarRegs := (scalarRegs rf1)(c := (scalarRegs rf1 c)[i := stick c i v rf1])\<rparr>)
      else Some (rf\<lparr>scalarRegs := (scalarRegs rf)(c := (scalarRegs rf c)[i := v])\<rparr>))"

definition rf_setReg_blob :: "reg_id \<Rightarrow> u64 + u8 list \<Rightarrow> reg_file \<Rightarrow> reg_file option" where
  "rf_setReg_blob r v rf =
     (let c = classValue r; i = regIdx r in
      if c \<in> {IntRegClass, FloatRegClass, VecElemClass, CCRegClass}
      then (case v of Inl w \<Rightarrow> rf_setReg r w rf | Inr _ \<Rightarrow> None)
      else if c \<in> {VecRegClass, VecPredRegClass, MatRegClass} \<and> i < length (blobRegs rf c)
      then (case v of Inl _ \<Rightarrow> None
        | Inr b \<Rightarrow>
            let rf1 = (if c = VecRegClass then note_write c i rf else rf)
            in Some (rf1\<lparr>blobRegs := (blobRegs rf1)(c := (blobRegs rf1 c)[i := b])\<rparr>))
      else None)"

text \<open>Writing through the pointer \<open>getWritableReg\<close> returns: the producer stores the bytes itself, and
  neither the read trace nor the stuck-at mask sees the write.\<close>

definition write_through :: "reg_id \<Rightarrow> u8 list \<Rightarrow> reg_file \<Rightarrow> reg_file option" where
  "write_through r b rf =
     (let c = classValue r; i = regIdx r in
      if c \<in> {VecRegClass, VecPredRegClass, MatRegClass} \<and> i < length (blobRegs rf c)
      then Some (rf\<lparr>blobRegs := (blobRegs rf)(c := (blobRegs rf c)[i := b])\<rparr>) else None)"

subsection \<open>Facts\<close>

lemma count_read_simps [simp]:
  "scalarRegs (count_read c i rf) = scalarRegs rf" "blobRegs (count_read c i rf) = blobRegs rf"
  "trace_type (count_read c i rf) = trace_type rf" "trace_idx (count_read c i rf) = trace_idx rf"
  "trace_overwritten (count_read c i rf) = trace_overwritten rf"
  "stuck_type (count_read c i rf) = stuck_type rf" "stuck_idx (count_read c i rf) = stuck_idx rf"
  "stuck_mask (count_read c i rf) = stuck_mask rf" "stuck_polarity (count_read c i rf) = stuck_polarity rf"
  by (simp_all add: count_read_def)

lemma note_write_simps [simp]:
  "scalarRegs (note_write c i rf) = scalarRegs rf" "blobRegs (note_write c i rf) = blobRegs rf"
  "trace_type (note_write c i rf) = trace_type rf" "trace_idx (note_write c i rf) = trace_idx rf"
  "reads_before_overwrite (note_write c i rf) = reads_before_overwrite rf"
  "stuck_type (note_write c i rf) = stuck_type rf" "stuck_idx (note_write c i rf) = stuck_idx rf"
  "stuck_mask (note_write c i rf) = stuck_mask rf" "stuck_polarity (note_write c i rf) = stuck_polarity rf"
  by (simp_all add: note_write_def)

text \<open>Accesses to the file, as the pipeline performs them.\<close>

datatype rf_op = RfRead reg_id | RfWrite reg_id u64 | RfReadBlob reg_id | RfWriteBlob reg_id "u64 + u8 list"

fun rf_apply :: "rf_op \<Rightarrow> reg_file \<Rightarrow> reg_file option" where
  "rf_apply (RfRead r) rf = map_option snd (rf_getReg r rf)"
| "rf_apply (RfWrite r v) rf = rf_setReg r v rf"
| "rf_apply (RfReadBlob r) rf = map_option snd (rf_getReg_blob r rf)"
| "rf_apply (RfWriteBlob r v) rf = rf_setReg_blob r v rf"

fun rf_run :: "rf_op list \<Rightarrow> reg_file \<Rightarrow> reg_file option" where
  "rf_run [] rf = Some rf"
| "rf_run (a # as) rf = (case rf_apply a rf of None \<Rightarrow> None | Some rf' \<Rightarrow> rf_run as rf')"

definition reads_reg :: "reg_id \<Rightarrow> rf_op \<Rightarrow> bool" where
  "reads_reg t a \<longleftrightarrow> a = RfRead t \<or> a = RfReadBlob t"

definition writes_reg :: "reg_id \<Rightarrow> rf_op \<Rightarrow> bool" where
  "writes_reg t a \<longleftrightarrow> (\<exists>v. a = RfWrite t v) \<or> (\<exists>v. a = RfWriteBlob t v)"

definition traced :: "reg_id \<Rightarrow> bool" where
  "traced t \<longleftrightarrow> classValue t \<in> {IntRegClass, FloatRegClass, VecRegClass}"

lemma reg_id_eq: "(r :: reg_id) = t \<longleftrightarrow> classValue r = classValue t \<and> regIdx r = regIdx t"
  by (cases r; cases t) simp

definition hits_trace :: "reg_id \<Rightarrow> reg_file \<Rightarrow> bool" where
  "hits_trace r rf \<longleftrightarrow> traced r \<and> trace_type rf = classValue r \<and> int (regIdx r) = trace_idx rf"

lemma getReg_trace:
  "rf_getReg r rf = Some (v, rf') \<Longrightarrow> rf' = (if hits_trace r rf then count_read (classValue r) (regIdx r) rf else rf)"
  by (auto simp: rf_getReg_def Let_def hits_trace_def traced_def count_read_def split: if_splits)

lemma getReg_blob_trace:
  "rf_getReg_blob r rf = Some (v, rf') \<Longrightarrow> rf' = (if hits_trace r rf then count_read (classValue r) (regIdx r) rf else rf)"
proof (cases "classValue r \<in> {IntRegClass, FloatRegClass, VecElemClass, CCRegClass}")
  case True
  moreover assume "rf_getReg_blob r rf = Some (v, rf')"
  ultimately show ?thesis
    by (auto simp: rf_getReg_blob_def Let_def dest: getReg_trace split: option.splits)
next
  case False
  moreover assume "rf_getReg_blob r rf = Some (v, rf')"
  ultimately show ?thesis
    by (auto simp: rf_getReg_blob_def Let_def hits_trace_def traced_def count_read_def split: if_splits)
qed

definition same_trace :: "reg_file \<Rightarrow> reg_file \<Rightarrow> bool \<Rightarrow> bool" where
  "same_trace rf rf' w \<longleftrightarrow> trace_type rf' = trace_type rf \<and> trace_idx rf' = trace_idx rf
     \<and> reads_before_overwrite rf' = reads_before_overwrite rf \<and> trace_overwritten rf' = (trace_overwritten rf \<or> w)"

lemma setReg_trace: "rf_setReg r v rf = Some rf' \<Longrightarrow> same_trace rf rf' (hits_trace r rf)"
  by (auto simp: rf_setReg_def Let_def same_trace_def hits_trace_def traced_def note_write_def split: if_splits)

lemma setReg_blob_trace: "rf_setReg_blob r v rf = Some rf' \<Longrightarrow> same_trace rf rf' (hits_trace r rf)"
proof (cases "classValue r \<in> {IntRegClass, FloatRegClass, VecElemClass, CCRegClass}")
  case True
  moreover assume "rf_setReg_blob r v rf = Some rf'"
  ultimately show ?thesis by (auto simp: rf_setReg_blob_def Let_def intro: setReg_trace split: sum.splits)
next
  case False
  moreover assume "rf_setReg_blob r v rf = Some rf'"
  ultimately show ?thesis
    by (auto simp: rf_setReg_blob_def Let_def same_trace_def hits_trace_def traced_def note_write_def
        split: if_splits sum.splits)
qed

lemma rf_apply_trace:
  assumes "rf_apply a rf = Some rf'" and "traced t"
    and "trace_type rf = classValue t" and "trace_idx rf = int (regIdx t)"
  shows "trace_type rf' = classValue t \<and> trace_idx rf' = int (regIdx t)
    \<and> trace_overwritten rf' = (trace_overwritten rf \<or> writes_reg t a)
    \<and> reads_before_overwrite rf' = reads_before_overwrite rf + (if reads_reg t a \<and> \<not> trace_overwritten rf then 1 else 0)"
proof -
  have hit: "hits_trace r rf \<longleftrightarrow> r = t" for r
    using assms(2-4) by (auto simp: hits_trace_def traced_def reg_id_eq)
  show ?thesis
  proof (cases a)
    case (RfRead r)
    with assms(1) obtain v where "rf_getReg r rf = Some (v, rf')" by auto
    from getReg_trace [OF this] show ?thesis
      using RfRead hit assms(3,4) by (simp add: count_read_def reads_reg_def writes_reg_def)
  next
    case (RfWrite r v)
    with assms(1) have "rf_setReg r v rf = Some rf'" by simp
    from setReg_trace [OF this] show ?thesis
      using RfWrite hit assms(3,4) by (simp add: same_trace_def reads_reg_def writes_reg_def)
  next
    case (RfReadBlob r)
    with assms(1) obtain v where "rf_getReg_blob r rf = Some (v, rf')" by auto
    from getReg_blob_trace [OF this] show ?thesis
      using RfReadBlob hit assms(3,4) by (simp add: count_read_def reads_reg_def writes_reg_def)
  next
    case (RfWriteBlob r v)
    with assms(1) have "rf_setReg_blob r v rf = Some rf'" by simp
    from setReg_blob_trace [OF this] show ?thesis
      using RfWriteBlob hit assms(3,4) by (simp add: same_trace_def reads_reg_def writes_reg_def)
  qed
qed

lemma rf_run_trace:
  assumes "rf_run as rf = Some rf'" and "traced t"
    and "trace_type rf = classValue t" and "trace_idx rf = int (regIdx t)"
  shows "reads_before_overwrite rf' = reads_before_overwrite rf
      + (if trace_overwritten rf then 0 else length (filter (reads_reg t) (takeWhile (\<lambda>a. \<not> writes_reg t a) as)))
    \<and> trace_overwritten rf' = (trace_overwritten rf \<or> (\<exists>a \<in> set as. writes_reg t a))"
  using assms
proof (induction "as" arbitrary: rf)
  case (Cons a "as")
  obtain rf1 where a: "rf_apply a rf = Some rf1" "rf_run as rf1 = Some rf'"
    using Cons.prems(1) by (auto split: option.splits)
  have nr: "reads_reg t a \<Longrightarrow> \<not> writes_reg t a" by (auto simp: reads_reg_def writes_reg_def)
  show ?case
    using rf_apply_trace [OF a(1) Cons.prems(2-4)] Cons.IH [OF a(2) Cons.prems(2)] nr
    by (auto simp: reads_reg_def writes_reg_def)
qed simp

text \<open>The value of a scalar slot, seen through the stuck-at mask.\<close>

definition forced :: "u8 \<Rightarrow> u64 \<Rightarrow> u64 \<Rightarrow> bool" where
  "forced pol m v \<longleftrightarrow> (\<forall>k. bit m k \<longrightarrow> bit v k = (pol \<noteq> 0))"

text \<open>Two files that agree except on the slot \<open>t\<close> and the stuck-at target.\<close>

definition agree_except :: "reg_id \<Rightarrow> reg_file \<Rightarrow> reg_file \<Rightarrow> bool" where
  "agree_except t rf rf' \<longleftrightarrow> blobRegs rf' = blobRegs rf
     \<and> (\<forall>c. length (scalarRegs rf' c) = length (scalarRegs rf c)
         \<and> (\<forall>i. c \<noteq> classValue t \<or> i \<noteq> regIdx t \<longrightarrow> scalarRegs rf' c ! i = scalarRegs rf c ! i))"

definition stuck_at :: "reg_id \<Rightarrow> u64 \<Rightarrow> u8 \<Rightarrow> reg_file \<Rightarrow> bool" where
  "stuck_at t m pol rf \<longleftrightarrow> stuck_type rf = classValue t \<and> stuck_idx rf = int (regIdx t)
     \<and> stuck_mask rf = m \<and> stuck_polarity rf = pol"

lemma forced_stick:
  assumes "stuck_at t m pol rf"
  shows "forced pol m (stick (classValue t) (regIdx t) v rf)"
  using assms by (auto simp: forced_def stuck_at_def stick_def bit_simps dest: bit_imp_le_length)

lemma stick_other:
  "stuck_at t m pol rf \<Longrightarrow> c \<noteq> classValue t \<or> i \<noteq> regIdx t \<Longrightarrow> stick c i v rf = v"
  by (auto simp: stuck_at_def stick_def)

lemma stick_clean: "stuck_type rf = InvalidRegClass \<Longrightarrow> c \<noteq> InvalidRegClass \<Longrightarrow> stick c i v rf = v"
  by (auto simp: stick_def)

lemma stick_note_write [simp]: "stick c i v (note_write d j rf) = stick c i v rf"
  by (simp add: stick_def)

lemma setReg_stuck:
  assumes "rf_setReg r v rf = Some rf1" and "agree_except t rf rf'" and "stuck_at t m pol rf'"
    and "stuck_type rf = InvalidRegClass" and t: "classValue t \<in> {IntRegClass, FloatRegClass}"
  shows "\<exists>rf1'. rf_setReg r v rf' = Some rf1' \<and> agree_except t rf1 rf1' \<and> stuck_at t m pol rf1'
    \<and> stuck_type rf1 = InvalidRegClass
    \<and> (regIdx t < length (scalarRegs rf (classValue t)) \<longrightarrow>
        (r = t \<or> forced pol m (scalarRegs rf' (classValue t) ! regIdx t))
        \<longrightarrow> forced pol m (scalarRegs rf1' (classValue t) ! regIdx t))"
proof -
  have len: "length (scalarRegs rf' c) = length (scalarRegs rf c)" for c
    using assms(2) by (simp add: agree_except_def)
  obtain rf1' where e: "rf_setReg r v rf' = Some rf1'"
    using assms(1) len by (auto simp: rf_setReg_def Let_def split: if_splits)
  have st: "stuck_at t m pol rf1'"
    using e assms(3) by (auto simp: rf_setReg_def Let_def stuck_at_def split: if_splits)
  have cl: "stuck_type rf1 = InvalidRegClass"
    using assms(1,4) by (auto simp: rf_setReg_def Let_def split: if_splits)
  have "agree_except t rf1 rf1'"
    using e assms(1,2,4) stick_other [OF assms(3)]
    by (auto simp: rf_setReg_def Let_def agree_except_def nth_list_update stick_clean split: if_splits)
  moreover have "forced pol m (scalarRegs rf1' (classValue t) ! regIdx t)"
    if "regIdx t < length (scalarRegs rf (classValue t))"
      "r = t \<or> forced pol m (scalarRegs rf' (classValue t) ! regIdx t)"
  proof (cases "r = t")
    case True
    then show ?thesis using e t that(1) len forced_stick [OF assms(3)]
      by (auto simp: rf_setReg_def Let_def split: if_splits)
  next
    case False
    then show ?thesis using e t that
      by (auto simp: rf_setReg_def Let_def nth_list_update reg_id_eq split: if_splits)
  qed
  ultimately show ?thesis using e st cl by blast
qed

definition stuck_sim :: "reg_id \<Rightarrow> u64 \<Rightarrow> u8 \<Rightarrow> bool \<Rightarrow> reg_file \<Rightarrow> reg_file \<Rightarrow> bool" where
  "stuck_sim t m pol w rf rf' \<longleftrightarrow> agree_except t rf rf' \<and> stuck_at t m pol rf' \<and> stuck_type rf = InvalidRegClass
     \<and> regIdx t < length (scalarRegs rf (classValue t))
     \<and> (w \<longrightarrow> forced pol m (scalarRegs rf' (classValue t) ! regIdx t))"

lemma stuck_sim_count_read:
  "stuck_sim t m pol w (count_read c i rf) (count_read c i rf') = stuck_sim t m pol w rf rf'"
  by (simp add: stuck_sim_def agree_except_def stuck_at_def)

lemma stuck_sim_reads:
  assumes "stuck_sim t m pol w rf rf'" and "rf_apply a rf = Some rf1" and "a = RfRead r \<or> a = RfReadBlob r"
  shows "\<exists>rf1'. rf_apply a rf' = Some rf1' \<and> stuck_sim t m pol w rf1 rf1'"
proof -
  have len: "length (scalarRegs rf' c) = length (scalarRegs rf c)" "blobRegs rf' = blobRegs rf" for c
    using assms(1) by (simp_all add: stuck_sim_def agree_except_def)
  define k where "k = (\<lambda>x. if classValue r \<in> {IntRegClass, FloatRegClass, VecRegClass}
    then count_read (classValue r) (regIdx r) x else x)"
  have "rf1 = k rf" "rf_apply a rf' = Some (k rf')"
    using assms(2,3) len
    by (auto simp: k_def rf_getReg_def rf_getReg_blob_def Let_def split: if_splits option.splits)
  moreover have "stuck_sim t m pol w (k rf) (k rf')"
    using assms(1) by (simp add: k_def stuck_sim_count_read)
  ultimately show ?thesis by blast
qed

lemma stuck_sim_write:
  assumes "stuck_sim t m pol w rf rf'" and "rf_setReg r v rf = Some rf1"
    and t: "classValue t \<in> {IntRegClass, FloatRegClass}"
  shows "\<exists>rf1'. rf_setReg r v rf' = Some rf1' \<and> stuck_sim t m pol (w \<or> r = t) rf1 rf1'"
proof -
  have "length (scalarRegs rf1 c) = length (scalarRegs rf c)" for c
    using assms(2) by (auto simp: rf_setReg_def Let_def split: if_splits)
  then show ?thesis
    using setReg_stuck [OF assms(2) _ _ _ t] assms(1) unfolding stuck_sim_def by metis
qed

lemma stuck_sim_apply:
  assumes "stuck_sim t m pol w rf rf'" and "rf_apply a rf = Some rf1"
    and t: "classValue t \<in> {IntRegClass, FloatRegClass}"
  shows "\<exists>rf1'. rf_apply a rf' = Some rf1' \<and> stuck_sim t m pol (w \<or> writes_reg t a) rf1 rf1'"
proof (cases a)
  case (RfRead r)
  then show ?thesis using stuck_sim_reads [OF assms(1,2), of r] by (simp add: writes_reg_def)
next
  case (RfReadBlob r)
  then show ?thesis using stuck_sim_reads [OF assms(1,2), of r] by (simp add: writes_reg_def)
next
  case (RfWrite r v)
  then show ?thesis using stuck_sim_write [OF assms(1) _ t, of r v rf1] assms(2) by (simp add: writes_reg_def)
next
  case (RfWriteBlob r v)
  show ?thesis
  proof (cases "classValue r \<in> {IntRegClass, FloatRegClass, VecElemClass, CCRegClass}")
    case True
    then obtain u where v: "v = Inl u" "rf_setReg r u rf = Some rf1"
      using assms(2) RfWriteBlob by (auto simp: rf_setReg_blob_def split: sum.splits)
    moreover have "rf_apply a rf' = rf_setReg r u rf'" using True v RfWriteBlob by (simp add: rf_setReg_blob_def)
    ultimately show ?thesis
      using stuck_sim_write [OF assms(1) v(2) t] RfWriteBlob by (simp add: writes_reg_def)
  next
    case False
    then obtain b where b: "v = Inr b" using assms(2) RfWriteBlob
      by (auto simp: rf_setReg_blob_def Let_def split: sum.splits if_splits)
    have eqb: "blobRegs rf' = blobRegs rf" using assms(1) by (simp add: stuck_sim_def agree_except_def)
    have "r \<noteq> t" using False t by auto
    then show ?thesis
      using assms(1,2) RfWriteBlob b False eqb
      by (auto simp: rf_setReg_blob_def Let_def stuck_sim_def agree_except_def stuck_at_def writes_reg_def
          split: if_splits)
  qed
qed

lemma stuck_sim_run:
  assumes "stuck_sim t m pol w rf rf'" and "rf_run as rf = Some rf1"
    and t: "classValue t \<in> {IntRegClass, FloatRegClass}"
  shows "\<exists>rf1'. rf_run as rf' = Some rf1' \<and> stuck_sim t m pol (w \<or> (\<exists>a \<in> set as. writes_reg t a)) rf1 rf1'"
  using assms(1,2)
proof (induction "as" arbitrary: rf rf' w)
  case (Cons a "as")
  obtain rf2 where a: "rf_apply a rf = Some rf2" "rf_run as rf2 = Some rf1"
    using Cons.prems(2) by (auto split: option.splits)
  obtain rf2' where a': "rf_apply a rf' = Some rf2'" "stuck_sim t m pol (w \<or> writes_reg t a) rf2 rf2'"
    using stuck_sim_apply [OF Cons.prems(1) a(1) t] by blast
  from Cons.IH [OF a'(2) a(2)] a'(1) show ?case by (auto simp: disj_assoc)
qed auto


text \<open>The stuck cell.  With a stuck-at target on an integer or floating-point register, any
  sequence of accesses the clean file can perform is performed too; every other register ends with
  the value it has in the clean run, and once the target has been written its stuck bits have the
  stuck value, whatever was written.\<close>

theorem stuck_cell_permanent:
  assumes "rf_run as rf = Some rf1" and "stuck_type rf = InvalidRegClass"
    and "classValue t \<in> {IntRegClass, FloatRegClass}" and "regIdx t < length (scalarRegs rf (classValue t))"
  shows "\<exists>rf2. rf_run as (setStuckTarget (classValue t) (int (regIdx t)) m pol rf) = Some rf2
    \<and> agree_except t rf1 rf2
    \<and> ((\<exists>a \<in> set as. writes_reg t a) \<longrightarrow> forced pol m (scalarRegs rf2 (classValue t) ! regIdx t))"
proof -
  have "stuck_sim t m pol False rf (setStuckTarget (classValue t) (int (regIdx t)) m pol rf)"
    using assms(2,4) by (simp add: stuck_sim_def agree_except_def stuck_at_def setStuckTarget_def)
  from stuck_sim_run [OF this assms(1,3)] show ?thesis by (auto simp: stuck_sim_def)
qed

definition demo_rf :: reg_file where
  "demo_rf = \<lparr>scalarRegs = (\<lambda>_. [0, 0]), blobRegs = (\<lambda>_. [[0]]), trace_type = InvalidRegClass, trace_idx = - 1,
     reads_before_overwrite = 0, trace_overwritten = False, stuck_type = InvalidRegClass, stuck_idx = - 1,
     stuck_mask = 0, stuck_polarity = 0\<rparr>"

abbreviation demo_r :: "nat \<Rightarrow> reg_id" where
  "demo_r i \<equiv> \<lparr>classValue = IntRegClass, regIdx = i\<rparr>"


theorem stuck_cell_permanent_witness:
  "\<exists>rf2. rf_run [RfWrite (demo_r 1) 0, RfWrite (demo_r 0) 7] (setStuckTarget IntRegClass 1 6 1 demo_rf) = Some rf2
    \<and> scalarRegs rf2 IntRegClass ! 0 = 7 \<and> forced 1 6 (scalarRegs rf2 IntRegClass ! 1)"
proof -
  let ?as = "[RfWrite (demo_r 1) 0, RfWrite (demo_r 0) 7]"
  obtain rf1 where r: "rf_run ?as demo_rf = Some rf1" "scalarRegs rf1 IntRegClass ! 0 = 7"
    by (simp add: rf_setReg_def demo_rf_def Let_def stick_def)
  show ?thesis
    using stuck_cell_permanent [OF r(1), of "demo_r 1" 6 1] r(2)
    by (force simp: demo_rf_def writes_reg_def agree_except_def)
qed

end
