(* ===== verification/Rob.thy ===== *)
theory Rob
  imports Rob_Head Rename_Stage Reg_File
begin

text \<open>
  \<open>CHAOSROB\<close>: the reorder-buffer injector.  Two of its modes poll and corrupt the head instruction
  (its sequence number, or its pending exception) and then arm the read trace of the register file on
  the first integer or floating-point destination; the third is called by the squash of the rename
  stage and keeps squashed registers from being freed.  The machine a poll works on is the reorder
  buffer and the register file.
\<close>

datatype rob_mode = EntryBitFlip | ExcSuppress | SpecLeak

record rob_inj = poller +
  rob_fi_mode :: rob_mode
  distance_from_head :: nat
  rob_fault_mask :: u64
  rob_num_bits :: int
  rob_traced_phys_idx :: int
  rob_readTrace_at :: "tick option"
  rob_numFaultsInjected :: nat
  numEntryBitFlips :: nat
  numExcSuppress :: nat
  numSpecLeak :: nat
  rob_numLegalityRejects :: nat

definition rob_stringToMode :: "string \<Rightarrow> rob_mode" where
  "rob_stringToMode s = (if s = ''exc_suppress'' then ExcSuppress
     else if s = ''spec_leak'' then SpecLeak else EntryBitFlip)"

text \<open>The constructor registers the object with the rename stage when its probability is positive; the
  second component is the new value of the pointer there.\<close>

definition CHAOSROB :: "bool \<Rightarrow> real \<Rightarrow> string \<Rightarrow> nat \<Rightarrow> u64 \<Rightarrow> int \<Rightarrow> cycles \<Rightarrow> cycles \<Rightarrow> nat \<Rightarrow> rng
    \<Rightarrow> rob_inj option \<Rightarrow> ctor_error + rob_inj \<times> rob_inj option" where
  "CHAOSROB is_o3 prob md depth fmask bits fst_clk lst_clk cap r hook =
     (if \<not> is_o3 then Inl NotO3CPU
      else let s = \<lparr>probability = prob, first_clock = fst_clk, last_clock = lst_clk, max_faults = cap,
             faults_injected_count = 0, rng = r, attack_at = None, rob_fi_mode = rob_stringToMode md,
             distance_from_head = depth, rob_fault_mask = fmask, rob_num_bits = bits,
             rob_traced_phys_idx = - 1, rob_readTrace_at = None, rob_numFaultsInjected = 0,
             numEntryBitFlips = 0, numExcSuppress = 0, numSpecLeak = 0, rob_numLegalityRejects = 0\<rparr>
           in Inr (s, if 0 < prob then Some s else hook))"

definition rob_startup :: "tick \<Rightarrow> clocked \<Rightarrow> rob_inj \<Rightarrow> rob_inj" where
  "rob_startup now clk s =
     (if probability s = 0 then s
      else if rob_fi_mode s = SpecLeak then s
      else poll_startup now clk s)"

subsection \<open>The read trace\<close>

fun trace_dest :: "reg_id option list \<Rightarrow> reg_id option" where
  "trace_dest [] = None"
| "trace_dest (None # ds) = trace_dest ds"
| "trace_dest (Some d # ds) =
     (if classValue d \<noteq> IntRegClass \<and> classValue d \<noteq> FloatRegClass then trace_dest ds else Some d)"

definition rob_armReadTrace :: "tick \<Rightarrow> clocked \<Rightarrow> rob_inst \<Rightarrow> rob_inj \<times> reg_file \<Rightarrow> rob_inj \<times> reg_file" where
  "rob_armReadTrace now clk h = (\<lambda>(s, rf).
     (case trace_dest (renamedDests h) of None \<Rightarrow> (s, rf)
      | Some d \<Rightarrow>
          let s1 = s\<lparr>rob_traced_phys_idx := int (regIdx d)\<rparr>;
              rf1 = setReadTraceTarget (classValue d) (int (regIdx d)) rf
          in (if rob_readTrace_at s1 = None then s1\<lparr>rob_readTrace_at := Some (clockEdge now clk 50)\<rparr> else s1, rf1)))"

definition rob_readTraceCheck ::
    "tick \<Rightarrow> clocked \<Rightarrow> tc_status option list \<Rightarrow> rob_inj \<times> reg_file \<Rightarrow> rob_inj \<times> reg_file" where
  "rob_readTraceCheck now clk tcs = (\<lambda>(s, rf).
     let s0 = s\<lparr>rob_readTrace_at := None\<rparr> in
     if any_active tcs then (s0\<lparr>rob_readTrace_at := Some (clockEdge now clk 5000)\<rparr>, rf)
     else (s0\<lparr>rob_traced_phys_idx := - 1\<rparr>, clearReadTraceTarget rf))"

subsection \<open>Attempts\<close>

definition rob_seq_mask :: "rob_inj \<Rightarrow> u64 \<times> rob_inj" where
  "rob_seq_mask s =
     (if rob_fault_mask s = 0
      then (case uniform_nat 0 15 (rng s) of (b, r) \<Rightarrow> (push_bit b 1, s\<lparr>rng := r\<rparr>))
      else (rob_fault_mask s, s))"

definition rob_processFault :: "tick \<Rightarrow> clocked \<Rightarrow> thread_id
    \<Rightarrow> rob_inj \<times> rob_lists \<times> reg_file \<Rightarrow> rob_inj \<times> rob_lists \<times> reg_file" where
  "rob_processFault now clk tid = (\<lambda>(s, rob, rf).
     if cap_reached s then (s, rob, rf)
     else (case readHeadInst tid rob of
         None \<Rightarrow> (s\<lparr>rob_numLegalityRejects := rob_numLegalityRejects s + 1\<rparr>, rob, rf)
       | Some h \<Rightarrow> (case rob_fi_mode s of
           EntryBitFlip \<Rightarrow> (case rob_seq_mask s of (m, s1) \<Rightarrow>
             let h' = h\<lparr>seqNum := seqNum h XOR m\<rparr>;
                 s2 = count_fault (s1\<lparr>numEntryBitFlips := numEntryBitFlips s1 + 1,
                        rob_numFaultsInjected := rob_numFaultsInjected s1 + 1\<rparr>)
             in (case rob_armReadTrace now clk h' (s2, rf) of (s3, rf') \<Rightarrow> (s3, set_head tid h' rob, rf')))
         | ExcSuppress \<Rightarrow>
             if inst_fault h = None
             then (s\<lparr>rob_numLegalityRejects := rob_numLegalityRejects s + 1\<rparr>, rob, rf)
             else let h' = h\<lparr>inst_fault := None\<rparr>;
                      s2 = count_fault (s\<lparr>numExcSuppress := numExcSuppress s + 1,
                             rob_numFaultsInjected := rob_numFaultsInjected s + 1\<rparr>)
                  in (case rob_armReadTrace now clk h' (s2, rf) of (s3, rf') \<Rightarrow> (s3, set_head tid h' rob, rf'))
         | SpecLeak \<Rightarrow> (s, rob, rf))))"

definition rob_attackCheck :: "tick \<Rightarrow> clocked \<Rightarrow> tc_status option list
    \<Rightarrow> rob_inj \<times> rob_lists \<times> reg_file \<Rightarrow> rob_inj \<times> rob_lists \<times> reg_file" where
  "rob_attackCheck now clk = poll_check (rob_processFault now clk) now clk"

definition maybeDelayFree :: "cycles \<Rightarrow> reg_id \<Rightarrow> rob_inj \<Rightarrow> bool \<times> rob_inj" where
  "maybeDelayFree cur reg s =
     (if rob_fi_mode s \<noteq> SpecLeak then (False, s)
      else if probability s \<le> 0 then (False, s)
      else if out_of_window cur s then (False, s)
      else if cap_reached s then (False, s)
      else (case bernoulli s of (hit, s1) \<Rightarrow>
        if \<not> hit then (False, s1)
        else (True, count_fault (s1\<lparr>numSpecLeak := numSpecLeak s1 + 1,
                rob_numFaultsInjected := rob_numFaultsInjected s1 + 1\<rparr>))))"

subsection \<open>Polling facts\<close>

lemma rob_arm_simps [simp]:
  "probability (fst (rob_armReadTrace now clk h c)) = probability (fst c)"
  "first_clock (fst (rob_armReadTrace now clk h c)) = first_clock (fst c)"
  "last_clock (fst (rob_armReadTrace now clk h c)) = last_clock (fst c)"
  "max_faults (fst (rob_armReadTrace now clk h c)) = max_faults (fst c)"
  "faults_injected_count (fst (rob_armReadTrace now clk h c)) = faults_injected_count (fst c)"
  "attack_at (fst (rob_armReadTrace now clk h c)) = attack_at (fst c)"
  by (cases c; simp add: rob_armReadTrace_def Let_def split: option.split)+

lemma rob_seq_mask_simps [simp]:
  "probability (snd (rob_seq_mask s)) = probability s" "first_clock (snd (rob_seq_mask s)) = first_clock s"
  "last_clock (snd (rob_seq_mask s)) = last_clock s" "max_faults (snd (rob_seq_mask s)) = max_faults s"
  "faults_injected_count (snd (rob_seq_mask s)) = faults_injected_count s"
  "attack_at (snd (rob_seq_mask s)) = attack_at s"
  by (simp_all add: rob_seq_mask_def split: prod.splits)

interpretation rob_poll: poll_source "rob_processFault now clk" for now clk
  by unfold_locales
    (auto simp: rob_processFault_def case_prod_unfold Let_def split: option.splits rob_mode.splits)

lemma rob_seq_mask_range:
  "fst (rob_seq_mask s) \<noteq> 0" "rob_fault_mask s \<noteq> 0 \<Longrightarrow> fst (rob_seq_mask s) = rob_fault_mask s"
  "rob_fault_mask s = 0 \<Longrightarrow> \<exists>b \<le> 15. fst (rob_seq_mask s) = push_bit b 1"
proof -
  have b: "fst (uniform_nat 0 15 (rng s)) \<le> 15" using uniform_nat_range [of 0 15 "rng s"] by simp
  then have "bit (push_bit (fst (uniform_nat 0 15 (rng s))) (1 :: u64)) (fst (uniform_nat 0 15 (rng s)))"
    by (simp add: bit_simps bit_1_iff)
  then have "push_bit (fst (uniform_nat 0 15 (rng s))) (1 :: u64) \<noteq> 0" by (metis bit_0_eq bot_apply bot_bool_def)
  then show "fst (rob_seq_mask s) \<noteq> 0" by (simp add: rob_seq_mask_def case_prod_unfold)
  show "rob_fault_mask s \<noteq> 0 \<Longrightarrow> fst (rob_seq_mask s) = rob_fault_mask s" by (simp add: rob_seq_mask_def)
  show "\<exists>b \<le> 15. fst (rob_seq_mask s) = push_bit b 1" if "rob_fault_mask s = 0"
    using b that by (auto simp: rob_seq_mask_def case_prod_unfold)
qed

lemma rob_arm_rf:
  "snd (rob_armReadTrace now clk h (s, rf)) = (case trace_dest (renamedDests h) of None \<Rightarrow> rf
     | Some d \<Rightarrow> setReadTraceTarget (classValue d) (int (regIdx d)) rf)"
  by (simp add: rob_armReadTrace_def Let_def split: option.split)

lemma rob_processFault_effect:
  assumes "rob_processFault now clk tid (s, rob, rf) = (s', rob', rf')"
  shows "if faults_injected_count s' = faults_injected_count s then rob' = rob \<and> rf' = rf
    else \<exists>h. readHeadInst tid rob = Some h \<and> \<not> cap_reached s
      \<and> rf' = (case trace_dest (renamedDests h) of None \<Rightarrow> rf
            | Some d \<Rightarrow> setReadTraceTarget (classValue d) (int (regIdx d)) rf)
      \<and> (rob_fi_mode s = EntryBitFlip
            \<and> rob' = set_head tid (h\<lparr>seqNum := seqNum h XOR fst (rob_seq_mask s)\<rparr>) rob
         \<or> rob_fi_mode s = ExcSuppress \<and> inst_fault h \<noteq> None
            \<and> rob' = set_head tid (h\<lparr>inst_fault := None\<rparr>) rob)"
proof (cases "readHeadInst tid rob")
  case (Some h)
  have cf: "faults_injected_count (fst (rob_armReadTrace now clk g (count_fault x, rf))) = Suc (faults_injected_count x)"
    for g and x :: rob_inj by simp
  show ?thesis using assms Some
    by (cases "rob_fi_mode s")
      (auto simp: rob_processFault_def case_prod_unfold Let_def rob_arm_rf split: if_splits)
qed (use assms in \<open>auto simp: rob_processFault_def split: if_splits\<close>)

text \<open>A reorder-buffer fault.  An attempt that counts no fault changes neither the reorder buffer
  nor the register file.  One that does either XORs the sequence number of the head with the configured
  mask, or one bit of the lowest sixteen, or clears the exception of a head that has one; nothing else
  in the buffer changes, and the read trace of the register file is reset to the first integer or
  floating-point destination of that instruction, if there is one.\<close>

theorem rob_head_faults:
  assumes "rob_processFault now clk tid (s, rob, rf) = (s', rob', rf')"
  shows "if faults_injected_count s' = faults_injected_count s then rob' = rob \<and> rf' = rf
    else \<exists>h. readHeadInst tid rob = Some h \<and> \<not> cap_reached s
      \<and> rf' = (case trace_dest (renamedDests h) of None \<Rightarrow> rf
            | Some d \<Rightarrow> setReadTraceTarget (classValue d) (int (regIdx d)) rf)
      \<and> (rob_fi_mode s = EntryBitFlip
            \<and> (\<exists>m. m \<noteq> 0 \<and> (m = rob_fault_mask s \<or> rob_fault_mask s = 0 \<and> (\<exists>b \<le> 15. m = push_bit b 1))
                \<and> rob' = set_head tid (h\<lparr>seqNum := seqNum h XOR m\<rparr>) rob)
         \<or> rob_fi_mode s = ExcSuppress \<and> inst_fault h \<noteq> None
            \<and> rob' = set_head tid (h\<lparr>inst_fault := None\<rparr>) rob)"
proof -
  have "\<exists>m. m \<noteq> 0 \<and> (m = rob_fault_mask s \<or> rob_fault_mask s = 0 \<and> (\<exists>b \<le> 15. m = push_bit b 1))
      \<and> set_head tid (h\<lparr>seqNum := seqNum h XOR fst (rob_seq_mask s)\<rparr>) rob
        = set_head tid (h\<lparr>seqNum := seqNum h XOR m\<rparr>) rob" for h
    using rob_seq_mask_range [of s] by blast
  then show ?thesis using rob_processFault_effect [OF assms] by (auto split: if_splits)
qed

subsection \<open>Leaked registers\<close>

lemma maybeDelayFree_simps [simp]:
  "max_faults (snd (maybeDelayFree cur r s)) = max_faults s"
  "faults_injected_count (snd (maybeDelayFree cur r s)) =
     faults_injected_count s + (if fst (maybeDelayFree cur r s) then 1 else 0)"
  by (simp_all add: maybeDelayFree_def case_prod_unfold)

lemma maybeDelayFree_capped: "cap_reached s \<Longrightarrow> \<not> fst (maybeDelayFree cur r s)"
  by (simp add: maybeDelayFree_def)

lemma leaks_count:
  "max_faults (snd (leaks (maybeDelayFree cur) rs s)) = max_faults s
   \<and> faults_injected_count (snd (leaks (maybeDelayFree cur) rs s)) =
      faults_injected_count s + length (fst (leaks (maybeDelayFree cur) rs s))
   \<and> (max_faults s \<noteq> 0 \<and> faults_injected_count s \<le> max_faults s \<longrightarrow>
      faults_injected_count (snd (leaks (maybeDelayFree cur) rs s)) \<le> max_faults s)"
proof (induction rs arbitrary: s)
  case (Cons r rs)
  have "fst (maybeDelayFree cur r s) \<Longrightarrow> \<not> cap_reached s" using maybeDelayFree_capped by blast
  then show ?case using Cons [of "snd (maybeDelayFree cur r s)"]
    by (auto simp: case_prod_unfold cap_reached_def)
qed simp

text \<open>The rename stage with the injector attached: besides its own steps, a squash at any cycle.\<close>

inductive leak_reach :: "nat \<Rightarrow> rename_state \<times> rob_inj \<Rightarrow> rename_state \<times> rob_inj \<Rightarrow> bool" for n c0 where
  leak_start: "leak_reach n c0 c0"
| leak_step: "leak_reach n c0 (st, s) \<Longrightarrow> rename_step n st st' \<Longrightarrow> leak_reach n c0 (st', s)"
| leak_squash: "leak_reach n c0 c \<Longrightarrow> tid < n \<Longrightarrow> doSquash (maybeDelayFree cur) sq tid c = Some c' \<Longrightarrow> leak_reach n c0 c'"

definition leak_inv :: "nat \<Rightarrow> rename_state \<times> rob_inj \<Rightarrow> rename_state \<times> rob_inj \<Rightarrow> bool" where
  "leak_inv n c0 c \<longleftrightarrow> rn_inv (fst c) \<and> max_faults (snd c) = max_faults (snd c0)
     \<and> (max_faults (snd c0) \<noteq> 0 \<and> faults_injected_count (snd c0) \<le> max_faults (snd c0) \<longrightarrow>
         faults_injected_count (snd c) \<le> max_faults (snd c0))
     \<and> (\<exists>L. faults_injected_count (snd c) = faults_injected_count (snd c0) + length L
         \<and> (\<forall>k. census n k (fst c) + image_mset Some (mset (filter (\<lambda>r. classValue r = k) L)) = census n k (fst c0)))"

lemma leak_inv_unique:
  assumes "leak_inv n c0 c" "census_unique n (fst c0)"
  shows "census_unique n (fst c)"
proof -
  obtain L where L: "\<forall>k. census n k (fst c) + image_mset Some (mset (filter (\<lambda>r. classValue r = k) L)) = census n k (fst c0)"
    using assms(1) by (auto simp: leak_inv_def)
  have "count (census n k (fst c)) (Some r) \<le> count (census n k (fst c0)) (Some r)" for k r
    using L by (metis count_union le_add1)
  then show ?thesis using assms(2) unfolding census_unique_def by (meson le_trans)
qed

lemma leak_inv_squash:
  assumes "leak_inv n c0 (st, s)" "tid < n" "doSquash (maybeDelayFree cur) sq tid (st, s) = Some c'"
  shows "leak_inv n c0 c'"
proof -
  define M where "M = leaks (maybeDelayFree cur) (to_free (takeWhile (\<lambda>h. sq < instSeqNum h) (historyBuffer st tid))) s"
  have inv: "rn_inv st" using assms(1) by (simp add: leak_inv_def)
  obtain st' where st': "c' = (st', snd M)" "rn_inv st'"
    "\<forall>k. census n k st' + image_mset Some (mset (filter (\<lambda>r. classValue r = k) (fst M))) = census n k st"
    using squash_entries_ok [OF inv refl assms(2), of "maybeDelayFree cur" sq s] assms(3)
    by (auto simp: doSquash_def M_def)
  obtain L where L: "faults_injected_count s = faults_injected_count (snd c0) + length L"
    "\<forall>k. census n k st + image_mset Some (mset (filter (\<lambda>r. classValue r = k) L)) = census n k (fst c0)"
    using assms(1) by (auto simp: leak_inv_def)
  have cnt: "max_faults (snd M) = max_faults s"
    "faults_injected_count (snd M) = faults_injected_count s + length (fst M)"
    "max_faults s \<noteq> 0 \<and> faults_injected_count s \<le> max_faults s \<longrightarrow> faults_injected_count (snd M) \<le> max_faults s"
    using leaks_count [of cur _ s] unfolding M_def by blast+
  have "census n k st' + image_mset Some (mset (filter (\<lambda>r. classValue r = k) (fst M @ L))) = census n k (fst c0)" for k
    using L(2) st'(3) by (simp add: add.assoc [symmetric])
  then have "\<exists>L'. faults_injected_count (snd M) = faults_injected_count (snd c0) + length L'
      \<and> (\<forall>k. census n k st' + image_mset Some (mset (filter (\<lambda>r. classValue r = k) L')) = census n k (fst c0))"
    using L(1) cnt(2) by (intro exI [of _ "fst M @ L"]) simp
  then show ?thesis using assms(1) st' cnt by (auto simp: leak_inv_def)
qed

lemma leak_reach_inv:
  assumes "leak_reach n c0 c" "rn_inv (fst c0)" "census_unique n (fst c0)"
  shows "leak_inv n c0 c"
  using assms(1)
proof (induction rule: leak_reach.induct)
  case leak_start
  then show ?case using assms(2) by (auto simp: leak_inv_def intro!: exI [of _ "[]"])
next
  case (leak_step st s st')
  then have "rn_inv st" "census_unique n st"
    using leak_inv_unique [OF leak_step.IH assms(3)] by (auto simp: leak_inv_def)
  from rename_step_ok [OF leak_step.hyps(2) this] leak_step.IH show ?case by (simp add: leak_inv_def)
next
  case (leak_squash c tid cur sq c')
  then show ?case by (cases c) (auto intro: leak_inv_squash)
qed

text \<open>C13: speculative leaks are exactly accounted for.  With the injector attached, in every state
  reachable from the construction of the CPU there is a list of leaked registers, as long as the faults
  counted, without repetition and, with a cap, no longer than the cap allows, such that every other
  physical register is still in exactly one place and every leaked one is in none: it is never
  renamed to again.\<close>

theorem spec_leak_accounting:
  assumes "map_threads [0..<k] nregs (init_rename rdy nphys nregs) = Some st0" "k \<le> n"
    and "leak_reach n (st0, s0) (st, s)"
  shows "\<exists>L. distinct L \<and> faults_injected_count s = faults_injected_count s0 + length L
    \<and> (max_faults s0 \<noteq> 0 \<and> faults_injected_count s0 \<le> max_faults s0 \<longrightarrow>
        length L \<le> max_faults s0 - faults_injected_count s0)
    \<and> (\<forall>c r. count (census n c st) (Some r) =
        (if c \<in> set renameable_classes \<and> r \<in> set (phys_regs c (nphys c)) \<and> r \<notin> set L then 1 else 0))"
proof -
  have r0: "rn_inv st0" "census_unique n st0" and c0: "count (census n c st0) (Some r) =
      (if c \<in> set renameable_classes \<and> r \<in> set (phys_regs c (nphys c)) then 1 else 0)" for c r
    using reachable_count [OF assms(1,2) start] by (auto simp: some_count_def)
  have "leak_inv n (st0, s0) (st, s)" using leak_reach_inv [OF assms(3)] r0 by simp
  then obtain L where L: "faults_injected_count s = faults_injected_count s0 + length L"
    "\<forall>c. census n c st + image_mset Some (mset (filter (\<lambda>r. classValue r = c) L)) = census n c st0"
    and cap: "max_faults s0 \<noteq> 0 \<and> faults_injected_count s0 \<le> max_faults s0 \<longrightarrow> faults_injected_count s \<le> max_faults s0"
    by (auto simp: leak_inv_def)
  have e: "count (census n c st) (Some r) + count (mset (filter (\<lambda>r. classValue r = c) L)) r =
      (if c \<in> set renameable_classes \<and> r \<in> set (phys_regs c (nphys c)) then 1 else 0)" for c r
    using L(2) c0 [of c r] by (metis count_union count_image_Some)
  have m: "count (mset (filter (\<lambda>r. classValue r = c) L)) r = (if classValue r = c then count (mset L) r else 0)" for c r
    by (simp add: mset_filter)
  have le1: "count (mset L) r \<le> 1" for r
  proof -
    let ?P = "classValue r \<in> set renameable_classes \<and> r \<in> set (phys_regs (classValue r) (nphys (classValue r)))"
    have "count (census n (classValue r) st) (Some r) + count (mset L) r = (if ?P then 1 else 0)"
      using e [of "classValue r" r] unfolding m by (simp only: if_True simp_thms)
    moreover have "(if ?P then 1 else 0) \<le> (1 :: nat)" by simp
    ultimately show ?thesis by linarith
  qed
  then have d: "distinct L" by (metis count_mset_0_iff distinct_count_atmost_1 le_Suc_eq le_zero_eq One_nat_def count_inI)
  have "count (census n c st) (Some r) =
        (if c \<in> set renameable_classes \<and> r \<in> set (phys_regs c (nphys c)) \<and> r \<notin> set L then 1 else 0)" for c r
  proof -
    have t: "r \<in> set (phys_regs c (nphys c)) \<Longrightarrow> classValue r = c" by (auto simp: phys_regs_def)
    have k: "count (mset L) r = (if r \<in> set L then 1 else 0)" using d by (simp add: distinct_count_atmost_1)
    show ?thesis using e [of c r] t unfolding m k by (auto split: if_splits)
  qed
  then show ?thesis using L(1) d cap by (intro exI [of _ L]) auto
qed

definition demo_rob :: "rob_mode \<Rightarrow> rob_inj" where
  "demo_rob md = \<lparr>probability = 1, first_clock = 0, last_clock = 0, max_faults = 1, faults_injected_count = 0,
     rng = sconst 0, attack_at = None, rob_fi_mode = md, distance_from_head = 0, rob_fault_mask = 0,
     rob_num_bits = 1, rob_traced_phys_idx = - 1, rob_readTrace_at = None, rob_numFaultsInjected = 0,
     numEntryBitFlips = 0, numExcSuppress = 0, numSpecLeak = 0, rob_numLegalityRejects = 0\<rparr>"

text \<open>A squash of one renamed instruction that leaks its register.\<close>

lemma demo_leak:
  "\<exists>st s. leak_reach 1 (demo_cpu, demo_rob SpecLeak) (st, s) \<and> faults_injected_count s = 1
     \<and> freeLists st IntRegClass = [int_reg 3] \<and> rmap st 0 IntRegClass = [Some (int_reg 0), Some (int_reg 1)]
     \<and> freeingInProgress st = (\<lambda>_. []) \<and> historyBuffer st = (\<lambda>_. [])"
proof -
  define h where "h = \<lparr>instSeqNum = 7, archReg = int_reg 1, newPhysReg = int_reg 2, prevPhysReg = int_reg 1\<rparr>"
  obtain rs st1 where r: "renameDestRegs 0 7 [(int_reg 1, 0)] demo_cpu = Some (rs, st1)"
    and st1: "rmap st1 0 IntRegClass = [Some (int_reg 0), Some (int_reg 2)]" "historyBuffer st1 = (\<lambda>_. [])(0 := [h])"
      "freeingInProgress st1 = (\<lambda>_. [])" "freeLists st1 IntRegClass = [int_reg 3]"
    by (simp add: unified_rename_def isRenameable_def simple_rename_def fl_getReg_def demo_cpu_init Let_def h_def)
  define st2 where "st2 = set_map 0 IntRegClass 1 (int_reg 1) st1"
  define s2 where "s2 = snd (maybeDelayFree 5 (int_reg 2) (demo_rob SpecLeak))"
  have hit: "maybeDelayFree 5 (int_reg 2) (demo_rob SpecLeak) = (True, s2)" "faults_injected_count s2 = 1"
    using bernoulli_fst(1) [of "demo_rob SpecLeak"]
    by (simp_all add: s2_def maybeDelayFree_def demo_rob_def out_of_window_def cap_reached_def case_prod_unfold)
  have e: "setEntry 0 (int_reg 1) (int_reg 1) st1 = Some st2"
    using st1(1) by (simp add: setEntry_def isRenameable_def st2_def)
  define st3 where "st3 = (let st' = sb_setReg (int_reg 2) st2
    in st'\<lparr>historyBuffer := (historyBuffer st')(0 := tl (historyBuffer st' 0)), undoneMaps := undoneMaps st' + 1\<rparr>)"
  have sq: "doSquash (maybeDelayFree 5) 6 0 (st1, demo_rob SpecLeak) = Some (st3, s2)"
    using e hit(1) by (simp add: doSquash_def st1(2) h_def squash_entry_def st3_def Let_def)
  have "leak_reach 1 (demo_cpu, demo_rob SpecLeak) (st1, demo_rob SpecLeak)"
    using leak_step [OF leak_start ren_dest [OF _ r]] by simp
  from leak_squash [OF this _ sq] have "leak_reach 1 (demo_cpu, demo_rob SpecLeak) (st3, s2)" by simp
  moreover have "freeLists st3 IntRegClass = [int_reg 3]" "rmap st3 0 IntRegClass = [Some (int_reg 0), Some (int_reg 1)]"
    "freeingInProgress st3 = (\<lambda>_. [])" "historyBuffer st3 = (\<lambda>_. [])"
    using st1 by (auto simp: st3_def st2_def Let_def fun_eq_iff)
  ultimately show ?thesis using hit(2) by blast
qed

theorem spec_leak_accounting_witness:
  "\<exists>st s L. leak_reach 1 (demo_cpu, demo_rob SpecLeak) (st, s) \<and> distinct L \<and> length L = 1
     \<and> (\<forall>c r. count (census 1 c st) (Some r) = (if c \<in> set renameable_classes
          \<and> r \<in> set (phys_regs c (if c = IntRegClass then 4 else 0)) \<and> r \<notin> set L then 1 else 0))"
proof -
  obtain st s where d: "leak_reach 1 (demo_cpu, demo_rob SpecLeak) (st, s)" "faults_injected_count s = 1"
    using demo_leak by blast
  have "faults_injected_count (demo_rob SpecLeak) = 0" by (simp add: demo_rob_def)
  with spec_leak_accounting [OF demo_cpu_init(1) order_refl d(1)] d show ?thesis by (metis add_0)
qed

definition demo_head :: rob_inst where
  "demo_head = \<lparr>seqNum = 8, inst_fault = None, isInteger = True, isLoad = False, instResult = [],
     renamedDests = [None, Some (int_reg 1)], renamedSrcs = [], readySrcs = []\<rparr>"

theorem rob_head_faults_witness:
  "\<exists>s' m. rob_processFault 0 \<lparr>clk_tick = 0, clk_cycle = 0, clk_period = 500\<rparr> 0 (demo_rob EntryBitFlip, \<lambda>_. [demo_head], demo_rf)
     = (s', set_head 0 (demo_head\<lparr>seqNum := 8 XOR m\<rparr>) (\<lambda>_. [demo_head]), setReadTraceTarget IntRegClass 1 demo_rf) \<and> m \<noteq> 0"
proof -
  let ?clk = "\<lparr>clk_tick = 0, clk_cycle = 0, clk_period = 500\<rparr>"
  obtain s' rob' rf' where e: "rob_processFault 0 ?clk 0 (demo_rob EntryBitFlip, \<lambda>_. [demo_head], demo_rf) = (s', rob', rf')"
    by (cases "rob_processFault 0 ?clk 0 (demo_rob EntryBitFlip, \<lambda>_. [demo_head], demo_rf)") auto
  have h: "readHeadInst 0 (\<lambda>_. [demo_head]) = Some demo_head" by (simp add: readHeadInst_def)
  have md: "rob_fi_mode (demo_rob EntryBitFlip) = EntryBitFlip" "\<not> cap_reached (demo_rob EntryBitFlip)"
    by (simp_all add: demo_rob_def cap_reached_def)
  have "faults_injected_count s' \<noteq> faults_injected_count (demo_rob EntryBitFlip)"
    using arg_cong [OF e, of "\<lambda>c. faults_injected_count (fst c)"] h md
    by (simp add: rob_processFault_def case_prod_unfold Let_def)
  moreover have "trace_dest (renamedDests demo_head) = Some (int_reg 1)" "seqNum demo_head = 8"
    by (simp_all add: demo_head_def)
  ultimately show ?thesis using rob_head_faults [OF e] h md e by auto
qed

end
