(* ===== verification/Fu_Pool.thy ===== *)
theory Fu_Pool
  imports Chaos_Prelude
begin

text \<open>
  The pool of functional units an issue queue allocates from (\<open>cpu/o3/fu_pool.cc\<close>,
  \<open>cpu/func_unit.cc\<close>): construction from the unit descriptors, round-robin allocation, and the two
  stages of freeing.  An operation class is its index.  A failed assertion and a panic are \<open>None\<close>; the
  size of a circular queue is the length of its vector.
\<close>

type_synonym op_class = nat

record op_desc =
  od_opClass :: op_class
  od_opLat :: nat
  od_pipelined :: bool

record fu_desc =
  fd_number :: nat
  fd_ops :: "op_desc list"

record func_unit =
  fu_capabilities :: "op_class \<Rightarrow> bool"
  fu_opLatencies :: "op_class \<Rightarrow> nat"
  fu_pipelined :: "op_class \<Rightarrow> bool"

record fu_idx_queue =
  fq_idx :: nat
  funcUnitsIdx :: "nat list"

record fu_pool =
  maxOpLatencies :: "op_class \<Rightarrow> nat"
  pool_pipelined :: "op_class \<Rightarrow> bool"
  capabilityList :: "op_class \<Rightarrow> bool"
  unitBusy :: "bool list"
  unitsToBeFreed :: "nat list"
  fuPerCapList :: "op_class \<Rightarrow> fu_idx_queue"
  numFU :: nat
  funcUnits :: "func_unit list"

datatype fu_result = FU nat | NoFreeFU | NoCapableFU | NoNeedFU

definition addFU :: "nat \<Rightarrow> fu_idx_queue \<Rightarrow> fu_idx_queue" where
  "addFU i q = q\<lparr>funcUnitsIdx := funcUnitsIdx q @ [i]\<rparr>"

definition getFU :: "fu_idx_queue \<Rightarrow> nat \<times> fu_idx_queue" where
  "getFU q = (funcUnitsIdx q ! fq_idx q,
     q\<lparr>fq_idx := (if Suc (fq_idx q) = length (funcUnitsIdx q) then 0 else Suc (fq_idx q))\<rparr>)"

definition addCapability :: "op_desc \<Rightarrow> func_unit \<Rightarrow> func_unit option" where
  "addCapability d fu =
     (if od_opLat d = 0 then None
      else Some (fu\<lparr>fu_capabilities := (fu_capabilities fu)(od_opClass d := True),
                 fu_opLatencies := (fu_opLatencies fu)(od_opClass d := od_opLat d),
                 fu_pipelined := (fu_pipelined fu)(od_opClass d := od_pipelined d)\<rparr>))"

text \<open>The body of the constructor's loop over the operations of a descriptor.\<close>

definition add_op :: "nat \<Rightarrow> op_desc \<Rightarrow> fu_pool \<times> func_unit \<Rightarrow> (fu_pool \<times> func_unit) option" where
  "add_op number d = (\<lambda>(p, fu).
     let c = od_opClass d;
         p1 = p\<lparr>capabilityList := (capabilityList p)(c := True),
                fuPerCapList := (fuPerCapList p)(c := fold (\<lambda>k. addFU (numFU p + k)) [0..<number] (fuPerCapList p c))\<rparr>
     in (case addCapability d fu of None \<Rightarrow> None
         | Some fu' \<Rightarrow>
             let p2 = (if maxOpLatencies p1 c < od_opLat d
                       then p1\<lparr>maxOpLatencies := (maxOpLatencies p1)(c := od_opLat d)\<rparr> else p1)
             in Some (if \<not> od_pipelined d then p2\<lparr>pool_pipelined := (pool_pipelined p2)(c := False)\<rparr> else p2, fu')))"

fun add_ops :: "nat \<Rightarrow> op_desc list \<Rightarrow> fu_pool \<times> func_unit \<Rightarrow> (fu_pool \<times> func_unit) option" where
  "add_ops number [] c = Some c"
| "add_ops number (d # ds) c = (case add_op number d c of None \<Rightarrow> None | Some c' \<Rightarrow> add_ops number ds c')"

definition new_unit :: func_unit where
  "new_unit = \<lparr>fu_capabilities = (\<lambda>_. False), fu_opLatencies = (\<lambda>_. 0), fu_pipelined = (\<lambda>_. False)\<rparr>"

definition add_desc :: "fu_desc \<Rightarrow> fu_pool \<Rightarrow> fu_pool option" where
  "add_desc d p =
     (if fd_number d = 0 then Some p
      else (case add_ops (fd_number d) (fd_ops d) (p, new_unit) of None \<Rightarrow> None
        | Some (p1, fu) \<Rightarrow>
            Some (p1\<lparr>numFU := numFU p1 + fd_number d, funcUnits := funcUnits p1 @ replicate (fd_number d) fu\<rparr>)))"

fun add_descs :: "fu_desc list \<Rightarrow> fu_pool \<Rightarrow> fu_pool option" where
  "add_descs [] p = Some p"
| "add_descs (d # ds) p = (case add_desc d p of None \<Rightarrow> None | Some p' \<Rightarrow> add_descs ds p')"

definition empty_pool :: fu_pool where
  "empty_pool = \<lparr>maxOpLatencies = (\<lambda>_. 0), pool_pipelined = (\<lambda>_. True), capabilityList = (\<lambda>_. False), unitBusy = [],
     unitsToBeFreed = [], fuPerCapList = (\<lambda>_. \<lparr>fq_idx = 0, funcUnitsIdx = []\<rparr>), numFU = 0, funcUnits = []\<rparr>"

definition FUPool :: "fu_desc list \<Rightarrow> fu_pool option" where
  "FUPool ds = map_option (\<lambda>p. p\<lparr>unitBusy := replicate (numFU p) False\<rparr>) (add_descs ds empty_pool)"

text \<open>\<open>getUnit\<close>: the loop goes round the circular queue until it finds an idle unit or is back where it
  started.\<close>

partial_function (option) unit_loop :: "bool list \<Rightarrow> nat \<Rightarrow> nat \<Rightarrow> fu_idx_queue \<Rightarrow> (nat option \<times> fu_idx_queue) option" where
  "unit_loop busy start fu q =
     (if busy ! fu then
        if fst (getFU q) = start then Some (None, snd (getFU q)) else unit_loop busy start (fst (getFU q)) (snd (getFU q))
      else Some (Some fu, q))"

definition getUnit :: "op_class \<Rightarrow> fu_pool \<Rightarrow> (fu_result \<times> fu_pool) option" where
  "getUnit c p =
     (if \<not> capabilityList p c then Some (NoCapableFU, p)
      else (case getFU (fuPerCapList p c) of (fu, q1) \<Rightarrow>
        (case unit_loop (unitBusy p) fu fu q1 of None \<Rightarrow> None
         | Some (None, q2) \<Rightarrow> Some (NoFreeFU, p\<lparr>fuPerCapList := (fuPerCapList p)(c := q2)\<rparr>)
         | Some (Some u, q2) \<Rightarrow>
             if u < numFU p
             then Some (FU u, p\<lparr>fuPerCapList := (fuPerCapList p)(c := q2), unitBusy := (unitBusy p)[u := True]\<rparr>)
             else None)))"

definition freeUnitNextCycle :: "nat \<Rightarrow> fu_pool \<Rightarrow> fu_pool option" where
  "freeUnitNextCycle u p = (if unitBusy p ! u then Some (p\<lparr>unitsToBeFreed := unitsToBeFreed p @ [u]\<rparr>) else None)"

text \<open>\<open>processFreeUnits\<close> takes the units from the back of the vector.\<close>

fun free_units :: "nat list \<Rightarrow> bool list \<Rightarrow> bool list option" where
  "free_units [] busy = Some busy"
| "free_units (u # us) busy = (if busy ! u then free_units us (busy[u := False]) else None)"

definition processFreeUnits :: "fu_pool \<Rightarrow> fu_pool option" where
  "processFreeUnits p =
     map_option (\<lambda>busy. p\<lparr>unitBusy := busy, unitsToBeFreed := []\<rparr>) (free_units (rev (unitsToBeFreed p)) (unitBusy p))"

definition pool_isDrained :: "fu_pool \<Rightarrow> bool" where
  "pool_isDrained p = list_all (\<lambda>b. \<not> b) (unitBusy p)"

subsection \<open>The circular queue\<close>

definition upcoming :: "fu_idx_queue \<Rightarrow> nat list" where
  "upcoming q = rotate (fq_idx q) (funcUnitsIdx q)"

definition fq_ok :: "fu_idx_queue \<Rightarrow> bool" where
  "fq_ok q \<longleftrightarrow> (funcUnitsIdx q \<noteq> [] \<longrightarrow> fq_idx q < length (funcUnitsIdx q)) \<and> distinct (funcUnitsIdx q)"

lemma upcoming_set [simp]: "set (upcoming q) = set (funcUnitsIdx q)" by (simp add: upcoming_def)

lemma upcoming_distinct: "fq_ok q \<Longrightarrow> distinct (upcoming q)" by (simp add: upcoming_def fq_ok_def)

lemma upcoming_empty [simp]: "upcoming q = [] \<longleftrightarrow> funcUnitsIdx q = []" by (simp add: upcoming_def)

lemma getFU_next:
  assumes "fq_ok q" "upcoming q = x # xs"
  shows "fst (getFU q) = x" "upcoming (snd (getFU q)) = xs @ [x]" "fq_ok (snd (getFU q))"
    "funcUnitsIdx (snd (getFU q)) = funcUnitsIdx q"
proof -
  have ne: "funcUnitsIdx q \<noteq> []" using assms(2) by (auto simp: upcoming_def)
  then have lt: "fq_idx q < length (funcUnitsIdx q)" using assms(1) by (simp add: fq_ok_def)
  show "fst (getFU q) = x" using assms(2) hd_rotate_conv_nth [OF ne, of "fq_idx q"] lt
    by (simp add: upcoming_def getFU_def)
  have "rotate (Suc (fq_idx q)) (funcUnitsIdx q) = xs @ [x]" using assms(2) by (simp add: upcoming_def)
  moreover have "rotate (length (funcUnitsIdx q)) (funcUnitsIdx q) = funcUnitsIdx q" by (simp add: rotate_id)
  ultimately show "upcoming (snd (getFU q)) = xs @ [x]" by (auto simp: upcoming_def getFU_def simp del: rotate_Suc)
  show "fq_ok (snd (getFU q))" "funcUnitsIdx (snd (getFU q)) = funcUnitsIdx q"
    using assms(1) lt by (auto simp: fq_ok_def getFU_def)
qed

lemma unit_loop_spec:
  assumes "fq_ok q" "upcoming q = ys @ vs" "vs \<noteq> []" "hd vs = start" "last vs = fu"
  shows "\<exists>q'. unit_loop busy start fu q = Some (find (\<lambda>u. \<not> busy ! u) (fu # ys), q')
    \<and> fq_ok q' \<and> funcUnitsIdx q' = funcUnitsIdx q"
  using assms
proof (induction ys arbitrary: q vs fu)
  case Nil
  then obtain zs where "vs = start # zs" by (cases vs) auto
  with Nil show ?case using getFU_next [of q start zs] by (subst unit_loop.simps) auto
next
  case (Cons y ys)
  have up: "upcoming q = y # (ys @ vs)" using Cons.prems(2) by simp
  note g = getFU_next [OF Cons.prems(1) up]
  have ne: "y \<noteq> start" using upcoming_distinct [OF Cons.prems(1)] up Cons.prems(3,4) by (cases vs) auto
  show ?case
  proof (cases "busy ! fu")
    case True
    obtain q' where "unit_loop busy start y (snd (getFU q)) = Some (find (\<lambda>u. \<not> busy ! u) (y # ys), q')"
      "fq_ok q'" "funcUnitsIdx q' = funcUnitsIdx (snd (getFU q))"
      using Cons.IH [OF g(3), of "vs @ [y]" y] g(2) Cons.prems(3,4) by auto
    with True ne g(1,4) show ?thesis by (subst unit_loop.simps) auto
  qed (use Cons.prems(1) in \<open>subst unit_loop.simps; auto\<close>)
qed

subsection \<open>Well-formed pools\<close>

abbreviation provides :: "fu_pool \<Rightarrow> nat \<Rightarrow> op_class \<Rightarrow> bool" where
  "provides p u c \<equiv> fu_capabilities (funcUnits p ! u) c"

definition pool_ok :: "fu_pool \<Rightarrow> bool" where
  "pool_ok p \<longleftrightarrow> length (funcUnits p) = numFU p \<and> length (unitBusy p) = numFU p
     \<and> (\<forall>c. fq_ok (fuPerCapList p c) \<and> (capabilityList p c \<longleftrightarrow> funcUnitsIdx (fuPerCapList p c) \<noteq> [])
          \<and> set (funcUnitsIdx (fuPerCapList p c)) = {u. u < numFU p \<and> provides p u c})
     \<and> distinct (unitsToBeFreed p) \<and> (\<forall>u \<in> set (unitsToBeFreed p). u < numFU p \<and> unitBusy p ! u)"

text \<open>What the constructor has built after some descriptors, and inside one.\<close>

definition built :: "fu_pool \<Rightarrow> bool" where
  "built p \<longleftrightarrow> pool_ok (p\<lparr>unitBusy := replicate (numFU p) False\<rparr>) \<and> unitsToBeFreed p = []
     \<and> (\<forall>c. fq_idx (fuPerCapList p c) = 0)"

lemma addFU_fold: "fold (\<lambda>k. addFU (m + k)) [0..<n] q = q\<lparr>funcUnitsIdx := funcUnitsIdx q @ [m..<m + n]\<rparr>"
  by (induction n) (simp_all add: addFU_def)

text \<open>\<open>A\<close> is the set of operation classes of the descriptor handled so far.\<close>

definition building :: "nat \<Rightarrow> fu_pool \<Rightarrow> op_class set \<Rightarrow> fu_pool \<times> func_unit \<Rightarrow> bool" where
  "building n p0 A = (\<lambda>(p, fu). numFU p = numFU p0 \<and> funcUnits p = funcUnits p0 \<and> unitsToBeFreed p = unitsToBeFreed p0
     \<and> fu_capabilities fu = (\<lambda>c. c \<in> A)
     \<and> (\<forall>c. fuPerCapList p c = (fuPerCapList p0 c)\<lparr>funcUnitsIdx :=
              funcUnitsIdx (fuPerCapList p0 c) @ (if c \<in> A then [numFU p0..<numFU p0 + n] else [])\<rparr>)
     \<and> (\<forall>c. capabilityList p c \<longleftrightarrow> capabilityList p0 c \<or> c \<in> A))"

lemma building_start: "building n p0 {} (p0, new_unit)"
  by (simp add: building_def new_unit_def)

lemma add_op_building:
  assumes "building n p0 A c" "od_opClass d \<notin> A" "add_op n d c = Some c'"
  shows "building n p0 (insert (od_opClass d) A) c'"
  using assms by (cases c) (auto simp: building_def add_op_def addCapability_def Let_def addFU_fold fun_eq_iff
      split: if_splits)

lemma add_ops_building:
  assumes "building n p0 A c" "distinct (map od_opClass ds)" "A \<inter> od_opClass ` set ds = {}" "add_ops n ds c = Some c'"
  shows "building n p0 (A \<union> od_opClass ` set ds) c'"
  using assms
proof (induction ds arbitrary: A c)
  case (Cons d ds)
  obtain c1 where c1: "add_op n d c = Some c1" "add_ops n ds c1 = Some c'"
    using Cons.prems(4) by (auto split: option.splits)
  have "building n p0 (insert (od_opClass d) A) c1" using add_op_building [OF Cons.prems(1) _ c1(1)] Cons.prems(3) by simp
  from Cons.IH [OF this _ _ c1(2)] Cons.prems(2,3) show ?case by auto
qed simp

lemma built_add_desc:
  assumes "built p" "distinct (map od_opClass (fd_ops d))" "add_desc d p = Some p'"
  shows "built p'"
proof (cases "fd_number d = 0")
  case False
  then obtain p1 fu where a: "add_ops (fd_number d) (fd_ops d) (p, new_unit) = Some (p1, fu)"
    "p' = p1\<lparr>numFU := numFU p1 + fd_number d, funcUnits := funcUnits p1 @ replicate (fd_number d) fu\<rparr>"
    using assms(3) by (auto simp: add_desc_def split: option.splits)
  have b: "building (fd_number d) p (od_opClass ` set (fd_ops d)) (p1, fu)"
    using add_ops_building [OF building_start assms(2) _ a(1)] by simp
  show ?thesis using assms(1) b False unfolding a(2)
    by (auto simp: built_def building_def pool_ok_def fq_ok_def nth_append)
qed (use assms in \<open>simp add: add_desc_def\<close>)

lemma built_add_descs:
  assumes "built p" "\<forall>d \<in> set ds. distinct (map od_opClass (fd_ops d))" "add_descs ds p = Some p'"
  shows "built p'"
  using assms
proof (induction ds arbitrary: p)
  case (Cons d ds)
  obtain p1 where p1: "add_desc d p = Some p1" "add_descs ds p1 = Some p'"
    using Cons.prems(3) by (auto split: option.splits)
  have "built p1" by (rule built_add_desc [OF Cons.prems(1) _ p1(1)]) (use Cons.prems(2) in simp)
  then show ?case by (rule Cons.IH [OF _ _ p1(2)]) (use Cons.prems(2) in simp)
qed simp

lemma FUPool_ok:
  assumes "FUPool ds = Some p" "\<forall>d \<in> set ds. distinct (map od_opClass (fd_ops d))"
  shows "pool_ok p"
proof -
  obtain p1 where p1: "add_descs ds empty_pool = Some p1" "p = p1\<lparr>unitBusy := replicate (numFU p1) False\<rparr>"
    using assms(1) by (auto simp: FUPool_def)
  have "built empty_pool" by (simp add: built_def empty_pool_def pool_ok_def fq_ok_def)
  then have "built p1" by (rule built_add_descs [OF _ assms(2) p1(1)])
  then show ?thesis by (simp add: built_def p1(2))
qed

subsection \<open>Allocation and freeing\<close>

text \<open>What an allocation promises.\<close>

definition allocated :: "op_class \<Rightarrow> fu_pool \<Rightarrow> fu_result \<Rightarrow> fu_pool \<Rightarrow> bool" where
  "allocated c p r p' \<longleftrightarrow> pool_ok p' \<and> funcUnits p' = funcUnits p \<and> numFU p' = numFU p
     \<and> (r = NoCapableFU \<longleftrightarrow> (\<forall>u < numFU p. \<not> provides p u c))
     \<and> (r = NoFreeFU \<longleftrightarrow> (\<exists>u < numFU p. provides p u c) \<and> (\<forall>u < numFU p. provides p u c \<longrightarrow> unitBusy p ! u))
     \<and> (\<forall>u. r = FU u \<longrightarrow> u < numFU p \<and> provides p u c \<and> \<not> unitBusy p ! u \<and> unitBusy p' = (unitBusy p)[u := True])
     \<and> ((\<forall>u. r \<noteq> FU u) \<longrightarrow> unitBusy p' = unitBusy p) \<and> r \<noteq> NoNeedFU \<and> unitsToBeFreed p' = unitsToBeFreed p
     \<and> maxOpLatencies p' = maxOpLatencies p \<and> pool_pipelined p' = pool_pipelined p"

lemma pool_ok_rotate:
  assumes "pool_ok p" "fq_ok q'" "funcUnitsIdx q' = funcUnitsIdx (fuPerCapList p c)"
  shows "pool_ok (p\<lparr>fuPerCapList := (fuPerCapList p)(c := q')\<rparr>)"
  using assms by (simp add: pool_ok_def)

lemma busy_update: "busy ! x \<Longrightarrow> busy[u := True] ! x"
  by (cases "x = u"; cases "u < length busy") (simp_all add: list_update_beyond)

lemma pool_ok_busy:
  assumes "pool_ok p" "\<not> unitBusy p ! u"
  shows "pool_ok (p\<lparr>unitBusy := (unitBusy p)[u := True]\<rparr>)"
  using assms by (auto simp: pool_ok_def intro: busy_update)

lemma getUnit_spec:
  assumes "pool_ok p"
  shows "\<exists>r p'. getUnit c p = Some (r, p') \<and> allocated c p r p'"
proof (cases "capabilityList p c")
  case False
  then have "{u. u < numFU p \<and> provides p u c} = {}" using assms unfolding pool_ok_def by (metis list.set(1))
  then have "\<forall>u < numFU p. \<not> provides p u c" by blast
  then show ?thesis using assms False by (simp add: getUnit_def allocated_def)
next
  case True
  let ?q = "fuPerCapList p c"
  have q: "fq_ok ?q" "funcUnitsIdx ?q \<noteq> []" and us: "set (funcUnitsIdx ?q) = {u. u < numFU p \<and> provides p u c}"
    using assms True by (auto simp: pool_ok_def)
  obtain x xs where up: "upcoming ?q = x # xs" using q(2) by (cases "upcoming ?q") simp_all
  note g = getFU_next [OF q(1) up]
  obtain q' where l: "unit_loop (unitBusy p) x x (snd (getFU ?q)) = Some (find (\<lambda>u. \<not> unitBusy p ! u) (x # xs), q')"
    "fq_ok q'" "funcUnitsIdx q' = funcUnitsIdx ?q"
    using unit_loop_spec [OF g(3,2), of x x "unitBusy p"] g(4) by (auto simp del: find.simps)
  have set: "set (x # xs) = {u. u < numFU p \<and> provides p u c}" using us up upcoming_set [of ?q] by simp
  have ex: "\<exists>u < numFU p. provides p u c" using set by auto
  have gf: "getFU ?q = (x, snd (getFU ?q))" using g(1) by (simp add: prod_eq_iff)
  show ?thesis
  proof (cases "find (\<lambda>u. \<not> unitBusy p ! u) (x # xs)")
    case None
    then have busy: "\<forall>u < numFU p. provides p u c \<longrightarrow> unitBusy p ! u" using set by (auto simp: find_None_iff simp del: find.simps)
    have "getUnit c p = Some (NoFreeFU, p\<lparr>fuPerCapList := (fuPerCapList p)(c := q')\<rparr>)"
      unfolding getUnit_def by (subst gf) (simp add: True l(1) None del: find.simps)
    then show ?thesis using pool_ok_rotate [OF assms l(2,3)] ex busy by (simp add: allocated_def)
  next
    case (Some u)
    then have "u \<in> set (x # xs)" "\<not> unitBusy p ! u" by (auto simp: find_Some_iff simp del: find.simps list.set intro: nth_mem)
    then have u: "u < numFU p" "provides p u c" "\<not> unitBusy p ! u" unfolding set by auto
    have "getUnit c p = Some (FU u, p\<lparr>fuPerCapList := (fuPerCapList p)(c := q'), unitBusy := (unitBusy p)[u := True]\<rparr>)"
      unfolding getUnit_def by (subst gf) (simp add: True l(1) Some u(1) del: find.simps)
    then show ?thesis using pool_ok_busy [OF pool_ok_rotate [OF assms l(2,3)], of u] ex u
      by (auto simp: allocated_def)
  qed
qed

lemma free_units_spec:
  assumes "distinct us" "\<forall>u \<in> set us. u < length busy \<and> busy ! u"
  shows "\<exists>busy'. free_units us busy = Some busy' \<and> length busy' = length busy
    \<and> (\<forall>v < length busy. busy' ! v \<longleftrightarrow> busy ! v \<and> v \<notin> set us)"
  using assms
proof (induction us arbitrary: busy)
  case (Cons u us)
  obtain busy' where "free_units us (busy[u := False]) = Some busy'" "length busy' = length busy"
    "\<forall>v < length busy. busy' ! v \<longleftrightarrow> busy[u := False] ! v \<and> v \<notin> set us"
    using Cons.IH [of "busy[u := False]"] Cons.prems by (fastforce simp: nth_list_update)
  with Cons.prems show ?case by (auto simp: nth_list_update)
qed simp

lemma processFreeUnits_spec:
  assumes "pool_ok p"
  obtains p' where "processFreeUnits p = Some p'" "pool_ok p'" "funcUnits p' = funcUnits p" "numFU p' = numFU p"
    "\<forall>u < numFU p. unitBusy p' ! u \<longleftrightarrow> unitBusy p ! u \<and> u \<notin> set (unitsToBeFreed p)" "unitsToBeFreed p' = []"
proof -
  obtain busy' where b: "free_units (rev (unitsToBeFreed p)) (unitBusy p) = Some busy'" "length busy' = numFU p"
    "\<forall>v < numFU p. busy' ! v \<longleftrightarrow> unitBusy p ! v \<and> v \<notin> set (unitsToBeFreed p)"
    using free_units_spec [of "rev (unitsToBeFreed p)" "unitBusy p"] assms by (auto simp: pool_ok_def)
  then show thesis using assms
    by (intro that [of "p\<lparr>unitBusy := busy', unitsToBeFreed := []\<rparr>"]) (simp_all add: processFreeUnits_def pool_ok_def)
qed

lemma freeUnitNextCycle_ok:
  assumes "pool_ok p" "u < numFU p" "unitBusy p ! u" "u \<notin> set (unitsToBeFreed p)"
  shows "\<exists>p'. freeUnitNextCycle u p = Some p' \<and> pool_ok p' \<and> unitsToBeFreed p' = unitsToBeFreed p @ [u]
    \<and> unitBusy p' = unitBusy p \<and> funcUnits p' = funcUnits p \<and> numFU p' = numFU p"
  using assms by (auto simp: freeUnitNextCycle_def pool_ok_def)

subsection \<open>Every use of a pool\<close>

inductive pool_reach :: "fu_pool \<Rightarrow> fu_pool \<Rightarrow> bool" where
  pool_start: "pool_reach p p"
| pool_get: "pool_reach p0 p \<Longrightarrow> getUnit c p = Some (r, p') \<Longrightarrow> pool_reach p0 p'"
| pool_free: "pool_reach p0 p \<Longrightarrow> u < numFU p \<Longrightarrow> u \<notin> set (unitsToBeFreed p) \<Longrightarrow> freeUnitNextCycle u p = Some p'
    \<Longrightarrow> pool_reach p0 p'"
| pool_process: "pool_reach p0 p \<Longrightarrow> processFreeUnits p = Some p' \<Longrightarrow> pool_reach p0 p'"

lemma pool_reach_ok:
  assumes "pool_reach p0 p" "pool_ok p0"
  shows "pool_ok p \<and> funcUnits p = funcUnits p0 \<and> numFU p = numFU p0"
  using assms
proof (induction rule: pool_reach.induct)
  case (pool_get p0 p c r p')
  then show ?case using getUnit_spec [of p c] by (auto simp: allocated_def)
next
  case (pool_free p0 p u p')
  then show ?case using freeUnitNextCycle_ok [of p u] by (auto simp: freeUnitNextCycle_def split: if_splits)
next
  case (pool_process p0 p p')
  then show ?case by (auto elim: processFreeUnits_spec [of p])
qed simp

text \<open>C28: allocation of functional units.  In a pool built from descriptors that name no operation
  twice, after any allocations and frees, a request returns.  It reports that no unit is capable
  exactly when none provides the operation, and that none is free exactly when all that provide it are
  busy; otherwise it takes an idle unit that provides the operation and only marks that one busy.
  Freeing returns exactly the units put on the list, each once.\<close>

theorem fu_pool_allocation:
  assumes "FUPool ds = Some p0" "\<forall>d \<in> set ds. distinct (map od_opClass (fd_ops d))" "pool_reach p0 p"
  shows "(\<exists>r p'. getUnit c p = Some (r, p')
      \<and> (r = NoCapableFU \<longleftrightarrow> (\<forall>u < numFU p0. \<not> provides p0 u c))
      \<and> (r = NoFreeFU \<longleftrightarrow> (\<exists>u < numFU p0. provides p0 u c) \<and> (\<forall>u < numFU p0. provides p0 u c \<longrightarrow> unitBusy p ! u))
      \<and> (\<forall>u. r = FU u \<longrightarrow> u < numFU p0 \<and> provides p0 u c \<and> \<not> unitBusy p ! u \<and> unitBusy p' = (unitBusy p)[u := True]))
    \<and> (\<exists>p'. processFreeUnits p = Some p'
      \<and> (\<forall>u < numFU p0. unitBusy p' ! u \<longleftrightarrow> unitBusy p ! u \<and> u \<notin> set (unitsToBeFreed p)))"
proof -
  have p: "pool_ok p" "funcUnits p = funcUnits p0" "numFU p = numFU p0"
    using pool_reach_ok [OF assms(3) FUPool_ok [OF assms(1,2)]] by auto
  obtain r p' where "getUnit c p = Some (r, p')" "allocated c p r p'" using getUnit_spec [OF p(1)] by blast
  then have "\<exists>r p'. getUnit c p = Some (r, p')
      \<and> (r = NoCapableFU \<longleftrightarrow> (\<forall>u < numFU p0. \<not> provides p0 u c))
      \<and> (r = NoFreeFU \<longleftrightarrow> (\<exists>u < numFU p0. provides p0 u c) \<and> (\<forall>u < numFU p0. provides p0 u c \<longrightarrow> unitBusy p ! u))
      \<and> (\<forall>u. r = FU u \<longrightarrow> u < numFU p0 \<and> provides p0 u c \<and> \<not> unitBusy p ! u \<and> unitBusy p' = (unitBusy p)[u := True])"
    by (simp add: allocated_def p(2,3))
  moreover obtain p'' where "processFreeUnits p = Some p''"
    "\<forall>u < numFU p. unitBusy p'' ! u \<longleftrightarrow> unitBusy p ! u \<and> u \<notin> set (unitsToBeFreed p)"
    by (rule processFreeUnits_spec [OF p(1)]) blast
  ultimately show ?thesis by (simp add: p(3))
qed

definition demo_fu_descs :: "fu_desc list" where
  "demo_fu_descs = [\<lparr>fd_number = 2, fd_ops = [\<lparr>od_opClass = 1, od_opLat = 1, od_pipelined = True\<rparr>]\<rparr>,
     \<lparr>fd_number = 1, fd_ops = [\<lparr>od_opClass = 2, od_opLat = 3, od_pipelined = False\<rparr>,
       \<lparr>od_opClass = 1, od_opLat = 1, od_pipelined = True\<rparr>]\<rparr>]"

theorem fu_pool_allocation_witness:
  "\<exists>p0 p p'. FUPool demo_fu_descs = Some p0 \<and> getUnit 1 p0 = Some (FU 0, p) \<and> getUnit 1 p = Some (FU 1, p')
     \<and> unitBusy p' = [True, True, False]"
proof -
  obtain p0 where p0: "FUPool demo_fu_descs = Some p0" "numFU p0 = 3" "unitBusy p0 = [False, False, False]"
    "fuPerCapList p0 1 = \<lparr>fq_idx = 0, funcUnitsIdx = [0, 1, 2]\<rparr>" "capabilityList p0 1"
    by (simp add: FUPool_def demo_fu_descs_def add_desc_def add_op_def addCapability_def addFU_def empty_pool_def
        new_unit_def Let_def numeral_2_eq_2 numeral_3_eq_3)
  have d: "\<forall>d \<in> set demo_fu_descs. distinct (map od_opClass (fd_ops d))" by (simp add: demo_fu_descs_def)
  define p where "p = p0\<lparr>fuPerCapList := (fuPerCapList p0)(1 := \<lparr>fq_idx = 1, funcUnitsIdx = [0, 1, 2]\<rparr>),
     unitBusy := [True, False, False]\<rparr>"
  have g: "getUnit 1 p0 = Some (FU 0, p)"
    using p0 by (simp add: getUnit_def getFU_def p_def unit_loop.simps)
  have "pool_reach p0 p" by (rule pool_get [OF pool_start g])
  from fu_pool_allocation [OF p0(1) d this, of 1] obtain r p' where r: "getUnit 1 p = Some (r, p')"
    "\<forall>u. r = FU u \<longrightarrow> unitBusy p' = (unitBusy p)[u := True]" by blast
  have "getUnit 1 p = Some (FU 1, p') \<and> unitBusy p' = [True, True, False]"
    using r p0 by (auto simp: getUnit_def getFU_def p_def unit_loop.simps)
  with p0(1) g show ?thesis by blast
qed

end
