(* ===== verification/Ready_List.thy ===== *)
theory Ready_List
  imports Fu_Pool "HOL-Library.Multiset"
begin

text \<open>
  The ready queues of \<open>InstructionQueue\<close> (\<open>cpu/o3/inst_queue.cc\<close>) and the issue of ready instructions.
  An instruction is its sequence number.  A priority queue of ready instructions is a list sorted by
  sequence number, its top the head of the list; the age-order list holds a pair of an operation class
  and the oldest instruction of its queue, and the iterator of a class into it is the entry of that
  class.  What the queue only reads of an instruction is the record \<open>inst_env\<close>.  The coverage hooks
  called at issue change nothing of this state and are left out.
\<close>

type_synonym inst_id = nat

record inst_env =
  opClassOf :: "inst_id \<Rightarrow> op_class"
  isSquashedI :: "inst_id \<Rightarrow> bool"
  isMemRefI :: "inst_id \<Rightarrow> bool"
  isFloatingI :: "inst_id \<Rightarrow> bool"
  isVectorI :: "inst_id \<Rightarrow> bool"
  translationCompleted :: "inst_id \<Rightarrow> bool"
  iqOf :: "inst_id \<Rightarrow> nat"

record ready_lists =
  readyInsts :: "op_class \<Rightarrow> inst_id list"
  listOrder :: "(op_class \<times> inst_id) list"
  queueOnList :: "op_class \<Rightarrow> bool"

text \<open>\<open>addToOrderList\<close>: its assertion that the queue is not empty holds at every call.\<close>

fun order_insert :: "op_class \<times> inst_id \<Rightarrow> (op_class \<times> inst_id) list \<Rightarrow> (op_class \<times> inst_id) list" where
  "order_insert e [] = [e]"
| "order_insert e (x # xs) = (if snd x > snd e then e # x # xs else x # order_insert e xs)"

definition addToOrderList :: "op_class \<Rightarrow> ready_lists \<Rightarrow> ready_lists" where
  "addToOrderList c rl = rl\<lparr>listOrder := order_insert (c, hd (readyInsts rl c)) (listOrder rl),
     queueOnList := (queueOnList rl)(c := True)\<rparr>"

text \<open>\<open>moveToYoungerInst\<close>, on the part of the list behind the entry that is moved.\<close>

fun order_move :: "op_class \<times> inst_id \<Rightarrow> (op_class \<times> inst_id) list \<Rightarrow> (op_class \<times> inst_id) list" where
  "order_move e [] = [e]"
| "order_move e (x # xs) = (if snd x < snd e then x # order_move e xs else e # x # xs)"

text \<open>\<open>addReadyMemInst\<close>, and the tail of \<open>addIfReady\<close>.\<close>

definition push_ready :: "op_class \<Rightarrow> inst_id \<Rightarrow> ready_lists \<Rightarrow> ready_lists" where
  "push_ready c i rl =
     (let rl1 = rl\<lparr>readyInsts := (readyInsts rl)(c := insort i (readyInsts rl c))\<rparr>
      in if \<not> queueOnList rl1 c then addToOrderList c rl1
         else if hd (readyInsts rl1 c) < the (map_of (listOrder rl1) c)
         then addToOrderList c (rl1\<lparr>listOrder := filter (\<lambda>e. fst e \<noteq> c) (listOrder rl1)\<rparr>)
         else rl1)"

subsection \<open>Issue\<close>

datatype inst_kind = FloatKind | VecKind | IntKind

record fu_completion =
  fc_inst :: inst_id
  fc_iq :: nat
  fc_unit :: nat
  fc_delay :: nat
  fc_freeFU :: bool

record issue_state =
  rls :: ready_lists
  fuPools :: "nat \<Rightarrow> fu_pool"
  instsToExecute :: "inst_id list"
  fuCompletions :: "fu_completion list"
  wbOutstanding :: nat
  noCapableFU :: "inst_id \<Rightarrow> bool"
  setIssued_calls :: "inst_id list"
  clearInIQ_calls :: "inst_id list"
  memIssue_calls :: "inst_id list"
  deferredMemInsts :: "inst_id list"
  blockedMemInsts :: "inst_id list"
  retryMemInsts :: "inst_id list"
  instQueueReads :: "inst_kind \<Rightarrow> nat"
  aluAccesses :: "inst_kind \<Rightarrow> nat"
  squashedInstsIssued :: nat
  statFuBusy :: "op_class \<Rightarrow> nat"
  issuedInstType :: "op_class \<Rightarrow> nat"
  instsIssued :: nat

definition kind_of :: "inst_env \<Rightarrow> inst_id \<Rightarrow> inst_kind" where
  "kind_of env i = (if isFloatingI env i then FloatKind else if isVectorI env i then VecKind else IntKind)"

abbreviation tally :: "'k \<Rightarrow> ('k \<Rightarrow> nat) \<Rightarrow> 'k \<Rightarrow> nat" where
  "tally k f \<equiv> f(k := f k + 1)"

definition addReadyMemInst :: "inst_env \<Rightarrow> inst_id \<Rightarrow> issue_state \<Rightarrow> issue_state" where
  "addReadyMemInst env i st = st\<lparr>rls := push_ready (opClassOf env i) i (rls st)\<rparr>"

definition deferMemInst :: "inst_id \<Rightarrow> issue_state \<Rightarrow> issue_state" where
  "deferMemInst i st = st\<lparr>deferredMemInsts := deferredMemInsts st @ [i]\<rparr>"

definition retryMemInst :: "inst_id \<Rightarrow> issue_state \<Rightarrow> issue_state" where
  "retryMemInst i st = st\<lparr>retryMemInsts := retryMemInsts st @ [i]\<rparr>"

definition cacheUnblocked :: "issue_state \<Rightarrow> issue_state" where
  "cacheUnblocked st = st\<lparr>retryMemInsts := retryMemInsts st @ blockedMemInsts st, blockedMemInsts := []\<rparr>"

definition getDeferredMemInstToExecute :: "inst_env \<Rightarrow> issue_state \<Rightarrow> inst_id option \<times> issue_state" where
  "getDeferredMemInstToExecute env st =
     (case find (\<lambda>i. translationCompleted env i \<or> isSquashedI env i) (deferredMemInsts st) of None \<Rightarrow> (None, st)
      | Some i \<Rightarrow> (Some i, st\<lparr>deferredMemInsts := remove1 i (deferredMemInsts st)\<rparr>))"

definition getBlockedMemInstToExecute :: "issue_state \<Rightarrow> inst_id option \<times> issue_state" where
  "getBlockedMemInstToExecute st =
     (case retryMemInsts st of [] \<Rightarrow> (None, st) | i # is \<Rightarrow> (Some i, st\<lparr>retryMemInsts := is\<rparr>))"

text \<open>The two loops at the head of \<open>scheduleReadyInsts\<close>; every round takes one instruction off its
  list.\<close>

function drain_deferred :: "inst_env \<Rightarrow> issue_state \<Rightarrow> issue_state" where
  "drain_deferred env st =
     (case getDeferredMemInstToExecute env st of (None, st1) \<Rightarrow> st1
      | (Some i, st1) \<Rightarrow> drain_deferred env (addReadyMemInst env i st1))"
  by pat_completeness auto
termination
  by (relation "measure (\<lambda>(env, st). length (deferredMemInsts st))")
    (auto simp: getDeferredMemInstToExecute_def addReadyMemInst_def find_Some_iff length_remove1 length_pos_if_in_set
      split: option.splits)

function drain_blocked :: "inst_env \<Rightarrow> issue_state \<Rightarrow> issue_state" where
  "drain_blocked env st =
     (case getBlockedMemInstToExecute st of (None, st1) \<Rightarrow> st1
      | (Some i, st1) \<Rightarrow> drain_blocked env (addReadyMemInst env i st1))"
  by pat_completeness auto
termination
  by (relation "measure (\<lambda>(env, st). length (retryMemInsts st))")
    (auto simp: getBlockedMemInstToExecute_def addReadyMemInst_def split: list.splits)

declare drain_deferred.simps [simp del] drain_blocked.simps [simp del]

text \<open>The request for a unit and the latency of the operation; \<open>No_OpClass\<close>, the first operation class,
  needs none.\<close>

definition try_unit :: "inst_env \<Rightarrow> inst_id \<Rightarrow> op_class \<Rightarrow> issue_state \<Rightarrow> (fu_result \<times> nat \<times> issue_state) option" where
  "try_unit env i c st =
     (if c = 0 then Some (NoNeedFU, 1, st)
      else (case getUnit c (fuPools st (iqOf env i)) of None \<Rightarrow> None
        | Some (r, p) \<Rightarrow> Some (r, (case r of FU _ \<Rightarrow> maxOpLatencies p c | _ \<Rightarrow> 1),
            st\<lparr>fuPools := (fuPools st)(iqOf env i := p), aluAccesses := tally (kind_of env i) (aluAccesses st)\<rparr>)))"

definition free_in :: "nat \<Rightarrow> nat \<Rightarrow> issue_state \<Rightarrow> issue_state option" where
  "free_in q u st = map_option (\<lambda>p. st\<lparr>fuPools := (fuPools st)(q := p)\<rparr>) (freeUnitNextCycle u (fuPools st q))"

text \<open>The branch of the issue loop that starts the execution.  The assertion that a multi-cycle
  operation has a capable unit is the last line.\<close>

definition start_exec :: "inst_env \<Rightarrow> inst_id \<Rightarrow> op_class \<Rightarrow> fu_result \<Rightarrow> nat \<Rightarrow> issue_state \<Rightarrow> issue_state option" where
  "start_exec env i c r lat st =
     (if lat = 1 then
        let st1 = st\<lparr>instsToExecute := instsToExecute st @ [i]\<rparr>
        in (case r of FU u \<Rightarrow> free_in (iqOf env i) u st1
            | NoCapableFU \<Rightarrow> Some (st1\<lparr>noCapableFU := (noCapableFU st1)(i := True)\<rparr>)
            | _ \<Rightarrow> Some st1)
      else (case r of
          FU u \<Rightarrow>
            let piped = pool_pipelined (fuPools st (iqOf env i)) c;
                st1 = st\<lparr>wbOutstanding := wbOutstanding st + 1,
                  fuCompletions := fuCompletions st @ [\<lparr>fc_inst = i, fc_iq = iqOf env i, fc_unit = u, fc_delay = lat - 1,
                    fc_freeFU = \<not> piped\<rparr>]\<rparr>
            in if piped then free_in (iqOf env i) u st1 else Some st1
        | _ \<Rightarrow> None))"

text \<open>The top of a ready queue is removed and the entry of its class moved behind, on the part of the
  age-order list that follows the entry.\<close>

definition retire_top :: "op_class \<Rightarrow> (op_class \<times> inst_id) list \<Rightarrow> ready_lists \<Rightarrow> (op_class \<times> inst_id) list \<times> ready_lists" where
  "retire_top c after rl =
     (let rl1 = rl\<lparr>readyInsts := (readyInsts rl)(c := tl (readyInsts rl c))\<rparr>
      in if readyInsts rl1 c \<noteq> [] then (order_move (c, hd (readyInsts rl1 c)) after, rl1)
         else (after, rl1\<lparr>queueOnList := (queueOnList rl1)(c := False)\<rparr>))"

definition finish_issue :: "inst_env \<Rightarrow> inst_id \<Rightarrow> op_class \<Rightarrow> issue_state \<Rightarrow> issue_state" where
  "finish_issue env i c st =
     (let st1 = st\<lparr>setIssued_calls := setIssued_calls st @ [i], issuedInstType := tally c (issuedInstType st)\<rparr>
      in if \<not> isMemRefI env i then st1\<lparr>clearInIQ_calls := clearInIQ_calls st1 @ [i]\<rparr>
         else st1\<lparr>memIssue_calls := memIssue_calls st1 @ [i]\<rparr>)"

text \<open>One round of the issue loop.  The age-order list is split at the iterator into the entries passed
  and the rest, whose head \<open>(c, s)\<close> is the current entry; \<open>n\<close> is \<open>total_issued\<close>.\<close>

type_synonym sched_conf = "(op_class \<times> inst_id) list \<times> (op_class \<times> inst_id) list \<times> nat \<times> issue_state"

definition sched_step :: "inst_env \<Rightarrow> op_class \<Rightarrow> inst_id \<Rightarrow> (op_class \<times> inst_id) list \<Rightarrow> (op_class \<times> inst_id) list
    \<Rightarrow> nat \<Rightarrow> issue_state \<Rightarrow> sched_conf option" where
  "sched_step env c s passed after n st =
     (case readyInsts (rls st) c of [] \<Rightarrow> None
      | i # _ \<Rightarrow>
          if i \<noteq> s then None
          else
            let st0 = st\<lparr>instQueueReads := tally (kind_of env i) (instQueueReads st)\<rparr>
            in if isSquashedI env i then
                 (case retire_top c after (rls st0) of (after', rl) \<Rightarrow>
                    Some (passed, after', n, st0\<lparr>rls := rl, squashedInstsIssued := squashedInstsIssued st0 + 1\<rparr>))
               else (case try_unit env i c st0 of None \<Rightarrow> None
                 | Some (r, lat, st1) \<Rightarrow>
                     if r = NoFreeFU then Some (passed @ [(c, s)], after, n, st1\<lparr>statFuBusy := tally c (statFuBusy st1)\<rparr>)
                     else (case start_exec env i c r lat st1 of None \<Rightarrow> None
                       | Some st2 \<Rightarrow>
                           (case retire_top c after (rls st2) of (after', rl) \<Rightarrow>
                              Some (passed, after', n + 1, finish_issue env i c (st2\<lparr>rls := rl\<rparr>))))))"

partial_function (option) sched_loop :: "inst_env \<Rightarrow> nat \<Rightarrow> sched_conf \<Rightarrow> sched_conf option" where
  "sched_loop env width k = (case k of (passed, rest, n, st) \<Rightarrow>
     (case rest of [] \<Rightarrow> Some k
      | (c, s) # after \<Rightarrow>
          if n < width then (case sched_step env c s passed after n st of None \<Rightarrow> None | Some k' \<Rightarrow> sched_loop env width k')
          else Some k))"

definition scheduleReadyInsts :: "inst_env \<Rightarrow> nat \<Rightarrow> issue_state \<Rightarrow> (nat \<times> issue_state) option" where
  "scheduleReadyInsts env width st =
     (let st1 = drain_blocked env (drain_deferred env st)
      in (case sched_loop env width ([], listOrder (rls st1), 0, st1) of None \<Rightarrow> None
          | Some (passed, rest, n, st2) \<Rightarrow>
              Some (n, st2\<lparr>rls := (rls st2)\<lparr>listOrder := passed @ rest\<rparr>, instsIssued := instsIssued st2 + n\<rparr>)))"

text \<open>The completion event of a multi-cycle operation.\<close>

definition processFUCompletion :: "fu_completion \<Rightarrow> issue_state \<Rightarrow> issue_state option" where
  "processFUCompletion fc st =
     (let st1 = st\<lparr>wbOutstanding := wbOutstanding st - 1\<rparr>
      in map_option (\<lambda>st2. st2\<lparr>instsToExecute := instsToExecute st2 @ [fc_inst fc]\<rparr>)
           (if fc_freeFU fc then free_in (fc_iq fc) (fc_unit fc) st1 else Some st1))"

definition getInstToExecute :: "inst_env \<Rightarrow> issue_state \<Rightarrow> (inst_id \<times> issue_state) option" where
  "getInstToExecute env st = (case instsToExecute st of [] \<Rightarrow> None
     | i # is \<Rightarrow> Some (i, st\<lparr>instsToExecute := is, instQueueReads := tally (kind_of env i) (instQueueReads st)\<rparr>))"

subsection \<open>The invariant of the ready queues\<close>

definition lists_ok :: "inst_env \<Rightarrow> ready_lists \<Rightarrow> (op_class \<times> inst_id) list \<Rightarrow> bool" where
  "lists_ok env rl ord \<longleftrightarrow>
     (\<forall>c. sorted (readyInsts rl c) \<and> (queueOnList rl c \<longleftrightarrow> readyInsts rl c \<noteq> []) \<and> (\<forall>i \<in> set (readyInsts rl c). opClassOf env i = c))
     \<and> distinct (map fst ord) \<and> fst ` set ord = {c. readyInsts rl c \<noteq> []}
     \<and> (\<forall>c s. (c, s) \<in> set ord \<longrightarrow> s = hd (readyInsts rl c)) \<and> sorted (map snd ord)"

lemma set_order_insert [simp]: "set (order_insert e xs) = insert e (set xs)" by (induction xs) auto

lemma set_order_move [simp]: "set (order_move e xs) = insert e (set xs)" by (induction xs) auto

lemma distinct_order_insert [simp]: "distinct (map fst (order_insert e xs)) \<longleftrightarrow> fst e \<notin> fst ` set xs \<and> distinct (map fst xs)"
  by (induction xs) auto

lemma distinct_order_move [simp]: "distinct (map fst (order_move e xs)) \<longleftrightarrow> fst e \<notin> fst ` set xs \<and> distinct (map fst xs)"
  by (induction xs) auto

lemma sorted_order_insert: "sorted (map snd xs) \<Longrightarrow> sorted (map snd (order_insert e xs))"
  by (induction xs) (auto simp: not_less)

lemma sorted_order_move: "sorted (map snd xs) \<Longrightarrow> sorted (map snd (order_move e xs))"
  by (induction xs) (auto simp: not_less)

lemma hd_insort: "hd (insort i xs) = (if xs = [] then i else min i (hd xs))"
  by (cases xs) (auto simp: min_def)

lemma lists_okD:
  assumes "lists_ok env rl ord"
  shows "sorted (readyInsts rl c)" "queueOnList rl c \<longleftrightarrow> readyInsts rl c \<noteq> []" "i \<in> set (readyInsts rl c) \<Longrightarrow> opClassOf env i = c"
    "distinct (map fst ord)" "c \<in> fst ` set ord \<longleftrightarrow> readyInsts rl c \<noteq> []" "(c, s) \<in> set ord \<Longrightarrow> s = hd (readyInsts rl c)"
    "sorted (map snd ord)"
proof -
  have *: "fst ` set ord = {c. readyInsts rl c \<noteq> []}" using assms by (simp add: lists_ok_def)
  show "c \<in> fst ` set ord \<longleftrightarrow> readyInsts rl c \<noteq> []" unfolding * by simp
qed (use assms in \<open>simp_all add: lists_ok_def\<close>)

lemma lists_okI:
  assumes "\<And>c. sorted (readyInsts rl c)" "\<And>c. queueOnList rl c \<longleftrightarrow> readyInsts rl c \<noteq> []"
    "\<And>c i. i \<in> set (readyInsts rl c) \<Longrightarrow> opClassOf env i = c" "distinct (map fst ord)"
    "\<And>c. c \<in> fst ` set ord \<longleftrightarrow> readyInsts rl c \<noteq> []" "\<And>c s. (c, s) \<in> set ord \<Longrightarrow> s = hd (readyInsts rl c)"
    "sorted (map snd ord)"
  shows "lists_ok env rl ord"
proof -
  have "fst ` set ord = {c. readyInsts rl c \<noteq> []}" using assms(5) by blast
  with assms show ?thesis by (simp add: lists_ok_def)
qed

lemma lists_ok_order:
  assumes "lists_ok env rl (listOrder rl)" "readyInsts rl c \<noteq> []"
  shows "map_of (listOrder rl) c = Some (hd (readyInsts rl c))"
proof -
  have "c \<in> fst ` set (listOrder rl)" using lists_okD(5) [OF assms(1)] assms(2) by simp
  then obtain s where s: "(c, s) \<in> set (listOrder rl)" by auto
  from lists_okD(6) [OF assms(1) s] map_of_is_SomeI [OF lists_okD(4) [OF assms(1)] s] show ?thesis by simp
qed

lemma push_ready_readyInsts [simp]: "readyInsts (push_ready c i rl) = (readyInsts rl)(c := insort i (readyInsts rl c))"
  by (simp add: push_ready_def addToOrderList_def Let_def)

text \<open>The order list after a class got the new oldest instruction \<open>s\<close>.\<close>

lemma lists_ok_reinsert:
  assumes ok: "lists_ok env rl ord" and ne: "q \<noteq> []" "sorted q" "\<forall>i \<in> set q. opClassOf env i = c"
    and rl': "readyInsts rl' = (readyInsts rl)(c := q)" "queueOnList rl' = (queueOnList rl)(c := True)"
  shows "lists_ok env rl' (order_insert (c, hd q) (filter (\<lambda>e. fst e \<noteq> c) ord))"
proof -
  let ?f = "filter (\<lambda>e. fst e \<noteq> c) ord"
  have dom: "d \<in> fst ` set ?f \<longleftrightarrow> readyInsts rl d \<noteq> [] \<and> d \<noteq> c" for d
  proof -
    have "d \<in> fst ` set ?f \<longleftrightarrow> d \<in> fst ` set ord \<and> d \<noteq> c" by auto
    then show ?thesis using lists_okD(5) [OF ok, of d] by simp
  qed
  have top: "s = hd (readyInsts rl d) \<and> d \<noteq> c" if "(d, s) \<in> set ?f" for d s
    using that lists_okD(6) [OF ok, of d s] by simp
  show ?thesis
  proof (rule lists_okI)
    show "distinct (map fst (order_insert (c, hd q) ?f))"
      using lists_okD(4) [OF ok] dom [of c] by (simp add: distinct_map_filter)
    show "sorted (map snd (order_insert (c, hd q) ?f))"
      by (rule sorted_order_insert) (use lists_okD(7) [OF ok] in \<open>simp add: sorted_filter\<close>)
    show "d \<in> fst ` set (order_insert (c, hd q) ?f) \<longleftrightarrow> readyInsts rl' d \<noteq> []" for d
      using dom [of d] ne(1) rl'(1) by simp
    show "(d, s) \<in> set (order_insert (c, hd q) ?f) \<Longrightarrow> s = hd (readyInsts rl' d)" for d s
      using top [of d s] rl'(1) by auto
    show "i \<in> set (readyInsts rl' d) \<Longrightarrow> opClassOf env i = d" for d i
      using lists_okD(3) [OF ok, of i d] ne(3) rl'(1) by (cases "d = c") simp_all
  qed (use ne rl' lists_okD(1,2) [OF ok] in simp_all)
qed

lemma lists_ok_same:
  assumes ok: "lists_ok env rl ord" and ne: "q \<noteq> []" "sorted q" "\<forall>i \<in> set q. opClassOf env i = c"
    and rl': "readyInsts rl' = (readyInsts rl)(c := q)" "queueOnList rl' = queueOnList rl"
    and c: "readyInsts rl c \<noteq> []" "hd q = hd (readyInsts rl c)"
  shows "lists_ok env rl' ord"
proof (rule lists_okI)
  show "queueOnList rl' d \<longleftrightarrow> readyInsts rl' d \<noteq> []" for d using lists_okD(2) [OF ok, of d] c(1) ne(1) rl' by simp
  show "i \<in> set (readyInsts rl' d) \<Longrightarrow> opClassOf env i = d" for i d
    using lists_okD(3) [OF ok, of i d] ne(3) rl'(1) by (cases "d = c") simp_all
  show "d \<in> fst ` set ord \<longleftrightarrow> readyInsts rl' d \<noteq> []" for d using lists_okD(5) [OF ok, of d] c(1) ne(1) rl'(1) by simp
  show "(d, s) \<in> set ord \<Longrightarrow> s = hd (readyInsts rl' d)" for d s using lists_okD(6) [OF ok, of d s] c(2) rl'(1) by simp
qed (use lists_okD(1,4,7) [OF ok] ne(2) rl'(1) in simp_all)

lemma filter_absent: "c \<notin> fst ` set xs \<Longrightarrow> filter (\<lambda>e. fst e \<noteq> c) xs = xs"
  by (induction xs) auto

lemma lists_ok_push:
  assumes ok: "lists_ok env rl (listOrder rl)" and c: "opClassOf env i = c"
  shows "lists_ok env (push_ready c i rl) (listOrder (push_ready c i rl))"
proof -
  let ?q = "insort i (readyInsts rl c)"
  have q: "?q \<noteq> []" "sorted ?q" "\<forall>j \<in> set ?q. opClassOf env j = c"
    using lists_okD(1,3) [OF ok, where c = c] c by (auto simp: sorted_insort set_insort_key)
  show ?thesis
  proof (cases "readyInsts rl c = []")
    case True
    then have "c \<notin> fst ` set (listOrder rl)" "\<not> queueOnList rl c" using lists_okD(2,5) [OF ok, where c = c] by simp_all
    then show ?thesis using lists_ok_reinsert [OF ok q, of "push_ready c i rl"] filter_absent [of c "listOrder rl"] True
      by (simp add: push_ready_def addToOrderList_def Let_def)
  next
    case False
    then have on: "queueOnList rl c" using lists_okD(2) [OF ok, where c = c] by simp
    note m = lists_ok_order [OF ok False]
    show ?thesis
    proof (cases "i < hd (readyInsts rl c)")
      case True
      then show ?thesis using lists_ok_reinsert [OF ok q, of "push_ready c i rl"] False on m
        by (simp add: push_ready_def addToOrderList_def Let_def hd_insort)
    next
      case lt: False
      then have r: "push_ready c i rl = rl\<lparr>readyInsts := (readyInsts rl)(c := ?q)\<rparr>"
        using False on m by (simp add: push_ready_def Let_def hd_insort min_def)
      have h: "hd ?q = hd (readyInsts rl c)" using False lt by (simp add: hd_insort min_def)
      show ?thesis using lists_ok_same [OF ok q, of "push_ready c i rl"] r h False by simp
    qed
  qed
qed

text \<open>Removing the top of the current entry.\<close>

lemma lists_ok_current:
  assumes "lists_ok env rl (passed @ (c, s) # after)"
  shows "readyInsts rl c = s # tl (readyInsts rl c)" "c \<notin> fst ` set passed" "c \<notin> fst ` set after"
    "\<forall>e \<in> set after. s \<le> snd e" "\<forall>e \<in> set passed. snd e \<le> s"
proof -
  have "readyInsts rl c \<noteq> []" "s = hd (readyInsts rl c)" using lists_okD(5,6) [OF assms, of c] by simp_all
  then show "readyInsts rl c = s # tl (readyInsts rl c)" by simp
qed (use lists_okD(4,7) [OF assms] in \<open>auto simp: sorted_append\<close>)

lemma lists_ok_drop:
  assumes ok: "lists_ok env rl (passed @ (c, s) # after)"
    and rl': "readyInsts rl' = (readyInsts rl)(c := [])" "queueOnList rl' = (queueOnList rl)(c := False)"
  shows "lists_ok env rl' (passed @ after)"
proof (rule lists_okI)
  note cur = lists_ok_current [OF ok]
  show "d \<in> fst ` set (passed @ after) \<longleftrightarrow> readyInsts rl' d \<noteq> []" for d
    using lists_okD(5) [OF ok, of d] cur(2,3) rl'(1) by auto
  show "(d, s') \<in> set (passed @ after) \<Longrightarrow> s' = hd (readyInsts rl' d)" for d s'
    using lists_okD(6) [OF ok, of d s'] cur(2,3) rl'(1) by (auto simp: image_iff)
qed (use lists_okD(1-4,7) [OF ok] rl' in \<open>auto simp: sorted_append split: if_splits\<close>)

lemma lists_ok_move:
  assumes ok: "lists_ok env rl (passed @ (c, s) # after)" and q: "tl (readyInsts rl c) = t # ts"
    and rl': "readyInsts rl' = (readyInsts rl)(c := t # ts)" "queueOnList rl' = queueOnList rl"
  shows "lists_ok env rl' (passed @ order_move (c, t) after)" "s \<le> t"
proof -
  note cur = lists_ok_current [OF ok]
  have c: "readyInsts rl c = s # t # ts" using cur(1) q by simp
  then show st: "s \<le> t" using lists_okD(1) [OF ok, of c] by simp
  show "lists_ok env rl' (passed @ order_move (c, t) after)"
  proof (rule lists_okI)
    show "sorted (map snd (passed @ order_move (c, t) after))"
      using lists_okD(7) [OF ok] st by (fastforce simp: sorted_append intro!: sorted_order_move)
    show "distinct (map fst (passed @ order_move (c, t) after))" using lists_okD(4) [OF ok] cur(2,3) by auto
    show "d \<in> fst ` set (passed @ order_move (c, t) after) \<longleftrightarrow> readyInsts rl' d \<noteq> []" for d
      using lists_okD(5) [OF ok, of d] rl'(1) by auto
    show "(d, s') \<in> set (passed @ order_move (c, t) after) \<Longrightarrow> s' = hd (readyInsts rl' d)" for d s'
      using lists_okD(6) [OF ok, of d s'] cur(2,3) rl'(1) by (auto simp: image_iff)
    show "sorted (readyInsts rl' d)" for d using lists_okD(1) [OF ok, of d] lists_okD(1) [OF ok, of c] c rl'(1) by simp
    show "queueOnList rl' d \<longleftrightarrow> readyInsts rl' d \<noteq> []" for d using lists_okD(2) [OF ok, of d] c rl' by simp
    show "i \<in> set (readyInsts rl' d) \<Longrightarrow> opClassOf env i = d" for i d
      using lists_okD(3) [OF ok, of i d] c rl'(1) by (cases "d = c") simp_all
  qed
qed

lemma retire_top_ok:
  assumes ok: "lists_ok env rl (passed @ (c, s) # after)" and r: "retire_top c after rl = (after', rl')"
  shows "lists_ok env rl' (passed @ after')" "readyInsts rl' = (readyInsts rl)(c := tl (readyInsts rl c))"
    "\<forall>e \<in> set after'. s \<le> snd e"
proof -
  show "readyInsts rl' = (readyInsts rl)(c := tl (readyInsts rl c))"
    using r by (auto simp: retire_top_def Let_def split: if_splits)
  have "lists_ok env rl' (passed @ after') \<and> (\<forall>e \<in> set after'. s \<le> snd e)"
  proof (cases "tl (readyInsts rl c)")
    case Nil
    with r have "after' = after" "readyInsts rl' = (readyInsts rl)(c := [])" "queueOnList rl' = (queueOnList rl)(c := False)"
      by (auto simp: retire_top_def Let_def)
    then show ?thesis using lists_ok_drop [OF ok] lists_ok_current(4) [OF ok] by simp
  next
    case (Cons t ts)
    with r have "after' = order_move (c, t) after" "readyInsts rl' = (readyInsts rl)(c := t # ts)" "queueOnList rl' = queueOnList rl"
      by (auto simp: retire_top_def Let_def)
    then show ?thesis using lists_ok_move [OF ok Cons] lists_ok_current(4) [OF ok] by simp
  qed
  then show "lists_ok env rl' (passed @ after')" "\<forall>e \<in> set after'. s \<le> snd e" by blast+
qed

subsection \<open>Units during issue\<close>

text \<open>Within one call of the scheduler units only become busy.\<close>

definition pools_grow :: "issue_state \<Rightarrow> issue_state \<Rightarrow> bool" where
  "pools_grow st st' \<longleftrightarrow> (\<forall>q. pool_ok (fuPools st' q) \<and> funcUnits (fuPools st' q) = funcUnits (fuPools st q)
     \<and> numFU (fuPools st' q) = numFU (fuPools st q)
     \<and> (\<forall>u < numFU (fuPools st q). unitBusy (fuPools st q) ! u \<longrightarrow> unitBusy (fuPools st' q) ! u))"

lemma pools_grow_start: "\<forall>q. pool_ok (fuPools st q) \<Longrightarrow> pools_grow st st" by (simp add: pools_grow_def)

lemma pools_grow_trans: "pools_grow st st' \<Longrightarrow> pools_grow st' st'' \<Longrightarrow> pools_grow st st''" by (simp add: pools_grow_def)

lemma pools_grow_same: "fuPools st'' = fuPools st' \<Longrightarrow> pools_grow st st'' \<longleftrightarrow> pools_grow st st'" by (simp add: pools_grow_def)

lemma pools_grow_ok: "pools_grow st st' \<Longrightarrow> pool_ok (fuPools st' q)" by (simp add: pools_grow_def)

text \<open>Every unit that provides the operation is busy.\<close>

definition exhausted :: "fu_pool \<Rightarrow> op_class \<Rightarrow> bool" where
  "exhausted p c \<longleftrightarrow> (\<exists>u < numFU p. provides p u c) \<and> (\<forall>u < numFU p. provides p u c \<longrightarrow> unitBusy p ! u)"

lemma exhausted_grow: "exhausted (fuPools st q) c \<Longrightarrow> pools_grow st st' \<Longrightarrow> exhausted (fuPools st' q) c"
  by (auto simp: exhausted_def pools_grow_def)

definition granted :: "inst_env \<Rightarrow> inst_id \<Rightarrow> fu_result \<Rightarrow> nat \<Rightarrow> issue_state \<Rightarrow> bool" where
  "granted env i r lat st \<longleftrightarrow> (case r of
       FU u \<Rightarrow> u < numFU (fuPools st (iqOf env i)) \<and> unitBusy (fuPools st (iqOf env i)) ! u
         \<and> u \<notin> set (unitsToBeFreed (fuPools st (iqOf env i)))
     | NoFreeFU \<Rightarrow> False | _ \<Rightarrow> lat = 1)"

lemma try_unit_spec:
  assumes "\<forall>q. pool_ok (fuPools st q)"
  shows "\<exists>r lat st'. try_unit env i c st = Some (r, lat, st') \<and> pools_grow st st' \<and> rls st' = rls st
    \<and> setIssued_calls st' = setIssued_calls st
    \<and> (if r = NoFreeFU then c \<noteq> 0 \<and> exhausted (fuPools st' (iqOf env i)) c else granted env i r lat st')"
proof (cases "c = 0")
  case True
  then show ?thesis using assms by (simp add: try_unit_def pools_grow_start granted_def)
next
  case False
  let ?p = "fuPools st (iqOf env i)"
  obtain r p where g: "getUnit c ?p = Some (r, p)" "allocated c ?p r p"
    using getUnit_spec [of ?p c] assms by blast
  let ?st = "st\<lparr>fuPools := (fuPools st)(iqOf env i := p), aluAccesses := tally (kind_of env i) (aluAccesses st)\<rparr>"
  have busy: "\<forall>u < numFU ?p. unitBusy ?p ! u \<longrightarrow> unitBusy p ! u"
    using g(2) by (cases r) (auto simp: allocated_def intro: busy_update)
  then have grow: "pools_grow st ?st" using g(2) assms by (simp add: pools_grow_def allocated_def)
  have "u \<notin> set (unitsToBeFreed p) \<and> unitBusy p ! u" if "r = FU u" for u
  proof -
    have "u < numFU ?p" "\<not> unitBusy ?p ! u" "unitsToBeFreed p = unitsToBeFreed ?p" "unitBusy p = (unitBusy ?p)[u := True]"
      using g(2) that by (simp_all add: allocated_def)
    moreover have "length (unitBusy ?p) = numFU ?p" "\<forall>v \<in> set (unitsToBeFreed ?p). unitBusy ?p ! v"
      using assms by (simp_all add: pool_ok_def)
    ultimately show ?thesis by auto
  qed
  then have "if r = NoFreeFU then exhausted p c
    else granted env i r (case r of FU _ \<Rightarrow> maxOpLatencies p c | _ \<Rightarrow> 1) ?st"
    using g(2) busy by (cases r) (auto simp: granted_def exhausted_def allocated_def)
  with False g(1) grow show ?thesis by (auto simp: try_unit_def)
qed

lemma free_in_spec:
  assumes "\<forall>q. pool_ok (fuPools st q)" "u < numFU (fuPools st q)" "unitBusy (fuPools st q) ! u"
    "u \<notin> set (unitsToBeFreed (fuPools st q))"
  shows "\<exists>st'. free_in q u st = Some st' \<and> pools_grow st st' \<and> rls st' = rls st \<and> setIssued_calls st' = setIssued_calls st"
  using freeUnitNextCycle_ok [OF assms(1) [rule_format] assms(2-4)] assms(1) by (auto simp: free_in_def pools_grow_def)

lemma start_exec_spec:
  assumes "\<forall>q. pool_ok (fuPools st q)" "granted env i r lat st"
  shows "\<exists>st'. start_exec env i c r lat st = Some st' \<and> pools_grow st st' \<and> rls st' = rls st
    \<and> setIssued_calls st' = setIssued_calls st"
proof (cases r)
  case (FU u)
  let ?a = "st\<lparr>instsToExecute := instsToExecute st @ [i]\<rparr>"
  let ?b = "st\<lparr>wbOutstanding := wbOutstanding st + 1, fuCompletions := fuCompletions st @
    [\<lparr>fc_inst = i, fc_iq = iqOf env i, fc_unit = u, fc_delay = lat - 1,
      fc_freeFU = \<not> pool_pipelined (fuPools st (iqOf env i)) c\<rparr>]\<rparr>"
  have "\<exists>st'. free_in (iqOf env i) u ?a = Some st' \<and> pools_grow ?a st' \<and> rls st' = rls ?a \<and> setIssued_calls st' = setIssued_calls ?a"
    by (rule free_in_spec) (use assms FU in \<open>simp_all add: granted_def\<close>)
  moreover have "\<exists>st'. free_in (iqOf env i) u ?b = Some st' \<and> pools_grow ?b st' \<and> rls st' = rls ?b \<and> setIssued_calls st' = setIssued_calls ?b"
    by (rule free_in_spec) (use assms FU in \<open>simp_all add: granted_def\<close>)
  moreover have "pools_grow st x" if "pools_grow ?a x \<or> pools_grow ?b x" for x using that by (simp add: pools_grow_def)
  moreover have "pools_grow st ?b" using assms(1) by (simp add: pools_grow_def)
  ultimately show ?thesis using FU by (auto simp: start_exec_def Let_def)
qed (use assms in \<open>simp_all add: start_exec_def granted_def pools_grow_def Let_def\<close>)

subsection \<open>The issue loop\<close>

text \<open>Nothing is lost: the live instructions of a class are the ones still queued and the ones issued.\<close>

definition accounted :: "inst_env \<Rightarrow> (op_class \<Rightarrow> inst_id list) \<Rightarrow> (op_class \<Rightarrow> inst_id list) \<Rightarrow> inst_id list \<Rightarrow> bool" where
  "accounted env ready ready' new \<longleftrightarrow> (\<forall>c. mset (filter (\<lambda>i. \<not> isSquashedI env i) (ready c)) =
     mset (filter (\<lambda>i. \<not> isSquashedI env i) (ready' c)) + mset (filter (\<lambda>i. opClassOf env i = c) new))"

lemma accounted_start: "accounted env ready ready []" by (simp add: accounted_def)

lemma accounted_pop:
  assumes "accounted env ready ready' new" "ready' c = s # q" "opClassOf env s = c"
  shows "isSquashedI env s \<Longrightarrow> accounted env ready (ready'(c := q)) new"
    "\<not> isSquashedI env s \<Longrightarrow> accounted env ready (ready'(c := q)) (new @ [s])"
  using assms by (auto simp: accounted_def)

definition sched_inv :: "inst_env \<Rightarrow> nat \<Rightarrow> issue_state \<Rightarrow> sched_conf \<Rightarrow> bool" where
  "sched_inv env width st0 = (\<lambda>(passed, rest, n, st).
     lists_ok env (rls st) (passed @ rest) \<and> pools_grow st0 st \<and> n \<le> width
     \<and> (\<exists>new. setIssued_calls st = setIssued_calls st0 @ new \<and> length new = n \<and> sorted new
          \<and> (\<forall>i \<in> set new. \<not> isSquashedI env i) \<and> (\<forall>i \<in> set new. \<forall>e \<in> set rest. i \<le> snd e)
          \<and> accounted env (readyInsts (rls st0)) (readyInsts (rls st)) new)
     \<and> (\<forall>(c, s) \<in> set passed. \<not> isSquashedI env s \<and> exhausted (fuPools st (iqOf env s)) c))"

definition sched_load :: "sched_conf \<Rightarrow> nat" where
  "sched_load = (\<lambda>(passed, rest, n, st). (\<Sum>e \<leftarrow> rest. length (readyInsts (rls st) (fst e))) + length rest)"

lemma sum_list_order_move: "sum_list (map f (order_move e xs)) = (f e + sum_list (map f xs) :: nat)"
  by (induction xs) auto

lemma length_order_move [simp]: "length (order_move e xs) = Suc (length xs)" by (induction xs) auto

lemma retire_top_load:
  assumes "c \<notin> fst ` set after" "readyInsts rl c = s # q" "retire_top c after rl = (after', rl')"
  shows "(\<Sum>e \<leftarrow> after'. length (readyInsts rl' (fst e))) + length after'
    < (\<Sum>e \<leftarrow> (c, s) # after. length (readyInsts rl (fst e))) + length ((c, s) # after)"
proof -
  have same: "(\<Sum>e \<leftarrow> after. length (((readyInsts rl)(c := q)) (fst e))) = (\<Sum>e \<leftarrow> after. length (readyInsts rl (fst e)))"
    using assms(1) by (intro arg_cong [of _ _ sum_list] map_cong refl) auto
  show ?thesis using assms(2,3) same by (cases q) (auto simp: retire_top_def Let_def sum_list_order_move)
qed

lemma sched_invI:
  assumes "lists_ok env (rls st) (passed @ rest)" "pools_grow st0 st" "length new \<le> width"
    "setIssued_calls st = setIssued_calls st0 @ new" "sorted new" "\<forall>i \<in> set new. \<not> isSquashedI env i"
    "\<forall>i \<in> set new. \<forall>e \<in> set rest. i \<le> snd e" "accounted env (readyInsts (rls st0)) (readyInsts (rls st)) new"
    "\<forall>(c, s) \<in> set passed. \<not> isSquashedI env s \<and> exhausted (fuPools st (iqOf env s)) c"
  shows "sched_inv env width st0 (passed, rest, length new, st)"
  unfolding sched_inv_def using assms by (intro case_prodI) blast

lemma sched_invE:
  assumes "sched_inv env width st0 (passed, (c, s) # after, n, st)"
  obtains new where "lists_ok env (rls st) (passed @ (c, s) # after)" "pools_grow st0 st" "length new = n" "n \<le> width"
    "setIssued_calls st = setIssued_calls st0 @ new" "sorted new" "\<forall>i \<in> set new. \<not> isSquashedI env i"
    "\<forall>i \<in> set new. i \<le> s" "accounted env (readyInsts (rls st0)) (readyInsts (rls st)) new"
    "\<forall>(c, s) \<in> set passed. \<not> isSquashedI env s \<and> exhausted (fuPools st (iqOf env s)) c" "opClassOf env s = c"
proof -
  have "opClassOf env s = c" if "lists_ok env (rls st) (passed @ (c, s) # after)"
    using lists_okD(3) [OF that, of s c] lists_ok_current(1) [OF that] by (metis list.set_intros(1))
  then show thesis using assms that by (auto simp: sched_inv_def)
qed

lemma passed_grow:
  assumes "\<forall>(c, s) \<in> set passed. \<not> isSquashedI env s \<and> exhausted (fuPools st (iqOf env s)) c" "pools_grow st st'"
  shows "\<forall>(c, s) \<in> set passed. \<not> isSquashedI env s \<and> exhausted (fuPools st' (iqOf env s)) c"
  using assms(1) exhausted_grow [OF _ assms(2)] by auto

text \<open>The three ways a round can end.\<close>

lemma sched_inv_dropped:
  assumes inv: "sched_inv env width st0 (passed, (c, s) # after, n, st)" and sq: "isSquashedI env s"
    and r: "retire_top c after (rls st) = (after', rl)" and st': "rls st' = rl" "fuPools st' = fuPools st"
    "setIssued_calls st' = setIssued_calls st"
  shows "sched_inv env width st0 (passed, after', n, st')"
proof -
  obtain new where new: "lists_ok env (rls st) (passed @ (c, s) # after)" "pools_grow st0 st" "length new = n" "n \<le> width"
    "setIssued_calls st = setIssued_calls st0 @ new" "sorted new" "\<forall>i \<in> set new. \<not> isSquashedI env i"
    "\<forall>i \<in> set new. i \<le> s" "accounted env (readyInsts (rls st0)) (readyInsts (rls st)) new"
    "\<forall>(c, s) \<in> set passed. \<not> isSquashedI env s \<and> exhausted (fuPools st (iqOf env s)) c" "opClassOf env s = c"
    by (rule sched_invE [OF inv])
  note t = retire_top_ok [OF new(1) r]
  have "sched_inv env width st0 (passed, after', length new, st')"
  proof (rule sched_invI)
    show "accounted env (readyInsts (rls st0)) (readyInsts (rls st')) new"
      using accounted_pop(1) [OF new(9) lists_ok_current(1) [OF new(1)] new(11) sq] st'(1) t(2) by simp
    show "\<forall>i \<in> set new. \<forall>e \<in> set after'. i \<le> snd e" using new(8) t(3) le_trans by blast
    show "pools_grow st0 st'" using new(2) st'(2) by (simp add: pools_grow_def)
  qed (use new t(1) st' in simp_all)
  then show ?thesis by (simp add: new(3))
qed

lemma sched_inv_issued:
  assumes inv: "sched_inv env width st0 (passed, (c, s) # after, n, st)" and n: "n < width" and sq: "\<not> isSquashedI env s"
    and r: "retire_top c after (rls st) = (after', rl)" and st': "rls st' = rl" "pools_grow st st'"
    "setIssued_calls st' = setIssued_calls st @ [s]"
  shows "sched_inv env width st0 (passed, after', Suc n, st')"
proof -
  obtain new where new: "lists_ok env (rls st) (passed @ (c, s) # after)" "pools_grow st0 st" "length new = n" "n \<le> width"
    "setIssued_calls st = setIssued_calls st0 @ new" "sorted new" "\<forall>i \<in> set new. \<not> isSquashedI env i"
    "\<forall>i \<in> set new. i \<le> s" "accounted env (readyInsts (rls st0)) (readyInsts (rls st)) new"
    "\<forall>(c, s) \<in> set passed. \<not> isSquashedI env s \<and> exhausted (fuPools st (iqOf env s)) c" "opClassOf env s = c"
    by (rule sched_invE [OF inv])
  note t = retire_top_ok [OF new(1) r]
  have "sched_inv env width st0 (passed, after', length (new @ [s]), st')"
  proof (rule sched_invI)
    show "accounted env (readyInsts (rls st0)) (readyInsts (rls st')) (new @ [s])"
      using accounted_pop(2) [OF new(9) lists_ok_current(1) [OF new(1)] new(11) sq] st'(1) t(2) by simp
    have "\<forall>i \<in> set new. \<forall>e \<in> set after'. i \<le> snd e" using new(8) t(3) le_trans by blast
    then show "\<forall>i \<in> set (new @ [s]). \<forall>e \<in> set after'. i \<le> snd e" using t(3) by simp
    show "pools_grow st0 st'" by (rule pools_grow_trans [OF new(2) st'(2)])
    show "\<forall>(c, s) \<in> set passed. \<not> isSquashedI env s \<and> exhausted (fuPools st' (iqOf env s)) c"
      by (rule passed_grow [OF new(10) st'(2)])
  qed (use new n sq t(1) st'(1,3) in \<open>simp_all add: sorted_append\<close>)
  then show ?thesis by (simp add: new(3))
qed

lemma sched_inv_passed:
  assumes inv: "sched_inv env width st0 (passed, (c, s) # after, n, st)" and sq: "\<not> isSquashedI env s"
    and st': "rls st' = rls st" "pools_grow st st'" "setIssued_calls st' = setIssued_calls st" "exhausted (fuPools st' (iqOf env s)) c"
  shows "sched_inv env width st0 (passed @ [(c, s)], after, n, st')"
  using inv sq st' pools_grow_trans [OF _ st'(2)] by (auto simp: sched_inv_def intro: exhausted_grow [OF _ st'(2)])

lemma sched_step_spec:
  assumes inv: "sched_inv env width st0 (passed, (c, s) # after, n, st)" and n: "n < width"
  shows "\<exists>k. sched_step env c s passed after n st = Some k \<and> sched_inv env width st0 k
    \<and> sched_load k < sched_load (passed, (c, s) # after, n, st)"
proof -
  have ok: "lists_ok env (rls st) (passed @ (c, s) # after)" and pools: "\<forall>q. pool_ok (fuPools st q)"
    using inv by (simp_all add: sched_inv_def pools_grow_def)
  note cur = lists_ok_current [OF ok]
  obtain q where q: "readyInsts (rls st) c = s # q" using cur(1) by blast
  obtain after' rl where r: "retire_top c after (rls st) = (after', rl)" by (cases "retire_top c after (rls st)")
  note load = retire_top_load [OF cur(3,1) r]
  define st1 where "st1 = st\<lparr>instQueueReads := tally (kind_of env s) (instQueueReads st)\<rparr>"
  show ?thesis
  proof (cases "isSquashedI env s")
    case True
    let ?st = "st1\<lparr>rls := rl, squashedInstsIssued := squashedInstsIssued st1 + 1\<rparr>"
    have "sched_step env c s passed after n st = Some (passed, after', n, ?st)"
      using q r True by (simp add: sched_step_def Let_def st1_def)
    moreover have "sched_inv env width st0 (passed, after', n, ?st)"
      by (rule sched_inv_dropped [OF inv True r]) (simp_all add: st1_def)
    ultimately show ?thesis using load by (simp add: sched_load_def)
  next
    case False
    obtain u lat st2 where u: "try_unit env s c st1 = Some (u, lat, st2)" "pools_grow st1 st2" "rls st2 = rls st1"
      "setIssued_calls st2 = setIssued_calls st1"
      "if u = NoFreeFU then c \<noteq> 0 \<and> exhausted (fuPools st2 (iqOf env s)) c else granted env s u lat st2"
      using try_unit_spec [of st1 env s c] pools by (auto simp: st1_def)
    have grow2: "pools_grow st st2" using u(2) by (simp add: pools_grow_def st1_def)
    show ?thesis
    proof (cases "u = NoFreeFU")
      case True
      let ?st = "st2\<lparr>statFuBusy := tally c (statFuBusy st2)\<rparr>"
      have "sched_step env c s passed after n st = Some (passed @ [(c, s)], after, n, ?st)"
        using q False u(1) True by (simp add: sched_step_def Let_def st1_def)
      moreover have "sched_inv env width st0 (passed @ [(c, s)], after, n, ?st)"
        by (rule sched_inv_passed [OF inv False]) (use u(3-5) True grow2 in \<open>simp_all add: st1_def pools_grow_def\<close>)
      ultimately show ?thesis using u(3) by (simp add: sched_load_def st1_def)
    next
      case free: False
      obtain st3 where e: "start_exec env s c u lat st2 = Some st3" "pools_grow st2 st3" "rls st3 = rls st2"
        "setIssued_calls st3 = setIssued_calls st2"
        using start_exec_spec [of st2 env s u lat c] u(2,5) free pools_grow_ok [OF u(2)] by auto
      let ?st = "finish_issue env s c (st3\<lparr>rls := rl\<rparr>)"
      have "sched_step env c s passed after n st = Some (passed, after', Suc n, ?st)"
        using q False free u(1,3) e(1,3) r by (simp add: sched_step_def Let_def st1_def)
      moreover have "sched_inv env width st0 (passed, after', Suc n, ?st)"
        by (rule sched_inv_issued [OF inv n False r])
          (use u(4) e(2,4) pools_grow_trans [OF grow2 e(2)] in \<open>simp_all add: finish_issue_def st1_def pools_grow_def Let_def\<close>)
      moreover have "rls ?st = rl" by (simp add: finish_issue_def Let_def)
      ultimately show ?thesis using load by (simp add: sched_load_def)
    qed
  qed
qed

lemma sched_loop_spec:
  assumes "sched_inv env width st0 k"
  shows "\<exists>passed rest n st. sched_loop env width k = Some (passed, rest, n, st)
    \<and> sched_inv env width st0 (passed, rest, n, st) \<and> (rest = [] \<or> n = width)"
  using assms
proof (induction "sched_load k" arbitrary: k rule: less_induct)
  case less
  obtain passed rest n st where k: "k = (passed, rest, n, st)" by (cases k)
  show ?case
  proof (cases "rest = [] \<or> n = width")
    case True
    then have "sched_loop env width k = Some k" unfolding k by (subst sched_loop.simps) (auto split: list.splits)
    with less.prems True show ?thesis unfolding k by blast
  next
    case False
    then obtain c s after where rest: "rest = (c, s) # after" by (cases rest) auto
    have n: "n < width" using less.prems False by (auto simp: k sched_inv_def)
    obtain k' where k': "sched_step env c s passed after n st = Some k'" "sched_inv env width st0 k'" "sched_load k' < sched_load k"
      using sched_step_spec [OF less.prems [unfolded k rest] n] unfolding k rest by blast
    have "sched_loop env width k = sched_loop env width k'" unfolding k rest
      by (subst sched_loop.simps) (simp add: n k'(1))
    with less.hyps [OF k'(3,2)] show ?thesis by simp
  qed
qed

subsection \<open>The drains\<close>

definition due :: "inst_env \<Rightarrow> inst_id list \<Rightarrow> inst_id list" where
  "due env = filter (\<lambda>i. translationCompleted env i \<or> isSquashedI env i)"

lemma find_remove1: "find P xs = Some i \<Longrightarrow> filter P xs = i # filter P (remove1 i xs)"
  by (induction xs) (auto simp: find_Some_iff split: if_splits)

text \<open>A drain moves instructions into the ready queues and touches nothing else the loop uses.\<close>

definition drained :: "inst_env \<Rightarrow> inst_id list \<Rightarrow> issue_state \<Rightarrow> issue_state \<Rightarrow> bool" where
  "drained env moved st st' \<longleftrightarrow> fuPools st' = fuPools st \<and> setIssued_calls st' = setIssued_calls st
     \<and> (lists_ok env (rls st) (listOrder (rls st)) \<longrightarrow> lists_ok env (rls st') (listOrder (rls st')))
     \<and> (\<forall>c. mset (readyInsts (rls st') c) = mset (readyInsts (rls st) c) + mset (filter (\<lambda>i. opClassOf env i = c) moved))"

lemma drained_one:
  assumes "drained env moved (addReadyMemInst env i st1) st'" "rls st1 = rls st" "fuPools st1 = fuPools st"
    "setIssued_calls st1 = setIssued_calls st"
  shows "drained env (i # moved) st st'"
  using assms lists_ok_push [of env "rls st" i "opClassOf env i"] by (auto simp: drained_def addReadyMemInst_def)

lemma drain_deferred_spec:
  "drained env (due env (deferredMemInsts st)) st (drain_deferred env st) \<and> retryMemInsts (drain_deferred env st) = retryMemInsts st"
proof (induction env st rule: drain_deferred.induct)
  case (1 env st)
  let ?P = "\<lambda>i. translationCompleted env i \<or> isSquashedI env i"
  show ?case
  proof (cases "find ?P (deferredMemInsts st)")
    case None
    then have "due env (deferredMemInsts st) = []" by (auto simp: due_def find_None_iff filter_empty_conv)
    moreover have "drain_deferred env st = st"
      by (subst drain_deferred.simps) (simp add: getDeferredMemInstToExecute_def None)
    ultimately show ?thesis by (simp add: drained_def)
  next
    case (Some i)
    let ?st = "st\<lparr>deferredMemInsts := remove1 i (deferredMemInsts st)\<rparr>"
    have g: "getDeferredMemInstToExecute env st = (Some i, ?st)" using Some by (simp add: getDeferredMemInstToExecute_def)
    have d: "drain_deferred env st = drain_deferred env (addReadyMemInst env i ?st)"
      by (subst drain_deferred.simps) (simp add: g)
    have "due env (deferredMemInsts st) = i # due env (deferredMemInsts (addReadyMemInst env i ?st))"
      using find_remove1 [OF Some] by (simp add: due_def addReadyMemInst_def)
    then show ?thesis using "1.IH" [OF g [symmetric]] drained_one [of env _ i ?st _ st] unfolding d
      by (simp add: addReadyMemInst_def)
  qed
qed

lemma drain_blocked_spec: "drained env (retryMemInsts st) st (drain_blocked env st)"
proof (induction env st rule: drain_blocked.induct)
  case (1 env st)
  show ?case
  proof (cases "retryMemInsts st")
    case Nil
    then have "drain_blocked env st = st" by (simp add: drain_blocked.simps [of env st] getBlockedMemInstToExecute_def)
    then show ?thesis using Nil by (simp add: drained_def)
  next
    case (Cons i rest)
    let ?st = "st\<lparr>retryMemInsts := rest\<rparr>"
    have g: "getBlockedMemInstToExecute st = (Some i, ?st)" using Cons by (simp add: getBlockedMemInstToExecute_def)
    have d: "drain_blocked env st = drain_blocked env (addReadyMemInst env i ?st)"
      by (subst drain_blocked.simps) (simp add: g)
    show ?thesis using "1.IH" [OF g [symmetric]] drained_one [of env _ i ?st _ st] Cons unfolding d
      by (simp add: addReadyMemInst_def)
  qed
qed

subsection \<open>Issue in age order\<close>

text \<open>The instructions of a class a call of the scheduler can choose from.\<close>

definition candidates :: "inst_env \<Rightarrow> issue_state \<Rightarrow> op_class \<Rightarrow> inst_id list" where
  "candidates env st c = readyInsts (rls st) c
     @ filter (\<lambda>i. opClassOf env i = c) (due env (deferredMemInsts st) @ retryMemInsts st)"

text \<open>C25: issue in age order.  From well-formed ready queues and pools the scheduler returns, with
  well-formed ones.  What it issues is in age order, not squashed, and at most as much as the issue
  width; the other live candidates of every class, in their numbers, are still queued.  A class is
  passed over, with an issue slot left or for a younger instruction, only if every unit that could
  execute its oldest instruction is busy.\<close>

theorem issue_oldest_first:
  assumes "lists_ok env (rls st) (listOrder (rls st))" "\<forall>q. pool_ok (fuPools st q)"
  shows "\<exists>n st' new. scheduleReadyInsts env width st = Some (n, st')
    \<and> lists_ok env (rls st') (listOrder (rls st')) \<and> (\<forall>q. pool_ok (fuPools st' q))
    \<and> setIssued_calls st' = setIssued_calls st @ new \<and> length new = n \<and> n \<le> width \<and> sorted new
    \<and> (\<forall>i \<in> set new. \<not> isSquashedI env i)
    \<and> (\<forall>c. mset (filter (\<lambda>i. \<not> isSquashedI env i) (candidates env st c)) =
         mset (filter (\<lambda>i. \<not> isSquashedI env i) (readyInsts (rls st') c)) + mset (filter (\<lambda>i. opClassOf env i = c) new))
    \<and> (\<forall>c t ts. readyInsts (rls st') c = t # ts \<and> (n < width \<or> (\<exists>j \<in> set new. t < j))
         \<longrightarrow> exhausted (fuPools st' (iqOf env t)) c)"
proof -
  define st0 where "st0 = drain_blocked env (drain_deferred env st)"
  have d: "drained env (due env (deferredMemInsts st)) st (drain_deferred env st)"
    "drained env (retryMemInsts st) (drain_deferred env st) st0"
    using drain_deferred_spec [of env st] drain_blocked_spec [of env "drain_deferred env st"] by (simp_all add: st0_def)
  have st0: "lists_ok env (rls st0) (listOrder (rls st0))" "fuPools st0 = fuPools st" "setIssued_calls st0 = setIssued_calls st"
    "mset (readyInsts (rls st0) c) = mset (candidates env st c)" for c
    using d assms(1) by (simp_all add: drained_def candidates_def)
  have "sched_inv env width st0 ([], listOrder (rls st0), length ([] :: inst_id list), st0)"
    by (rule sched_invI) (use st0 assms(2) in \<open>simp_all add: accounted_start pools_grow_start\<close>)
  then have "sched_inv env width st0 ([], listOrder (rls st0), 0, st0)" by simp
  from sched_loop_spec [OF this] obtain passed rest n st1 where
    l: "sched_loop env width ([], listOrder (rls st0), 0, st0) = Some (passed, rest, n, st1)"
    and inv: "sched_inv env width st0 (passed, rest, n, st1)" and stop: "rest = [] \<or> n = width" by blast
  let ?st = "st1\<lparr>rls := (rls st1)\<lparr>listOrder := passed @ rest\<rparr>, instsIssued := instsIssued st1 + n\<rparr>"
  obtain new where new: "setIssued_calls st1 = setIssued_calls st0 @ new" "length new = n" "sorted new"
    "\<forall>i \<in> set new. \<not> isSquashedI env i" "\<forall>i \<in> set new. \<forall>e \<in> set rest. i \<le> snd e"
    "accounted env (readyInsts (rls st0)) (readyInsts (rls st1)) new"
    using inv by (auto simp: sched_inv_def)
  have ok: "lists_ok env (rls st1) (passed @ rest)" "n \<le> width" "\<forall>q. pool_ok (fuPools st1 q)"
    "\<forall>(c, s) \<in> set passed. exhausted (fuPools st1 (iqOf env s)) c"
    using inv by (auto simp: sched_inv_def pools_grow_def)
  have over: "exhausted (fuPools st1 (iqOf env t)) c"
    if "readyInsts (rls st1) c = t # ts" "n < width \<or> (\<exists>j \<in> set new. t < j)" for c t ts
  proof -
    have "c \<in> fst ` set (passed @ rest)" using lists_okD(5) [OF ok(1), of c] that(1) by simp
    then obtain s where s: "(c, s) \<in> set (passed @ rest)" by force
    then have "s = t" using lists_okD(6) [OF ok(1) s] that(1) by simp
    moreover have "(c, s) \<notin> set rest" using that(2) stop new(5) \<open>s = t\<close> by fastforce
    ultimately show ?thesis using s ok(4) by auto
  qed
  have acct: "mset (filter (\<lambda>i. \<not> isSquashedI env i) (candidates env st c)) =
    mset (filter (\<lambda>i. \<not> isSquashedI env i) (readyInsts (rls st1) c)) + mset (filter (\<lambda>i. opClassOf env i = c) new)" for c
    using new(6) unfolding accounted_def mset_filter st0(4) by blast
  have "scheduleReadyInsts env width st = Some (n, ?st)" using l by (simp add: scheduleReadyInsts_def Let_def st0_def)
  moreover have "lists_ok env (rls ?st) (listOrder (rls ?st))" using ok(1) by (simp add: lists_ok_def)
  ultimately show ?thesis using new(1-4) ok(2,3) acct over st0(3)
    by (intro exI [of _ n] exI [of _ ?st] exI [of _ new]) simp
qed

definition demo_env :: inst_env where
  "demo_env = \<lparr>opClassOf = (\<lambda>i. if i = 3 then 2 else 1), isSquashedI = (\<lambda>i. i = 4), isMemRefI = (\<lambda>_. False),
     isFloatingI = (\<lambda>_. False), isVectorI = (\<lambda>_. False), translationCompleted = (\<lambda>_. False), iqOf = (\<lambda>_. 0)\<rparr>"

definition demo_issue :: "fu_pool \<Rightarrow> issue_state" where
  "demo_issue p = \<lparr>rls = \<lparr>readyInsts = (\<lambda>c. if c = 1 then [4, 5, 7] else if c = 2 then [3] else []),
       listOrder = [(2, 3), (1, 4)], queueOnList = (\<lambda>c. c = 1 \<or> c = 2)\<rparr>,
     fuPools = (\<lambda>_. p), instsToExecute = [], fuCompletions = [], wbOutstanding = 0, noCapableFU = (\<lambda>_. False),
     setIssued_calls = [], clearInIQ_calls = [], memIssue_calls = [], deferredMemInsts = [], blockedMemInsts = [],
     retryMemInsts = [9], instQueueReads = (\<lambda>_. 0), aluAccesses = (\<lambda>_. 0), squashedInstsIssued = 0,
     statFuBusy = (\<lambda>_. 0), issuedInstType = (\<lambda>_. 0), instsIssued = 0\<rparr>"

theorem issue_oldest_first_witness:
  "\<exists>p n st'. FUPool demo_fu_descs = Some p \<and> scheduleReadyInsts demo_env 2 (demo_issue p) = Some (n, st')
     \<and> n \<le> 2 \<and> length (setIssued_calls st') = n \<and> sorted (setIssued_calls st')
     \<and> 4 \<notin> set (setIssued_calls st') \<and> lists_ok demo_env (rls st') (listOrder (rls st'))"
proof -
  obtain p where p: "FUPool demo_fu_descs = Some p"
    by (simp add: FUPool_def demo_fu_descs_def add_desc_def add_op_def addCapability_def addFU_def empty_pool_def
        new_unit_def Let_def)
  have "\<forall>d \<in> set demo_fu_descs. distinct (map od_opClass (fd_ops d))" by (simp add: demo_fu_descs_def)
  then have "\<forall>q. pool_ok (fuPools (demo_issue p) q)" using FUPool_ok [OF p] by (simp add: demo_issue_def)
  moreover have "lists_ok demo_env (rls (demo_issue p)) (listOrder (rls (demo_issue p)))"
    by (rule lists_okI) (auto simp: demo_issue_def demo_env_def split: if_splits)
  ultimately obtain n st' new where "scheduleReadyInsts demo_env 2 (demo_issue p) = Some (n, st')"
    "lists_ok demo_env (rls st') (listOrder (rls st'))" "setIssued_calls st' = setIssued_calls (demo_issue p) @ new"
    "length new = n" "n \<le> 2" "sorted new" "\<forall>i \<in> set new. \<not> isSquashedI demo_env i"
    using issue_oldest_first [of demo_env "demo_issue p" 2] by blast
  with p show ?thesis by (intro exI [of _ p] exI [of _ n] exI [of _ st']) (auto simp: demo_issue_def demo_env_def)
qed

end
