(* ===== verification/Wake.thy ===== *)
theory Wake
  imports Rob_Head Ready_List
begin

text \<open>
  The wakeup of the issue queue (\<open>InstructionQueue::wakeDependents\<close>) with its dependency graph, and
  \<open>CHAOSIQ\<close>, which hooks it to omit or to defer a wakeup and otherwise polls the head of the reorder
  buffer.  An instruction is its sequence number, a register its flat index.  Of the memory dependence
  unit only the calls made to it are kept.  A failed assertion is \<open>None\<close>, and so is a wakeup loop
  that never ends.
\<close>

subsection \<open>The injector\<close>

datatype iq_mode = SrcReadyBitFlip | TagSub | WakePhase | WakeOmit
datatype hook_action = HookNone | HookOmit | HookDefer

record iq_inj = poller +
  iq_fi_mode :: iq_mode
  target_src_idx :: int
  iq_fault_mask :: u64
  iq_num_bits :: int
  pending_wakeups :: "(inst_id \<times> nat) list"
  iq_numFaultsInjected :: nat
  numSrcReadyBitFlips :: nat
  numTagSub :: nat
  iq_numLegalityRejects :: nat

definition iq_stringToMode :: "string \<Rightarrow> iq_mode" where
  "iq_stringToMode s = (if s = ''tag_sub'' then TagSub else if s = ''wake_phase'' then WakePhase
     else if s = ''wake_omit'' then WakeOmit else SrcReadyBitFlip)"

text \<open>The second component is the new value of \<open>cpu->chaosIQ\<close>.\<close>

definition CHAOSIQ :: "bool \<Rightarrow> real \<Rightarrow> string \<Rightarrow> int \<Rightarrow> u64 \<Rightarrow> int \<Rightarrow> cycles \<Rightarrow> cycles \<Rightarrow> nat \<Rightarrow> rng
    \<Rightarrow> iq_inj option \<Rightarrow> ctor_error + iq_inj \<times> iq_inj option" where
  "CHAOSIQ is_o3 prob md src fmask bits fst_clk lst_clk cap r hook =
     (if \<not> is_o3 then Inl NotO3CPU
      else let s = \<lparr>probability = prob, first_clock = fst_clk, last_clock = lst_clk, max_faults = cap,
             faults_injected_count = 0, rng = r, attack_at = None, iq_fi_mode = iq_stringToMode md,
             target_src_idx = src, iq_fault_mask = fmask, iq_num_bits = bits, pending_wakeups = [],
             iq_numFaultsInjected = 0, numSrcReadyBitFlips = 0, numTagSub = 0, iq_numLegalityRejects = 0\<rparr>
           in Inr (s, if iq_fi_mode s = WakeOmit \<or> iq_fi_mode s = WakePhase then Some s else hook))"

definition iq_startup :: "tick \<Rightarrow> clocked \<Rightarrow> iq_inj \<Rightarrow> iq_inj" where
  "iq_startup now clk s =
     (if probability s = 0 then s
      else if iq_fi_mode s = WakeOmit \<or> iq_fi_mode s = WakePhase then s
      else poll_startup now clk s)"

definition iq_choose_src :: "nat \<Rightarrow> iq_inj \<Rightarrow> nat \<times> iq_inj" where
  "iq_choose_src nsrcs s =
     (if target_src_idx s < 0 \<or> int nsrcs \<le> target_src_idx s
      then (case uniform_nat 0 (nsrcs - 1) (rng s) of (i, r) \<Rightarrow> (i, s\<lparr>rng := r\<rparr>))
      else (nat (target_src_idx s), s))"

definition iq_count :: "iq_inj \<Rightarrow> iq_inj" where
  "iq_count s = count_fault (s\<lparr>iq_numFaultsInjected := iq_numFaultsInjected s + 1\<rparr>)"

definition iq_processFault :: "thread_id \<Rightarrow> iq_inj \<times> rob_lists \<Rightarrow> iq_inj \<times> rob_lists" where
  "iq_processFault tid = (\<lambda>(s, rob).
     let rej = (\<lambda>s. s\<lparr>iq_numLegalityRejects := iq_numLegalityRejects s + 1\<rparr>) in
     if cap_reached s then (s, rob)
     else (case readHeadInst tid rob of None \<Rightarrow> (rej s, rob)
       | Some h \<Rightarrow>
           let nsrcs = length (renamedSrcs h) in
           if nsrcs = 0 then (rej s, rob)
           else (case iq_choose_src nsrcs s of (i, s1) \<Rightarrow>
             if iq_fi_mode s = SrcReadyBitFlip then
               (iq_count (s1\<lparr>numSrcReadyBitFlips := numSrcReadyBitFlips s1 + 1\<rparr>),
                set_head tid (h\<lparr>readySrcs := (readySrcs h)[i := \<not> readySrcs h ! i]\<rparr>) rob)
             else if iq_fi_mode s = TagSub then
               (if nsrcs < 2 then (rej s1, rob)
                else let j = (i + 1) mod nsrcs in
                  (iq_count (s1\<lparr>numTagSub := numTagSub s1 + 1\<rparr>),
                   set_head tid (h\<lparr>renamedSrcs :=
                     ((renamedSrcs h)[i := renamedSrcs h ! j])[j := renamedSrcs h ! i]\<rparr>) rob))
             else (rej s1, rob))))"

definition iq_attackCheck :: "tick \<Rightarrow> clocked \<Rightarrow> tc_status option list \<Rightarrow> iq_inj \<times> rob_lists \<Rightarrow> iq_inj \<times> rob_lists" where
  "iq_attackCheck = poll_check iq_processFault"

definition hookWakeDependents :: "cycles \<Rightarrow> iq_inj \<Rightarrow> hook_action \<times> iq_inj" where
  "hookWakeDependents cur s =
     (if iq_fi_mode s \<noteq> WakeOmit \<and> iq_fi_mode s \<noteq> WakePhase then (HookNone, s)
      else if probability s = 0 then (HookNone, s)
      else if out_of_window cur s then (HookNone, s)
      else (case (if probability s < 1 then bernoulli s else (True, s)) of (hit, s1) \<Rightarrow>
        if \<not> hit then (HookNone, s1)
        else if cap_reached s1 then (HookNone, s1)
        else (if iq_fi_mode s = WakeOmit then HookOmit else HookDefer, iq_count s1)))"

definition recordDeferred :: "inst_id \<Rightarrow> nat \<Rightarrow> iq_inj \<Rightarrow> iq_inj" where
  "recordDeferred i reg s = s\<lparr>pending_wakeups := pending_wakeups s @ [(i, reg)]\<rparr>"

definition takePendingWakeups :: "iq_inj \<Rightarrow> (inst_id \<times> nat) list \<times> iq_inj" where
  "takePendingWakeups s = (pending_wakeups s, s\<lparr>pending_wakeups := []\<rparr>)"

subsection \<open>The issue queue\<close>

record iq_state =
  dependents_of :: "nat \<Rightarrow> inst_id list"
  producer_of :: "nat \<Rightarrow> inst_id option"
  readyRegs :: "inst_id \<Rightarrow> nat"
  numSrcRegs :: "inst_id \<Rightarrow> nat"
  canIssue :: "inst_id \<Rightarrow> bool"
  squashed_inst :: "inst_id \<Rightarrow> bool"
  memRef_inst :: "inst_id \<Rightarrow> bool"
  opClass_inst :: "inst_id \<Rightarrow> op_class"
  regsReady_calls :: "inst_id list"
  readyQ :: ready_lists
  iqScoreboard :: "nat \<Rightarrow> bool"
  fixed_reg :: "nat \<Rightarrow> bool"
  pinned_reg :: "nat \<Rightarrow> bool"
  pinsToComplete :: "nat \<Rightarrow> int"
  pinnedWritten :: "inst_id \<Rightarrow> bool"
  inIQ :: "inst_id \<Rightarrow> bool"
  memOpDone :: "inst_id \<Rightarrow> bool"
  memDepCompleted :: "inst_id list"
  fpWakeups :: nat
  vecWakeups :: nat
  intWakeups :: nat

definition dg_insert :: "nat \<Rightarrow> inst_id \<Rightarrow> iq_state \<Rightarrow> iq_state" where
  "dg_insert reg i w = w\<lparr>dependents_of := (dependents_of w)(reg := i # dependents_of w reg)\<rparr>"

definition dg_pop :: "nat \<Rightarrow> iq_state \<Rightarrow> inst_id option \<times> iq_state" where
  "dg_pop reg w = (case dependents_of w reg of [] \<Rightarrow> (None, w)
     | i # is \<Rightarrow> (Some i, w\<lparr>dependents_of := (dependents_of w)(reg := is)\<rparr>))"

definition dg_remove :: "nat \<Rightarrow> inst_id \<Rightarrow> iq_state \<Rightarrow> iq_state option" where
  "dg_remove reg i w =
     (if dependents_of w reg = [] then Some w
      else if i \<in> set (dependents_of w reg)
      then Some (w\<lparr>dependents_of := (dependents_of w)(reg := remove1 i (dependents_of w reg))\<rparr>) else None)"

definition markSrcRegReady :: "inst_id \<Rightarrow> iq_state \<Rightarrow> iq_state" where
  "markSrcRegReady i w =
     (let w1 = w\<lparr>readyRegs := (readyRegs w)(i := readyRegs w i + 1)\<rparr>
      in if readyRegs w1 i = numSrcRegs w1 i then w1\<lparr>canIssue := (canIssue w1)(i := True)\<rparr> else w1)"

definition addIfReady :: "inst_id \<Rightarrow> iq_state \<Rightarrow> iq_state" where
  "addIfReady i w =
     (if canIssue w i then
        if memRef_inst w i then w\<lparr>regsReady_calls := regsReady_calls w @ [i]\<rparr>
        else w\<lparr>readyQ := push_ready (opClass_inst w i) i (readyQ w)\<rparr>
      else w)"

text \<open>The instruction is with the scheduler or with the memory dependence unit.\<close>

definition released :: "inst_id \<Rightarrow> iq_state \<Rightarrow> bool" where
  "released i w \<longleftrightarrow> (if memRef_inst w i then i \<in> set (regsReady_calls w) else i \<in> set (readyInsts (readyQ w) (opClass_inst w i)))"

text \<open>The delivery of deferred wakeups at the head of \<open>wakeDependents\<close>.\<close>

fun deliver :: "(inst_id \<times> nat) list \<Rightarrow> iq_state \<Rightarrow> iq_state option" where
  "deliver [] w = Some w"
| "deliver ((i, reg) # ps) w =
     (case dg_remove reg i w of None \<Rightarrow> None
      | Some w1 \<Rightarrow> deliver ps (if \<not> squashed_inst w i then addIfReady i (markSrcRegReady i w1) else w1))"

text \<open>One round of the loop over the dependents of a register: the injector pointer, the queue, whether
  an entry was put back, and the number of dependents.\<close>

type_synonym wake_conf = "iq_inj option \<times> iq_state \<times> bool \<times> nat"

definition wake_round :: "cycles \<Rightarrow> nat \<Rightarrow> inst_id \<Rightarrow> wake_conf \<Rightarrow> inst_id option \<times> wake_conf" where
  "wake_round cur reg d = (\<lambda>(h, w, rq, n).
     let woken = (\<lambda>h. case dg_pop reg (addIfReady d (markSrcRegReady d w)) of (d', w') \<Rightarrow> (d', (h, w', rq, n + 1))) in
     (case h of None \<Rightarrow> woken None
      | Some s \<Rightarrow> (case hookWakeDependents cur s of (act, s1) \<Rightarrow>
          if act \<noteq> HookNone then
            (case dg_pop reg w of (d', w1) \<Rightarrow>
               (d', (Some (if act = HookDefer then recordDeferred d reg s1 else s1), dg_insert reg d w1, True, n + 1)))
          else woken (Some s1))))"

partial_function (option) wake_loop :: "cycles \<Rightarrow> nat \<Rightarrow> inst_id option \<Rightarrow> wake_conf \<Rightarrow> wake_conf option" where
  "wake_loop cur reg d c = (case d of None \<Rightarrow> Some c
     | Some i \<Rightarrow> wake_loop cur reg (fst (wake_round cur reg i c)) (snd (wake_round cur reg i c)))"

definition wake_dest :: "cycles \<Rightarrow> inst_id \<Rightarrow> nat \<Rightarrow> iq_inj option \<times> iq_state \<times> nat
    \<Rightarrow> (iq_inj option \<times> iq_state \<times> nat) option" where
  "wake_dest cur done_id reg = (\<lambda>(h, w, n).
     if fixed_reg w reg then Some (h, w, n)
     else
       let w1 = w\<lparr>pinsToComplete := (pinsToComplete w)(reg := pinsToComplete w reg - 1)\<rparr>;
           w2 = (if pinned_reg w1 reg then w1\<lparr>pinnedWritten := (pinnedWritten w1)(done_id := True)\<rparr> else w1)
       in if pinsToComplete w2 reg \<noteq> 0 then Some (h, w2, n)
          else (case dg_pop reg w2 of (d, w3) \<Rightarrow>
            (case wake_loop cur reg d (h, w3, False, n) of None \<Rightarrow> None
             | Some (h', w4, rq, n') \<Rightarrow>
                 if \<not> rq \<and> dependents_of w4 reg \<noteq> [] then None
                 else let w5 = (if rq then w4 else w4\<lparr>producer_of := (producer_of w4)(reg := None)\<rparr>)
                      in Some (h', w5\<lparr>iqScoreboard := (iqScoreboard w5)(reg := True)\<rparr>, n'))))"

fun wake_dests :: "cycles \<Rightarrow> inst_id \<Rightarrow> nat list \<Rightarrow> iq_inj option \<times> iq_state \<times> nat
    \<Rightarrow> (iq_inj option \<times> iq_state \<times> nat) option" where
  "wake_dests cur done_id [] c = Some c"
| "wake_dests cur done_id (reg # regs) c =
     (case wake_dest cur done_id reg c of None \<Rightarrow> None | Some c' \<Rightarrow> wake_dests cur done_id regs c')"

record completed_inst =
  comp_id :: inst_id
  comp_isFloating :: bool
  comp_isVector :: bool
  comp_isMemRef :: bool
  comp_isBarrier :: bool
  comp_dests :: "nat list"

definition count_wakeup :: "completed_inst \<Rightarrow> iq_state \<Rightarrow> iq_state" where
  "count_wakeup ci w = (if comp_isFloating ci then w\<lparr>fpWakeups := fpWakeups w + 1\<rparr>
     else if comp_isVector ci then w\<lparr>vecWakeups := vecWakeups w + 1\<rparr> else w\<lparr>intWakeups := intWakeups w + 1\<rparr>)"

definition complete_mem :: "completed_inst \<Rightarrow> iq_state \<Rightarrow> iq_state" where
  "complete_mem ci w =
     (let w1 = w\<lparr>memDepCompleted := memDepCompleted w @ [comp_id ci]\<rparr> in
      if comp_isMemRef ci then w1\<lparr>inIQ := (inIQ w1)(comp_id ci := False), memOpDone := (memOpDone w1)(comp_id ci := True)\<rparr>
      else if comp_isBarrier ci then w1 else w)"

definition wakeDependents :: "cycles \<Rightarrow> completed_inst \<Rightarrow> iq_inj option \<times> iq_state
    \<Rightarrow> (iq_inj option \<times> iq_state \<times> nat) option" where
  "wakeDependents cur ci = (\<lambda>(h, w).
     (case (case h of None \<Rightarrow> Some (None, w)
            | Some s \<Rightarrow> (case takePendingWakeups s of (ps, s1) \<Rightarrow> map_option (\<lambda>w1. (Some s1, w1)) (deliver ps w))) of
        None \<Rightarrow> None
      | Some (h1, w1) \<Rightarrow>
          if squashed_inst w1 (comp_id ci) then None
          else wake_dests cur (comp_id ci) (comp_dests ci) (h1, complete_mem ci (count_wakeup ci w1), 0)))"

subsection \<open>What the loop does\<close>

lemma hookWakeDependents_simps [simp]:
  "iq_fi_mode (snd (hookWakeDependents cur s)) = iq_fi_mode s"
  "max_faults (snd (hookWakeDependents cur s)) = max_faults s"
  "probability (snd (hookWakeDependents cur s)) = probability s"
  "first_clock (snd (hookWakeDependents cur s)) = first_clock s"
  "last_clock (snd (hookWakeDependents cur s)) = last_clock s"
  "faults_injected_count (snd (hookWakeDependents cur s)) =
     faults_injected_count s + (if fst (hookWakeDependents cur s) = HookNone then 0 else 1)"
  "pending_wakeups (snd (hookWakeDependents cur s)) = pending_wakeups s"
  by (simp_all add: hookWakeDependents_def iq_count_def count_fault_def case_prod_unfold bernoulli_def)

lemma hook_capped: "cap_reached s \<Longrightarrow> fst (hookWakeDependents cur s) = HookNone"
  by (auto simp: hookWakeDependents_def cap_reached_def case_prod_unfold)

lemma hook_certain:
  assumes "iq_fi_mode s = WakeOmit \<or> iq_fi_mode s = WakePhase" "1 \<le> probability s" "\<not> out_of_window cur s" "\<not> cap_reached s"
  shows "fst (hookWakeDependents cur s) = (if iq_fi_mode s = WakeOmit then HookOmit else HookDefer)"
  using assms by (auto simp: hookWakeDependents_def)

lemma iq_state_simps [simp]:
  "dependents_of (markSrcRegReady i w) = dependents_of w"
  "readyRegs (markSrcRegReady i w) = (readyRegs w)(i := readyRegs w i + 1)"
  "numSrcRegs (markSrcRegReady i w) = numSrcRegs w"
  "dependents_of (addIfReady i w) = dependents_of w" "readyRegs (addIfReady i w) = readyRegs w"
  "numSrcRegs (addIfReady i w) = numSrcRegs w" "canIssue (addIfReady i w) = canIssue w"
  "dependents_of (dg_insert reg i w) = (dependents_of w)(reg := i # dependents_of w reg)"
  "readyRegs (dg_insert reg i w) = readyRegs w"
  by (simp_all add: markSrcRegReady_def addIfReady_def dg_insert_def Let_def)

lemma dg_pop_simps [simp]:
  "readyRegs (snd (dg_pop reg w)) = readyRegs w"
  "dependents_of (snd (dg_pop reg w)) = (dependents_of w)(reg := tl (dependents_of w reg))"
  "fst (dg_pop reg w) = (case dependents_of w reg of [] \<Rightarrow> None | i # is \<Rightarrow> Some i)"
  by (auto simp: dg_pop_def fun_eq_iff split: list.split)

text \<open>The dependents still to be treated: the one in hand and the chain.\<close>

definition waiting :: "inst_id option \<Rightarrow> nat \<Rightarrow> iq_state \<Rightarrow> inst_id multiset" where
  "waiting d reg w = mset (case d of None \<Rightarrow> [] | Some i \<Rightarrow> [i]) + mset (dependents_of w reg)"

definition conf_iq :: "wake_conf \<Rightarrow> iq_state" where "conf_iq c = fst (snd c)"

text \<open>A round either wakes the instruction in hand or exchanges it with the next of the chain.\<close>

definition is_skip :: "cycles \<Rightarrow> wake_conf \<Rightarrow> bool" where
  "is_skip cur c \<longleftrightarrow> (case fst c of None \<Rightarrow> False | Some s \<Rightarrow> fst (hookWakeDependents cur s) \<noteq> HookNone)"

lemma wake_round_cases:
  assumes "wake_round cur reg i c = (d', c')"
  shows "if is_skip cur c
     then d' = (case dependents_of (conf_iq c) reg of [] \<Rightarrow> None | j # js \<Rightarrow> Some j)
       \<and> dependents_of (conf_iq c') = (dependents_of (conf_iq c))(reg := i # tl (dependents_of (conf_iq c) reg))
       \<and> readyRegs (conf_iq c') = readyRegs (conf_iq c) \<and> fst (snd (snd c'))
     else d' = (case dependents_of (conf_iq c) reg of [] \<Rightarrow> None | j # js \<Rightarrow> Some j)
       \<and> dependents_of (conf_iq c') = (dependents_of (conf_iq c))(reg := tl (dependents_of (conf_iq c) reg))
       \<and> readyRegs (conf_iq c') = (readyRegs (conf_iq c))(i := readyRegs (conf_iq c) i + 1)
       \<and> fst (snd (snd c')) = fst (snd (snd c))"
proof -
  obtain h w rq n where c: "c = (h, w, rq, n)" by (cases c)
  show ?thesis using assms unfolding c
    by (cases h) (auto simp: wake_round_def is_skip_def conf_iq_def case_prod_unfold Let_def)
qed

lemma wake_round_waiting:
  assumes "wake_round cur reg i c = (d', c')"
  shows "readyRegs (conf_iq c') k + count (waiting d' reg (conf_iq c')) k
      = readyRegs (conf_iq c) k + count (waiting (Some i) reg (conf_iq c)) k"
    and "r \<noteq> reg \<Longrightarrow> dependents_of (conf_iq c') r = dependents_of (conf_iq c) r"
    and "d' = None \<Longrightarrow> length (dependents_of (conf_iq c') reg) \<le> 1"
    and "d' = None \<Longrightarrow> dependents_of (conf_iq c') reg \<noteq> [] \<Longrightarrow> fst (snd (snd c'))"
  using wake_round_cases [OF assms]
  by (cases "dependents_of (conf_iq c) reg"; auto simp: waiting_def split: if_splits)+

text \<open>Nothing is lost and nothing woken twice: whenever the loop returns, every dependent has either
  been woken once more or is still in the chain, and at most one is.\<close>

lemma wake_loop_None: "wake_loop cur reg None c = Some c"
  by (subst wake_loop.simps) simp

lemma wake_loop_Some: "wake_round cur reg i c = (d1, c1) \<Longrightarrow> wake_loop cur reg (Some i) c = wake_loop cur reg d1 c1"
  by (subst wake_loop.simps) simp

lemma wake_loop_induct:
  assumes "wake_loop cur reg d c = Some c'"
    and stop: "\<And>c. Q None c c"
    and go: "\<And>i c d1 c1 c'. wake_round cur reg i c = (d1, c1) \<Longrightarrow> Q d1 c1 c' \<Longrightarrow> Q (Some i) c c'"
  shows "Q d c c'"
proof -
  have "cur = cur \<longrightarrow> reg = reg \<longrightarrow> Q d c c'"
  proof (rule wake_loop.raw_induct [where P = "\<lambda>cur' reg' d c c'. cur' = cur \<longrightarrow> reg' = reg \<longrightarrow> Q d c c'"])
    fix loop cur' reg' and d :: "inst_id option" and c c'
    assume IH: "\<And>cur' reg' d c c'. loop cur' reg' d c = Some c' \<Longrightarrow> cur' = cur \<longrightarrow> reg' = reg \<longrightarrow> Q d c c'"
      and eq: "(case d of None \<Rightarrow> Some c
        | Some i \<Rightarrow> loop cur' reg' (fst (wake_round cur' reg' i c)) (snd (wake_round cur' reg' i c))) = Some c'"
    show "cur' = cur \<longrightarrow> reg' = reg \<longrightarrow> Q d c c'"
    proof (intro impI)
      assume e: "cur' = cur" "reg' = reg"
      show "Q d c c'"
      proof (cases d)
        case None
        then show ?thesis using eq stop by simp
      next
        case (Some i)
        obtain d1 c1 where r: "wake_round cur reg i c = (d1, c1)" by (cases "wake_round cur reg i c")
        then have "loop cur reg d1 c1 = Some c'" using eq e Some by simp
        from IH [OF this] go [OF r] Some show ?thesis by simp
      qed
    qed
  qed (rule assms(1))
  then show ?thesis by simp
qed

definition wake_conserved :: "nat \<Rightarrow> inst_id option \<Rightarrow> wake_conf \<Rightarrow> wake_conf \<Rightarrow> bool" where
  "wake_conserved reg d c c' \<longleftrightarrow> (d = None \<longrightarrow> length (dependents_of (conf_iq c) reg) \<le> 1) \<longrightarrow>
      (\<forall>k. readyRegs (conf_iq c') k + count (mset (dependents_of (conf_iq c') reg)) k
        = readyRegs (conf_iq c) k + count (waiting d reg (conf_iq c)) k)
    \<and> (\<forall>r. r \<noteq> reg \<longrightarrow> dependents_of (conf_iq c') r = dependents_of (conf_iq c) r)
    \<and> length (dependents_of (conf_iq c') reg) \<le> 1"

lemma wake_loop_conserves: "wake_loop cur reg d c = Some c' \<Longrightarrow> wake_conserved reg d c c'"
proof (erule wake_loop_induct)
  show "wake_conserved reg None c c" for c by (simp add: wake_conserved_def waiting_def)
  show "wake_conserved reg (Some i) c c'" if "wake_round cur reg i c = (d1, c1)" "wake_conserved reg d1 c1 c'" for i c d1 c1 c'
    using wake_round_waiting [OF that(1)] that(2) unfolding wake_conserved_def by simp
qed

text \<open>The loop returns when no injector is attached, or when its faults are capped.\<close>

definition wake_fuel :: "inst_id option \<Rightarrow> nat \<Rightarrow> wake_conf \<Rightarrow> nat" where
  "wake_fuel d reg c = (if d = None then 0 else Suc (length (dependents_of (conf_iq c) reg)))
     + (case fst c of None \<Rightarrow> 0 | Some s \<Rightarrow> max_faults s - faults_injected_count s)"

definition wake_bounded :: "wake_conf \<Rightarrow> bool" where
  "wake_bounded c \<longleftrightarrow> (case fst c of None \<Rightarrow> True | Some s \<Rightarrow> max_faults s \<noteq> 0)"

lemma wake_round_hook:
  assumes "wake_round cur reg i c = (d', c')"
  shows "(case fst c of None \<Rightarrow> fst c' = None | Some s \<Rightarrow> \<exists>s'. fst c' = Some s' \<and> max_faults s' = max_faults s
      \<and> iq_fi_mode s' = iq_fi_mode s \<and> probability s' = probability s \<and> first_clock s' = first_clock s
      \<and> last_clock s' = last_clock s
      \<and> faults_injected_count s' = faults_injected_count s + (if is_skip cur c then 1 else 0)
      \<and> pending_wakeups s' = pending_wakeups s @ (if fst (hookWakeDependents cur s) = HookDefer then [(i, reg)] else []))"
proof -
  obtain h w rq n where c: "c = (h, w, rq, n)" by (cases c)
  show ?thesis using assms unfolding c
    by (cases h) (auto simp: wake_round_def is_skip_def case_prod_unfold Let_def recordDeferred_def split: if_splits)
qed

lemma wake_round_fuel:
  assumes "wake_round cur reg i c = (d', c')" "wake_bounded c"
  shows "wake_fuel d' reg c' < wake_fuel (Some i) reg c" "wake_bounded c'"
proof -
  have k: "faults_injected_count s < max_faults s" if "is_skip cur c" "fst c = Some s" for s
  proof (rule ccontr)
    assume "\<not> faults_injected_count s < max_faults s"
    then have "cap_reached s" using assms(2) that(2) by (simp add: wake_bounded_def cap_reached_def)
    then show False using hook_capped [of s cur] that by (simp add: is_skip_def)
  qed
  show "wake_bounded c'" using wake_round_hook [OF assms(1)] assms(2) by (auto simp: wake_bounded_def split: option.splits)
  show "wake_fuel d' reg c' < wake_fuel (Some i) reg c"
  proof (cases "fst c")
    case None
    then have "\<not> is_skip cur c" by (simp add: is_skip_def)
    then show ?thesis using wake_round_cases [OF assms(1)] wake_round_hook [OF assms(1)] None
      by (cases "dependents_of (conf_iq c) reg") (auto simp: wake_fuel_def)
  next
    case (Some s)
    then obtain s' where "fst c' = Some s'" "max_faults s' = max_faults s"
      "faults_injected_count s' = faults_injected_count s + (if is_skip cur c then 1 else 0)"
      using wake_round_hook [OF assms(1)] by auto
    then show ?thesis using wake_round_cases [OF assms(1)] Some k [of s]
      by (cases "dependents_of (conf_iq c) reg") (auto simp: wake_fuel_def split: if_splits)
  qed
qed

lemma wake_loop_returns: "wake_bounded c \<Longrightarrow> wake_loop cur reg d c \<noteq> None"
proof (induction "wake_fuel d reg c" arbitrary: d c rule: less_induct)
  case less
  show ?case
  proof (cases d)
    case None
    then show ?thesis by (simp only: wake_loop_None) simp
  next
    case (Some i)
    obtain d1 c1 where r: "wake_round cur reg i c = (d1, c1)" by (cases "wake_round cur reg i c")
    from less(1) [of d1 c1] wake_round_fuel [OF r less(2)] Some
    have "wake_loop cur reg d1 c1 \<noteq> None" by simp
    then show ?thesis unfolding Some wake_loop_Some [OF r] .
  qed
qed

text \<open>With certain faults and no cap, two dependents are exchanged for ever.\<close>

definition wake_stuck :: "cycles \<Rightarrow> inst_id option \<Rightarrow> nat \<Rightarrow> wake_conf \<Rightarrow> bool" where
  "wake_stuck cur d reg c \<longleftrightarrow> d \<noteq> None \<and> dependents_of (conf_iq c) reg \<noteq> []
     \<and> (\<exists>s. fst c = Some s \<and> (iq_fi_mode s = WakeOmit \<or> iq_fi_mode s = WakePhase) \<and> 1 \<le> probability s
          \<and> max_faults s = 0 \<and> \<not> out_of_window cur s)"

lemma wake_stuck_round:
  assumes "wake_round cur reg i c = (d', c')" "wake_stuck cur (Some i) reg c"
  shows "wake_stuck cur d' reg c'"
proof -
  obtain s where s: "fst c = Some s" "iq_fi_mode s = WakeOmit \<or> iq_fi_mode s = WakePhase" "1 \<le> probability s"
    "max_faults s = 0" "\<not> out_of_window cur s" using assms(2) by (auto simp: wake_stuck_def)
  have "is_skip cur c" using hook_certain [OF s(2,3,5)] s by (auto simp: is_skip_def cap_reached_def)
  then show ?thesis
    using wake_round_cases [OF assms(1)] wake_round_hook [OF assms(1)] s assms(2)
    by (cases "dependents_of (conf_iq c) reg") (auto simp: wake_stuck_def out_of_window_def)
qed

lemma wake_loop_stuck: "wake_loop cur reg d c = Some c' \<Longrightarrow> \<not> wake_stuck cur d reg c"
proof (erule wake_loop_induct)
  show "\<not> wake_stuck cur None reg c" for c by (simp add: wake_stuck_def)
  show "\<not> wake_stuck cur (Some i) reg c" if "wake_round cur reg i c = (d1, c1)" "\<not> wake_stuck cur d1 reg c1" for i c d1 c1
    using wake_stuck_round [OF that(1)] that(2) by blast
qed


subsection \<open>One fault\<close>

definition conf_capped :: "wake_conf \<Rightarrow> bool" where
  "conf_capped c \<longleftrightarrow> (\<exists>s. fst c = Some s \<and> cap_reached s)"

lemma capped_round:
  assumes "wake_round cur reg i c = (d', c')" "conf_capped c"
  shows "\<not> is_skip cur c \<and> conf_capped c' \<and> pending_wakeups (the (fst c')) = pending_wakeups (the (fst c))"
proof -
  obtain s where s: "fst c = Some s" "cap_reached s" using assms(2) by (auto simp: conf_capped_def)
  then have n: "fst (hookWakeDependents cur s) = HookNone" by (simp add: hook_capped)
  then have "\<not> is_skip cur c" using s by (simp add: is_skip_def)
  then show ?thesis using wake_round_hook [OF assms(1)] s n by (auto simp: conf_capped_def cap_reached_def)
qed

lemma capped_loop:
  assumes "wake_loop cur reg d c = Some c'" "conf_capped c" "d = None \<Longrightarrow> dependents_of (conf_iq c) reg = []"
  shows "dependents_of (conf_iq c') reg = [] \<and> conf_capped c'
    \<and> pending_wakeups (the (fst c')) = pending_wakeups (the (fst c))"
proof -
  define Q where "Q = (\<lambda>(d :: inst_id option) c c'. conf_capped c \<longrightarrow> (d = None \<longrightarrow> dependents_of (conf_iq c) reg = []) \<longrightarrow>
    dependents_of (conf_iq c') reg = [] \<and> conf_capped c'
    \<and> pending_wakeups (the (fst c')) = pending_wakeups (the (fst c)))"
  have "Q d c c'"
    using assms(1)
  proof (rule wake_loop_induct)
    show "Q None c c" for c by (simp add: Q_def)
    show "Q (Some i) c c'" if r: "wake_round cur reg i c = (d1, c1)" "Q d1 c1 c'" for i c d1 c1 c'
      using capped_round [OF r(1)] wake_round_cases [OF r(1)] r(2)
      by (auto simp: Q_def split: list.splits)
  qed
  then show ?thesis using assms(2,3) by (simp add: Q_def)
qed

text \<open>The first of two dependents is skipped with the last fault: it is woken all the same.\<close>

lemma one_fault_loop:
  assumes "h = Some s" "iq_fi_mode s = WakeOmit \<or> iq_fi_mode s = WakePhase" "1 \<le> probability s"
    "\<not> out_of_window cur s" "max_faults s = Suc (faults_injected_count s)"
    and "dependents_of w reg = b # rest" "a \<noteq> b" "a \<notin> set rest"
  shows "\<exists>s' w' n'. wake_loop cur reg (Some a) (h, w, False, n) = Some (Some s', w', True, n')
    \<and> dependents_of w' reg = [] \<and> readyRegs w' a = readyRegs w a + 1
    \<and> pending_wakeups s' = pending_wakeups s @ (if iq_fi_mode s = WakePhase then [(a, reg)] else [])"
proof -
  let ?c = "(h, w, False, n)"
  have nc: "\<not> cap_reached s" using assms(5) by (simp add: cap_reached_def)
  note hk = hook_certain [OF assms(2-4) nc]
  have sk: "is_skip cur ?c" using hk assms(1) by (simp add: is_skip_def)
  obtain d1 c1 where r: "wake_round cur reg a ?c = (d1, c1)" by (cases "wake_round cur reg a ?c")
  obtain s1 where s1: "fst c1 = Some s1" "max_faults s1 = max_faults s"
    "faults_injected_count s1 = Suc (faults_injected_count s)"
    "pending_wakeups s1 = pending_wakeups s @ (if iq_fi_mode s = WakePhase then [(a, reg)] else [])"
    using wake_round_hook [OF r] assms(1,2) sk hk by (auto split: if_splits)
  have w1: "d1 = Some b" "dependents_of (conf_iq c1) reg = a # rest" "readyRegs (conf_iq c1) = readyRegs w" "fst (snd (snd c1))"
    using wake_round_cases [OF r] sk assms(6) by (simp_all add: conf_iq_def)
  have cap: "conf_capped c1" using s1 assms(5) by (simp add: conf_capped_def cap_reached_def)
  have "wake_loop cur reg d1 c1 \<noteq> None"
    by (rule wake_loop_returns) (use s1 assms(5) in \<open>simp add: wake_bounded_def\<close>)
  then obtain c' where l: "wake_loop cur reg d1 c1 = Some c'" by auto
  obtain h' w' rq' n' where c': "c' = (h', w', rq', n')" by (cases c')
  have e: "dependents_of w' reg = []" "conf_capped c'" "pending_wakeups (the h') = pending_wakeups s1"
    using capped_loop [OF l cap] w1(1) s1(1) c' by (simp_all add: conf_iq_def)
  have rq: "rq'"
  proof -
    have "fst (snd (snd c1)) \<longrightarrow> fst (snd (snd c'))"
      using l by (rule wake_loop_induct) (use wake_round_cases in \<open>fastforce split: if_splits\<close>)+
    then show ?thesis using w1(4) c' by simp
  qed
  have "readyRegs w' a = readyRegs w a + 1"
    using wake_loop_conserves [OF l] w1(1-3) e(1) c' assms(7,8)
    by (auto simp: wake_conserved_def waiting_def conf_iq_def count_eq_zero_iff dest!: spec [of _ a])
  moreover obtain s' where "h' = Some s'" using e(2) c' by (auto simp: conf_capped_def)
  moreover have "wake_loop cur reg (Some a) ?c = Some c'" using wake_loop_Some [OF r] l by simp
  ultimately show ?thesis using e c' rq s1(4) by auto
qed

text \<open>C21: what a single wakeup fault does when the register has another dependent.  The omitted
  wakeup happens all the same, in the same call: the chain ends empty and the dependent has been
  marked once.  A deferred one is in addition kept in the list of pending wakeups, and delivering it
  at the next call marks the dependent a second time for the same register, so that an instruction
  still missing another source is handed over as ready.\<close>

theorem single_wakeup_fault:
  assumes "iq_fi_mode s = WakeOmit \<or> iq_fi_mode s = WakePhase" "1 \<le> probability s"
    "\<not> out_of_window cur s" "max_faults s = Suc (faults_injected_count s)" "pending_wakeups s = []"
    and "dependents_of w reg = b # rest" "a \<noteq> b" "a \<notin> set rest"
  shows "\<exists>s' w' n'. wake_loop cur reg (Some a) (Some s, w, False, n) = Some (Some s', w', True, n')
    \<and> dependents_of w' reg = [] \<and> readyRegs w' a = readyRegs w a + 1
    \<and> (iq_fi_mode s = WakeOmit \<longrightarrow> pending_wakeups s' = [])
    \<and> (iq_fi_mode s = WakePhase \<longrightarrow> pending_wakeups s' = [(a, reg)]
        \<and> (\<not> squashed_inst w' a \<and> numSrcRegs w' a = readyRegs w a + 2 \<longrightarrow>
           (\<exists>w2. deliver (pending_wakeups s') w' = Some w2 \<and> canIssue w2 a \<and> released a w2
             \<and> readyRegs w2 a = readyRegs w a + 2)))"
proof -
  obtain s' w' n' where l: "wake_loop cur reg (Some a) (Some s, w, False, n) = Some (Some s', w', True, n')"
    "dependents_of w' reg = []" "readyRegs w' a = readyRegs w a + 1"
    "pending_wakeups s' = (if iq_fi_mode s = WakePhase then [(a, reg)] else [])"
    using one_fault_loop [OF refl assms(1-4,6-8), of n] assms(5) by auto
  have "\<exists>w2. deliver [(a, reg)] w' = Some w2 \<and> canIssue w2 a \<and> released a w2
      \<and> readyRegs w2 a = readyRegs w a + 2"
    if "\<not> squashed_inst w' a" "numSrcRegs w' a = readyRegs w a + 2"
    using that l(2,3) by (simp add: dg_remove_def addIfReady_def markSrcRegReady_def released_def set_insort_key Let_def)
  then show ?thesis using l assms(1) by auto
qed

subsection \<open>Polling\<close>

lemma iq_choose_src_simps [simp]:
  "probability (snd (iq_choose_src n s)) = probability s" "first_clock (snd (iq_choose_src n s)) = first_clock s"
  "last_clock (snd (iq_choose_src n s)) = last_clock s" "max_faults (snd (iq_choose_src n s)) = max_faults s"
  "faults_injected_count (snd (iq_choose_src n s)) = faults_injected_count s"
  "attack_at (snd (iq_choose_src n s)) = attack_at s"
  by (simp_all add: iq_choose_src_def split: prod.splits)

lemma iq_count_simps [simp]:
  "probability (iq_count s) = probability s" "first_clock (iq_count s) = first_clock s"
  "last_clock (iq_count s) = last_clock s" "max_faults (iq_count s) = max_faults s"
  "faults_injected_count (iq_count s) = Suc (faults_injected_count s)" "attack_at (iq_count s) = attack_at s"
  by (simp_all add: iq_count_def)

interpretation iq_poll: poll_source iq_processFault
  by unfold_locales
    (auto simp: iq_processFault_def case_prod_unfold Let_def split: option.splits)

definition demo_iq :: "iq_mode \<Rightarrow> nat \<Rightarrow> iq_inj" where
  "demo_iq md cap = \<lparr>probability = 1, first_clock = 0, last_clock = 0, max_faults = cap, faults_injected_count = 0,
     rng = sconst 0, attack_at = None, iq_fi_mode = md, target_src_idx = - 1, iq_fault_mask = 0, iq_num_bits = 1,
     pending_wakeups = [], iq_numFaultsInjected = 0, numSrcReadyBitFlips = 0, numTagSub = 0,
     iq_numLegalityRejects = 0\<rparr>"

text \<open>Two instructions wait for register 5.\<close>

definition demo_queue :: iq_state where
  "demo_queue = \<lparr>dependents_of = (\<lambda>_. [])(5 := [2]), producer_of = (\<lambda>_. None), readyRegs = (\<lambda>_. 0),
     numSrcRegs = (\<lambda>_. 2), canIssue = (\<lambda>_. False), squashed_inst = (\<lambda>_. False), memRef_inst = (\<lambda>_. False), opClass_inst = (\<lambda>_. 1),
     regsReady_calls = [], readyQ = \<lparr>readyInsts = (\<lambda>_. []), listOrder = [], queueOnList = (\<lambda>_. False)\<rparr>,
     iqScoreboard = (\<lambda>_. False), fixed_reg = (\<lambda>_. False), pinned_reg = (\<lambda>_. False), pinsToComplete = (\<lambda>_. 1),
     pinnedWritten = (\<lambda>_. False), inIQ = (\<lambda>_. True), memOpDone = (\<lambda>_. False), memDepCompleted = [],
     fpWakeups = 0, vecWakeups = 0, intWakeups = 0\<rparr>"


theorem single_wakeup_fault_witness:
  "\<exists>s' w' n'. wake_loop 0 5 (Some 1) (Some (demo_iq WakePhase 1), demo_queue, False, 0) = Some (Some s', w', True, n')
     \<and> readyRegs w' 1 = 1 \<and> pending_wakeups s' = [(1, 5)]"
  using single_wakeup_fault [of "demo_iq WakePhase 1" 0 demo_queue 5 2 "[]" 1 0]
  by (auto simp: demo_iq_def out_of_window_def demo_queue_def)

end
