(* ===== verification/Free_List.thy ===== *)
theory Free_List
  imports Injector Rename_Stage
begin

text \<open>
  \<open>CHAOSFreeList\<close>: adds a register that is in use to the free list, so that a later renaming hands it
  out a second time.  What the injectors of the allocation state share comes first: the register-class
  selector and the view of the ISA, whose register classes and flattening are architecture code and
  therefore parameters.
\<close>

datatype reg_class_sel = SelInteger | SelFloatingPoint | SelVector

definition stringToRegClassSel :: "string \<Rightarrow> reg_class_sel" where
  "stringToRegClassSel s = (if s = ''floating_point'' then SelFloatingPoint
     else if s = ''vector'' then SelVector else SelInteger)"

definition sel_class :: "reg_class_sel \<Rightarrow> reg_class_type" where
  "sel_class sel = (if sel = SelFloatingPoint then FloatRegClass
     else if sel = SelVector then VecRegClass else IntRegClass)"

text \<open>The ISA object of a thread: the number of registers of a class, if it has the class, and the
  flattening of a register.  A thread without a context or without an ISA has none.\<close>

record isa_view =
  isa_numRegs :: "reg_class_type \<Rightarrow> nat option"
  isa_flatten :: "reg_id \<Rightarrow> reg_id"

definition flatten_ok :: "isa_view \<Rightarrow> bool" where
  "flatten_ok v \<longleftrightarrow> (\<forall>r. classValue (isa_flatten v r) = classValue r)"

datatype fl_mode = MarkFree | PopWrong

record fl_inj = poller +
  fl_fi_mode :: fl_mode
  fl_target_class :: reg_class_sel
  target_phys_idx :: int
  fl_numFaultsInjected :: nat
  numMarkFree :: nat
  numPopWrong :: nat
  fl_numLegalityRejects :: nat

definition fl_stringToMode :: "string \<Rightarrow> fl_mode" where
  "fl_stringToMode s = (if s = ''pop_wrong'' then PopWrong else MarkFree)"

definition CHAOSFreeList :: "bool \<Rightarrow> real \<Rightarrow> string \<Rightarrow> string \<Rightarrow> int \<Rightarrow> cycles \<Rightarrow> cycles \<Rightarrow> nat \<Rightarrow> rng
    \<Rightarrow> ctor_error + fl_inj" where
  "CHAOSFreeList is_o3 prob md cls idx fst_clk lst_clk cap r =
     (if \<not> is_o3 then Inl NotO3CPU
      else Inr \<lparr>probability = prob, first_clock = fst_clk, last_clock = lst_clk, max_faults = cap,
        faults_injected_count = 0, rng = r, attack_at = None, fl_fi_mode = fl_stringToMode md,
        fl_target_class = stringToRegClassSel cls, target_phys_idx = idx, fl_numFaultsInjected = 0,
        numMarkFree = 0, numPopWrong = 0, fl_numLegalityRejects = 0\<rparr>)"

definition fl_startup :: "tick \<Rightarrow> clocked \<Rightarrow> fl_inj \<Rightarrow> fl_inj" where
  "fl_startup = poll_startup"

text \<open>The scan of the rename map for a mapped register that is not free: as many draws as there are
  architectural registers.\<close>

fun fl_scan :: "nat \<Rightarrow> nat \<Rightarrow> isa_view \<Rightarrow> reg_class_type \<Rightarrow> thread_id \<Rightarrow> rename_state \<Rightarrow> rng \<Rightarrow> reg_id option \<times> rng" where
  "fl_scan 0 n_arch isa c tid st r = (None, r)"
| "fl_scan (Suc tries) n_arch isa c tid st r =
     (case uniform_nat 0 (n_arch - 1) r of (cand, r1) \<Rightarrow>
        (case rat_lookup tid (isa_flatten isa \<lparr>classValue = c, regIdx = cand\<rparr>) st of
           None \<Rightarrow> fl_scan tries n_arch isa c tid st r1
         | Some pp \<Rightarrow> if \<not> isFree c pp st then (Some pp, r1) else fl_scan tries n_arch isa c tid st r1))"

definition fl_choose :: "nat \<Rightarrow> isa_view \<Rightarrow> thread_id \<Rightarrow> rename_state \<Rightarrow> fl_inj \<Rightarrow> reg_id option \<times> fl_inj" where
  "fl_choose n_arch isa tid st s =
     (let c = sel_class (fl_target_class s) in
      if 0 \<le> target_phys_idx s then (Some \<lparr>classValue = c, regIdx = nat (target_phys_idx s)\<rparr>, s)
      else (case fl_scan n_arch n_arch isa c tid st (rng s) of (t, r) \<Rightarrow> (t, s\<lparr>rng := r\<rparr>)))"

definition fl_pop :: "reg_class_type \<Rightarrow> fl_inj \<times> rename_state \<Rightarrow> fl_inj \<times> rename_state" where
  "fl_pop c = (\<lambda>(s, st). case fl_getReg c st of None \<Rightarrow> (s, st)
     | Some (_, st') \<Rightarrow> (s\<lparr>numPopWrong := numPopWrong s + 1\<rparr>, st'))"

definition fl_processFault :: "(thread_id \<Rightarrow> isa_view option) \<Rightarrow> thread_id
    \<Rightarrow> fl_inj \<times> rename_state \<Rightarrow> fl_inj \<times> rename_state" where
  "fl_processFault isas tid = (\<lambda>(s, st).
     if cap_reached s then (s, st)
     else (case isas tid of None \<Rightarrow> (s, st)
       | Some isa \<Rightarrow>
           let c = sel_class (fl_target_class s) in
           (case isa_numRegs isa c of None \<Rightarrow> (s, st)
            | Some n_arch \<Rightarrow>
                if n_arch = 0 then (s, st)
                else (case fl_choose n_arch isa tid st s of
                    (None, s1) \<Rightarrow> (s1\<lparr>fl_numLegalityRejects := fl_numLegalityRejects s1 + 1\<rparr>, st)
                  | (Some t, s1) \<Rightarrow>
                      if isFree c t st then (s1\<lparr>fl_numLegalityRejects := fl_numLegalityRejects s1 + 1\<rparr>, st)
                      else let s2 = s1\<lparr>numMarkFree := numMarkFree s1 + 1\<rparr>; st2 = fl_addReg t st in
                        (case (if fl_fi_mode s = PopWrong then fl_pop c (s2, st2) else (s2, st2)) of
                           (s3, st3) \<Rightarrow>
                             (count_fault (s3\<lparr>fl_numFaultsInjected := fl_numFaultsInjected s3 + 1\<rparr>), st3))))))"

definition fl_attackCheck :: "(thread_id \<Rightarrow> isa_view option) \<Rightarrow> tick \<Rightarrow> clocked \<Rightarrow> tc_status option list
    \<Rightarrow> fl_inj \<times> rename_state \<Rightarrow> fl_inj \<times> rename_state" where
  "fl_attackCheck isas = poll_check (fl_processFault isas)"

subsection \<open>Facts\<close>

lemma fl_choose_simps [simp]:
  "probability (snd (fl_choose n isa tid st s)) = probability s"
  "first_clock (snd (fl_choose n isa tid st s)) = first_clock s"
  "last_clock (snd (fl_choose n isa tid st s)) = last_clock s"
  "max_faults (snd (fl_choose n isa tid st s)) = max_faults s"
  "faults_injected_count (snd (fl_choose n isa tid st s)) = faults_injected_count s"
  "attack_at (snd (fl_choose n isa tid st s)) = attack_at s"
  by (simp_all add: fl_choose_def Let_def split: prod.splits)

lemma fl_pop_simps [simp]:
  "probability (fst (fl_pop k c)) = probability (fst c)" "first_clock (fst (fl_pop k c)) = first_clock (fst c)"
  "last_clock (fst (fl_pop k c)) = last_clock (fst c)" "max_faults (fst (fl_pop k c)) = max_faults (fst c)"
  "faults_injected_count (fst (fl_pop k c)) = faults_injected_count (fst c)"
  "attack_at (fst (fl_pop k c)) = attack_at (fst c)"
  by (cases c; simp add: fl_pop_def split: option.split)+

interpretation fl_poll: poll_source "fl_processFault isas" for isas
  by unfold_locales
    (auto simp: fl_processFault_def case_prod_unfold Let_def split: option.split)

lemma fl_scan_found:
  assumes "fst (fl_scan k n isa c tid st r) = Some t"
  shows "\<not> isFree c t st \<and> (\<exists>i. rat_lookup tid (isa_flatten isa \<lparr>classValue = c, regIdx = i\<rparr>) st = Some t)"
  using assms
proof (induction k arbitrary: r)
  case (Suc k)
  obtain cand r1 where u: "uniform_nat 0 (n - 1) r = (cand, r1)" by (cases "uniform_nat 0 (n - 1) r")
  show ?case
  proof (cases "rat_lookup tid (isa_flatten isa \<lparr>classValue = c, regIdx = cand\<rparr>) st")
    case (Some pp)
    then show ?thesis using Suc u by (cases "isFree c pp st") auto
  qed (use Suc u in auto)
qed simp

text \<open>What a counted fault did: a register that was not free went to the back of the free list and,
  in the second mode, the front of the list was taken and dropped.\<close>

lemma fl_processFault_effect:
  assumes "fl_processFault isas tid (s, st) = (s', st')" "faults_injected_count s' \<noteq> faults_injected_count s"
  obtains isa t where "isas tid = Some isa" "\<not> cap_reached s" "\<not> isFree (sel_class (fl_target_class s)) t st"
    "0 \<le> target_phys_idx s \<and> t = \<lparr>classValue = sel_class (fl_target_class s), regIdx = nat (target_phys_idx s)\<rparr>
      \<or> (\<exists>i. rat_lookup tid (isa_flatten isa \<lparr>classValue = sel_class (fl_target_class s), regIdx = i\<rparr>) st = Some t)"
    "st' = (if fl_fi_mode s = PopWrong then snd (fl_pop (sel_class (fl_target_class s)) (s, fl_addReg t st))
            else fl_addReg t st)"
proof -
  let ?c = "sel_class (fl_target_class s)"
  obtain isa n where i: "isas tid = Some isa" "isa_numRegs isa ?c = Some n" "n \<noteq> 0" "\<not> cap_reached s"
    using assms by (auto simp: fl_processFault_def Let_def split: if_splits option.splits)
  obtain t s1 where t: "fl_choose n isa tid st s = (Some t, s1)" "\<not> isFree ?c t st"
    "st' = snd (if fl_fi_mode s = PopWrong then fl_pop ?c (s1\<lparr>numMarkFree := numMarkFree s1 + 1\<rparr>, fl_addReg t st)
         else (s1\<lparr>numMarkFree := numMarkFree s1 + 1\<rparr>, fl_addReg t st))"
  proof (cases "fl_choose n isa tid st s")
    case (Pair a s1)
    have c1: "faults_injected_count s1 = faults_injected_count s" using fl_choose_simps(5) [of n isa tid st s] Pair by simp
    from Pair c1 assms i that [of _ s1] show ?thesis
      by (cases a) (auto simp: fl_processFault_def Let_def case_prod_unfold split: if_splits)
  qed
  have "snd (fl_pop ?c (x, y)) = snd (fl_pop ?c (s, y))" for x y by (simp add: fl_pop_def split: option.split)
  with t(3) have "st' = (if fl_fi_mode s = PopWrong then snd (fl_pop ?c (s, fl_addReg t st)) else fl_addReg t st)"
    by (auto split: if_splits)
  moreover have "0 \<le> target_phys_idx s \<and> t = \<lparr>classValue = ?c, regIdx = nat (target_phys_idx s)\<rparr>
      \<or> (\<exists>i. rat_lookup tid (isa_flatten isa \<lparr>classValue = ?c, regIdx = i\<rparr>) st = Some t)"
    using t(1) fl_scan_found [of n n isa ?c tid st "rng s" t]
    by (auto simp: fl_choose_def Let_def split: if_splits prod.splits)
  ultimately show ?thesis using that i t(2) by blast
qed

lemma census_addReg:
  "census n c (fl_addReg t st) = (if c = classValue t then add_mset (Some t) (census n c st) else census n c st)"
  by (simp add: census_def thread_regs_def)

lemma census_pop:
  assumes "freeLists st c = r # rs"
  shows "census n k (snd (fl_pop c (s, st))) = (if k = c then census n k st - {#Some r#} else census n k st)"
  using assms by (simp add: fl_pop_def fl_getReg_def census_def thread_regs_def)

text \<open>The register a fault adds is one of the class and in use.\<close>

lemma fl_target_live:
  assumes "rn_inv st" "tid < n" "flatten_ok isa" "\<not> isFree c t st" "isRenameable \<lparr>classValue = c, regIdx = 0\<rparr>"
    and "\<forall>r. r \<in> P \<longrightarrow> classValue r = c"
    and "\<forall>r. count (census n c st) (Some r) = (if r \<in> P then 1 else 0)"
    and "t \<in> P \<or> (\<exists>i. rat_lookup tid (isa_flatten isa \<lparr>classValue = c, regIdx = i\<rparr>) st = Some t)"
  shows "t \<in> P \<and> classValue t = c \<and> count (census n c st) (Some t) = 1"
proof -
  have "t \<in> P" if l: "rat_lookup tid (isa_flatten isa \<lparr>classValue = c, regIdx = i\<rparr>) st = Some t" for i
  proof -
    let ?a = "isa_flatten isa \<lparr>classValue = c, regIdx = i\<rparr>"
    have "classValue ?a = c" using assms(3) by (simp add: flatten_ok_def)
    with l assms(5) have "regIdx ?a < length (rmap st tid c)" "rmap st tid c ! regIdx ?a = Some t"
      by (auto simp: rat_lookup_def isRenameable_def Let_def split: if_splits)
    from mapped_in_census [OF assms(2) this] have "1 \<le> count (census n c st) (Some t)" by linarith
    then show ?thesis using assms(7) by (auto split: if_splits)
  qed
  then show ?thesis using assms(6-8) by auto
qed

text \<open>A free-list fault.  From any reachable state of the rename stage, a counted fault in the first
  mode puts a register of the selected class that was in use at the back of its free list: it is then
  in two places at once, and every other register still in exactly one.  In the second mode the front
  of the list is also taken and dropped.  If the list was empty that is the register just added, and
  the state is what it was before; otherwise another register is lost and the added one stays on the
  list.\<close>

theorem free_list_faults:
  assumes "map_threads [0..<k] nregs (init_rename rdy nphys nregs) = Some st0" "k \<le> n" "rename_reach n st0 st"
    and "tid < n" "\<forall>u isa. isas u = Some isa \<longrightarrow> flatten_ok isa"
    and "fl_processFault isas tid (s, st) = (s', st')" "faults_injected_count s' \<noteq> faults_injected_count s"
    and "c = sel_class (fl_target_class s)" "nat (target_phys_idx s) < nphys c"
  shows "\<exists>t \<in> set (phys_regs c (nphys c)). \<not> isFree c t st
    \<and> (fl_fi_mode s = MarkFree \<longrightarrow> freeLists st' c = freeLists st c @ [t]
        \<and> (\<forall>d r. count (census n d st') (Some r) = count (census n d st) (Some r) + (if r = t \<and> d = c then 1 else 0))
        \<and> count (census n c st') (Some t) = 2)
    \<and> (fl_fi_mode s = PopWrong \<and> freeLists st c = [] \<longrightarrow> st' = st)
    \<and> (\<forall>r rs. fl_fi_mode s = PopWrong \<and> freeLists st c = r # rs \<longrightarrow> freeLists st' c = rs @ [t]
        \<and> count (census n c st') (Some r) = 0 \<and> count (census n c st') (Some t) = 2)"
proof -
  have cr: "c \<in> set renameable_classes" "isRenameable \<lparr>classValue = c, regIdx = 0\<rparr>"
    using assms(8) by (auto simp: sel_class_def renameable_classes_def isRenameable_def)
  have inv: "rn_inv st" and cnt: "\<forall>r. count (census n c st) (Some r) = (if r \<in> set (phys_regs c (nphys c)) then 1 else 0)"
    using reachable_count [OF assms(1-3), of c] cr(1) by (auto simp: some_count_def)
  obtain isa t where t: "isas tid = Some isa" "\<not> isFree c t st"
    "0 \<le> target_phys_idx s \<and> t = \<lparr>classValue = c, regIdx = nat (target_phys_idx s)\<rparr>
      \<or> (\<exists>i. rat_lookup tid (isa_flatten isa \<lparr>classValue = c, regIdx = i\<rparr>) st = Some t)"
    "st' = (if fl_fi_mode s = PopWrong then snd (fl_pop c (s, fl_addReg t st)) else fl_addReg t st)"
    using fl_processFault_effect [OF assms(6,7)] assms(8) by metis
  have "t \<in> set (phys_regs c (nphys c)) \<or> (\<exists>i. rat_lookup tid (isa_flatten isa \<lparr>classValue = c, regIdx = i\<rparr>) st = Some t)"
    using t(3) assms(9) by (auto simp: phys_regs_def)
  moreover have "flatten_ok isa" "\<forall>r. r \<in> set (phys_regs c (nphys c)) \<longrightarrow> classValue r = c"
    using assms(5) t(1) by (auto simp: phys_regs_def)
  ultimately have live: "t \<in> set (phys_regs c (nphys c))" "classValue t = c" "count (census n c st) (Some t) = 1"
    using fl_target_live [OF inv assms(4) _ t(2) cr(2) _ cnt] by blast+
  have popped: "freeLists st' c = rs @ [t] \<and> count (census n c st') (Some r) = 0 \<and> count (census n c st') (Some t) = 2"
    if "fl_fi_mode s = PopWrong" "freeLists st c = r # rs" for r rs
  proof -
    have "r \<noteq> t" using t(2) that(2) by (auto simp: isFree_def)
    moreover have f: "freeLists (fl_addReg t st) c = r # (rs @ [t])" using that(2) live(2) by simp
    moreover have "0 < count (census n c st) (Some r)"
      using that(2) by (simp add: census_def)
    then have "count (census n c st) (Some r) = 1" using cnt by (auto split: if_splits)
    ultimately show ?thesis
      using that t(4) live census_pop [OF f, of n c s] census_addReg [of n c t st]
      by (simp add: fl_pop_def fl_getReg_def)
  qed
  have empty: "st' = st" if "fl_fi_mode s = PopWrong" "freeLists st c = []"
    using that t(4) live(2) by (simp add: fl_pop_def fl_getReg_def fl_addReg_def fun_upd_idem)
  show ?thesis
    using live t(2,4) popped empty census_addReg [of n _ t st] by (intro bexI [of _ t]) auto
qed

definition demo_isa :: isa_view where
  "demo_isa = \<lparr>isa_numRegs = (\<lambda>c. if c = IntRegClass then Some 2 else None), isa_flatten = (\<lambda>r. r)\<rparr>"

definition demo_fl :: "fl_mode \<Rightarrow> fl_inj" where
  "demo_fl md = \<lparr>probability = 1, first_clock = 0, last_clock = 0, max_faults = 1, faults_injected_count = 0,
     rng = sconst 0, attack_at = None, fl_fi_mode = md, fl_target_class = SelInteger, target_phys_idx = - 1,
     fl_numFaultsInjected = 0, numMarkFree = 0, numPopWrong = 0, fl_numLegalityRejects = 0\<rparr>"

theorem free_list_faults_witness:
  "\<exists>s' st'. fl_processFault (\<lambda>_. Some demo_isa) 0 (demo_fl MarkFree, demo_cpu) = (s', st')
     \<and> freeLists st' IntRegClass = [int_reg 2, int_reg 3, int_reg 0]
     \<and> count (census 1 IntRegClass st') (Some (int_reg 0)) = 2"
proof -
  obtain s' st' where r: "fl_processFault (\<lambda>_. Some demo_isa) 0 (demo_fl MarkFree, demo_cpu) = (s', st')"
    by (cases "fl_processFault (\<lambda>_. Some demo_isa) 0 (demo_fl MarkFree, demo_cpu)")
  have sc: "fl_scan 2 2 demo_isa IntRegClass 0 demo_cpu (sconst 0) = (Some (int_reg 0), sconst 0)"
    by (simp add: numeral_2_eq_2 uniform_nat_def demo_isa_def rat_lookup_def demo_cpu_init isFree_def Let_def)
  have "s' = fst (fl_processFault (\<lambda>_. Some demo_isa) 0 (demo_fl MarkFree, demo_cpu))" using r by simp
  then have cf: "faults_injected_count s' \<noteq> faults_injected_count (demo_fl MarkFree)"
    "freeLists st' IntRegClass = [int_reg 2, int_reg 3, int_reg 0]"
    using r sc by (auto simp: fl_processFault_def demo_fl_def cap_reached_def demo_isa_def sel_class_def
        fl_choose_def isFree_def demo_cpu_init Let_def)
  have "\<exists>t \<in> set (phys_regs IntRegClass 4). freeLists st' IntRegClass = freeLists demo_cpu IntRegClass @ [t]
      \<and> count (census 1 IntRegClass st') (Some t) = 2"
    using free_list_faults [OF demo_cpu_init(1) order_refl start _ _ r cf(1), of IntRegClass]
    by (auto simp: demo_fl_def sel_class_def flatten_ok_def demo_isa_def)
  then show ?thesis using r cf(2) by (auto simp: demo_cpu_init)
qed

end
