(* ===== verification/Rename_Map.thy ===== *)
theory Rename_Map
  imports Free_List Reg_File
begin

text \<open>
  \<open>CHAOSRenameMap\<close>: redirects an entry of the rename map to another physical register, by flipping
  bits of the register index, by stealing the register of another architectural register, or by
  pinning such a theft so that a periodic event applies it again.  The machine is the rename state and
  the register file.
\<close>

datatype rat_mode = MapBitFlip | F5Substitute | F4FieldStuck

record rat_inj = poller +
  rat_fi_mode :: rat_mode
  rat_target_class :: reg_class_sel
  target_arch_idx :: int
  rat_fault_mask :: u64
  rat_num_bits :: int
  rat_periodic_at :: "tick option"
  rat_readTrace_at :: "tick option"
  rat_traced_phys_idx :: int
  overwrite_recorded :: bool
  traced_class :: reg_class_type
  stuck_mappings :: "((thread_id \<times> nat) \<times> nat) list"
  rat_numFaultsInjected :: nat
  numMapBitFlips :: nat
  numF5Substitutes :: nat
  numF4FieldStuck :: nat
  rat_numLegalityRejects :: nat

definition rat_stringToMode :: "string \<Rightarrow> rat_mode" where
  "rat_stringToMode s = (if s = ''map_bitflip'' then MapBitFlip
     else if s = ''f4_field_stuck'' then F4FieldStuck else F5Substitute)"

definition CHAOSRenameMap :: "bool \<Rightarrow> real \<Rightarrow> string \<Rightarrow> string \<Rightarrow> int \<Rightarrow> u64 \<Rightarrow> int \<Rightarrow> cycles \<Rightarrow> cycles \<Rightarrow> nat \<Rightarrow> rng
    \<Rightarrow> ctor_error + rat_inj" where
  "CHAOSRenameMap is_o3 prob md cls idx fmask bits fst_clk lst_clk cap r =
     (if \<not> is_o3 then Inl NotO3CPU
      else Inr \<lparr>probability = prob, first_clock = fst_clk, last_clock = lst_clk, max_faults = cap,
        faults_injected_count = 0, rng = r, attack_at = None, rat_fi_mode = rat_stringToMode md,
        rat_target_class = stringToRegClassSel cls, target_arch_idx = idx, rat_fault_mask = fmask,
        rat_num_bits = bits, rat_periodic_at = None, rat_readTrace_at = None, rat_traced_phys_idx = - 1,
        overwrite_recorded = False, traced_class = InvalidRegClass, stuck_mappings = [],
        rat_numFaultsInjected = 0, numMapBitFlips = 0, numF5Substitutes = 0, numF4FieldStuck = 0,
        rat_numLegalityRejects = 0\<rparr>)"

definition rat_startup :: "tick \<Rightarrow> clocked \<Rightarrow> rat_inj \<Rightarrow> rat_inj" where
  "rat_startup now clk s =
     (if probability s = 0 then s
      else let s1 = poll_startup now clk s
           in if rat_fi_mode s = F4FieldStuck
              then s1\<lparr>rat_periodic_at := Some (clockEdge now clk (first_clock s + 1))\<rparr> else s1)"

text \<open>\<open>std::map\<close> with pairs as keys: the entries in the order of their keys, one per key.\<close>

fun map_put :: "thread_id \<times> nat \<Rightarrow> 'v \<Rightarrow> ((thread_id \<times> nat) \<times> 'v) list \<Rightarrow> ((thread_id \<times> nat) \<times> 'v) list" where
  "map_put k v [] = [(k, v)]"
| "map_put k v ((k', v') # xs) =
     (if k = k' then (k, v) # xs
      else if fst k < fst k' \<or> fst k = fst k' \<and> snd k < snd k' then (k, v) # (k', v') # xs
      else (k', v') # map_put k v xs)"

text \<open>An entry is set through \<open>setEntry\<close>, whose assertions hold where the injector calls it; a failing
  one would stop the simulator.\<close>

definition put_entry :: "thread_id \<Rightarrow> reg_id \<Rightarrow> reg_id \<Rightarrow> rename_state \<Rightarrow> rename_state" where
  "put_entry tid arch phys st = (case setEntry tid arch phys st of None \<Rightarrow> st | Some st' \<Rightarrow> st')"

definition num_phys :: "reg_class_sel \<Rightarrow> reg_file \<Rightarrow> nat" where
  "num_phys sel rf = (if sel = SelVector then length (blobRegs rf VecRegClass)
     else length (scalarRegs rf (sel_class sel)))"

abbreviation arch_flat :: "isa_view \<Rightarrow> reg_class_type \<Rightarrow> nat \<Rightarrow> reg_id" where
  "arch_flat isa c i \<equiv> isa_flatten isa \<lparr>classValue = c, regIdx = i\<rparr>"

definition active_archs :: "nat \<Rightarrow> isa_view \<Rightarrow> reg_class_type \<Rightarrow> thread_id \<Rightarrow> rename_state \<Rightarrow> nat list" where
  "active_archs n_arch isa c tid st = filter (\<lambda>i. rat_lookup tid (arch_flat isa c i) st \<noteq> None) [0..<n_arch]"

definition rat_choose_arch :: "nat \<Rightarrow> isa_view \<Rightarrow> thread_id \<Rightarrow> rename_state \<Rightarrow> rat_inj \<Rightarrow> nat option \<times> rat_inj" where
  "rat_choose_arch n_arch isa tid st s =
     (if target_arch_idx s < 0 \<or> int n_arch \<le> target_arch_idx s then
        (let active = active_archs n_arch isa (sel_class (rat_target_class s)) tid st in
         if active = [] then (None, s)
         else (case uniform_nat 0 (length active - 1) (rng s) of (i, r) \<Rightarrow> (Some (active ! i), s\<lparr>rng := r\<rparr>)))
      else (Some (nat (target_arch_idx s)), s))"

fun find_donor :: "nat \<Rightarrow> nat \<Rightarrow> isa_view \<Rightarrow> reg_class_type \<Rightarrow> thread_id \<Rightarrow> nat \<Rightarrow> nat \<Rightarrow> rename_state \<Rightarrow> rng
    \<Rightarrow> reg_id option \<times> rng" where
  "find_donor 0 n_arch isa c tid arch old st r = (None, r)"
| "find_donor (Suc tries) n_arch isa c tid arch old st r =
     (case uniform_nat 0 (n_arch - 1) r of (cand, r1) \<Rightarrow>
        if cand = arch then find_donor tries n_arch isa c tid arch old st r1
        else (case rat_lookup tid (arch_flat isa c cand) st of
            None \<Rightarrow> find_donor tries n_arch isa c tid arch old st r1
          | Some pp \<Rightarrow> if regIdx pp \<noteq> old then (Some pp, r1)
                      else find_donor tries n_arch isa c tid arch old st r1))"

text \<open>\<open>old_phys_idx ^ (int)mask\<close>: the mask is cut to a 32-bit signed integer.\<close>

definition rat_flip_idx :: "nat \<Rightarrow> u64 \<Rightarrow> int" where
  "rat_flip_idx old m = int old XOR sint (ucast m :: u32)"

definition rat_mask :: "rat_inj \<Rightarrow> u64 \<times> rat_inj" where
  "rat_mask s =
     (if rat_fault_mask s = 0
      then (case uniform_nat 0 7 (rng s) of (b, r) \<Rightarrow> (push_bit b 1, s\<lparr>rng := r\<rparr>))
      else (rat_fault_mask s, s))"

text \<open>The register an attempt substitutes, \<open>None\<close> when it is rejected.\<close>

definition rat_choose_new :: "nat \<Rightarrow> isa_view \<Rightarrow> thread_id \<Rightarrow> nat \<Rightarrow> nat \<Rightarrow> rename_state \<Rightarrow> reg_file \<Rightarrow> rat_inj
    \<Rightarrow> reg_id option \<times> rat_inj" where
  "rat_choose_new n_arch isa tid arch old st rf s =
     (let c = sel_class (rat_target_class s) in
      if rat_fi_mode s = MapBitFlip then
        (case rat_mask s of (m, s1) \<Rightarrow>
             let new = rat_flip_idx old m
             in if new < 0 \<or> int (num_phys (rat_target_class s) rf) \<le> new then (None, s1)
                else (Some \<lparr>classValue = c, regIdx = nat new\<rparr>, s1))
      else (case find_donor n_arch n_arch isa c tid arch old st (rng s) of (d, r) \<Rightarrow> (d, s\<lparr>rng := r\<rparr>)))"

definition rat_count_mode :: "thread_id \<Rightarrow> nat \<Rightarrow> reg_id \<Rightarrow> rat_inj \<Rightarrow> rat_inj" where
  "rat_count_mode tid arch new s =
     (case rat_fi_mode s of
        MapBitFlip \<Rightarrow> s\<lparr>numMapBitFlips := numMapBitFlips s + 1\<rparr>
      | F5Substitute \<Rightarrow> s\<lparr>numF5Substitutes := numF5Substitutes s + 1\<rparr>
      | F4FieldStuck \<Rightarrow> s\<lparr>stuck_mappings := map_put (tid, arch) (regIdx new) (stuck_mappings s),
          numF4FieldStuck := numF4FieldStuck s + 1\<rparr>)"

definition rat_arm_trace :: "tick \<Rightarrow> clocked \<Rightarrow> reg_class_type \<Rightarrow> nat \<Rightarrow> nat \<Rightarrow> rat_inj \<times> reg_file \<Rightarrow> rat_inj \<times> reg_file" where
  "rat_arm_trace now clk c old new = (\<lambda>(s, rf).
     if new \<noteq> old then
       (let s1 = s\<lparr>rat_traced_phys_idx := int new, traced_class := c, overwrite_recorded := False\<rparr>
        in (if rat_readTrace_at s1 = None then s1\<lparr>rat_readTrace_at := Some (clockEdge now clk 50)\<rparr> else s1,
            setReadTraceTarget c (int new) rf))
     else (s, rf))"

definition rat_reject :: "rat_inj \<Rightarrow> rat_inj" where
  "rat_reject s = s\<lparr>rat_numLegalityRejects := rat_numLegalityRejects s + 1\<rparr>"

definition rat_processFault :: "(thread_id \<Rightarrow> isa_view option) \<Rightarrow> tick \<Rightarrow> clocked \<Rightarrow> thread_id
    \<Rightarrow> rat_inj \<times> rename_state \<times> reg_file \<Rightarrow> rat_inj \<times> rename_state \<times> reg_file" where
  "rat_processFault isas now clk tid = (\<lambda>(s, st, rf).
     if cap_reached s then (s, st, rf)
     else (case isas tid of None \<Rightarrow> (s, st, rf)
       | Some isa \<Rightarrow>
           let c = sel_class (rat_target_class s); n_arch = (case isa_numRegs isa c of None \<Rightarrow> 0 | Some n \<Rightarrow> n) in
           if n_arch = 0 then (rat_reject s, st, rf)
           else (case rat_choose_arch n_arch isa tid st s of
               (None, s1) \<Rightarrow> (rat_reject s1, st, rf)
             | (Some arch, s1) \<Rightarrow>
                 (case rat_lookup tid (arch_flat isa c arch) st of
                    None \<Rightarrow> (rat_reject s1, st, rf)
                  | Some old \<Rightarrow>
                      (case rat_choose_new n_arch isa tid arch (regIdx old) st rf s1 of
                         (None, s2) \<Rightarrow> (rat_reject s2, st, rf)
                       | (Some new, s2) \<Rightarrow>
                           let st' = put_entry tid (arch_flat isa c arch) new st;
                               s3 = rat_count_mode tid arch new s2;
                               s4 = count_fault (s3\<lparr>rat_numFaultsInjected := rat_numFaultsInjected s3 + 1\<rparr>)
                           in (case rat_arm_trace now clk c (regIdx old) (regIdx new) (s4, rf) of
                                 (s5, rf') \<Rightarrow> (s5, st', rf')))))))"

definition rat_attackCheck :: "(thread_id \<Rightarrow> isa_view option) \<Rightarrow> tick \<Rightarrow> clocked \<Rightarrow> tc_status option list
    \<Rightarrow> rat_inj \<times> rename_state \<times> reg_file \<Rightarrow> rat_inj \<times> rename_state \<times> reg_file" where
  "rat_attackCheck isas now clk = poll_check_backoff (rat_processFault isas now clk) now clk"

definition rat_readTraceCheck ::
    "tick \<Rightarrow> clocked \<Rightarrow> tc_status option list \<Rightarrow> rat_inj \<times> reg_file \<Rightarrow> rat_inj \<times> reg_file" where
  "rat_readTraceCheck now clk tcs = (\<lambda>(s, rf).
     let s0 = s\<lparr>rat_readTrace_at := None\<rparr> in
     if any_active tcs then (s0\<lparr>rat_readTrace_at := Some (clockEdge now clk 5000)\<rparr>, rf)
     else (s0\<lparr>rat_traced_phys_idx := - 1\<rparr>, clearReadTraceTarget rf))"

text \<open>The periodic event: every pinned entry is set again, and the event scheduled with the delay the
  code computes, the current cycle plus 100000.\<close>

definition repin :: "isa_view \<Rightarrow> reg_class_type \<Rightarrow> nat \<Rightarrow> (thread_id \<times> nat) \<times> nat \<Rightarrow> rename_state \<Rightarrow> rename_state" where
  "repin isa c n_arch = (\<lambda>((tid, arch), phys) st.
     if n_arch \<le> arch then st
     else put_entry tid (arch_flat isa c arch) \<lparr>classValue = c, regIdx = phys\<rparr> st)"

definition rat_checkPermanent :: "(thread_id \<Rightarrow> isa_view option) \<Rightarrow> tick \<Rightarrow> clocked \<Rightarrow> rat_inj \<times> rename_state
    \<Rightarrow> rat_inj \<times> rename_state" where
  "rat_checkPermanent isas now clk = (\<lambda>(s, st).
     let again = s\<lparr>rat_periodic_at := Some (clockEdge now clk (curCycle now clk + 100000))\<rparr> in
     (case isas 0 of None \<Rightarrow> (again, st)
      | Some isa \<Rightarrow>
          let c = sel_class (rat_target_class s) in
          (case isa_numRegs isa c of None \<Rightarrow> (again, st)
           | Some n_arch \<Rightarrow> (again, fold (repin isa c n_arch) (stuck_mappings s) st))))"

subsection \<open>Facts\<close>

lemma rat_choose_arch_simps [simp]:
  "probability (snd (rat_choose_arch n isa tid st s)) = probability s"
  "first_clock (snd (rat_choose_arch n isa tid st s)) = first_clock s"
  "last_clock (snd (rat_choose_arch n isa tid st s)) = last_clock s"
  "max_faults (snd (rat_choose_arch n isa tid st s)) = max_faults s"
  "faults_injected_count (snd (rat_choose_arch n isa tid st s)) = faults_injected_count s"
  "attack_at (snd (rat_choose_arch n isa tid st s)) = attack_at s"
  "rat_fi_mode (snd (rat_choose_arch n isa tid st s)) = rat_fi_mode s"
  "rat_target_class (snd (rat_choose_arch n isa tid st s)) = rat_target_class s"
  "stuck_mappings (snd (rat_choose_arch n isa tid st s)) = stuck_mappings s"
  by (simp_all add: rat_choose_arch_def Let_def split: prod.splits)

lemma rat_mask_simps [simp]:
  "probability (snd (rat_mask s)) = probability s" "first_clock (snd (rat_mask s)) = first_clock s"
  "last_clock (snd (rat_mask s)) = last_clock s" "max_faults (snd (rat_mask s)) = max_faults s"
  "faults_injected_count (snd (rat_mask s)) = faults_injected_count s" "attack_at (snd (rat_mask s)) = attack_at s"
  "rat_fi_mode (snd (rat_mask s)) = rat_fi_mode s" "stuck_mappings (snd (rat_mask s)) = stuck_mappings s"
  by (simp_all add: rat_mask_def split: prod.splits)

lemma rat_choose_new_simps [simp]:
  "probability (snd (rat_choose_new n isa tid a old st rf s)) = probability s"
  "first_clock (snd (rat_choose_new n isa tid a old st rf s)) = first_clock s"
  "last_clock (snd (rat_choose_new n isa tid a old st rf s)) = last_clock s"
  "max_faults (snd (rat_choose_new n isa tid a old st rf s)) = max_faults s"
  "faults_injected_count (snd (rat_choose_new n isa tid a old st rf s)) = faults_injected_count s"
  "attack_at (snd (rat_choose_new n isa tid a old st rf s)) = attack_at s"
  "rat_fi_mode (snd (rat_choose_new n isa tid a old st rf s)) = rat_fi_mode s"
  "stuck_mappings (snd (rat_choose_new n isa tid a old st rf s)) = stuck_mappings s"
  by (simp_all add: rat_choose_new_def Let_def case_prod_unfold)

lemma rat_count_mode_simps [simp]:
  "probability (rat_count_mode tid a new s) = probability s" "first_clock (rat_count_mode tid a new s) = first_clock s"
  "last_clock (rat_count_mode tid a new s) = last_clock s" "max_faults (rat_count_mode tid a new s) = max_faults s"
  "faults_injected_count (rat_count_mode tid a new s) = faults_injected_count s"
  "attack_at (rat_count_mode tid a new s) = attack_at s"
  by (simp_all add: rat_count_mode_def split: rat_mode.split)

lemma rat_arm_trace_simps [simp]:
  "probability (fst (rat_arm_trace now clk k i j c)) = probability (fst c)"
  "first_clock (fst (rat_arm_trace now clk k i j c)) = first_clock (fst c)"
  "last_clock (fst (rat_arm_trace now clk k i j c)) = last_clock (fst c)"
  "max_faults (fst (rat_arm_trace now clk k i j c)) = max_faults (fst c)"
  "faults_injected_count (fst (rat_arm_trace now clk k i j c)) = faults_injected_count (fst c)"
  "attack_at (fst (rat_arm_trace now clk k i j c)) = attack_at (fst c)"
  "stuck_mappings (fst (rat_arm_trace now clk k i j c)) = stuck_mappings (fst c)"
  "snd (rat_arm_trace now clk k i j c) = (if j \<noteq> i then setReadTraceTarget k (int j) (snd c) else snd c)"
  by (cases c; simp add: rat_arm_trace_def Let_def)+

lemma rat_reject_simps [simp]:
  "probability (rat_reject s) = probability s" "first_clock (rat_reject s) = first_clock s"
  "last_clock (rat_reject s) = last_clock s" "max_faults (rat_reject s) = max_faults s"
  "faults_injected_count (rat_reject s) = faults_injected_count s" "attack_at (rat_reject s) = attack_at s"
  by (simp_all add: rat_reject_def)

interpretation rat_poll: poll_source "rat_processFault isas now clk" for isas now clk
  by unfold_locales
    (auto simp: rat_processFault_def case_prod_unfold Let_def split: option.split)

lemma find_donor_found:
  assumes "fst (find_donor k n isa c tid a old st r) = Some pp"
  shows "\<exists>b. b \<noteq> a \<and> rat_lookup tid (arch_flat isa c b) st = Some pp \<and> regIdx pp \<noteq> old"
  using assms
proof (induction k arbitrary: r)
  case (Suc k)
  obtain cand r1 where u: "uniform_nat 0 (n - 1) r = (cand, r1)" by (cases "uniform_nat 0 (n - 1) r")
  show ?case
  proof (cases "rat_lookup tid (arch_flat isa c cand) st")
    case (Some q)
    then show ?thesis using Suc u by (cases "cand = a"; cases "regIdx q = old") auto
  qed (use Suc u in \<open>auto split: if_splits\<close>)
qed simp

text \<open>What was chosen, in each mode.\<close>

definition rat_legal :: "isa_view \<Rightarrow> thread_id \<Rightarrow> nat \<Rightarrow> reg_id \<Rightarrow> reg_id \<Rightarrow> rename_state \<Rightarrow> reg_file \<Rightarrow> rat_inj \<Rightarrow> bool" where
  "rat_legal isa tid arch old new st rf s \<longleftrightarrow>
     (let c = sel_class (rat_target_class s) in
      if rat_fi_mode s = MapBitFlip
      then classValue new = c \<and> regIdx new < num_phys (rat_target_class s) rf
        \<and> (\<exists>m. int (regIdx new) = rat_flip_idx (regIdx old) m)
      else regIdx new \<noteq> regIdx old \<and> (\<exists>b. b \<noteq> arch \<and> rat_lookup tid (arch_flat isa c b) st = Some new))"

lemma rat_choose_new_legal:
  assumes "fst (rat_choose_new n isa tid arch (regIdx old) st rf s) = Some new"
  shows "rat_legal isa tid arch old new st rf s"
proof (cases "rat_fi_mode s = MapBitFlip")
  case True
  then show ?thesis using assms
    by (auto simp: rat_choose_new_def rat_legal_def Let_def case_prod_unfold split: if_splits)
next
  case False
  let ?c = "sel_class (rat_target_class s)"
  have "fst (find_donor n n isa ?c tid arch (regIdx old) st (rng s)) = Some new"
    using assms False by (simp add: rat_choose_new_def Let_def case_prod_unfold)
  from find_donor_found [OF this] show ?thesis using False by (auto simp: rat_legal_def Let_def)
qed

lemma rat_processFault_effect:
  assumes "rat_processFault isas now clk tid (s, st, rf) = (s', st', rf')"
    and "faults_injected_count s' \<noteq> faults_injected_count s"
  obtains isa arch old new s1 where "isas tid = Some isa" "\<not> cap_reached s"
    "rat_lookup tid (arch_flat isa (sel_class (rat_target_class s)) arch) st = Some old"
    "rat_legal isa tid arch old new st rf s"
    "st' = put_entry tid (arch_flat isa (sel_class (rat_target_class s)) arch) new st"
    "rf' = (if regIdx new \<noteq> regIdx old then setReadTraceTarget (sel_class (rat_target_class s)) (int (regIdx new)) rf else rf)"
proof -
  let ?c = "sel_class (rat_target_class s)"
  obtain isa n where i: "isas tid = Some isa" "isa_numRegs isa ?c = Some n" "n \<noteq> 0" "\<not> cap_reached s"
    using assms by (auto simp: rat_processFault_def Let_def split: if_splits option.splits)
  obtain arch where a: "fst (rat_choose_arch n isa tid st s) = Some arch"
    using assms i by (cases "fst (rat_choose_arch n isa tid st s)")
      (auto simp: rat_processFault_def Let_def case_prod_unfold)
  define s1 where "s1 = snd (rat_choose_arch n isa tid st s)"
  have ca: "rat_choose_arch n isa tid st s = (Some arch, s1)" using a by (simp add: s1_def prod_eq_iff)
  have s1: "rat_fi_mode s1 = rat_fi_mode s" "rat_target_class s1 = rat_target_class s"
    "faults_injected_count s1 = faults_injected_count s"
    by (simp_all add: s1_def)
  obtain old where old: "rat_lookup tid (arch_flat isa ?c arch) st = Some old"
    using assms i ca s1 by (cases "rat_lookup tid (arch_flat isa ?c arch) st")
      (auto simp: rat_processFault_def Let_def)
  obtain new where new: "fst (rat_choose_new n isa tid arch (regIdx old) st rf s1) = Some new"
    using assms i ca s1 old by (cases "fst (rat_choose_new n isa tid arch (regIdx old) st rf s1)")
      (auto simp: rat_processFault_def Let_def case_prod_unfold)
  have "rat_legal isa tid arch old new st rf s1" by (rule rat_choose_new_legal [OF new])
  then have "rat_legal isa tid arch old new st rf s" 
    unfolding rat_legal_def s1(1,2) .
  moreover have "st' = put_entry tid (arch_flat isa ?c arch) new st"
    "rf' = (if regIdx new \<noteq> regIdx old then setReadTraceTarget ?c (int (regIdx new)) rf else rf)"
    using assms(1) i ca old new by (auto simp: rat_processFault_def Let_def case_prod_unfold)
  ultimately show ?thesis using that i(1,4) old by blast
qed

lemma put_entry_set:
  assumes "isRenameable arch" "rat_lookup tid arch st = Some old" "classValue new = classValue arch"
  shows "setEntry tid arch new st = Some (set_map tid (classValue arch) (regIdx arch) new st)"
    and "put_entry tid arch new st = set_map tid (classValue arch) (regIdx arch) new st"
    and "regIdx arch < length (rmap st tid (classValue arch))" "rmap st tid (classValue arch) ! regIdx arch = Some old"
  using assms by (auto simp: put_entry_def setEntry_def rat_lookup_def isRenameable_def Let_def split: if_splits)

lemma census_set_map:
  assumes "tid < n" "i < length (rmap st tid c)" "rmap st tid c ! i = Some old"
  shows "add_mset (Some old) (census n c (set_map tid c i new st)) = add_mset (Some new) (census n c st)"
    and "d \<noteq> c \<Longrightarrow> census n d (set_map tid c i new st) = census n d st"
proof -
  let ?st = "set_map tid c i new st"
  have o: "\<forall>t. t \<noteq> tid \<longrightarrow> thread_regs t k ?st = thread_regs t k st" for k by (simp add: thread_regs_def)
  have m: "add_mset (Some old) (mset ((rmap st tid c)[i := Some new])) = add_mset (Some new) (mset (rmap st tid c))"
    using mset_list_update [OF assms(2), of "Some new"] assms(3) by simp
  have "add_mset (Some old) (thread_regs tid c ?st) = add_mset (Some new) (thread_regs tid c st)"
    using arg_cong [OF m, of "\<lambda>M. M + image_mset Some (mset (held_prevs c (historyBuffer st tid)))
      + image_mset Some (mset (filter (\<lambda>r. classValue r = c) (freeingInProgress st tid)))"]
    by (simp add: thread_regs_def)
  from arg_cong [OF this, of "\<lambda>M. image_mset Some (mset (freeLists st c)) + M + (\<Sum>t \<in> {..<n} - {tid}. thread_regs t c st)"]
  show "add_mset (Some old) (census n c ?st) = add_mset (Some new) (census n c st)"
    unfolding census_thread [OF assms(1) o [of c]] by simp
  have "thread_regs t d ?st = thread_regs t d st" if "d \<noteq> c" for t using that by (simp add: thread_regs_def)
  then show "d \<noteq> c \<Longrightarrow> census n d ?st = census n d st" by (simp add: census_def)
qed

lemma rat_lookup_class:
  assumes "rn_inv st" "isRenameable arch" "rat_lookup tid arch st = Some r"
  shows "classValue r = classValue arch"
proof -
  have "regIdx arch < length (rmap st tid (classValue arch))" "rmap st tid (classValue arch) ! regIdx arch = Some r"
    using assms(2,3) by (auto simp: rat_lookup_def isRenameable_def Let_def split: if_splits)
  then have "Some r \<in> set (rmap st tid (classValue arch))" by (metis nth_mem)
  then show ?thesis using assms(1) by (auto simp: rn_inv_def typed_map_def)
qed

text \<open>A rename-map fault.  A counted fault redirects one entry of one map from its register to
  another of the same class, and nothing else in the rename state: the register it held has one place
  less, the new one a place more.  The assertions of \<open>setEntry\<close> hold.  A stolen register differs from
  the old one and is the mapping of another architectural register; a flipped index is one of the
  register file.  The read trace is set to the new register when the index changed.\<close>

theorem rat_substitution:
  assumes "rn_inv st" "tid < n" "\<forall>u isa. isas u = Some isa \<longrightarrow> flatten_ok isa"
    and "rat_processFault isas now clk tid (s, st, rf) = (s', st', rf')"
    and "faults_injected_count s' \<noteq> faults_injected_count s" "c = sel_class (rat_target_class s)"
  shows "\<exists>isa arch old new. isas tid = Some isa \<and> rat_lookup tid (arch_flat isa c arch) st = Some old
    \<and> rat_legal isa tid arch old new st rf s
    \<and> setEntry tid (arch_flat isa c arch) new st = Some st' \<and> rat_lookup tid (arch_flat isa c arch) st' = Some new
    \<and> st' = set_map tid c (regIdx (arch_flat isa c arch)) new st
    \<and> add_mset (Some old) (census n c st') = add_mset (Some new) (census n c st)
    \<and> (\<forall>d. d \<noteq> c \<longrightarrow> census n d st' = census n d st)
    \<and> rf' = (if regIdx new \<noteq> regIdx old then setReadTraceTarget c (int (regIdx new)) rf else rf)"
proof -
  obtain isa arch old new where e: "isas tid = Some isa" "rat_lookup tid (arch_flat isa c arch) st = Some old"
    "rat_legal isa tid arch old new st rf s" "st' = put_entry tid (arch_flat isa c arch) new st"
    "rf' = (if regIdx new \<noteq> regIdx old then setReadTraceTarget c (int (regIdx new)) rf else rf)"
    using rat_processFault_effect [OF assms(4,5)] unfolding assms(6) [symmetric] by metis
  have fl: "classValue (arch_flat isa c i) = c" for i using assms(3) e(1) by (auto simp: flatten_ok_def)
  have rn: "isRenameable (arch_flat isa c i)" for i
    using fl [of i] assms(6) by (auto simp: isRenameable_def sel_class_def)
  have cn: "classValue new = classValue (arch_flat isa c arch)"
  proof (cases "rat_fi_mode s = MapBitFlip")
    case True
    then show ?thesis using e(3) fl assms(6) by (simp add: rat_legal_def Let_def)
  next
    case False
    then obtain b where "rat_lookup tid (arch_flat isa c b) st = Some new"
      using e(3) assms(6) by (auto simp: rat_legal_def Let_def)
    from rat_lookup_class [OF assms(1) rn this] fl show ?thesis by simp
  qed
  note p = put_entry_set [OF rn e(2) cn, unfolded fl]
  have st': "st' = set_map tid c (regIdx (arch_flat isa c arch)) new st" using e(4) p(2) by simp
  have "rat_lookup tid (arch_flat isa c arch) st' = Some new"
    using p(3) fl [of arch] rn [of arch] st' by (auto simp: rat_lookup_def isRenameable_def Let_def)
  then show ?thesis
    using e(1-3,5) p(1) st' census_set_map(1) [OF assms(2) p(3,4), of new] census_set_map(2) [OF assms(2) p(3,4), of _ new]
    by (intro exI [of _ isa] exI [of _ arch] exI [of _ old] exI [of _ new]) simp
qed

subsection \<open>Pinned entries\<close>

lemma map_put_keys: "set (map fst (map_put k v xs)) = insert k (set (map fst xs))"
  by (induction k v xs rule: map_put.induct) auto

lemma map_put_get: "distinct (map fst xs) \<Longrightarrow> map_of (map_put k v xs) = (map_of xs)(k \<mapsto> v)"
  by (induction k v xs rule: map_put.induct) (auto simp: fun_eq_iff)

definition flatten_inj :: "isa_view \<Rightarrow> reg_class_type \<Rightarrow> bool" where
  "flatten_inj isa c \<longleftrightarrow> inj (\<lambda>i. regIdx (arch_flat isa c i))"

lemma lookup_put_entry:
  assumes "flatten_ok isa" "flatten_inj isa c" "isRenameable \<lparr>classValue = c, regIdx = 0\<rparr>"
    and "rat_lookup u (arch_flat isa c a) st \<noteq> None" "classValue new = c"
  shows "rat_lookup t (arch_flat isa c b) (put_entry u (arch_flat isa c a) new st) =
    (if (t, b) = (u, a) then Some new else rat_lookup t (arch_flat isa c b) st)"
proof -
  have fl: "classValue (arch_flat isa c i) = c" for i using assms(1) by (simp add: flatten_ok_def)
  then have rn: "isRenameable (arch_flat isa c i)" for i using assms(3) by (simp add: isRenameable_def)
  obtain old where old: "rat_lookup u (arch_flat isa c a) st = Some old" using assms(4) by auto
  have p: "put_entry u (arch_flat isa c a) new st = set_map u c (regIdx (arch_flat isa c a)) new st"
    "regIdx (arch_flat isa c a) < length (rmap st u c)"
    using put_entry_set(2,3) [OF rn old] fl assms(5) by simp_all
  have "c \<noteq> InvalidRegClass \<and> c \<noteq> MiscRegClass" using assms(3) by (simp add: isRenameable_def)
  moreover have "regIdx (arch_flat isa c a) = regIdx (arch_flat isa c b) \<longleftrightarrow> a = b"
    using assms(2) by (auto simp: flatten_inj_def inj_def)
  ultimately show ?thesis using fl p by (auto simp: rat_lookup_def Let_def nth_list_update)
qed

lemma fold_repin:
  assumes "flatten_ok isa" "flatten_inj isa c" "isRenameable \<lparr>classValue = c, regIdx = 0\<rparr>"
    and "distinct (map fst ps)" "\<forall>k p. (k, p) \<in> set ps \<longrightarrow> snd k < n \<and> rat_lookup (fst k) (arch_flat isa c (snd k)) st \<noteq> None"
  shows "rat_lookup t (arch_flat isa c b) (fold (repin isa c n) ps st) =
    (case map_of ps (t, b) of None \<Rightarrow> rat_lookup t (arch_flat isa c b) st
     | Some p \<Rightarrow> Some \<lparr>classValue = c, regIdx = p\<rparr>)"
  using assms(4,5)
proof (induction ps arbitrary: st)
  case (Cons x ps)
  obtain u a p where x: "x = ((u, a), p)" by (metis prod.collapse)
  define st1 where "st1 = put_entry u (arch_flat isa c a) \<lparr>classValue = c, regIdx = p\<rparr> st"
  have a: "a < n" "rat_lookup u (arch_flat isa c a) st \<noteq> None" using Cons.prems(2) x by auto
  note l = lookup_put_entry [OF assms(1-3) a(2), of "\<lparr>classValue = c, regIdx = p\<rparr>", folded st1_def, simplified]
  have "\<forall>k q. (k, q) \<in> set ps \<longrightarrow> snd k < n \<and> rat_lookup (fst k) (arch_flat isa c (snd k)) st1 \<noteq> None"
    using Cons.prems(2) l by auto
  from Cons.IH [OF _ this] Cons.prems(1)
  have "rat_lookup t (arch_flat isa c b) (fold (repin isa c n) ps st1) =
      (case map_of ps (t, b) of None \<Rightarrow> rat_lookup t (arch_flat isa c b) st1
       | Some p \<Rightarrow> Some \<lparr>classValue = c, regIdx = p\<rparr>)" by simp
  moreover have "map_of ps (u, a) = None" using Cons.prems(1) x by (auto simp: map_of_eq_None_iff)
  moreover have "fold (repin isa c n) (x # ps) st = fold (repin isa c n) ps st1"
    using a(1) x by (simp add: repin_def st1_def)
  ultimately show ?case using l x by (auto split: option.split)
qed simp

text \<open>Pinned entries are applied again.  After the periodic event every recorded entry maps to the
  register it was pinned to, whatever renaming did to it since, and every other entry is unchanged.
  The next event, however, is due the current cycle number plus 100000 cycles later, not 100000: the
  interval grows with the age of the simulation.\<close>

theorem rat_pins_reapplied:
  assumes "isas 0 = Some isa" "flatten_ok isa" "flatten_inj isa c" "isa_numRegs isa c = Some n_arch"
    and "c = sel_class (rat_target_class s)" "distinct (map fst (stuck_mappings s))" "clk_ok now clk"
    and "\<forall>k p. (k, p) \<in> set (stuck_mappings s) \<longrightarrow> snd k < n_arch \<and> rat_lookup (fst k) (arch_flat isa c (snd k)) st \<noteq> None"
    and "rat_checkPermanent isas now clk (s, st) = (s', st')"
  shows "rat_lookup t (arch_flat isa c b) st' =
      (case map_of (stuck_mappings s) (t, b) of None \<Rightarrow> rat_lookup t (arch_flat isa c b) st
       | Some p \<Rightarrow> Some \<lparr>classValue = c, regIdx = p\<rparr>)
    \<and> stuck_mappings s' = stuck_mappings s
    \<and> (\<exists>w. rat_periodic_at s' = Some w \<and> now + clk_period clk * (curCycle now clk + 100000) \<le> w)"
proof -
  have rn: "isRenameable \<lparr>classValue = c, regIdx = 0\<rparr>" using assms(5) by (auto simp: isRenameable_def sel_class_def)
  have "st' = fold (repin isa c n_arch) (stuck_mappings s) st"
    "s' = s\<lparr>rat_periodic_at := Some (clockEdge now clk (curCycle now clk + 100000))\<rparr>"
    using assms(1,4,5,9) by (auto simp: rat_checkPermanent_def Let_def)
  then show ?thesis
    using fold_repin [OF assms(2,3) rn assms(6,8)] clockEdge_bounds(1) [OF assms(7), of "curCycle now clk + 100000"]
    by simp
qed

definition demo_rat :: rat_inj where
  "demo_rat = \<lparr>probability = 1, first_clock = 0, last_clock = 0, max_faults = 1, faults_injected_count = 0,
     rng = sconst 1, attack_at = None, rat_fi_mode = F4FieldStuck, rat_target_class = SelInteger,
     target_arch_idx = 0, rat_fault_mask = 0, rat_num_bits = 1, rat_periodic_at = None, rat_readTrace_at = None,
     rat_traced_phys_idx = - 1, overwrite_recorded = False, traced_class = InvalidRegClass,
     stuck_mappings = [((0, 0), 1)], rat_numFaultsInjected = 0, numMapBitFlips = 0, numF5Substitutes = 0,
     numF4FieldStuck = 0, rat_numLegalityRejects = 0\<rparr>"

theorem rat_pins_reapplied_witness:
  "\<exists>s' st'. rat_checkPermanent (\<lambda>_. Some demo_isa) 0 \<lparr>clk_tick = 0, clk_cycle = 0, clk_period = 500\<rparr> (demo_rat, demo_cpu)
     = (s', st') \<and> rat_lookup 0 (int_reg 0) st' = Some (int_reg 1)"
proof -
  let ?clk = "\<lparr>clk_tick = 0, clk_cycle = 0, clk_period = 500\<rparr>"
  obtain s' st' where r: "rat_checkPermanent (\<lambda>_. Some demo_isa) 0 ?clk (demo_rat, demo_cpu) = (s', st')"
    by (cases "rat_checkPermanent (\<lambda>_. Some demo_isa) 0 ?clk (demo_rat, demo_cpu)")
  have ok: "flatten_ok demo_isa" "flatten_inj demo_isa IntRegClass" "clk_ok 0 ?clk"
    by (simp_all add: flatten_ok_def flatten_inj_def demo_isa_def inj_def clk_ok_def)
  have "rat_lookup 0 (arch_flat demo_isa IntRegClass 0) st' = Some \<lparr>classValue = IntRegClass, regIdx = 1\<rparr>"
    using rat_pins_reapplied [of "\<lambda>_. Some demo_isa" demo_isa IntRegClass 2 demo_rat 0 ?clk demo_cpu s' st' 0 0] ok r
    by (simp add: demo_rat_def demo_isa_def sel_class_def rat_lookup_def demo_cpu_init)
  then show ?thesis using r by (simp add: demo_isa_def)
qed

theorem rat_substitution_witness:
  "\<exists>s' st' rf' old new. rat_processFault (\<lambda>_. Some demo_isa) 0 \<lparr>clk_tick = 0, clk_cycle = 0, clk_period = 500\<rparr> 0
       (demo_rat, demo_cpu, demo_rf) = (s', st', rf')
     \<and> add_mset (Some old) (census 1 IntRegClass st') = add_mset (Some new) (census 1 IntRegClass demo_cpu)
     \<and> regIdx new \<noteq> regIdx old"
proof -
  let ?clk = "\<lparr>clk_tick = 0, clk_cycle = 0, clk_period = 500\<rparr>"
  let ?p = "rat_processFault (\<lambda>_. Some demo_isa) 0 ?clk 0 (demo_rat, demo_cpu, demo_rf)"
  obtain s' st' rf' where r: "?p = (s', st', rf')" by (metis prod.collapse)
  have d: "find_donor 2 2 demo_isa IntRegClass 0 0 0 demo_cpu (sconst 1) = (Some (int_reg 1), sconst 1)"
    by (simp add: numeral_2_eq_2 uniform_nat_def demo_isa_def rat_lookup_def demo_cpu_init Let_def)
  have l: "rat_lookup 0 (arch_flat demo_isa IntRegClass 0) demo_cpu = Some (int_reg 0)"
    by (simp add: rat_lookup_def demo_cpu_init demo_isa_def Let_def)
  have x: "rat_choose_arch 2 demo_isa 0 demo_cpu demo_rat = (Some 0, demo_rat)"
    "rat_choose_new 2 demo_isa 0 0 0 demo_cpu demo_rf demo_rat = (Some (int_reg 1), demo_rat)"
    "\<not> cap_reached demo_rat" "rat_target_class demo_rat = SelInteger" "sel_class SelInteger = IntRegClass"
    "isa_numRegs demo_isa IntRegClass = Some 2" "rat_fi_mode demo_rat = F4FieldStuck"
    using d by (simp_all add: rat_choose_arch_def rat_choose_new_def demo_rat_def cap_reached_def sel_class_def
        demo_isa_def Let_def)
  have "faults_injected_count (fst ?p) = Suc (faults_injected_count demo_rat)"
    using l x by (simp add: rat_processFault_def case_prod_unfold Let_def)
  then have c: "faults_injected_count s' \<noteq> faults_injected_count demo_rat" using r by simp
  have ok: "rn_inv demo_cpu" using reachable_count [OF demo_cpu_init(1) order_refl start] by auto
  have cl: "IntRegClass = sel_class (rat_target_class demo_rat)" using x by simp
  have fl: "\<forall>u isa. Some demo_isa = Some isa \<longrightarrow> flatten_ok isa" by (simp add: flatten_ok_def demo_isa_def)
  from rat_substitution [OF ok _ fl r c cl, of 1] obtain isa arch old new where
    "rat_legal isa 0 arch old new demo_cpu demo_rf demo_rat"
    "add_mset (Some old) (census 1 IntRegClass st') = add_mset (Some new) (census 1 IntRegClass demo_cpu)" by auto
  then show ?thesis using r x(7) by (auto simp: rat_legal_def Let_def)
qed

end
