(* ===== verification/Phys_Reg.thy ===== *)
theory Phys_Reg
  imports Rename_Map
begin

text \<open>
  \<open>CHAOSPhysReg\<close>: corrupts a cell of the physical register file, addressed by physical index or through
  the front-end or the commit rename map.  Its machine is the rename state and the register file; what
  panics is \<open>None\<close>.  The attempt has no cap check of its own, and a fault type drawn at random comes
  from a distribution that is never given its weights and always yields its first outcome.
\<close>

datatype pr_mode = PhysMode | ArchFrontend | ArchCommit
datatype pr_class_sel = PrInteger | PrFloatingPoint | PrVector | PrBoth

record perm_fault =
  pf_type :: fault_type
  pf_mask :: u64
  pf_update :: bool

record pr_inj = poller +
  pr_fi_mode :: pr_mode
  pr_target_phys_idx :: int
  pr_target_arch_idx :: int
  pr_target_class :: pr_class_sel
  vec_lane_width :: int
  vec_lane_offset :: int
  pr_num_bits :: int
  fault_type_enum :: fault_type
  pr_fault_mask :: u64
  trigger_value_mask :: u64
  trigger_value_pattern :: u64
  pr_periodic_at :: "tick option"
  pr_readTrace_at :: "tick option"
  free_list_size_at_inject :: nat
  pr_reads :: nat
  pr_trace_overwritten :: bool
  overwritten_at_cycle :: cycles
  pr_overwrite_recorded :: bool
  pr_traced_phys_idx :: int
  permanent_faults :: "((thread_id \<times> nat) \<times> perm_fault) list"
  pr_numFaultsInjected :: nat
  pr_numBitFlips :: nat
  pr_numStuckAtZero :: nat
  pr_numStuckAtOne :: nat
  pr_numPermanentFaults :: nat

definition pr_stringToFaultType :: "string \<Rightarrow> fault_type" where
  "pr_stringToFaultType s = (if s = ''bit_flip'' then BitFlip else if s = ''stuck_at_zero'' then StuckAtZero
     else if s = ''stuck_at_one'' then StuckAtOne else RandomFault)"

definition pr_stringToMode :: "string \<Rightarrow> pr_mode" where
  "pr_stringToMode s = (if s = ''arch_commit'' then ArchCommit
     else if s = ''arch_frontend'' then ArchFrontend else PhysMode)"

definition pr_stringToRegClassSel :: "string \<Rightarrow> pr_class_sel" where
  "pr_stringToRegClassSel s = (if s = ''floating_point'' then PrFloatingPoint
     else if s = ''vector'' then PrVector else if s = ''both'' then PrBoth else PrInteger)"

subsection \<open>Events\<close>

definition unscheduleAttackEvent :: "pr_inj \<Rightarrow> pr_inj" where
  "unscheduleAttackEvent s = s\<lparr>attack_at := None, pr_periodic_at := None\<rparr>"

definition scheduleCheckPermanentFault :: "tick \<Rightarrow> clocked \<Rightarrow> cycles \<Rightarrow> pr_inj \<Rightarrow> pr_inj" where
  "scheduleCheckPermanentFault now clk delay s =
     (if pr_periodic_at s = None then s\<lparr>pr_periodic_at := Some (clockEdge now clk delay)\<rparr> else s)"

text \<open>The constructor: with a positive probability it draws the number of bits if that is -1, and
  schedules the first attempt and the permanent-fault check.\<close>

definition pr_arm :: "tick \<Rightarrow> clocked \<Rightarrow> pr_inj \<Rightarrow> pr_inj" where
  "pr_arm now clk s =
     (if probability s \<le> 0 then s
      else
        let s1 = (if pr_num_bits s = - 1
              then (case uniform_int 1 64 (rng s) of (n, r) \<Rightarrow> s\<lparr>pr_num_bits := n, rng := r\<rparr>) else s)
        in (case geometric (probability s) (rng s1) of (d, r) \<Rightarrow>
              scheduleCheckPermanentFault now clk (first_clock s + 1)
                (scheduleAttackEvent now clk (first_clock s + d) (s1\<lparr>rng := r\<rparr>))))"

definition CHAOSPhysReg :: "bool \<Rightarrow> tick \<Rightarrow> clocked \<Rightarrow> string \<Rightarrow> int \<Rightarrow> int \<Rightarrow> string \<Rightarrow> int \<Rightarrow> int \<Rightarrow> real \<Rightarrow> int \<Rightarrow> string
    \<Rightarrow> u64 \<Rightarrow> u64 \<Rightarrow> u64 \<Rightarrow> cycles \<Rightarrow> cycles \<Rightarrow> nat \<Rightarrow> rng \<Rightarrow> ctor_error + pr_inj" where
  "CHAOSPhysReg is_o3 now clk md pidx aidx cls lw lo prob bits ft fmask tmask tpat fst_clk lst_clk cap r =
     (if \<not> is_o3 then Inl NotO3CPU
      else Inr (pr_arm now clk \<lparr>probability = prob, first_clock = fst_clk, last_clock = lst_clk, max_faults = cap,
        faults_injected_count = 0, rng = r, attack_at = None, pr_fi_mode = pr_stringToMode md,
        pr_target_phys_idx = pidx, pr_target_arch_idx = aidx, pr_target_class = pr_stringToRegClassSel cls,
        vec_lane_width = lw, vec_lane_offset = lo, pr_num_bits = bits, fault_type_enum = pr_stringToFaultType ft,
        pr_fault_mask = fmask, trigger_value_mask = tmask, trigger_value_pattern = tpat, pr_periodic_at = None,
        pr_readTrace_at = None, free_list_size_at_inject = 0, pr_reads = 0, pr_trace_overwritten = False,
        overwritten_at_cycle = 0, pr_overwrite_recorded = False, pr_traced_phys_idx = - 1,
        permanent_faults = [], pr_numFaultsInjected = 0, pr_numBitFlips = 0, pr_numStuckAtZero = 0,
        pr_numStuckAtOne = 0, pr_numPermanentFaults = 0\<rparr>))"

subsection \<open>The target\<close>

definition pr_class :: "pr_inj \<Rightarrow> reg_class_type \<times> pr_inj" where
  "pr_class s =
     (case pr_target_class s of
        PrInteger \<Rightarrow> (IntRegClass, s)
      | PrFloatingPoint \<Rightarrow> (FloatRegClass, s)
      | PrVector \<Rightarrow> (VecRegClass, s)
      | PrBoth \<Rightarrow> (case uniform_nat 0 2 (rng s) of (k, r) \<Rightarrow>
          (if k = 0 then IntRegClass else if k = 1 then FloatRegClass else VecRegClass, s\<lparr>rng := r\<rparr>)))"

definition pr_num_phys :: "reg_class_type \<Rightarrow> reg_file \<Rightarrow> nat" where
  "pr_num_phys c rf = (if c = VecRegClass then length (blobRegs rf VecRegClass) else length (scalarRegs rf c))"

definition commit_lookup :: "thread_id \<Rightarrow> reg_id \<Rightarrow> rename_state \<Rightarrow> reg_id option" where
  "commit_lookup tid arch st = rat_lookup tid arch (st\<lparr>rmap := commitMap st\<rparr>)"

definition pr_phys_index :: "nat \<Rightarrow> pr_inj \<Rightarrow> nat \<times> pr_inj" where
  "pr_phys_index n s =
     (if 0 \<le> pr_target_phys_idx s then (nat (pr_target_phys_idx s), s)
      else (case uniform_nat 0 (n - 1) (rng s) of (i, r) \<Rightarrow> (i, s\<lparr>rng := r\<rparr>)))"

text \<open>\<open>None\<close> where the attempt returns early.  The walk for the architectural owner of a live register
  only feeds the log.\<close>

definition pr_target :: "(thread_id \<Rightarrow> isa_view option) \<Rightarrow> thread_id \<Rightarrow> reg_class_type \<Rightarrow> rename_state \<Rightarrow> reg_file
    \<Rightarrow> pr_inj \<Rightarrow> reg_id option \<times> pr_inj" where
  "pr_target isas tid c st rf s =
     (if pr_fi_mode s = PhysMode then
        (let n = pr_num_phys c rf in
         if n = 0 then (None, s)
         else (case pr_phys_index n s of (i, s1) \<Rightarrow>
             if n \<le> i then (None, s1)
             else (Some \<lparr>classValue = c, regIdx = i\<rparr>, s1\<lparr>free_list_size_at_inject := numFreeRegs c st\<rparr>)))
      else (case isas tid of None \<Rightarrow> (None, s)
        | Some isa \<Rightarrow> (case isa_numRegs isa c of None \<Rightarrow> (None, s)
            | Some n_arch \<Rightarrow>
                if pr_target_arch_idx s < 0 \<or> int n_arch \<le> pr_target_arch_idx s then (None, s)
                else let flat = arch_flat isa c (nat (pr_target_arch_idx s))
                  in (if pr_fi_mode s = ArchFrontend then rat_lookup tid flat st else commit_lookup tid flat st, s))))"

subsection \<open>The fault\<close>

text \<open>A default-constructed \<open>std::discrete_distribution\<close> returns 0.\<close>

definition pr_choose_fault :: "pr_inj \<Rightarrow> fault_type" where
  "pr_choose_fault s = (if fault_type_enum s = RandomFault then fault_type_of_index 0 else fault_type_enum s)"

definition pr_choose_mask :: "pr_inj \<Rightarrow> u64 \<times> pr_inj" where
  "pr_choose_mask s =
     (if pr_fault_mask s \<noteq> 0 then (pr_fault_mask s, s)
      else (case or_random_bits 0 63 (nat (pr_num_bits s)) 0 (rng s) of (m, r) \<Rightarrow> (m, s\<lparr>rng := r\<rparr>)))"

definition pr_count_type :: "thread_id \<Rightarrow> nat \<Rightarrow> fault_type \<Rightarrow> u64 \<Rightarrow> pr_inj \<Rightarrow> pr_inj" where
  "pr_count_type tid i f m s =
     (let perm = (\<lambda>s. s\<lparr>pr_numPermanentFaults := pr_numPermanentFaults s + 1,
            permanent_faults := map_put (tid, i) \<lparr>pf_type = f, pf_mask = m, pf_update = True\<rparr> (permanent_faults s)\<rparr>)
      in case f of
        StuckAtZero \<Rightarrow> perm (s\<lparr>pr_numStuckAtZero := pr_numStuckAtZero s + 1\<rparr>)
      | StuckAtOne \<Rightarrow> perm (s\<lparr>pr_numStuckAtOne := pr_numStuckAtOne s + 1\<rparr>)
      | BitFlip \<Rightarrow> s\<lparr>pr_numBitFlips := pr_numBitFlips s + 1\<rparr>
      | RandomFault \<Rightarrow> s)"

definition pr_lane_bits :: "pr_inj \<Rightarrow> nat" where
  "pr_lane_bits s = (if vec_lane_width s \<in> {8, 16, 32, 64} then nat (vec_lane_width s) else 32)"

definition pr_choose_lane :: "nat \<Rightarrow> pr_inj \<Rightarrow> nat \<times> pr_inj" where
  "pr_choose_lane max_lanes s =
     (if vec_lane_offset s < 0 \<or> int max_lanes \<le> vec_lane_offset s
      then (case uniform_nat 0 (max_lanes - 1) (rng s) of (l, r) \<Rightarrow> (l, s\<lparr>rng := r\<rparr>))
      else (nat (vec_lane_offset s), s))"

definition patch_lane :: "nat \<Rightarrow> nat \<Rightarrow> fault_type \<Rightarrow> u64 \<Rightarrow> u8 list \<Rightarrow> u8 list" where
  "patch_lane lw lane f m buf =
     (let lb = lw div 8; off = lane * lb;
          v = le_word (take lb (drop off buf));
          lm = (if lw < 64 then m AND (push_bit lw 1 - 1) else m)
      in take off buf @ le_bytes lb (apply_fault f lm v) @ drop (off + lb) buf)"

definition pr_corrupt_vec :: "thread_id \<Rightarrow> reg_id \<Rightarrow> fault_type \<Rightarrow> u64 \<Rightarrow> pr_inj \<times> reg_file \<Rightarrow> (pr_inj \<times> reg_file) option" where
  "pr_corrupt_vec tid r f m = (\<lambda>(s, rf).
     (case rf_getReg_blob r rf of Some (Inr bs, rf1) \<Rightarrow>
        (let buf = bs @ replicate (8 - length bs) 0; lw = pr_lane_bits s; max_lanes = max 1 (length buf div (lw div 8)) in
         (case pr_choose_lane max_lanes s of (lane, s1) \<Rightarrow>
            (case rf_setReg_blob r (Inr (take (length bs) (patch_lane lw lane f m buf))) rf1 of None \<Rightarrow> None
             | Some rf2 \<Rightarrow> Some (pr_count_type tid (regIdx r) f m s1, rf2))))
      | _ \<Rightarrow> None))"

definition pr_polarity :: "fault_type \<Rightarrow> u8" where
  "pr_polarity f = (if f = StuckAtOne then 1 else 0)"

text \<open>The scalar path: \<open>Some (False, ...)\<close> is a trigger that did not match.\<close>

definition pr_corrupt_scalar :: "thread_id \<Rightarrow> reg_class_type \<Rightarrow> reg_id \<Rightarrow> fault_type \<Rightarrow> u64 \<Rightarrow> pr_inj \<times> reg_file
    \<Rightarrow> (bool \<times> pr_inj \<times> reg_file) option" where
  "pr_corrupt_scalar tid c r f m = (\<lambda>(s, rf).
     (case rf_getReg r rf of None \<Rightarrow> None
      | Some (v, rf1) \<Rightarrow>
          if trigger_value_mask s \<noteq> 0 \<and> v AND trigger_value_mask s \<noteq> trigger_value_pattern s
          then Some (False, s, rf1)
          else let rf2 = (if f = StuckAtZero \<or> f = StuckAtOne
                  then setStuckTarget c (int (regIdx r)) m (pr_polarity f) rf1 else rf1)
            in (case rf_setReg r (apply_fault f m v) rf2 of None \<Rightarrow> None
                | Some rf3 \<Rightarrow> Some (True, pr_count_type tid (regIdx r) f m s, rf3))))"

definition pr_finish :: "tick \<Rightarrow> clocked \<Rightarrow> reg_class_type \<Rightarrow> nat \<Rightarrow> pr_inj \<times> reg_file \<Rightarrow> pr_inj \<times> reg_file" where
  "pr_finish now clk c i = (\<lambda>(s, rf).
     let s1 = count_fault (s\<lparr>pr_numFaultsInjected := pr_numFaultsInjected s + 1\<rparr>);
         s2 = s1\<lparr>pr_traced_phys_idx := int i, pr_reads := 0, pr_trace_overwritten := False,
                pr_overwrite_recorded := False, overwritten_at_cycle := 0\<rparr>
     in (if pr_readTrace_at s2 = None then s2\<lparr>pr_readTrace_at := Some (clockEdge now clk 100000)\<rparr> else s2,
         setReadTraceTarget c (int i) rf))"

definition pr_processFault :: "(thread_id \<Rightarrow> isa_view option) \<Rightarrow> tick \<Rightarrow> clocked \<Rightarrow> thread_id \<Rightarrow> rename_state
    \<Rightarrow> pr_inj \<times> reg_file \<Rightarrow> (pr_inj \<times> reg_file) option" where
  "pr_processFault isas now clk tid st = (\<lambda>(s, rf).
     (case pr_class s of (c, s1) \<Rightarrow>
       (case pr_target isas tid c st rf s1 of (None, s2) \<Rightarrow> Some (s2, rf)
        | (Some r, s2) \<Rightarrow>
            (case pr_choose_mask s2 of (m, s3) \<Rightarrow>
               if c = VecRegClass then
                 map_option (pr_finish now clk c (regIdx r)) (pr_corrupt_vec tid r (pr_choose_fault s) m (s3, rf))
               else (case pr_corrupt_scalar tid c r (pr_choose_fault s) m (s3, rf) of None \<Rightarrow> None
                 | Some (hit, s4, rf4) \<Rightarrow>
                     Some (if hit then pr_finish now clk c (regIdx r) (s4, rf4) else (s4, rf4)))))))"

fun pr_threads :: "(thread_id \<Rightarrow> isa_view option) \<Rightarrow> tick \<Rightarrow> clocked \<Rightarrow> rename_state \<Rightarrow> tc_status option list \<Rightarrow> thread_id
    \<Rightarrow> pr_inj \<times> reg_file \<Rightarrow> (pr_inj \<times> reg_file) option" where
  "pr_threads isas now clk st [] tid c = Some c"
| "pr_threads isas now clk st (x # xs) tid c =
     (if x = None \<or> x = Some Halted then pr_threads isas now clk st xs (Suc tid) c
      else (case pr_processFault isas now clk tid st c of None \<Rightarrow> None
        | Some c' \<Rightarrow> pr_threads isas now clk st xs (Suc tid) c'))"

definition pr_attackCheck :: "(thread_id \<Rightarrow> isa_view option) \<Rightarrow> tick \<Rightarrow> clocked \<Rightarrow> tc_status option list \<Rightarrow> rename_state
    \<Rightarrow> pr_inj \<times> reg_file \<Rightarrow> (pr_inj \<times> reg_file) option" where
  "pr_attackCheck isas now clk tcs st c =
     (if probability (fst c) = 0 then Some (fire c)
      else (case pr_threads isas now clk st tcs 0 (fire c) of None \<Rightarrow> None
        | Some (s, rf) \<Rightarrow>
            if cap_reached s then Some (unscheduleAttackEvent s, rf)
            else if any_active tcs then
              (case geometric (probability s) (rng s) of (d, r) \<Rightarrow>
                 let s1 = s\<lparr>rng := r\<rparr>
                 in Some (if last_clock s = 0 \<or> d + curCycle now clk \<le> last_clock s
                          then scheduleAttackEvent now clk d s1 else s1, rf))
            else Some (unscheduleAttackEvent s, rf)))"

text \<open>The permanent-fault check: every recorded fault is applied to the integer register with the
  recorded index, once.\<close>

definition pr_reapply :: "nat \<Rightarrow> perm_fault \<Rightarrow> reg_file \<Rightarrow> reg_file option" where
  "pr_reapply i pf rf =
     (case rf_getReg \<lparr>classValue = IntRegClass, regIdx = i\<rparr> rf of None \<Rightarrow> None
      | Some (v, rf1) \<Rightarrow> rf_setReg \<lparr>classValue = IntRegClass, regIdx = i\<rparr>
          (if pf_type pf = StuckAtZero \<or> pf_type pf = StuckAtOne then apply_fault (pf_type pf) (pf_mask pf) v else v) rf1)"

fun pr_check_entries :: "tick \<Rightarrow> clocked \<Rightarrow> ((thread_id \<times> nat) \<times> perm_fault) list \<Rightarrow> pr_inj \<times> reg_file
    \<Rightarrow> (((thread_id \<times> nat) \<times> perm_fault) list \<times> pr_inj \<times> reg_file) option" where
  "pr_check_entries now clk [] c = Some ([], c)"
| "pr_check_entries now clk ((k, pf) # es) (s, rf) =
     (if \<not> pf_update pf \<or> length (scalarRegs rf IntRegClass) \<le> snd k
      then map_option (\<lambda>(es', c'). ((k, pf) # es', c')) (pr_check_entries now clk es (s, rf))
      else (case pr_reapply (snd k) pf rf of None \<Rightarrow> None
        | Some rf' \<Rightarrow> map_option (\<lambda>(es', c'). ((k, pf\<lparr>pf_update := False\<rparr>) # es', c'))
            (pr_check_entries now clk es (scheduleCheckPermanentFault now clk 1 s, rf'))))"

definition pr_checkPermanent :: "tick \<Rightarrow> clocked \<Rightarrow> pr_inj \<times> reg_file \<Rightarrow> (pr_inj \<times> reg_file) option" where
  "pr_checkPermanent now clk = (\<lambda>(s, rf).
     (case pr_check_entries now clk (permanent_faults s) (s\<lparr>pr_periodic_at := None\<rparr>, rf) of None \<Rightarrow> None
      | Some (es, s', rf') \<Rightarrow> Some (s'\<lparr>permanent_faults := es\<rparr>, rf')))"

definition pr_readTraceCheck ::
    "tick \<Rightarrow> clocked \<Rightarrow> tc_status option list \<Rightarrow> pr_inj \<times> reg_file \<Rightarrow> pr_inj \<times> reg_file" where
  "pr_readTraceCheck now clk tcs = (\<lambda>(s, rf).
     let s1 = s\<lparr>pr_readTrace_at := None, pr_reads := reads_before_overwrite rf\<rparr>;
         s2 = (if trace_overwritten rf \<and> \<not> pr_overwrite_recorded s1
               then s1\<lparr>overwritten_at_cycle := curCycle now clk, pr_overwrite_recorded := True\<rparr> else s1)
     in if any_active tcs then (s2\<lparr>pr_readTrace_at := Some (clockEdge now clk 100000)\<rparr>, rf)
        else (s2\<lparr>pr_traced_phys_idx := - 1\<rparr>, clearReadTraceTarget rf))"

subsection \<open>Facts\<close>

text \<open>What the choices keep of the injector.\<close>

definition pr_same :: "pr_inj \<Rightarrow> pr_inj \<Rightarrow> bool" where
  "pr_same s s' \<longleftrightarrow> faults_injected_count s' = faults_injected_count s \<and> max_faults s' = max_faults s
     \<and> probability s' = probability s \<and> last_clock s' = last_clock s \<and> attack_at s' = attack_at s
     \<and> fault_type_enum s' = fault_type_enum s \<and> trigger_value_mask s' = trigger_value_mask s
     \<and> trigger_value_pattern s' = trigger_value_pattern s"

lemma pr_same_refl [simp]: "pr_same s s" by (simp add: pr_same_def)

lemma pr_same_trans: "pr_same s s' \<Longrightarrow> pr_same s' s'' \<Longrightarrow> pr_same s s''" by (simp add: pr_same_def)

lemma pr_same_choices:
  "pr_same s (snd (pr_class s))" "pr_same s (snd (pr_target isas tid c st rf s))"
  "pr_same s (snd (pr_choose_mask s))" "pr_same s (snd (pr_choose_lane n s))"
  "pr_same s (pr_count_type tid i f m s)"
  by (simp_all add: pr_same_def pr_class_def pr_target_def pr_phys_index_def pr_choose_mask_def pr_choose_lane_def
      pr_count_type_def Let_def case_prod_unfold split: pr_class_sel.split option.split fault_type.split)

lemma pr_finish_simps [simp]:
  "faults_injected_count (fst (pr_finish now clk c i x)) = Suc (faults_injected_count (fst x))"
  "max_faults (fst (pr_finish now clk c i x)) = max_faults (fst x)"
  "probability (fst (pr_finish now clk c i x)) = probability (fst x)"
  "snd (pr_finish now clk c i x) = setReadTraceTarget c (int i) (snd x)"
  by (cases x; simp add: pr_finish_def Let_def)+

lemma pr_corrupt_same:
  "pr_corrupt_vec tid r f m (s, rf) = Some (s', rf') \<Longrightarrow> pr_same s s'"
  "pr_corrupt_scalar tid c r f m (s, rf) = Some (hit, s', rf') \<Longrightarrow> pr_same s s'"
proof -
  assume "pr_corrupt_vec tid r f m (s, rf) = Some (s', rf')"
  then obtain n where "s' = pr_count_type tid (regIdx r) f m (snd (pr_choose_lane n s))"
    by (auto simp: pr_corrupt_vec_def Let_def case_prod_unfold split: option.splits sum.splits)
  then show "pr_same s s'" using pr_same_choices(4,5) pr_same_trans by blast
next
  assume "pr_corrupt_scalar tid c r f m (s, rf) = Some (hit, s', rf')"
  then have "s' = s \<or> s' = pr_count_type tid (regIdx r) f m s"
    by (auto simp: pr_corrupt_scalar_def Let_def split: option.splits if_splits)
  then show "pr_same s s'" using pr_same_choices(5) by auto
qed

lemma pr_processFault_count:
  assumes "pr_processFault isas now clk tid st (s, rf) = Some (s', rf')"
  shows "(faults_injected_count s' = faults_injected_count s \<or> faults_injected_count s' = Suc (faults_injected_count s))
    \<and> max_faults s' = max_faults s \<and> probability s' = probability s"
proof -
  obtain c s1 where 1: "pr_class s = (c, s1)" by (cases "pr_class s")
  obtain t s2 where 2: "pr_target isas tid c st rf s1 = (t, s2)" by (cases "pr_target isas tid c st rf s1")
  obtain m s3 where 3: "pr_choose_mask s2 = (m, s3)" by (cases "pr_choose_mask s2")
  have same: "pr_same s s2" "pr_same s s3"
    using pr_same_choices(1) [of s] pr_same_choices(2) [of s1 isas tid c st rf] pr_same_choices(3) [of s2] 1 2 3
    by (auto intro: pr_same_trans)
  show ?thesis
  proof (cases t)
    case None
    then show ?thesis using assms 1 2 same by (auto simp: pr_processFault_def pr_same_def)
  next
    case (Some r)
    have "\<exists>hit s4 rf4. (s', rf') = (if hit then pr_finish now clk c (regIdx r) (s4, rf4) else (s4, rf4)) \<and> pr_same s3 s4"
    proof (cases "c = VecRegClass")
      case True
      then obtain s4 rf4 where "pr_corrupt_vec tid r (pr_choose_fault s) m (s3, rf) = Some (s4, rf4)"
        "pr_finish now clk c (regIdx r) (s4, rf4) = (s', rf')"
        using assms 1 2 3 Some by (auto simp: pr_processFault_def)
      then show ?thesis using pr_corrupt_same(1) by (intro exI [of _ True] exI [of _ s4] exI [of _ rf4]) auto
    next
      case False
      then obtain hit s4 rf4 where "pr_corrupt_scalar tid c r (pr_choose_fault s) m (s3, rf) = Some (hit, s4, rf4)"
        "(if hit then pr_finish now clk c (regIdx r) (s4, rf4) else (s4, rf4)) = (s', rf')"
        using assms 1 2 3 Some by (auto simp: pr_processFault_def split: option.splits)
      then show ?thesis using pr_corrupt_same(2) by (intro exI [of _ hit] exI [of _ s4] exI [of _ rf4]) auto
    qed
    then obtain hit s4 rf4 where "s' = (if hit then fst (pr_finish now clk c (regIdx r) (s4, rf4)) else s4)" "pr_same s3 s4"
      by (metis fst_conv)
    then show ?thesis using same(2) by (auto simp: pr_same_def)
  qed
qed

text \<open>Every active thread gets an attempt before the cap is looked at.\<close>

lemma pr_threads_count:
  assumes "pr_threads isas now clk st tcs tid (s, rf) = Some (s', rf')"
  shows "faults_injected_count s' \<le> faults_injected_count s + length (filter (\<lambda>x. x \<noteq> None \<and> x \<noteq> Some Halted) tcs)
    \<and> max_faults s' = max_faults s"
  using assms
proof (induction tcs arbitrary: tid s rf)
  case (Cons x xs)
  show ?case
  proof (cases "x = None \<or> x = Some Halted")
    case False
    then obtain s1 rf1 where p: "pr_processFault isas now clk tid st (s, rf) = Some (s1, rf1)"
      "pr_threads isas now clk st xs (Suc tid) (s1, rf1) = Some (s', rf')"
      using Cons.prems by (auto split: option.splits)
    from Cons.IH [OF p(2)] pr_processFault_count [OF p(1)] False show ?thesis by auto
  qed (use Cons in auto)
qed simp

lemma pr_random_is_flip: "fault_type_enum s = RandomFault \<Longrightarrow> pr_choose_fault s = BitFlip"
  by (simp add: pr_choose_fault_def fault_type_of_index_def)

text \<open>A stuck vector register is not armed in the register file: the next write heals it.\<close>

lemma pr_vec_not_armed:
  assumes "pr_corrupt_vec tid r f m (s, rf) = Some (s', rf')"
  shows "stuck_type rf' = stuck_type rf \<and> stuck_idx rf' = stuck_idx rf \<and> stuck_mask rf' = stuck_mask rf"
  using assms
  by (auto simp: pr_corrupt_vec_def rf_getReg_blob_def rf_setReg_blob_def rf_setReg_def rf_getReg_def Let_def case_prod_unfold
      split: option.splits sum.splits if_splits)

text \<open>A stuck-at fault on a clean file.\<close>

lemma pr_stuck_sim:
  assumes "classValue r = c" "c = IntRegClass \<or> c = FloatRegClass" "regIdx r < length (scalarRegs rf c)"
    "stuck_type rf = InvalidRegClass" "f = StuckAtZero \<or> f = StuckAtOne" "trigger_value_mask s = 0"
  shows "\<exists>rf'. pr_corrupt_scalar tid c r f m (s, rf) = Some (True, pr_count_type tid (regIdx r) f m s, rf')
    \<and> stuck_sim r m (pr_polarity f) True rf (setReadTraceTarget c (int (regIdx r)) rf')"
proof -
  define v where "v = scalarRegs rf c ! regIdx r"
  define rf2 where "rf2 = setStuckTarget c (int (regIdx r)) m (pr_polarity f) (count_read c (regIdx r) rf)"
  define rf3 where "rf3 = (let rf1 = note_write c (regIdx r) rf2
    in rf1\<lparr>scalarRegs := (scalarRegs rf1)(c := (scalarRegs rf1 c)[regIdx r := stick c (regIdx r) (apply_fault f m v) rf1])\<rparr>)"
  have st: "stuck_at r m (pr_polarity f) rf2" using assms(1) by (simp add: stuck_at_def rf2_def setStuckTarget_def)
  have "scalarRegs rf2 = scalarRegs rf" "blobRegs rf2 = blobRegs rf" by (simp_all add: rf2_def setStuckTarget_def)
  note fields = this
  have g: "rf_getReg r rf = Some (v, count_read c (regIdx r) rf)"
    using assms(1-3) by (auto simp: rf_getReg_def v_def Let_def)
  have w: "rf_setReg r (apply_fault f m v) rf2 = Some rf3"
    using assms(1-3) fields by (auto simp: rf_setReg_def rf3_def Let_def)
  have "pr_corrupt_scalar tid c r f m (s, rf) = Some (True, pr_count_type tid (regIdx r) f m s, rf3)"
    using g w assms(5,6) by (simp add: pr_corrupt_scalar_def rf2_def Let_def)
  moreover have "forced (pr_polarity f) m (scalarRegs rf3 c ! regIdx r)"
    using forced_stick [OF st, of "apply_fault f m v"] assms(1,3) fields by (simp add: rf3_def Let_def)
  then have "stuck_sim r m (pr_polarity f) True rf (setReadTraceTarget c (int (regIdx r)) rf3)"
    using assms(1,3,4) fields st
    by (auto simp: stuck_sim_def agree_except_def stuck_at_def rf3_def Let_def setReadTraceTarget_def)
  ultimately show ?thesis by blast
qed

text \<open>C22: a stuck-at cell is permanent.  When an attempt of the register-file injector applies a
  stuck-at fault to an integer or floating-point register of a file with no other stuck cell, the
  fault is counted and the read trace points at the register; and after any further accesses the
  faulted bits of that register still have the stuck value, while every other register holds what it
  would hold without the fault.\<close>

theorem phys_reg_stuck_permanent:
  assumes "pr_class s = (c, s1)" "c = IntRegClass \<or> c = FloatRegClass" "pr_target isas tid c st rf s1 = (Some r, s2)"
    and "classValue r = c" "regIdx r < length (scalarRegs rf c)" "pr_choose_mask s2 = (m, s3)"
    and "f = pr_choose_fault s" "f = StuckAtZero \<or> f = StuckAtOne" "trigger_value_mask s = 0"
    and "stuck_type rf = InvalidRegClass" "rf_run as rf = Some rf1"
  shows "\<exists>s' rf' rf1'. pr_processFault isas now clk tid st (s, rf) = Some (s', rf')
    \<and> faults_injected_count s' = Suc (faults_injected_count s)
    \<and> trace_type rf' = c \<and> trace_idx rf' = int (regIdx r) \<and> reads_before_overwrite rf' = 0 \<and> \<not> trace_overwritten rf'
    \<and> rf_run as rf' = Some rf1' \<and> agree_except r rf1 rf1'
    \<and> forced (pr_polarity f) m (scalarRegs rf1' c ! regIdx r)"
proof -
  have same: "pr_same s s3"
    using pr_same_choices(1) [of s] pr_same_choices(2) [of s1 isas tid c st rf] pr_same_choices(3) [of s2] assms(1,3,6)
    by (auto intro: pr_same_trans)
  then have "trigger_value_mask s3 = 0" using assms(9) by (simp add: pr_same_def)
  from pr_stuck_sim [OF assms(4,2,5,10,8) this, of tid m] obtain rf' where
    k: "pr_corrupt_scalar tid c r f m (s3, rf) = Some (True, pr_count_type tid (regIdx r) f m s3, rf')"
    "stuck_sim r m (pr_polarity f) True rf (setReadTraceTarget c (int (regIdx r)) rf')" by blast
  define s' where "s' = fst (pr_finish now clk c (regIdx r) (pr_count_type tid (regIdx r) f m s3, rf'))"
  define rf'' where "rf'' = setReadTraceTarget c (int (regIdx r)) rf'"
  have "pr_finish now clk c (regIdx r) (pr_count_type tid (regIdx r) f m s3, rf') = (s', rf'')"
    by (simp add: s'_def rf''_def prod_eq_iff)
  then have "pr_processFault isas now clk tid st (s, rf) = Some (s', rf'')"
    using assms(1-3,6,7) k(1) by (auto simp: pr_processFault_def)
  moreover have "faults_injected_count s' = Suc (faults_injected_count s)"
    using same pr_same_choices(5) [of s3 tid "regIdx r" f m] by (simp add: s'_def pr_same_def)
  moreover obtain rf1' where "rf_run as rf'' = Some rf1'" "stuck_sim r m (pr_polarity f) True rf1 rf1'"
    using stuck_sim_run [OF k(2) assms(11)] assms(2,4) by (auto simp: rf''_def)
  ultimately show ?thesis using assms(4)
    by (intro exI [of _ s'] exI [of _ rf''] exI [of _ rf1']) (simp add: stuck_sim_def rf''_def setReadTraceTarget_def)
qed

text \<open>C23: the cap of the register-file injector bounds the faults only up to the number of threads.
  Since every active thread gets an attempt before the cap is compared, a processing that starts
  below the cap ends with fewer faults than the cap plus the number of active threads, and then
  cancels both events if the cap is reached.\<close>

theorem phys_reg_cap_overshoot:
  assumes "pr_attackCheck isas now clk tcs st (s, rf) = Some (s', rf')"
    and "max_faults s \<noteq> 0" "faults_injected_count s < max_faults s"
  shows "faults_injected_count s' < max_faults s + max 1 (length (filter (\<lambda>x. x \<noteq> None \<and> x \<noteq> Some Halted) tcs))
    \<and> (probability s \<noteq> 0 \<and> max_faults s \<le> faults_injected_count s' \<longrightarrow> attack_at s' = None \<and> pr_periodic_at s' = None)"
proof (cases "probability s = 0")
  case False
  obtain s1 where t: "pr_threads isas now clk st tcs 0 (fire (s, rf)) = Some (s1, rf')"
    "s' = (if cap_reached s1 then unscheduleAttackEvent s1
       else if any_active tcs then (case geometric (probability s1) (rng s1) of (d, r) \<Rightarrow>
         let s2 = s1\<lparr>rng := r\<rparr> in if last_clock s1 = 0 \<or> d + curCycle now clk \<le> last_clock s1
           then scheduleAttackEvent now clk d s2 else s2)
       else unscheduleAttackEvent s1)"
    using assms(1) False by (auto simp: pr_attackCheck_def case_prod_unfold Let_def split: option.splits if_splits)
  have c: "faults_injected_count s1 \<le> faults_injected_count s + length (filter (\<lambda>x. x \<noteq> None \<and> x \<noteq> Some Halted) tcs)"
    "max_faults s1 = max_faults s"
    using pr_threads_count [OF t(1) [unfolded fire_def fst_conv snd_conv]] by simp_all
  have f: "faults_injected_count s' = faults_injected_count s1"
    using t(2) by (auto simp: unscheduleAttackEvent_def case_prod_unfold Let_def)
  moreover have "attack_at s' = None \<and> pr_periodic_at s' = None" if "max_faults s \<le> faults_injected_count s'"
    using that t(2) f c(2) assms(2) by (simp add: cap_reached_def unscheduleAttackEvent_def)
  ultimately show ?thesis using c(1) assms(3) by auto
qed (use assms in \<open>auto simp: pr_attackCheck_def fire_def\<close>)

text \<open>The periodic check is never scheduled again when it runs before a permanent fault is recorded,
  and it applies a fault of any class to the integer register of the same index.\<close>

lemma pr_checkPermanent_empty:
  "permanent_faults s = [] \<Longrightarrow> pr_checkPermanent now clk (s, rf) = Some (s\<lparr>pr_periodic_at := None, permanent_faults := []\<rparr>, rf)"
  by (simp add: pr_checkPermanent_def)

lemma pr_checkPermanent_integer:
  assumes "permanent_faults s = [((tid, i), \<lparr>pf_type = f, pf_mask = m, pf_update = True\<rparr>)]"
    and "i < length (scalarRegs rf IntRegClass)" "stuck_type rf \<noteq> IntRegClass" "f = StuckAtZero \<or> f = StuckAtOne"
  shows "\<exists>s' rf'. pr_checkPermanent now clk (s, rf) = Some (s', rf')
    \<and> scalarRegs rf' = (scalarRegs rf)(IntRegClass := (scalarRegs rf IntRegClass)[i := apply_fault f m (scalarRegs rf IntRegClass ! i)])"
  using assms by (auto simp: pr_checkPermanent_def pr_reapply_def rf_getReg_def rf_setReg_def stick_def Let_def)

definition demo_pr :: "fault_type \<Rightarrow> pr_inj" where
  "demo_pr f = \<lparr>probability = 1, first_clock = 0, last_clock = 0, max_faults = 1, faults_injected_count = 0,
     rng = sconst 0, attack_at = None, pr_fi_mode = PhysMode, pr_target_phys_idx = 1, pr_target_arch_idx = - 1,
     pr_target_class = PrInteger, vec_lane_width = 32, vec_lane_offset = 0, pr_num_bits = 1, fault_type_enum = f,
     pr_fault_mask = 6, trigger_value_mask = 0, trigger_value_pattern = 0, pr_periodic_at = None,
     pr_readTrace_at = None, free_list_size_at_inject = 0, pr_reads = 0, pr_trace_overwritten = False,
     overwritten_at_cycle = 0, pr_overwrite_recorded = False, pr_traced_phys_idx = - 1, permanent_faults = [],
     pr_numFaultsInjected = 0, pr_numBitFlips = 0, pr_numStuckAtZero = 0, pr_numStuckAtOne = 0,
     pr_numPermanentFaults = 0\<rparr>"

abbreviation demo_clk :: clocked where
  "demo_clk \<equiv> \<lparr>clk_tick = 0, clk_cycle = 0, clk_period = 500\<rparr>"

theorem phys_reg_stuck_permanent_witness:
  "\<exists>s' rf' rf1'. pr_processFault (\<lambda>_. None) 0 demo_clk 0 demo_cpu (demo_pr StuckAtOne, demo_rf) = Some (s', rf')
     \<and> rf_run [RfWrite (int_reg 1) 0] rf' = Some rf1' \<and> forced 1 6 (scalarRegs rf1' IntRegClass ! 1)"
proof -
  define s2 where "s2 = (demo_pr StuckAtOne)\<lparr>free_list_size_at_inject := 2\<rparr>"
  have "pr_class (demo_pr StuckAtOne) = (IntRegClass, demo_pr StuckAtOne)" by (simp add: pr_class_def demo_pr_def)
  moreover have "pr_target (\<lambda>_. None) 0 IntRegClass demo_cpu demo_rf (demo_pr StuckAtOne) = (Some (int_reg 1), s2)"
    by (simp add: pr_target_def pr_phys_index_def pr_num_phys_def demo_pr_def demo_rf_def numFreeRegs_def demo_cpu_init s2_def)
  moreover have "pr_choose_mask s2 = (6, s2)" by (simp add: pr_choose_mask_def s2_def demo_pr_def)
  moreover have "pr_choose_fault (demo_pr StuckAtOne) = StuckAtOne" "trigger_value_mask (demo_pr StuckAtOne) = 0"
    by (simp_all add: pr_choose_fault_def demo_pr_def)
  moreover obtain rf1 where "rf_run [RfWrite (int_reg 1) 0] demo_rf = Some rf1"
    by (simp add: rf_setReg_def demo_rf_def Let_def)
  moreover have "stuck_type demo_rf = InvalidRegClass" "regIdx (int_reg 1) < length (scalarRegs demo_rf IntRegClass)"
    by (simp_all add: demo_rf_def)
  ultimately show ?thesis
    using phys_reg_stuck_permanent [of "demo_pr StuckAtOne" IntRegClass "demo_pr StuckAtOne" "\<lambda>_. None" 0 demo_cpu
        demo_rf "int_reg 1" s2 6 s2 StuckAtOne "[RfWrite (int_reg 1) 0]" rf1 0 demo_clk]
    by (auto simp: pr_polarity_def)
qed

text \<open>Two threads and a cap of one: two faults.\<close>

theorem phys_reg_cap_overshoot_witness:
  "\<exists>s' rf'. pr_attackCheck (\<lambda>_. None) 0 demo_clk [Some Active, Some Active] demo_cpu (demo_pr BitFlip, demo_rf) = Some (s', rf')
     \<and> faults_injected_count s' = 2 \<and> faults_injected_count s' < 3 \<and> attack_at s' = None"
proof -
  have "\<exists>s' rf'. pr_attackCheck (\<lambda>_. None) 0 demo_clk [Some Active, Some Active] demo_cpu (demo_pr BitFlip, demo_rf) = Some (s', rf')
      \<and> faults_injected_count s' = 2"
    by (simp add: pr_attackCheck_def pr_processFault_def pr_class_def pr_target_def pr_phys_index_def pr_num_phys_def
        pr_choose_mask_def pr_choose_fault_def pr_corrupt_scalar_def pr_count_type_def pr_finish_def rf_getReg_def
        rf_setReg_def count_read_def note_write_def stick_def setReadTraceTarget_def demo_pr_def demo_rf_def fire_def
        cap_reached_def unscheduleAttackEvent_def count_fault_def Let_def)
  then obtain s' rf' where r: "pr_attackCheck (\<lambda>_. None) 0 demo_clk [Some Active, Some Active] demo_cpu (demo_pr BitFlip, demo_rf) = Some (s', rf')"
    "faults_injected_count s' = 2" by blast
  from phys_reg_cap_overshoot [OF r(1)] r show ?thesis by (simp add: demo_pr_def)
qed

end
