(* ===== verification/Issue_Queue.thy ===== *)
theory Issue_Queue
  imports Wake
begin

text \<open>
  The issue queue as a whole (\<open>InstructionQueue\<close> and \<open>IQUnit\<close> in \<open>cpu/o3/inst_queue.cc\<close>): insertion with
  its dependency tracking, wakeup, squash and commit, on top of the wakeup of \<open>Wake\<close>.  A failed
  assertion and a panic are \<open>None\<close>.  What the queue only reads of an instruction is the record
  \<open>dyn_inst\<close>; of the memory dependence unit only the calls made to it are kept.
\<close>

subsection \<open>The units of the queue\<close>

datatype smt_policy = PolicyDynamic | PolicyPartitioned | PolicyThreshold

record iq_unit =
  iqPolicy :: smt_policy
  unit_numThreads :: nat
  freeEntries :: nat
  unit_numEntries :: nat
  maxEntries :: "thread_id \<Rightarrow> nat"
  unit_count :: "thread_id \<Rightarrow> nat"
  unit_capable :: "op_class \<Rightarrow> bool"

text \<open>The constructor; \<open>thr\<close> is the share of the entries under the threshold policy, a product in floating
  point.  Threads past the configured ones have no entries.\<close>

definition IQUnit :: "smt_policy \<Rightarrow> nat \<Rightarrow> nat \<Rightarrow> nat \<Rightarrow> (op_class \<Rightarrow> bool) \<Rightarrow> iq_unit" where
  "IQUnit pol threads entries thr cap = \<lparr>iqPolicy = pol, unit_numThreads = threads, freeEntries = entries,
     unit_numEntries = entries,
     maxEntries = (\<lambda>t. if threads \<le> t then 0
        else (case pol of PolicyDynamic \<Rightarrow> entries | PolicyPartitioned \<Rightarrow> entries div threads | PolicyThreshold \<Rightarrow> thr)),
     unit_count = (\<lambda>_. 0), unit_capable = cap\<rparr>"

definition unit_insert :: "thread_id \<Rightarrow> iq_unit \<Rightarrow> iq_unit option" where
  "unit_insert t u = (if freeEntries u = 0 then None
     else Some (u\<lparr>freeEntries := freeEntries u - 1, unit_count := (unit_count u)(t := unit_count u t + 1)\<rparr>))"

definition unit_remove :: "thread_id \<Rightarrow> iq_unit \<Rightarrow> iq_unit option" where
  "unit_remove t u = (if unit_numEntries u < freeEntries u + 1 then None
     else Some (u\<lparr>freeEntries := freeEntries u + 1, unit_count := (unit_count u)(t := unit_count u t - 1)\<rparr>))"

definition unit_resetState :: "iq_unit \<Rightarrow> iq_unit" where
  "unit_resetState u = u\<lparr>freeEntries := unit_numEntries u,
     unit_count := (\<lambda>t. if t < unit_numThreads u then 0 else unit_count u t)\<rparr>"

text \<open>The difference is one of 32-bit unsigned integers.\<close>

definition unit_numFreeEntries :: "thread_id \<Rightarrow> iq_unit \<Rightarrow> nat" where
  "unit_numFreeEntries t u = unat (of_nat (maxEntries u t) - of_nat (unit_count u t) :: u32)"

definition unit_numFreeFor :: "thread_id \<Rightarrow> op_class \<Rightarrow> iq_unit \<Rightarrow> nat" where
  "unit_numFreeFor t c u = (if c \<noteq> 0 \<and> \<not> unit_capable u c then 0 else unit_numFreeEntries t u)"

definition unit_resetEntries :: "thread_id list \<Rightarrow> iq_unit \<Rightarrow> iq_unit" where
  "unit_resetEntries active u =
     (if iqPolicy u \<noteq> PolicyDynamic \<or> 1 < unit_numThreads u then
        u\<lparr>maxEntries := (\<lambda>t. if t \<in> set active then
             (if iqPolicy u = PolicyPartitioned then unit_numEntries u div length active
              else if iqPolicy u = PolicyThreshold \<and> length active = 1 then unit_numEntries u else maxEntries u t)
           else maxEntries u t)\<rparr>
      else u)"

fun findIQ :: "thread_id \<Rightarrow> op_class \<Rightarrow> iq_unit list \<Rightarrow> nat option" where
  "findIQ t c [] = None"
| "findIQ t c (u # us) = (if 0 < unit_numFreeFor t c u then Some 0 else map_option Suc (findIQ t c us))"

subsection \<open>The queue\<close>

record dyn_inst =
  di_thread :: thread_id
  di_srcs :: "nat list"
  di_dests :: "nat list"
  di_isLoad :: bool
  di_isStore :: bool
  di_isFullMemBarrier :: bool
  di_isStoreConditional :: bool
  di_isNonSpeculative :: bool
  di_isAtomic :: bool
  di_isReadBarrier :: bool
  di_isWriteBarrier :: bool
  di_isFloating :: bool
  di_isVector :: bool

record inst_queue =
  iq :: iq_state
  insts :: "inst_id \<Rightarrow> dyn_inst"
  srcFlags :: "inst_id \<Rightarrow> bool list"
  instList :: "thread_id \<Rightarrow> inst_id list"
  nonSpecInsts :: "inst_id set"
  iqUnits :: "iq_unit list"
  unitOf :: "inst_id \<Rightarrow> nat option"
  issuedF :: "inst_id \<Rightarrow> bool"
  completedF :: "inst_id \<Rightarrow> bool"
  faultedF :: "inst_id \<Rightarrow> bool"
  canCommitF :: "inst_id \<Rightarrow> bool"
  atCommitF :: "inst_id \<Rightarrow> bool"
  translationStartedF :: "inst_id \<Rightarrow> bool"
  translationCompletedF :: "inst_id \<Rightarrow> bool"
  squashedInIQ :: "inst_id \<Rightarrow> bool"
  memInsert_calls :: "inst_id list"
  memInsertNonSpec_calls :: "inst_id list"
  memInsertBarrier_calls :: "inst_id list"
  memNonSpecReady_calls :: "inst_id list"
  memReschedule_calls :: "inst_id list"
  blockedI :: "inst_id list"
  instsAdded :: nat
  nonSpecInstsAdded :: nat
  squashedInstsExamined :: nat
  squashedOperandsExamined :: nat
  squashedNonSpecRemoved :: nat
  fpInstQueueWrites :: nat
  vecInstQueueWrites :: nat
  intInstQueueWrites :: nat

definition upd_iq :: "(iq_state \<Rightarrow> iq_state) \<Rightarrow> inst_queue \<Rightarrow> inst_queue" where
  "upd_iq f st = st\<lparr>iq := f (iq st)\<rparr>"

definition count_write :: "inst_id \<Rightarrow> inst_queue \<Rightarrow> inst_queue" where
  "count_write i st = (let d = insts st i in
     if di_isFloating d then st\<lparr>fpInstQueueWrites := fpInstQueueWrites st + 1\<rparr>
     else if di_isVector d then st\<lparr>vecInstQueueWrites := vecInstQueueWrites st + 1\<rparr>
     else st\<lparr>intInstQueueWrites := intInstQueueWrites st + 1\<rparr>)"

text \<open>\<open>addToDependents\<close> from source index \<open>k\<close> on, and \<open>addToProducers\<close>.\<close>

definition add_dependent :: "inst_id \<Rightarrow> nat \<Rightarrow> nat \<Rightarrow> inst_queue \<Rightarrow> inst_queue" where
  "add_dependent i k r st =
     (if srcFlags st i ! k then st
      else if fixed_reg (iq st) r then st
      else if \<not> iqScoreboard (iq st) r then upd_iq (dg_insert r i) st
      else upd_iq (markSrcRegReady i) (st\<lparr>srcFlags := (srcFlags st)(i := (srcFlags st i)[k := True])\<rparr>))"

fun add_dependents :: "inst_id \<Rightarrow> nat \<Rightarrow> nat list \<Rightarrow> inst_queue \<Rightarrow> inst_queue" where
  "add_dependents i k [] st = st"
| "add_dependents i k (r # rs) st = add_dependents i (Suc k) rs (add_dependent i k r st)"

definition addToDependents :: "inst_id \<Rightarrow> inst_queue \<Rightarrow> inst_queue" where
  "addToDependents i st = add_dependents i 0 (di_srcs (insts st i)) st"

fun add_producers :: "inst_id \<Rightarrow> nat list \<Rightarrow> iq_state \<Rightarrow> iq_state option" where
  "add_producers i [] w = Some w"
| "add_producers i (r # rs) w =
     (if fixed_reg w r then add_producers i rs w
      else if dependents_of w r \<noteq> [] then None
      else add_producers i rs (w\<lparr>producer_of := (producer_of w)(r := Some i), iqScoreboard := (iqScoreboard w)(r := False)\<rparr>))"

definition addToProducers :: "inst_id \<Rightarrow> inst_queue \<Rightarrow> inst_queue option" where
  "addToProducers i st = map_option (\<lambda>w. st\<lparr>iq := w\<rparr>) (add_producers i (di_dests (insts st i)) (iq st))"

text \<open>\<open>setInIQ\<close> asserts that the instruction has no unit yet.\<close>

definition enter_unit :: "inst_id \<Rightarrow> inst_queue \<Rightarrow> inst_queue option" where
  "enter_unit i st =
     (let t = di_thread (insts st i) in
      (case findIQ t (opClass_inst (iq st) i) (iqUnits st) of None \<Rightarrow> None
       | Some k \<Rightarrow>
           (case unit_insert t (iqUnits st ! k) of None \<Rightarrow> None
            | Some u \<Rightarrow>
                if unitOf st i \<noteq> None then None
                else Some (upd_iq (\<lambda>w. w\<lparr>inIQ := (inIQ w)(i := True)\<rparr>)
                  (st\<lparr>iqUnits := (iqUnits st)[k := u], unitOf := (unitOf st)(i := Some k)\<rparr>)))))"

definition push_inst :: "inst_id \<Rightarrow> inst_queue \<Rightarrow> inst_queue" where
  "push_inst i st = (let t = di_thread (insts st i)
     in st\<lparr>instList := (instList st)(t := instList st t @ [i])\<rparr>)"

text \<open>The insertions, after the count of the write.\<close>

definition put_inst :: "inst_id \<Rightarrow> inst_queue \<Rightarrow> inst_queue option" where
  "put_inst i st =
     (case enter_unit i (push_inst i st) of None \<Rightarrow> None
      | Some st1 \<Rightarrow>
          (case addToProducers i (addToDependents i st1) of None \<Rightarrow> None
           | Some st2 \<Rightarrow>
               let st3 = (if memRef_inst (iq st2) i then st2\<lparr>memInsert_calls := memInsert_calls st2 @ [i]\<rparr>
                          else upd_iq (addIfReady i) st2)
               in Some (st3\<lparr>instsAdded := instsAdded st3 + 1\<rparr>)))"

definition insert_inst :: "inst_id \<Rightarrow> inst_queue \<Rightarrow> inst_queue option" where
  "insert_inst i st = put_inst i (count_write i st)"

definition put_nonSpec :: "inst_id \<Rightarrow> inst_queue \<Rightarrow> inst_queue option" where
  "put_nonSpec i st =
     (case enter_unit i (push_inst i (st\<lparr>nonSpecInsts := insert i (nonSpecInsts st)\<rparr>)) of None \<Rightarrow> None
      | Some st1 \<Rightarrow>
          (case addToProducers i st1 of None \<Rightarrow> None
           | Some st2 \<Rightarrow>
               let st3 = (if memRef_inst (iq st2) i then st2\<lparr>memInsertNonSpec_calls := memInsertNonSpec_calls st2 @ [i]\<rparr> else st2)
               in Some (st3\<lparr>nonSpecInstsAdded := nonSpecInstsAdded st3 + 1\<rparr>)))"

definition insertNonSpec :: "inst_id \<Rightarrow> inst_queue \<Rightarrow> inst_queue option" where
  "insertNonSpec i st = put_nonSpec i (count_write i st)"

definition insertBarrier :: "inst_id \<Rightarrow> inst_queue \<Rightarrow> inst_queue option" where
  "insertBarrier i st = insertNonSpec i (st\<lparr>memInsertBarrier_calls := memInsertBarrier_calls st @ [i]\<rparr>)"

definition scheduleNonSpec :: "inst_id \<Rightarrow> inst_queue \<Rightarrow> inst_queue option" where
  "scheduleNonSpec i st =
     (if i \<notin> nonSpecInsts st then None
      else
        let st1 = upd_iq (\<lambda>w. w\<lparr>canIssue := (canIssue w)(i := True)\<rparr>) (st\<lparr>atCommitF := (atCommitF st)(i := True)\<rparr>);
            st2 = (if \<not> memRef_inst (iq st1) i then upd_iq (addIfReady i) st1
                   else st1\<lparr>memNonSpecReady_calls := memNonSpecReady_calls st1 @ [i]\<rparr>)
        in Some (st2\<lparr>nonSpecInsts := nonSpecInsts st2 - {i}\<rparr>))"

definition iq_commit :: "inst_id \<Rightarrow> thread_id \<Rightarrow> inst_queue \<Rightarrow> inst_queue" where
  "iq_commit s t st = st\<lparr>instList := (instList st)(t := dropWhile (\<lambda>i. i \<le> s) (instList st t))\<rparr>"

definition blockMemInst :: "inst_id \<Rightarrow> inst_queue \<Rightarrow> inst_queue" where
  "blockMemInst i st = upd_iq (\<lambda>w. w\<lparr>canIssue := (canIssue w)(i := False)\<rparr>)
     (st\<lparr>issuedF := (issuedF st)(i := False), blockedI := blockedI st @ [i]\<rparr>)"

definition rescheduleMemInst :: "inst_id \<Rightarrow> inst_queue \<Rightarrow> inst_queue" where
  "rescheduleMemInst i st = upd_iq (\<lambda>w. w\<lparr>canIssue := (canIssue w)(i := False)\<rparr>)
     (st\<lparr>translationStartedF := (translationStartedF st)(i := False), translationCompletedF := (translationCompletedF st)(i := False),
        memReschedule_calls := memReschedule_calls st @ [i]\<rparr>)"

text \<open>\<open>clearInIQ\<close>.\<close>

definition leave_unit :: "inst_id \<Rightarrow> inst_queue \<Rightarrow> inst_queue option" where
  "leave_unit i st =
     (case unitOf st i of None \<Rightarrow> None
      | Some k \<Rightarrow>
          (case unit_remove (di_thread (insts st i)) (iqUnits st ! k) of None \<Rightarrow> None
           | Some u \<Rightarrow> Some (upd_iq (\<lambda>w. w\<lparr>inIQ := (inIQ w)(i := False)\<rparr>)
               (st\<lparr>iqUnits := (iqUnits st)[k := u], unitOf := (unitOf st)(i := None)\<rparr>))))"

subsection \<open>Squash\<close>

definition is_acq_rel :: "dyn_inst \<Rightarrow> bool" where
  "is_acq_rel d \<longleftrightarrow> di_isFullMemBarrier d \<and> (di_isLoad d \<or> di_isStore d \<and> \<not> di_isStoreConditional d)"

text \<open>The instructions whose sources are in the dependency graph.\<close>

definition dep_tracked :: "dyn_inst \<Rightarrow> bool" where
  "dep_tracked d \<longleftrightarrow> is_acq_rel d
     \<or> \<not> di_isNonSpeculative d \<and> \<not> di_isStoreConditional d \<and> \<not> di_isAtomic d \<and> \<not> di_isReadBarrier d \<and> \<not> di_isWriteBarrier d"

fun squash_srcs :: "inst_id \<Rightarrow> nat \<Rightarrow> nat list \<Rightarrow> inst_queue \<Rightarrow> inst_queue option" where
  "squash_srcs i k [] st = Some st"
| "squash_srcs i k (r # rs) st =
     (case (if \<not> srcFlags st i ! k \<and> \<not> fixed_reg (iq st) r then dg_remove r i (iq st) else Some (iq st)) of None \<Rightarrow> None
      | Some w \<Rightarrow> squash_srcs i (Suc k) rs (st\<lparr>iq := w, squashedOperandsExamined := squashedOperandsExamined st + 1\<rparr>))"

definition squash_tracking :: "inst_id \<Rightarrow> inst_queue \<Rightarrow> inst_queue option" where
  "squash_tracking i st =
     (let d = insts st i in
      if dep_tracked d then squash_srcs i 0 (di_srcs d) st
      else if \<not> di_isStoreConditional d \<or> \<not> completedF st i then
        (if i \<notin> nonSpecInsts st then (if faultedF st i \<or> memRef_inst (iq st) i then Some st else None)
         else Some (st\<lparr>nonSpecInsts := nonSpecInsts st - {i}, squashedNonSpecRemoved := squashedNonSpecRemoved st + 1\<rparr>))
      else Some st)"

definition mark_squashed :: "inst_id \<Rightarrow> inst_queue \<Rightarrow> inst_queue" where
  "mark_squashed i st = upd_iq (\<lambda>w. w\<lparr>squashed_inst := (squashed_inst w)(i := True)\<rparr>)
     (st\<lparr>squashedInIQ := (squashedInIQ st)(i := True), issuedF := (issuedF st)(i := True), canCommitF := (canCommitF st)(i := True)\<rparr>)"

fun squash_dests :: "nat list \<Rightarrow> iq_state \<Rightarrow> iq_state option" where
  "squash_dests [] w = Some w"
| "squash_dests (r # rs) w =
     (if fixed_reg w r then squash_dests rs w
      else if dependents_of w r \<noteq> [] then None
      else squash_dests rs (w\<lparr>producer_of := (producer_of w)(r := None)\<rparr>))"

definition squash_one :: "inst_id \<Rightarrow> inst_queue \<Rightarrow> inst_queue option" where
  "squash_one i st =
     (case (if \<not> issuedF st i \<or> memRef_inst (iq st) i \<and> \<not> memOpDone (iq st) i
            then (case squash_tracking i st of None \<Rightarrow> None | Some st1 \<Rightarrow> leave_unit i (mark_squashed i st1))
            else Some st) of None \<Rightarrow> None
      | Some st2 \<Rightarrow> map_option (\<lambda>w. st2\<lparr>iq := w, squashedInstsExamined := squashedInstsExamined st2 + 1\<rparr>)
          (squash_dests (di_dests (insts st i)) (iq st2)))"

text \<open>The walk from the tail of the list: the instructions still to visit, youngest first, and the ones
  passed over.\<close>

fun squash_walk :: "thread_id \<Rightarrow> inst_id \<Rightarrow> inst_id list \<Rightarrow> inst_id list \<Rightarrow> inst_queue \<Rightarrow> (inst_id list \<times> inst_queue) option" where
  "squash_walk t s [] kept st = Some (kept, st)"
| "squash_walk t s (i # is) kept st =
     (if s < i then
        let st1 = count_write i st in
        if di_thread (insts st1 i) \<noteq> t \<or> squashedInIQ st1 i then squash_walk t s is (i # kept) st1
        else (case squash_one i st1 of None \<Rightarrow> None | Some st' \<Rightarrow> squash_walk t s is kept st')
      else Some (rev (i # is) @ kept, st))"

definition iq_squash :: "thread_id \<Rightarrow> inst_id \<Rightarrow> inst_queue \<Rightarrow> inst_queue option" where
  "iq_squash t s st = map_option (\<lambda>(xs, st'). st'\<lparr>instList := (instList st')(t := xs)\<rparr>)
     (squash_walk t s (rev (instList st t)) [] st)"

text \<open>What \<open>scheduleReadyInsts\<close> does here to the instruction it issues.\<close>

definition mark_issued :: "inst_id \<Rightarrow> inst_queue \<Rightarrow> inst_queue option" where
  "mark_issued i st =
     (let st1 = st\<lparr>issuedF := (issuedF st)(i := True)\<rparr>
      in if \<not> memRef_inst (iq st1) i then leave_unit i st1 else Some st1)"

text \<open>The completion of an instruction, with no injector attached: \<open>wakeDependents\<close>, and the entry of a
  memory instruction is freed.\<close>

definition iq_complete :: "cycles \<Rightarrow> completed_inst \<Rightarrow> inst_queue \<Rightarrow> inst_queue option" where
  "iq_complete cur ci st =
     (case wakeDependents cur ci (None, iq st) of None \<Rightarrow> None
      | Some (_, w, _) \<Rightarrow>
          if comp_isMemRef ci then leave_unit (comp_id ci) (st\<lparr>iq := w\<rparr>) else Some (st\<lparr>iq := w\<rparr>))"

subsection \<open>A wakeup without injector\<close>

definition wake_one :: "inst_id \<Rightarrow> iq_state \<Rightarrow> iq_state" where
  "wake_one d w = addIfReady d (markSrcRegReady d w)"

lemma wake_one_chain: "wake_one i (w\<lparr>dependents_of := f\<rparr>) = (wake_one i w)\<lparr>dependents_of := f\<rparr>"
  by (simp add: wake_one_def markSrcRegReady_def addIfReady_def Let_def)

lemma wake_one_simps [simp]:
  "dependents_of (wake_one i w) = dependents_of w" "numSrcRegs (wake_one i w) = numSrcRegs w"
  "iqScoreboard (wake_one i w) = iqScoreboard w" "fixed_reg (wake_one i w) = fixed_reg w"
  "memRef_inst (wake_one i w) = memRef_inst w" "memOpDone (wake_one i w) = memOpDone w" "readyRegs (wake_one i w) = (readyRegs w)(i := readyRegs w i + 1)"
  "canIssue (wake_one i w) = (canIssue w)(i := canIssue w i \<or> readyRegs w i + 1 = numSrcRegs w i)"
  by (auto simp: wake_one_def markSrcRegReady_def addIfReady_def Let_def fun_eq_iff)

lemma wake_loop_no_injector:
  "wake_loop cur r d (None, w, rq, n) =
     Some (None, fold wake_one ((case d of None \<Rightarrow> [] | Some i \<Rightarrow> i # dependents_of w r))
       (w\<lparr>dependents_of := (dependents_of w)(r := (if d = None then dependents_of w r else []))\<rparr>), rq,
       n + length (case d of None \<Rightarrow> [] | Some i \<Rightarrow> i # dependents_of w r))"
proof (induction "dependents_of w r" arbitrary: d w n)
  case Nil
  show ?case
  proof (cases d)
    case None
    then show ?thesis by (subst wake_loop.simps) simp
  next
    case (Some i)
    have p: "dg_pop r (addIfReady i (markSrcRegReady i w)) = (None, wake_one i w)"
      using Nil by (simp add: dg_pop_def wake_one_def)
    have e: "(dependents_of w)(r := []) = dependents_of w" using Nil by auto
    show ?thesis unfolding Some
      by (subst wake_loop.simps, simp add: wake_round_def p Let_def, subst wake_loop.simps) (simp add: e Nil [symmetric])
  qed
next
  case (Cons j js)
  show ?case
  proof (cases d)
    case None
    then show ?thesis by (subst wake_loop.simps) simp
  next
    case (Some i)
    let ?w = "(wake_one i w)\<lparr>dependents_of := (dependents_of w)(r := js)\<rparr>"
    have p: "dg_pop r (addIfReady i (markSrcRegReady i w)) = (Some j, ?w)"
      by (simp add: dg_pop_def wake_one_def Cons(2) [symmetric])
    have "js = dependents_of ?w r" by simp
    from Cons(1) [OF this, of "Some j" "Suc n"] show ?thesis unfolding Some Cons(2) [symmetric]
      by (subst wake_loop.simps) (simp add: wake_round_def p Let_def wake_one_chain)
  qed
qed

text \<open>What waking all dependents of a register does.\<close>

definition woken :: "nat \<Rightarrow> iq_state \<Rightarrow> iq_state \<Rightarrow> bool" where
  "woken r w w' \<longleftrightarrow> dependents_of w' = (dependents_of w)(r := [])
     \<and> (\<forall>i. readyRegs w' i = readyRegs w i + count (mset (dependents_of w r)) i)
     \<and> (\<forall>i. canIssue w' i \<longleftrightarrow> canIssue w i \<or> readyRegs w i < numSrcRegs w i
          \<and> numSrcRegs w i \<le> readyRegs w i + count (mset (dependents_of w r)) i)
     \<and> numSrcRegs w' = numSrcRegs w \<and> fixed_reg w' = fixed_reg w \<and> memRef_inst w' = memRef_inst w
     \<and> memOpDone w' = memOpDone w \<and> iqScoreboard w' = (iqScoreboard w)(r := True)"

lemma fold_wake_one:
  "readyRegs (fold wake_one ds w) i = readyRegs w i + count (mset ds) i"
  "canIssue (fold wake_one ds w) i \<longleftrightarrow> canIssue w i
     \<or> readyRegs w i < numSrcRegs w i \<and> numSrcRegs w i \<le> readyRegs w i + count (mset ds) i"
  "dependents_of (fold wake_one ds w) = dependents_of w" "numSrcRegs (fold wake_one ds w) = numSrcRegs w"
  "iqScoreboard (fold wake_one ds w) = iqScoreboard w" "fixed_reg (fold wake_one ds w) = fixed_reg w"
  "memRef_inst (fold wake_one ds w) = memRef_inst w" "memOpDone (fold wake_one ds w) = memOpDone w"
  by (induction ds arbitrary: w) auto

lemma wake_dest_no_injector:
  "\<exists>w' n'. wake_dest cur p r (None, w, n) = Some (None, w', n')
    \<and> (if fixed_reg w r \<or> pinsToComplete w r \<noteq> 1
       then (dependents_of w', readyRegs w', canIssue w', numSrcRegs w', fixed_reg w', memRef_inst w', memOpDone w', iqScoreboard w')
         = (dependents_of w, readyRegs w, canIssue w, numSrcRegs w, fixed_reg w, memRef_inst w, memOpDone w, iqScoreboard w)
       else woken r w w')"
proof (cases "fixed_reg w r \<or> pinsToComplete w r \<noteq> 1")
  case True
  then show ?thesis by (auto simp: wake_dest_def Let_def)
next
  case False
  define w2 where "w2 = (let w1 = w\<lparr>pinsToComplete := (pinsToComplete w)(r := pinsToComplete w r - 1)\<rparr>
     in if pinned_reg w1 r then w1\<lparr>pinnedWritten := (pinnedWritten w1)(p := True)\<rparr> else w1)"
  have w2: "dependents_of w2 = dependents_of w" "readyRegs w2 = readyRegs w" "canIssue w2 = canIssue w"
    "numSrcRegs w2 = numSrcRegs w" "fixed_reg w2 = fixed_reg w" "memRef_inst w2 = memRef_inst w"
    "iqScoreboard w2 = iqScoreboard w" "pinsToComplete w2 r = 0" "memOpDone w2 = memOpDone w"
    using False by (simp_all add: w2_def Let_def)
  let ?c = "dependents_of w r"
  define w3 where "w3 = fold wake_one ?c (w2\<lparr>dependents_of := (dependents_of w)(r := [])\<rparr>)"
  obtain d w' where pop: "dg_pop r w2 = (d, w')" by (cases "dg_pop r w2")
  have loop: "\<exists>n'. wake_loop cur r d (None, w', False, n) = Some (None, w3, False, n')"
  proof (cases ?c)
    case Nil
    then have e: "(dependents_of w)(r := []) = dependents_of w2" by (auto simp: w2(1))
    have "w3 = w2" unfolding w3_def e by (simp add: Nil)
    then show ?thesis using Nil pop wake_loop_no_injector [of cur r d w' False n]
      by (auto simp: dg_pop_def w2(1))
  next
    case (Cons i rest)
    then have "d = Some i" "w' = w2\<lparr>dependents_of := (dependents_of w)(r := rest)\<rparr>" using pop by (auto simp: dg_pop_def w2(1))
    then show ?thesis using Cons wake_loop_no_injector [of cur r d w' False n] by (simp add: w3_def)
  qed
  have ds: "dependents_of w3 r = []" by (simp add: w3_def fold_wake_one)
  have "wake_dest cur p r (None, w, n) =
    (case wake_loop cur r d (None, w', False, n) of None \<Rightarrow> None
     | Some (h', w4, rq, n') \<Rightarrow> if \<not> rq \<and> dependents_of w4 r \<noteq> [] then None
         else let w5 = (if rq then w4 else w4\<lparr>producer_of := (producer_of w4)(r := None)\<rparr>)
              in Some (h', w5\<lparr>iqScoreboard := (iqScoreboard w5)(r := True)\<rparr>, n'))"
    using False pop w2(8) by (simp add: wake_dest_def w2_def Let_def)
  moreover have "woken r w (w3\<lparr>producer_of := (producer_of w3)(r := None), iqScoreboard := (iqScoreboard w3)(r := True)\<rparr>)"
    by (simp add: woken_def w3_def fold_wake_one w2)
  ultimately show ?thesis using loop ds False by auto
qed

end
