(* ===== verification/Issue_Exact.thy ===== *)
theory Issue_Exact
  imports Issue_Queue
begin

text \<open>
  The exactness of the issue queue: in every state reached through the operations of \<open>Issue_Queue\<close> an
  instruction is ready exactly when each of its sources has been produced, the dependency chains hold
  exactly the missing sources, and the assertions on the chains hold.
\<close>

subsection \<open>Missing sources\<close>

definition unready :: "inst_queue \<Rightarrow> inst_id \<Rightarrow> nat list" where
  "unready st i = map snd (filter (\<lambda>(f, r). \<not> f) (zip (srcFlags st i) (di_srcs (insts st i))))"

definition lacking :: "(nat \<Rightarrow> bool) \<Rightarrow> nat list \<Rightarrow> nat" where
  "lacking sb us = length (filter (\<lambda>r. \<not> sb r) us)"

lemma lacking_set: "\<not> sb r \<Longrightarrow> lacking (sb(r := True)) us + count (mset us) r = lacking sb us"
  by (induction us) (auto simp: lacking_def)

lemma lacking_same: "sb r \<Longrightarrow> lacking (sb(r := True)) us = lacking sb us"
  by (simp add: lacking_def fun_upd_idem)

lemma lacking_unset: "r \<notin> set us \<Longrightarrow> lacking (sb(r := False)) us = lacking sb us"
  by (induction us) (auto simp: lacking_def)

lemma lacking_zero: "lacking sb us = 0 \<longleftrightarrow> (\<forall>r \<in> set us. sb r)"
  by (auto simp: lacking_def filter_empty_conv)

lemma unready_srcs: "r \<in> set (unready st i) \<Longrightarrow> r \<in> set (di_srcs (insts st i))"
  by (auto simp: unready_def dest: set_zip_rightD)

definition in_list :: "inst_queue \<Rightarrow> inst_id \<Rightarrow> bool" where
  "in_list st i \<longleftrightarrow> (\<exists>t. i \<in> set (instList st t))"

definition live :: "inst_queue \<Rightarrow> inst_id \<Rightarrow> bool" where
  "live st i \<longleftrightarrow> in_list st i \<and> dep_tracked (insts st i) \<and> \<not> squashedInIQ st i"

abbreviation missing :: "inst_queue \<Rightarrow> inst_id \<Rightarrow> nat" where
  "missing st i \<equiv> lacking (iqScoreboard (iq st)) (unready st i)"

definition inst_ok :: "inst_queue \<Rightarrow> inst_id \<Rightarrow> bool" where
  "inst_ok st i \<longleftrightarrow> length (srcFlags st i) = length (di_srcs (insts st i))
     \<and> numSrcRegs (iq st) i = length (di_srcs (insts st i))
     \<and> readyRegs (iq st) i + missing st i = numSrcRegs (iq st) i
     \<and> (canIssue (iq st) i \<longrightarrow> missing st i = 0)
     \<and> (missing st i = 0 \<and> \<not> memRef_inst (iq st) i \<longrightarrow> canIssue (iq st) i)
     \<and> (issuedF st i \<or> i \<in> set (blockedI st) \<or> i \<in> set (memReschedule_calls st) \<longrightarrow> missing st i = 0)
     \<and> (\<forall>r \<in> set (unready st i). \<not> fixed_reg (iq st) r)"

definition chains_ok :: "inst_queue \<Rightarrow> bool" where
  "chains_ok st \<longleftrightarrow> (\<forall>r i. count (mset (dependents_of (iq st) r)) i =
     (if live st i \<and> \<not> iqScoreboard (iq st) r then count (mset (unready st i)) r else 0))"

definition order_ok :: "inst_queue \<Rightarrow> bool" where
  "order_ok st \<longleftrightarrow> (\<forall>t. sorted_wrt (<) (instList st t) \<and> (\<forall>i \<in> set (instList st t). di_thread (insts st i) = t))
     \<and> (\<forall>i j r. in_list st i \<and> in_list st j \<and> r \<in> set (di_srcs (insts st i)) \<and> r \<in> set (di_dests (insts st j))
            \<and> \<not> fixed_reg (iq st) r
          \<longrightarrow> j < i \<and> di_thread (insts st j) = di_thread (insts st i))"

definition iq_inv :: "inst_queue \<Rightarrow> bool" where
  "iq_inv st \<longleftrightarrow> (\<forall>i. live st i \<longrightarrow> inst_ok st i) \<and> chains_ok st \<and> order_ok st"

text \<open>The fields the invariant reads.\<close>

definition inv_view :: "inst_queue \<Rightarrow> _" where
  "inv_view st = (insts st, srcFlags st, instList st, squashedInIQ st, issuedF st, blockedI st, memReschedule_calls st, numSrcRegs (iq st), readyRegs (iq st),
     canIssue (iq st), memRef_inst (iq st), fixed_reg (iq st), dependents_of (iq st), iqScoreboard (iq st))"

lemma iq_inv_view: "inv_view st' = inv_view st \<Longrightarrow> iq_inv st' = iq_inv st"
  by (simp add: inv_view_def iq_inv_def inst_ok_def chains_ok_def order_ok_def live_def in_list_def unready_def)

lemma chains_empty:
  assumes "chains_ok st" "iqScoreboard (iq st) r \<or> (\<forall>i. live st i \<longrightarrow> r \<notin> set (unready st i))"
  shows "dependents_of (iq st) r = []"
proof -
  have "count (mset (dependents_of (iq st) r)) i = 0" for i
    using assms by (auto simp: chains_ok_def count_mset_0_iff)
  then show ?thesis by (metis count_mset_0_iff list.set_intros(1) neq_Nil_conv)
qed

lemma chain_member:
  assumes "chains_ok st" "i \<in> set (dependents_of (iq st) r)"
  shows "live st i" "\<not> iqScoreboard (iq st) r" "r \<in> set (unready st i)"
proof -
  have "count (mset (dependents_of (iq st) r)) i \<noteq> 0" using assms(2) by (simp add: count_mset_0_iff)
  with assms(1) show "live st i" "\<not> iqScoreboard (iq st) r" "r \<in> set (unready st i)"
    unfolding chains_ok_def by (metis count_mset_0_iff)+
qed

subsection \<open>Completion\<close>

lemma iq_inv_woken:
  assumes inv: "iq_inv st" and w: "woken r (iq st) w'"
  shows "iq_inv (st\<lparr>iq := w'\<rparr>)"
proof -
  let ?st = "st\<lparr>iq := w'\<rparr>" and ?sb = "iqScoreboard (iq st)"
  have same: "live ?st = live st" "unready ?st = unready st" "in_list ?st = in_list st"
    by (simp_all add: live_def in_list_def unready_def fun_eq_iff)
  have chains: "chains_ok st" using inv by (simp add: iq_inv_def)
  have m: "missing ?st i + count (mset (dependents_of (iq st) r)) i = missing st i" if "live st i" for i
    using that chains w lacking_set [of ?sb r "unready st i"] lacking_same [of ?sb r "unready st i"]
    by (cases "?sb r") (simp_all add: same woken_def chains_ok_def)
  have "inst_ok ?st i" if l: "live st i" for i
  proof -
    have ok: "inst_ok st i" using inv l by (simp add: iq_inv_def)
    show ?thesis using ok w m [OF l] by (auto simp: inst_ok_def woken_def same)
  qed
  moreover have "chains_ok ?st" using chains w by (simp add: chains_ok_def woken_def same)
  moreover have "order_ok ?st" using inv w by (simp add: iq_inv_def order_ok_def same woken_def)
  ultimately show ?thesis by (simp add: iq_inv_def same)
qed

lemma wake_dests_inv:
  assumes "iq_inv (st\<lparr>iq := w\<rparr>)"
  shows "\<exists>w' n'. wake_dests cur p rs (None, w, n) = Some (None, w', n') \<and> iq_inv (st\<lparr>iq := w'\<rparr>)
    \<and> memRef_inst w' = memRef_inst w \<and> memOpDone w' = memOpDone w"
  using assms
proof (induction rs arbitrary: w n)
  case (Cons r rs)
  obtain w1 n1 where d: "wake_dest cur p r (None, w, n) = Some (None, w1, n1)"
    and e: "if fixed_reg w r \<or> pinsToComplete w r \<noteq> 1
      then (dependents_of w1, readyRegs w1, canIssue w1, numSrcRegs w1, fixed_reg w1, memRef_inst w1, memOpDone w1, iqScoreboard w1)
        = (dependents_of w, readyRegs w, canIssue w, numSrcRegs w, fixed_reg w, memRef_inst w, memOpDone w, iqScoreboard w)
      else woken r w w1"
    using wake_dest_no_injector [of cur p r w n] by blast
  have "iq_inv (st\<lparr>iq := w1\<rparr>)"
  proof (cases "fixed_reg w r \<or> pinsToComplete w r \<noteq> 1")
    case True
    with e have "inv_view (st\<lparr>iq := w1\<rparr>) = inv_view (st\<lparr>iq := w\<rparr>)" by (simp add: inv_view_def)
    with Cons.prems show ?thesis using iq_inv_view by blast
  next
    case False
    with e iq_inv_woken [OF Cons.prems, of r w1] show ?thesis by simp
  qed
  moreover have "memRef_inst w1 = memRef_inst w" "memOpDone w1 = memOpDone w" using e by (auto simp: woken_def split: if_splits)
  ultimately show ?case using Cons.IH [of w1 n1] d by simp
qed simp

lemma leave_unit_view: "leave_unit i st = Some st' \<Longrightarrow> inv_view st' = inv_view st"
  by (auto simp: leave_unit_def upd_iq_def inv_view_def split: option.splits)

lemma wakeDependents_inv:
  assumes "iq_inv st" "\<not> squashed_inst (iq st) (comp_id ci)"
  shows "\<exists>w n. wakeDependents cur ci (None, iq st) = Some (None, w, n) \<and> iq_inv (st\<lparr>iq := w\<rparr>) \<and> memRef_inst w = memRef_inst (iq st)
    \<and> memOpDone w = (if comp_isMemRef ci then (memOpDone (iq st))(comp_id ci := True) else memOpDone (iq st))"
proof -
  let ?w = "complete_mem ci (count_wakeup ci (iq st))"
  have "inv_view (st\<lparr>iq := ?w\<rparr>) = inv_view st"
    by (simp add: inv_view_def complete_mem_def count_wakeup_def Let_def)
  then have "iq_inv (st\<lparr>iq := ?w\<rparr>)" using assms(1) iq_inv_view by blast
  moreover have "memRef_inst ?w = memRef_inst (iq st)"
    "memOpDone ?w = (if comp_isMemRef ci then (memOpDone (iq st))(comp_id ci := True) else memOpDone (iq st))"
    by (simp_all add: complete_mem_def count_wakeup_def Let_def)
  ultimately show ?thesis using wake_dests_inv [where st = st and w = ?w and cur = cur and p = "comp_id ci" and rs = "comp_dests ci" and n = 0] assms(2) by (simp add: wakeDependents_def)
qed

subsection \<open>Leaving the list\<close>

text \<open>An instruction may leave the list once it is not tracked or nothing is missing.\<close>

lemma iq_inv_forget:
  assumes inv: "iq_inv st" and sub: "\<And>t. set (xs t) \<subseteq> set (instList st t)" "\<And>t. sorted_wrt (<) (xs t)"
    and gone: "\<And>i. live st i \<Longrightarrow> missing st i \<noteq> 0 \<Longrightarrow> \<exists>t. i \<in> set (xs t)"
  shows "iq_inv (st\<lparr>instList := xs\<rparr>)"
proof -
  let ?st = "st\<lparr>instList := xs\<rparr>"
  have inl: "in_list ?st i \<Longrightarrow> in_list st i" for i
    using sub(1) by (auto simp: in_list_def)
  have u: "unready ?st = unready st" by (simp add: unready_def fun_eq_iff)
  have lv: "live ?st i \<Longrightarrow> live st i" for i using inl by (simp add: live_def)
  have "count (mset (unready st i)) r = 0" if "live st i" "\<not> live ?st i" "\<not> iqScoreboard (iq st) r" for i r
  proof -
    have "missing st i = 0" using gone [OF that(1)] that(1,2) by (auto simp: live_def in_list_def)
    then show ?thesis using that(3) by (auto simp: lacking_zero count_mset_0_iff)
  qed
  then have "chains_ok ?st" using inv lv by (auto simp: chains_ok_def iq_inv_def u)
  moreover have "inst_ok ?st i" if "live ?st i" for i using inv lv [OF that] by (simp add: iq_inv_def inst_ok_def u)
  moreover have "order_ok ?st"
  proof -
    have "di_thread (insts st i) = t" if "i \<in> set (xs t)" for t i
      using inv subsetD [OF sub(1) that] by (simp add: iq_inv_def order_ok_def)
    then show ?thesis using inv inl sub(2) by (auto simp: iq_inv_def order_ok_def)
  qed
  ultimately show ?thesis by (simp add: iq_inv_def)
qed

lemma iq_commit_inv:
  assumes inv: "iq_inv st" and "\<forall>i \<in> set (instList st t). i \<le> s \<longrightarrow> issuedF st i"
  shows "iq_inv (iq_commit s t st)"
  unfolding iq_commit_def
proof (rule iq_inv_forget [OF inv])
  have srt: "sorted_wrt (<) (instList st t')" for t' using inv by (simp add: iq_inv_def order_ok_def)
  show "set (((instList st)(t := dropWhile (\<lambda>i. i \<le> s) (instList st t))) t') \<subseteq> set (instList st t')" for t'
    by (auto dest: set_dropWhileD)
  show "sorted_wrt (<) (((instList st)(t := dropWhile (\<lambda>i. i \<le> s) (instList st t))) t')" for t'
    using srt sorted_wrt_dropWhile by auto
  fix i assume l: "live st i" and m: "missing st i \<noteq> 0"
  then have n: "\<not> issuedF st i" using inv by (auto simp: iq_inv_def inst_ok_def)
  obtain t' where t': "i \<in> set (instList st t')" using l by (auto simp: live_def in_list_def)
  show "\<exists>t'. i \<in> set (((instList st)(t := dropWhile (\<lambda>i. i \<le> s) (instList st t))) t')"
  proof (cases "t' = t")
    case True
    then have "\<not> i \<le> s" using assms(2) n t' by auto
    then have "i \<in> set (dropWhile (\<lambda>i. i \<le> s) (instList st t))"
      using t' True by (metis Un_iff set_append set_takeWhileD takeWhile_dropWhile_id)
    then show ?thesis by (intro exI [of _ t]) simp
  qed (use t' in \<open>auto intro!: exI [of _ t']\<close>)
qed

subsection \<open>Squash\<close>

text \<open>Removing the chain entries of an instruction, from source \<open>k\<close> on.  \<open>us\<close> are the sources still to
  remove.\<close>

abbreviation todo :: "bool list \<Rightarrow> nat list \<Rightarrow> nat list" where
  "todo fs rs \<equiv> map snd (filter (\<lambda>(f, r). \<not> f) (zip fs rs))"

definition only_of :: "inst_id \<Rightarrow> nat list \<Rightarrow> iq_state \<Rightarrow> bool" where
  "only_of i us w \<longleftrightarrow> (\<forall>r. if iqScoreboard w r then dependents_of w r = []
     else count (mset (dependents_of w r)) i = count (mset us) r)"

lemma dg_remove_only:
  assumes "only_of i (r # us) w"
  shows "dg_remove r i w = Some (w\<lparr>dependents_of := (dependents_of w)(r := remove1 i (dependents_of w r))\<rparr>)
    \<and> only_of i us (w\<lparr>dependents_of := (dependents_of w)(r := remove1 i (dependents_of w r))\<rparr>)"
proof (cases "dependents_of w r = []")
  case True
  then have "iqScoreboard w r" using assms by (auto simp: only_of_def split: if_splits dest: spec [of _ r])
  moreover have "(dependents_of w)(r := []) = dependents_of w" using True by auto
  ultimately show ?thesis using assms True by (auto simp: dg_remove_def only_of_def)
next
  case False
  then have n: "\<not> iqScoreboard w r" using assms by (auto simp: only_of_def split: if_splits)
  then have "count (mset (dependents_of w r)) i = Suc (count (mset us) r)" using assms by (simp add: only_of_def)
  then have "i \<in> set (dependents_of w r)" by (metis count_mset_0_iff nat.distinct(1))
  then show ?thesis using assms False n by (auto simp: dg_remove_def only_of_def)
qed

lemma squash_srcs_spec:
  assumes "only_of i (todo (drop k (srcFlags st i)) rs) (iq st)" "length (srcFlags st i) = k + length rs"
    "\<forall>r \<in> set (todo (drop k (srcFlags st i)) rs). \<not> fixed_reg (iq st) r"
  shows "\<exists>f n. squash_srcs i k rs st = Some (st\<lparr>iq := (iq st)\<lparr>dependents_of := f\<rparr>, squashedOperandsExamined := n\<rparr>)
    \<and> only_of i [] ((iq st)\<lparr>dependents_of := f\<rparr>)
    \<and> (\<forall>r j. j \<noteq> i \<longrightarrow> count (mset (f r)) j = count (mset (dependents_of (iq st) r)) j)"
  using assms
proof (induction rs arbitrary: k st)
  case Nil
  then show ?case by (intro exI [of _ "dependents_of (iq st)"] exI [of _ "squashedOperandsExamined st"]) simp
next
  case (Cons r rs)
  obtain fs where d: "drop k (srcFlags st i) = srcFlags st i ! k # fs" "drop (Suc k) (srcFlags st i) = fs"
    using Cons.prems(2) by (metis Cons_nth_drop_Suc length_Cons less_add_same_cancel1 zero_less_Suc)
  define w where "w = (if srcFlags st i ! k then iq st
    else (iq st)\<lparr>dependents_of := (dependents_of (iq st))(r := remove1 i (dependents_of (iq st) r))\<rparr>)"
  let ?st = "st\<lparr>iq := w, squashedOperandsExamined := squashedOperandsExamined st + 1\<rparr>"
  have rm: "(if \<not> srcFlags st i ! k \<and> \<not> fixed_reg (iq st) r then dg_remove r i (iq st) else Some (iq st)) = Some w"
    and only: "only_of i (todo fs rs) w"
    using Cons.prems(1,3) dg_remove_only [of i r "todo fs rs" "iq st"] by (auto simp: d(1) w_def)
  have "\<exists>f n. squash_srcs i (Suc k) rs ?st = Some (?st\<lparr>iq := (iq ?st)\<lparr>dependents_of := f\<rparr>, squashedOperandsExamined := n\<rparr>)
    \<and> only_of i [] ((iq ?st)\<lparr>dependents_of := f\<rparr>)
    \<and> (\<forall>r j. j \<noteq> i \<longrightarrow> count (mset (f r)) j = count (mset (dependents_of (iq ?st) r)) j)"
  proof (rule Cons.IH)
    show "only_of i (todo (drop (Suc k) (srcFlags ?st i)) rs) (iq ?st)" using only by (simp add: d(2))
    show "length (srcFlags ?st i) = Suc k + length rs" using Cons.prems(2) by simp
    show "\<forall>r \<in> set (todo (drop (Suc k) (srcFlags ?st i)) rs). \<not> fixed_reg (iq ?st) r"
      using Cons.prems(3) by (auto simp: d w_def split: if_splits)
  qed
  then obtain f n where fn: "squash_srcs i (Suc k) rs ?st = Some (?st\<lparr>iq := (iq ?st)\<lparr>dependents_of := f\<rparr>, squashedOperandsExamined := n\<rparr>)"
    "only_of i [] (w\<lparr>dependents_of := f\<rparr>)"
    "\<forall>r j. j \<noteq> i \<longrightarrow> count (mset (f r)) j = count (mset (dependents_of w r)) j" by auto
  have w: "w\<lparr>dependents_of := f\<rparr> = (iq st)\<lparr>dependents_of := f\<rparr>" by (simp add: w_def)
  have "squash_srcs i k (r # rs) st = Some (st\<lparr>iq := (iq st)\<lparr>dependents_of := f\<rparr>, squashedOperandsExamined := n\<rparr>)"
    using rm fn(1) by (simp add: w)
  moreover have "\<forall>r j. j \<noteq> i \<longrightarrow> count (mset (f r)) j = count (mset (dependents_of (iq st) r)) j"
    using fn(3) by (auto simp: w_def)
  ultimately show ?case using fn(2) unfolding w by blast
qed

lemma inst_ok_cong:
  assumes "insts st' j = insts st j" "srcFlags st' j = srcFlags st j" "issuedF st' j = issuedF st j"
    "blockedI st' = blockedI st" "memReschedule_calls st' = memReschedule_calls st"
    "numSrcRegs (iq st') j = numSrcRegs (iq st) j" "readyRegs (iq st') j = readyRegs (iq st) j"
    "canIssue (iq st') j = canIssue (iq st) j" "memRef_inst (iq st') j = memRef_inst (iq st) j"
    "fixed_reg (iq st') = fixed_reg (iq st)" "iqScoreboard (iq st') = iqScoreboard (iq st)"
  shows "inst_ok st' j = inst_ok st j"
  using assms by (simp add: inst_ok_def unready_def)

text \<open>A squashed instruction is gone from the chains, whether it was tracked or not.\<close>

lemma squash_inst_inv:
  assumes inv: "iq_inv st" and f: "\<And>r. count (mset (f r)) i = 0"
    "\<And>r j. j \<noteq> i \<Longrightarrow> count (mset (f r)) j = count (mset (dependents_of (iq st) r)) j"
    and st': "inv_view st' = inv_view (mark_squashed i (st\<lparr>iq := (iq st)\<lparr>dependents_of := f\<rparr>\<rparr>))"
  shows "iq_inv st'"
proof -
  let ?st = "mark_squashed i (st\<lparr>iq := (iq st)\<lparr>dependents_of := f\<rparr>\<rparr>)"
  have lv: "live ?st j \<longleftrightarrow> live st j \<and> j \<noteq> i" for j by (auto simp: live_def in_list_def mark_squashed_def upd_iq_def)
  have u: "unready ?st = unready st" by (simp add: unready_def mark_squashed_def upd_iq_def fun_eq_iff)
  have v: "dependents_of (iq ?st) = f" "iqScoreboard (iq ?st) = iqScoreboard (iq st)" by (simp_all add: mark_squashed_def upd_iq_def)
  have ch: "chains_ok st" using inv by (simp add: iq_inv_def)
  have "count (mset (f r)) j = (if (live st j \<and> j \<noteq> i) \<and> \<not> iqScoreboard (iq st) r then count (mset (unready st j)) r else 0)" for r j
    using ch f(1) [of r] f(2) [of j r] by (cases "j = i") (simp_all add: chains_ok_def)
  then have "chains_ok ?st" unfolding chains_ok_def lv u v by blast
  moreover have "inst_ok ?st j" if "live st j" "j \<noteq> i" for j
  proof -
    have "inst_ok ?st j = inst_ok st j" by (rule inst_ok_cong) (use that(2) in \<open>simp_all add: mark_squashed_def upd_iq_def\<close>)
    then show ?thesis using inv that(1) by (simp add: iq_inv_def)
  qed
  moreover have "order_ok ?st" using inv by (simp add: iq_inv_def order_ok_def in_list_def mark_squashed_def upd_iq_def)
  ultimately have "iq_inv ?st" by (simp add: iq_inv_def lv)
  then show ?thesis using st' iq_inv_view by blast
qed

lemma squash_tracking_inv:
  assumes inv: "iq_inv st" and live: "dep_tracked (insts st i) \<longrightarrow> live st i"
  shows "dep_tracked (insts st i) \<Longrightarrow> squash_tracking i st \<noteq> None"
    and "squash_tracking i st = Some st1 \<Longrightarrow> iq_inv (mark_squashed i st1)"
proof -
  have ch: "chains_ok st" using inv by (simp add: iq_inv_def)
  have tracked: "\<exists>f n. squash_tracking i st = Some (st\<lparr>iq := (iq st)\<lparr>dependents_of := f\<rparr>, squashedOperandsExamined := n\<rparr>)
    \<and> only_of i [] ((iq st)\<lparr>dependents_of := f\<rparr>)
    \<and> (\<forall>r j. j \<noteq> i \<longrightarrow> count (mset (f r)) j = count (mset (dependents_of (iq st) r)) j)" if d: "dep_tracked (insts st i)"
  proof -
    have l: "live st i" and ok: "inst_ok st i" using inv live d by (auto simp: iq_inv_def)
    have "only_of i (todo (drop 0 (srcFlags st i)) (di_srcs (insts st i))) (iq st)"
      unfolding only_of_def using ch chains_empty [OF ch] l by (simp add: chains_ok_def unready_def)
    from squash_srcs_spec [OF this] ok d show ?thesis by (simp add: inst_ok_def unready_def squash_tracking_def Let_def)
  qed
  then show "dep_tracked (insts st i) \<Longrightarrow> squash_tracking i st \<noteq> None" by auto
  assume t: "squash_tracking i st = Some st1"
  show "iq_inv (mark_squashed i st1)"
  proof (cases "dep_tracked (insts st i)")
    case True
    with tracked t obtain f n where f: "st1 = st\<lparr>iq := (iq st)\<lparr>dependents_of := f\<rparr>, squashedOperandsExamined := n\<rparr>"
      "only_of i [] ((iq st)\<lparr>dependents_of := f\<rparr>)"
      "\<forall>r j. j \<noteq> i \<longrightarrow> count (mset (f r)) j = count (mset (dependents_of (iq st) r)) j" by auto
    have "count (mset (f r)) i = 0" for r using f(2) by (cases "iqScoreboard (iq st) r") (auto simp: only_of_def split: if_splits)
    from squash_inst_inv [OF inv this] f(1,3) show ?thesis by (simp add: inv_view_def mark_squashed_def upd_iq_def)
  next
    case False
    then have v: "inv_view st1 = inv_view st" using t
      by (auto simp: squash_tracking_def inv_view_def Let_def split: if_splits)
    have "count (mset (dependents_of (iq st) r)) i = 0" for r using ch False by (simp add: chains_ok_def live_def)
    from squash_inst_inv [OF inv this] v show ?thesis by (simp add: inv_view_def mark_squashed_def upd_iq_def)
  qed
qed

text \<open>The entries of the units.\<close>

definition unit_inv :: "inst_queue \<Rightarrow> bool" where
  "unit_inv st \<longleftrightarrow> (\<forall>i k. unitOf st i = Some k \<longrightarrow> k < length (iqUnits st))
     \<and> (\<forall>k < length (iqUnits st). finite {i. unitOf st i = Some k}
          \<and> freeEntries (iqUnits st ! k) + card {i. unitOf st i = Some k} = unit_numEntries (iqUnits st ! k))
     \<and> (\<forall>i. in_list st i \<and> \<not> squashedInIQ st i \<and> (\<not> issuedF st i \<or> memRef_inst (iq st) i \<and> \<not> memOpDone (iq st) i)
          \<longrightarrow> unitOf st i \<noteq> None)"

lemma unit_upd_card:
  assumes "unitOf st i = Some k" "finite {j. unitOf st j = Some k}"
  shows "card {j. ((unitOf st)(i := None)) j = Some k'} = card {j. unitOf st j = Some k'} - (if k' = k then 1 else 0)"
    "finite {j. unitOf st j = Some k'} \<Longrightarrow> finite {j. ((unitOf st)(i := None)) j = Some k'}"
proof -
  have e: "{j. ((unitOf st)(i := None)) j = Some k'} = {j. unitOf st j = Some k'} - {i}" by auto
  show "card {j. ((unitOf st)(i := None)) j = Some k'} = card {j. unitOf st j = Some k'} - (if k' = k then 1 else 0)"
    unfolding e using assms by (auto simp: card_Diff_singleton)
  show "finite {j. unitOf st j = Some k'} \<Longrightarrow> finite {j. ((unitOf st)(i := None)) j = Some k'}" unfolding e by simp
qed

text \<open>Leaving a unit; the instruction no longer needs one afterwards.\<close>

lemma leave_unit_ok:
  assumes "unit_inv st" "unitOf st i \<noteq> None"
    and "in_list st i \<and> \<not> squashedInIQ st i \<longrightarrow> issuedF st i \<and> (memRef_inst (iq st) i \<longrightarrow> memOpDone (iq st) i)"
  shows "\<exists>st'. leave_unit i st = Some st' \<and> unit_inv st'"
proof -
  obtain k where k: "unitOf st i = Some k" using assms(2) by blast
  let ?u = "iqUnits st ! k"
  have lt: "k < length (iqUnits st)" and fin: "finite {j. unitOf st j = Some k}"
    and cnt: "freeEntries ?u + card {j. unitOf st j = Some k} = unit_numEntries ?u"
    using assms(1) k by (auto simp: unit_inv_def)
  have "0 < card {j. unitOf st j = Some k}" using fin k by (auto simp: card_gt_0_iff)
  then have rm: "unit_remove (di_thread (insts st i)) ?u = Some (?u\<lparr>freeEntries := freeEntries ?u + 1,
      unit_count := (unit_count ?u)(di_thread (insts st i) := unit_count ?u (di_thread (insts st i)) - 1)\<rparr>)"
    using cnt by (simp add: unit_remove_def)
  let ?st = "upd_iq (\<lambda>w. w\<lparr>inIQ := (inIQ w)(i := False)\<rparr>)
    (st\<lparr>iqUnits := (iqUnits st)[k := ?u\<lparr>freeEntries := freeEntries ?u + 1,
      unit_count := (unit_count ?u)(di_thread (insts st i) := unit_count ?u (di_thread (insts st i)) - 1)\<rparr>],
      unitOf := (unitOf st)(i := None)\<rparr>)"
  have "leave_unit i st = Some ?st" using k rm by (simp add: leave_unit_def)
  moreover have "unit_inv ?st"
  proof -
    have "k' < length (iqUnits st) \<Longrightarrow> finite {j. ((unitOf st)(i := None)) j = Some k'}
      \<and> freeEntries (iqUnits ?st ! k') + card {j. ((unitOf st)(i := None)) j = Some k'} = unit_numEntries (iqUnits ?st ! k')" for k'
      using assms(1) cnt \<open>0 < card _\<close> lt unit_upd_card [OF k fin, of k']
      by (auto simp: unit_inv_def upd_iq_def nth_list_update)
    moreover have "\<forall>j k'. ((unitOf st)(i := None)) j = Some k' \<longrightarrow> k' < length (iqUnits st)" using assms(1) by (auto simp: unit_inv_def)
    moreover have "\<forall>j. in_list st j \<and> \<not> squashedInIQ st j \<and> (\<not> issuedF st j \<or> memRef_inst (iq st) j \<and> \<not> memOpDone (iq st) j)
          \<longrightarrow> ((unitOf st)(i := None)) j \<noteq> None" using assms(1,3) by (auto simp: unit_inv_def)
    ultimately show ?thesis by (simp add: unit_inv_def upd_iq_def in_list_def)
  qed
  ultimately show ?thesis by blast
qed

lemma squash_dests_some:
  assumes "\<forall>r \<in> set rs. fixed_reg w r \<or> dependents_of w r = []"
  shows "\<exists>p. squash_dests rs w = Some (w\<lparr>producer_of := p\<rparr>)"
  using assms
proof (induction rs arbitrary: w)
  case Nil
  then show ?case by (intro exI [of _ "producer_of w"]) simp
next
  case (Cons r rs)
  show ?case
  proof (cases "fixed_reg w r")
    case False
    let ?w = "w\<lparr>producer_of := (producer_of w)(r := None)\<rparr>"
    have "\<exists>p. squash_dests rs ?w = Some (?w\<lparr>producer_of := p\<rparr>)" by (rule Cons.IH) (use Cons.prems in simp)
    then show ?thesis using Cons.prems False by auto
  qed (use Cons in auto)
qed

text \<open>What a squash may assume of an instruction outside the dependency graph: it still waits for its
  commit, or the code excuses it.\<close>

definition settled :: "inst_queue \<Rightarrow> inst_id \<Rightarrow> bool" where
  "settled st i \<longleftrightarrow> (issuedF st i \<and> \<not> (memRef_inst (iq st) i \<and> \<not> memOpDone (iq st) i) \<or> dep_tracked (insts st i) \<or> i \<in> nonSpecInsts st \<or> faultedF st i \<or> memRef_inst (iq st) i
     \<or> di_isStoreConditional (insts st i) \<and> completedF st i)"

text \<open>What squashing one instruction leaves alone.\<close>

definition squash_frame :: "inst_id \<Rightarrow> inst_queue \<Rightarrow> inst_queue \<Rightarrow> bool" where
  "squash_frame i st st' \<longleftrightarrow> insts st' = insts st \<and> instList st' = instList st
     \<and> iqScoreboard (iq st') = iqScoreboard (iq st) \<and> srcFlags st' = srcFlags st
     \<and> faultedF st' = faultedF st \<and> completedF st' = completedF st \<and> memRef_inst (iq st') = memRef_inst (iq st)
     \<and> memOpDone (iq st') = memOpDone (iq st)
     \<and> (\<forall>j. j \<noteq> i \<longrightarrow> squashedInIQ st' j = squashedInIQ st j \<and> issuedF st' j = issuedF st j \<and> (j \<in> nonSpecInsts st' \<longleftrightarrow> j \<in> nonSpecInsts st))"

lemma settled_frame: "squash_frame i st st' \<Longrightarrow> j \<noteq> i \<Longrightarrow> settled st' j = settled st j"
  by (simp add: squash_frame_def settled_def)

lemma leave_unit_frame: "leave_unit i st = Some st' \<Longrightarrow> squash_frame i st st'"
  by (auto simp: leave_unit_def squash_frame_def upd_iq_def split: option.splits)

lemma squash_srcs_frame: "squash_srcs i k rs st = Some st' \<Longrightarrow> squash_frame i st st' \<and> unitOf st' = unitOf st
    \<and> iqUnits st' = iqUnits st \<and> squashedInIQ st' = squashedInIQ st \<and> issuedF st' = issuedF st
    \<and> memRef_inst (iq st') = memRef_inst (iq st) \<and> memOpDone (iq st') = memOpDone (iq st)"
  by (induction rs arbitrary: k st)
    (auto simp: squash_frame_def dg_remove_def split: option.splits if_splits)

lemma squash_tracking_frame: "squash_tracking i st = Some st' \<Longrightarrow> squash_frame i st st' \<and> unitOf st' = unitOf st
    \<and> iqUnits st' = iqUnits st \<and> squashedInIQ st' = squashedInIQ st \<and> issuedF st' = issuedF st
    \<and> memRef_inst (iq st') = memRef_inst (iq st) \<and> memOpDone (iq st') = memOpDone (iq st)"
  using squash_srcs_frame [of i 0 "di_srcs (insts st i)" st st']
  by (auto simp: squash_tracking_def Let_def squash_frame_def split: if_splits)

lemma squash_frame_trans: "squash_frame i st st' \<Longrightarrow> squash_frame i st' st'' \<Longrightarrow> squash_frame i st st''"
  by (simp add: squash_frame_def)

lemma mark_squashed_frame: "squash_frame i st (mark_squashed i st)"
  by (simp add: squash_frame_def mark_squashed_def upd_iq_def)

text \<open>The first half of \<open>squash_one\<close>.\<close>

lemma squash_body:
  assumes inv: "iq_inv st" "unit_inv st" and i: "in_list st i" "\<not> squashedInIQ st i" "settled st i"
    and c: "\<not> issuedF st i \<or> memRef_inst (iq st) i \<and> \<not> memOpDone (iq st) i"
  shows "\<exists>st1 st2. squash_tracking i st = Some st1 \<and> leave_unit i (mark_squashed i st1) = Some st2
    \<and> iq_inv st2 \<and> unit_inv st2 \<and> squash_frame i st st2 \<and> squashedInIQ st2 i"
proof -
  have lv: "dep_tracked (insts st i) \<longrightarrow> live st i" using i by (simp add: live_def)
  have "squash_tracking i st \<noteq> None"
  proof (cases "dep_tracked (insts st i)")
    case True
    then show ?thesis by (rule squash_tracking_inv(1) [OF inv(1) lv])
  qed (use i(3) c in \<open>auto simp: squash_tracking_def settled_def Let_def\<close>)
  then obtain st1 where t: "squash_tracking i st = Some st1" by blast
  note fr = squash_tracking_frame [OF t]
  let ?st = "mark_squashed i st1"
  have inl: "in_list ?st = in_list st" using fr by (simp add: in_list_def squash_frame_def mark_squashed_def upd_iq_def fun_eq_iff)
  have "unitOf st i \<noteq> None" using inv(2) i(1,2) c by (auto simp: unit_inv_def)
  then have u: "unitOf ?st i \<noteq> None" using fr by (simp add: mark_squashed_def upd_iq_def)
  have "unit_inv ?st" using inv(2) fr unfolding unit_inv_def inl by (simp add: mark_squashed_def upd_iq_def)
  from leave_unit_ok [OF this u] obtain st2 where s: "leave_unit i ?st = Some st2" "unit_inv st2"
    by (auto simp: mark_squashed_def upd_iq_def)
  have "iq_inv ?st" by (rule squash_tracking_inv(2) [OF inv(1) lv t])
  then have "iq_inv st2" using leave_unit_view [OF s(1)] iq_inv_view by blast
  moreover have "squash_frame i st st2"
    using fr mark_squashed_frame leave_unit_frame [OF s(1)] squash_frame_trans by blast
  moreover have "squashedInIQ st2 i" using leave_unit_view [OF s(1)] by (simp add: inv_view_def mark_squashed_def upd_iq_def)
  ultimately show ?thesis using t s by blast
qed

lemma squash_one_spec:
  assumes inv: "iq_inv st" "unit_inv st" and i: "in_list st i" "\<not> squashedInIQ st i" "settled st i"
    and young: "\<And>j. live st j \<Longrightarrow> i < j \<Longrightarrow> di_thread (insts st j) = di_thread (insts st i) \<Longrightarrow> missing st j = 0"
  shows "\<exists>st'. squash_one i st = Some st' \<and> iq_inv st' \<and> unit_inv st' \<and> squash_frame i st st'
    \<and> (live st' i \<longrightarrow> missing st' i = 0)"
proof -
  let ?b = "if \<not> issuedF st i \<or> memRef_inst (iq st) i \<and> \<not> memOpDone (iq st) i
            then (case squash_tracking i st of None \<Rightarrow> None | Some st1 \<Rightarrow> leave_unit i (mark_squashed i st1)) else Some st"
  obtain st2 where st2: "?b = Some st2" "iq_inv st2" "unit_inv st2" "squash_frame i st st2" "live st2 i \<longrightarrow> missing st2 i = 0"
  proof (cases "\<not> issuedF st i \<or> memRef_inst (iq st) i \<and> \<not> memOpDone (iq st) i")
    case True
    from squash_body [OF inv i True] that True show ?thesis by (auto simp: live_def)
  next
    case False
    have "live st i \<longrightarrow> missing st i = 0" using inv(1) False by (auto simp: iq_inv_def inst_ok_def)
    moreover have "?b = Some st" by (simp only: False if_False)
    moreover have "squash_frame i st st" by (simp add: squash_frame_def)
    ultimately show ?thesis using that inv by blast
  qed
  have fr: "insts st2 = insts st" "in_list st2 = in_list st" "unready st2 = unready st" "iqScoreboard (iq st2) = iqScoreboard (iq st)"
    "\<And>j. j \<noteq> i \<Longrightarrow> live st2 j = live st j"
    using st2(4) by (auto simp: squash_frame_def in_list_def unready_def live_def fun_eq_iff)
  have "dependents_of (iq st2) r = []" if r: "r \<in> set (di_dests (insts st i))" for r
  proof (rule ccontr)
    assume "dependents_of (iq st2) r \<noteq> []"
    then obtain j where "j \<in> set (dependents_of (iq st2) r)" by (meson last_in_set)
    then have j: "live st2 j" "\<not> iqScoreboard (iq st2) r" "r \<in> set (unready st2 j)"
      using chain_member st2(2) by (auto simp: iq_inv_def)
    have "in_list st2 j" "in_list st2 i" using j(1) i(1) fr(2) by (simp_all add: live_def)
    then have "i < j" "di_thread (insts st2 i) = di_thread (insts st2 j)"
      using st2(2) r unready_srcs [OF j(3)] j(1,3) unfolding iq_inv_def inst_ok_def order_ok_def fr(1) by blast+
    moreover from this have "missing st j = 0" using young [of j] fr(1,5) j(1) by simp
    ultimately show False using j(2,3) unfolding lacking_zero fr(3,4) by blast
  qed
  then obtain p where d: "squash_dests (di_dests (insts st i)) (iq st2) = Some ((iq st2)\<lparr>producer_of := p\<rparr>)"
    using squash_dests_some by blast
  let ?st = "st2\<lparr>iq := (iq st2)\<lparr>producer_of := p\<rparr>, squashedInstsExamined := squashedInstsExamined st2 + 1\<rparr>"
  have "squash_one i st = Some ?st" unfolding squash_one_def st2(1) by (simp add: d)
  moreover have v: "inv_view ?st = inv_view st2" by (simp add: inv_view_def)
  then have "iq_inv ?st" using st2(2) iq_inv_view by blast
  moreover have "unit_inv ?st" using st2(3) by (simp add: unit_inv_def in_list_def)
  moreover have "squash_frame i st ?st" using st2(4) by (simp add: squash_frame_def)
  moreover have "live ?st i \<longrightarrow> missing ?st i = 0" using st2(5) by (simp add: live_def in_list_def unready_def)
  ultimately show ?thesis by blast
qed

lemma count_write_simps [simp]:
  "iq (count_write i st) = iq st" "insts (count_write i st) = insts st" "srcFlags (count_write i st) = srcFlags st"
  "instList (count_write i st) = instList st" "squashedInIQ (count_write i st) = squashedInIQ st"
  "live (count_write i st) = live st" "in_list (count_write i st) = in_list st" "unready (count_write i st) = unready st"
  "settled (count_write i st) = settled st" "iq_inv (count_write i st) = iq_inv st" "unit_inv (count_write i st) = unit_inv st"
proof -
  show 1: "iq (count_write i st) = iq st" "insts (count_write i st) = insts st" "srcFlags (count_write i st) = srcFlags st"
    "instList (count_write i st) = instList st" "squashedInIQ (count_write i st) = squashedInIQ st"
    by (simp_all add: count_write_def Let_def)
  have 2: "issuedF (count_write i st) = issuedF st" "nonSpecInsts (count_write i st) = nonSpecInsts st"
    "faultedF (count_write i st) = faultedF st" "completedF (count_write i st) = completedF st" "blockedI (count_write i st) = blockedI st"
    "memReschedule_calls (count_write i st) = memReschedule_calls st" "unitOf (count_write i st) = unitOf st" "iqUnits (count_write i st) = iqUnits st"
    by (simp_all add: count_write_def Let_def)
  show 3: "in_list (count_write i st) = in_list st" "unready (count_write i st) = unready st"
    by (simp_all add: fun_eq_iff in_list_def unready_def 1)
  show "live (count_write i st) = live st" "settled (count_write i st) = settled st" by (simp_all add: fun_eq_iff live_def settled_def 1 2 3)
  show "iq_inv (count_write i st) = iq_inv st" by (rule iq_inv_view) (simp add: inv_view_def 1 2)
  show "unit_inv (count_write i st) = unit_inv st" by (simp add: unit_inv_def 1 2 3)
qed

text \<open>The walk.  Everything already visited is squashed or misses nothing.\<close>

lemma squash_walk_spec:
  assumes "iq_inv st" "unit_inv st" "sorted_wrt (<) (rev is)" "\<forall>i \<in> set is. in_list st i \<and> di_thread (insts st i) = t"
    "\<forall>i \<in> set is. s < i \<and> \<not> squashedInIQ st i \<longrightarrow> settled st i"
    "\<And>i j. i \<in> set is \<Longrightarrow> live st j \<Longrightarrow> i < j \<Longrightarrow> di_thread (insts st j) = t \<Longrightarrow> j \<notin> set is \<Longrightarrow> missing st j = 0"
  shows "\<exists>st'. squash_walk t s is kept st = Some (filter (\<lambda>i. i \<le> s \<or> squashedInIQ st i) (rev is) @ kept, st')
    \<and> iq_inv st' \<and> unit_inv st' \<and> instList st' = instList st
    \<and> (\<forall>j. (j \<notin> set is \<or> j \<le> s \<or> squashedInIQ st j) \<longrightarrow> live st' j = live st j \<and> missing st' j = missing st j)
    \<and> (\<forall>j \<in> set is. s < j \<and> \<not> squashedInIQ st j \<and> live st' j \<longrightarrow> missing st' j = 0)"
  using assms
proof (induction "is" arbitrary: kept st)
  case (Cons i js)
  have srt: "sorted_wrt (<) (rev js)" "\<forall>j \<in> set js. j < i" "i \<notin> set js"
    using Cons.prems(3) by (auto simp: sorted_wrt_append)
  have le: "\<forall>j \<in> set js. j \<le> s" if "i \<le> s" using srt(2) that by fastforce
  consider (old) "i \<le> s" | (skip) "s < i" "squashedInIQ st i" | (sq) "s < i" "\<not> squashedInIQ st i" by fastforce
  then show ?case
  proof cases
    case old
    then have "filter (\<lambda>i. i \<le> s \<or> squashedInIQ st i) (rev (i # js)) = rev (i # js)" using le by (auto intro!: filter_True)
    then show ?thesis using old Cons.prems(1,2) le by auto
  next
    case skip
    let ?c = "count_write i st"
    have "\<exists>st'. squash_walk t s js (i # kept) ?c = Some (filter (\<lambda>i. i \<le> s \<or> squashedInIQ ?c i) (rev js) @ i # kept, st')
      \<and> iq_inv st' \<and> unit_inv st' \<and> instList st' = instList ?c
      \<and> (\<forall>j. (j \<notin> set js \<or> j \<le> s \<or> squashedInIQ ?c j) \<longrightarrow> live st' j = live ?c j \<and> missing st' j = missing ?c j)
      \<and> (\<forall>j \<in> set js. s < j \<and> \<not> squashedInIQ ?c j \<and> live st' j \<longrightarrow> missing st' j = 0)"
    proof (rule Cons.IH)
      fix k j assume "k \<in> set js" "live ?c j" "k < j" "di_thread (insts ?c j) = t" "j \<notin> set js"
      then show "missing ?c j = 0" using Cons.prems(6) [of k j] skip by (cases "j = i") (auto simp: live_def)
    qed (use Cons.prems(1,2,4,5) srt(1) in simp_all)
    with skip show ?thesis by (auto simp: Let_def)
  next
    case sq
    obtain st1 where one: "squash_one i (count_write i st) = Some st1" "iq_inv st1" "unit_inv st1" "squash_frame i (count_write i st) st1"
      "live st1 i \<longrightarrow> missing st1 i = 0"
      using squash_one_spec [of "count_write i st" i, simplified, OF Cons.prems(1,2)] Cons.prems(4,5) sq Cons.prems(6) [of i] srt(2) by (metis list.set_intros(1) not_less_iff_gr_or_eq set_ConsD)
    have fr: "insts st1 = insts st" "in_list st1 = in_list st" "instList st1 = instList st"
      "\<And>j. j \<noteq> i \<Longrightarrow> live st1 j = live st j" "\<And>j. missing st1 j = missing st j" "\<And>j. j \<noteq> i \<Longrightarrow> squashedInIQ st1 j = squashedInIQ st j"
      using one(4) unfolding squash_frame_def in_list_def unready_def live_def by simp_all
    have flt: "filter (\<lambda>i. i \<le> s \<or> squashedInIQ st1 i) (rev js) = filter (\<lambda>i. i \<le> s \<or> squashedInIQ st i) (rev js)"
      using fr(6) srt(3) by (intro filter_cong) (metis set_rev)+
    have "\<exists>st'. squash_walk t s js kept st1 = Some (filter (\<lambda>i. i \<le> s \<or> squashedInIQ st1 i) (rev js) @ kept, st')
      \<and> iq_inv st' \<and> unit_inv st' \<and> instList st' = instList st1
      \<and> (\<forall>j. (j \<notin> set js \<or> j \<le> s \<or> squashedInIQ st1 j) \<longrightarrow> live st' j = live st1 j \<and> missing st' j = missing st1 j)
      \<and> (\<forall>j \<in> set js. s < j \<and> \<not> squashedInIQ st1 j \<and> live st' j \<longrightarrow> missing st' j = 0)"
    proof (rule Cons.IH [OF one(2,3) srt(1)])
      show "\<forall>j \<in> set js. in_list st1 j \<and> di_thread (insts st1 j) = t" using Cons.prems(4) fr(1,2) by simp
      show "\<forall>j \<in> set js. s < j \<and> \<not> squashedInIQ st1 j \<longrightarrow> settled st1 j"
        using Cons.prems(5) fr(6) settled_frame [OF one(4), simplified] srt(3) by (metis list.set_intros(2))
      fix k j assume a: "k \<in> set js" "live st1 j" "k < j" "di_thread (insts st1 j) = t" "j \<notin> set js"
      show "missing st1 j = 0"
        using Cons.prems(6) [of k j] a one(5) fr(1,4,5) by (cases "j = i") auto
    qed
    then obtain st' where w: "squash_walk t s js kept st1 = Some (filter (\<lambda>i. i \<le> s \<or> squashedInIQ st i) (rev js) @ kept, st')"
      "iq_inv st'" "unit_inv st'" "instList st' = instList st"
      "\<forall>j. (j \<notin> set js \<or> j \<le> s \<or> squashedInIQ st1 j) \<longrightarrow> live st' j = live st1 j \<and> missing st' j = missing st1 j"
      "\<forall>j \<in> set js. s < j \<and> \<not> squashedInIQ st1 j \<and> live st' j \<longrightarrow> missing st' j = 0" unfolding flt fr(3) by blast
    have "squash_walk t s (i # js) kept st = Some (filter (\<lambda>i. i \<le> s \<or> squashedInIQ st i) (rev (i # js)) @ kept, st')"
      using sq one(1) w(1) Cons.prems(4) by (simp add: Let_def)
    moreover have "live st' j = live st j \<and> missing st' j = missing st j" if "j \<notin> set (i # js) \<or> j \<le> s \<or> squashedInIQ st j" for j
    proof -
      have "j \<noteq> i" using that sq by auto
      then show ?thesis using w(5) that fr(4-6) [of j] by auto
    qed
    moreover have "missing st' j = 0" if "j \<in> set (i # js)" "s < j" "\<not> squashedInIQ st j" "live st' j" for j
    proof (cases "j = i")
      case True
      then show ?thesis using w(5) one(5) srt(3) that(4) by auto
    next
      case False
      then show ?thesis using w(6) that fr(6) by auto
    qed
    ultimately show ?thesis using w(2-4) by blast
  qed
qed simp

lemma iq_squash_inv:
  assumes inv: "iq_inv st" "unit_inv st" and "\<forall>i \<in> set (instList st t). s < i \<and> \<not> squashedInIQ st i \<longrightarrow> settled st i"
  shows "\<exists>st'. iq_squash t s st = Some st' \<and> iq_inv st' \<and> unit_inv st'
    \<and> instList st' = (instList st)(t := filter (\<lambda>i. i \<le> s \<or> squashedInIQ st i) (instList st t))"
proof -
  have o: "sorted_wrt (<) (instList st t')" "\<forall>i \<in> set (instList st t'). di_thread (insts st i) = t'" for t'
    using inv(1) by (simp_all add: iq_inv_def order_ok_def)
  let ?xs = "filter (\<lambda>i. i \<le> s \<or> squashedInIQ st i) (instList st t)"
  have "\<exists>st'. squash_walk t s (rev (instList st t)) [] st = Some (filter (\<lambda>i. i \<le> s \<or> squashedInIQ st i) (rev (rev (instList st t))) @ [], st')
    \<and> iq_inv st' \<and> unit_inv st' \<and> instList st' = instList st
    \<and> (\<forall>j. (j \<notin> set (rev (instList st t)) \<or> j \<le> s \<or> squashedInIQ st j) \<longrightarrow> live st' j = live st j \<and> missing st' j = missing st j)
    \<and> (\<forall>j \<in> set (rev (instList st t)). s < j \<and> \<not> squashedInIQ st j \<and> live st' j \<longrightarrow> missing st' j = 0)"
  proof (rule squash_walk_spec [OF inv])
    fix i j assume "live st j" "di_thread (insts st j) = t" "j \<notin> set (rev (instList st t))"
    then show "missing st j = 0" using o(2) by (auto simp: live_def in_list_def)
  qed (use o assms(3) in \<open>auto simp: in_list_def\<close>)
  then obtain st' where w: "squash_walk t s (rev (instList st t)) [] st = Some (?xs, st')"
    "iq_inv st'" "unit_inv st'" "instList st' = instList st"
    "\<forall>j \<in> set (instList st t). s < j \<and> \<not> squashedInIQ st j \<and> live st' j \<longrightarrow> missing st' j = 0" by auto
  let ?st = "st'\<lparr>instList := (instList st')(t := ?xs)\<rparr>"
  have "iq_inv ?st"
  proof (rule iq_inv_forget [OF w(2)])
    show "set (((instList st')(t := ?xs)) t') \<subseteq> set (instList st' t')" for t' by (auto simp: w(4))
    show "sorted_wrt (<) (((instList st')(t := ?xs)) t')" for t' using o(1) by (simp add: w(4) sorted_wrt_filter)
    fix j assume "live st' j" "missing st' j \<noteq> 0"
    moreover from this(1) obtain t' where "j \<in> set (instList st t')" by (auto simp: live_def in_list_def w(4))
    ultimately have "j \<in> set (((instList st')(t := ?xs)) t')" using w(5) by (auto simp: w(4))
    then show "\<exists>t'. j \<in> set (((instList st')(t := ?xs)) t')" by blast
  qed
  moreover have "unit_inv ?st"
  proof -
    have "in_list ?st i \<Longrightarrow> in_list st' i" for i by (auto simp: in_list_def w(4) split: if_splits)
    then show ?thesis using w(3) by (simp add: unit_inv_def)
  qed
  ultimately show ?thesis using w(1,4) by (simp add: iq_squash_def)
qed

end
