(* ===== verification/Issue_Reach.thy ===== *)
theory Issue_Reach
  imports Issue_Exact
begin

text \<open>
  Every operation of the issue queue keeps the invariant of \<open>Issue_Exact\<close>, and the runs of the queue: the
  steps the stages of the processor make on it, under the conditions renaming and commit establish.
\<close>

subsection \<open>Insertion\<close>

lemma todo_or: "length fs = length rs \<Longrightarrow> todo (map2 (\<lambda>f r. f \<or> sb r) fs rs) rs = filter (\<lambda>r. \<not> sb r) (todo fs rs)"
  by (induction fs rs rule: list_induct2) auto

text \<open>Of the wakeup state, what the dependency tracking leaves alone.\<close>

definition iq_rest :: "iq_state \<Rightarrow> iq_state" where
  "iq_rest w = w\<lparr>dependents_of := (\<lambda>_. []), readyRegs := (\<lambda>_. 0), canIssue := (\<lambda>_. False)\<rparr>"

lemma iq_rest_fields:
  assumes "iq_rest w' = iq_rest w"
  shows "iqScoreboard w' = iqScoreboard w" "fixed_reg w' = fixed_reg w" "numSrcRegs w' = numSrcRegs w"
    "memRef_inst w' = memRef_inst w" "memOpDone w' = memOpDone w" "producer_of w' = producer_of w"
    "opClass_inst w' = opClass_inst w" "squashed_inst w' = squashed_inst w"
  using arg_cong [OF assms, of iqScoreboard] arg_cong [OF assms, of fixed_reg] arg_cong [OF assms, of numSrcRegs]
    arg_cong [OF assms, of memRef_inst] arg_cong [OF assms, of memOpDone] arg_cong [OF assms, of producer_of]
    arg_cong [OF assms, of opClass_inst] arg_cong [OF assms, of squashed_inst]
  by (simp_all add: iq_rest_def)

definition depends_added :: "inst_id \<Rightarrow> nat list \<Rightarrow> iq_state \<Rightarrow> iq_state \<Rightarrow> bool" where
  "depends_added i us w w' \<longleftrightarrow>
     (\<forall>r j. count (mset (dependents_of w' r)) j = count (mset (dependents_of w r)) j
        + (if j = i \<and> \<not> iqScoreboard w r then count (mset us) r else 0))
     \<and> (\<forall>j. readyRegs w' j = readyRegs w j + (if j = i then length (filter (iqScoreboard w) us) else 0))
     \<and> (\<forall>j. canIssue w' j \<longleftrightarrow> canIssue w j \<or> j = i \<and> readyRegs w i < numSrcRegs w i
          \<and> numSrcRegs w i \<le> readyRegs w i + length (filter (iqScoreboard w) us))
     \<and> iq_rest w' = iq_rest w"

lemma depends_added_append:
  assumes a: "depends_added i us w w1" and b: "depends_added i vs w1 w2"
  shows "depends_added i (us @ vs) w w2"
proof -
  have r: "iqScoreboard w1 = iqScoreboard w" "numSrcRegs w1 = numSrcRegs w"
    using a iq_rest_fields [of w1 w] by (simp_all add: depends_added_def)
  have "count (mset (dependents_of w2 r)) j = count (mset (dependents_of w r)) j
      + (if j = i \<and> \<not> iqScoreboard w r then count (mset (us @ vs)) r else 0)" for r j
    using a b r(1) by (simp add: depends_added_def)
  moreover have "readyRegs w2 j = readyRegs w j + (if j = i then length (filter (iqScoreboard w) (us @ vs)) else 0)" for j
    using a b r(1) by (simp add: depends_added_def)
  moreover have "canIssue w2 j \<longleftrightarrow> canIssue w j \<or> j = i \<and> readyRegs w i < numSrcRegs w i
      \<and> numSrcRegs w i \<le> readyRegs w i + length (filter (iqScoreboard w) (us @ vs))" for j
    using a b unfolding depends_added_def r by auto
  moreover have "iq_rest w2 = iq_rest w" using a b by (simp add: depends_added_def)
  ultimately show ?thesis unfolding depends_added_def by blast
qed

lemma add_dependent_spec:
  assumes "k < length (srcFlags st i)" "srcFlags st i ! k \<or> \<not> fixed_reg (iq st) r"
  shows "\<exists>w. add_dependent i k r st = st\<lparr>iq := w, srcFlags := (srcFlags st)(i := (srcFlags st i)[k := srcFlags st i ! k \<or> iqScoreboard (iq st) r])\<rparr>
    \<and> depends_added i (if srcFlags st i ! k then [] else [r]) (iq st) w"
proof -
  have id: "(srcFlags st)(i := (srcFlags st i)[k := srcFlags st i ! k]) = srcFlags st" by (simp add: fun_upd_idem)
  consider (flag) "srcFlags st i ! k" | (wait) "\<not> srcFlags st i ! k" "\<not> iqScoreboard (iq st) r"
    | (rdy) "\<not> srcFlags st i ! k" "iqScoreboard (iq st) r" by blast
  then show ?thesis
  proof cases
    case flag
    then have "(srcFlags st)(i := (srcFlags st i)[k := True]) = srcFlags st" using id by simp
    with flag show ?thesis by (intro exI [of _ "iq st"]) (auto simp: add_dependent_def depends_added_def)
  next
    case wait
    then have "(srcFlags st)(i := (srcFlags st i)[k := False]) = srcFlags st" using id by simp
    with wait assms(2) show ?thesis
      by (intro exI [of _ "dg_insert r i (iq st)"]) (auto simp: add_dependent_def upd_iq_def depends_added_def dg_insert_def iq_rest_def)
  next
    case rdy
    with assms(2) show ?thesis
      by (intro exI [of _ "markSrcRegReady i (iq st)"])
        (auto simp: add_dependent_def upd_iq_def depends_added_def markSrcRegReady_def Let_def iq_rest_def)
  qed
qed

lemma add_dependents_spec:
  assumes "length (srcFlags st i) = k + length rs" "\<forall>r \<in> set (todo (drop k (srcFlags st i)) rs). \<not> fixed_reg (iq st) r"
  shows "\<exists>w. add_dependents i k rs st = st\<lparr>iq := w, srcFlags := (srcFlags st)(i := take k (srcFlags st i)
      @ map2 (\<lambda>f r. f \<or> iqScoreboard (iq st) r) (drop k (srcFlags st i)) rs)\<rparr>
    \<and> depends_added i (todo (drop k (srcFlags st i)) rs) (iq st) w"
  using assms
proof (induction rs arbitrary: k st)
  case Nil
  then show ?case by (intro exI [of _ "iq st"]) (auto simp: depends_added_def fun_upd_idem)
next
  case (Cons r rs)
  let ?fl = "srcFlags st i"
  obtain fs where d: "drop k ?fl = ?fl ! k # fs" "drop (Suc k) ?fl = fs"
    using Cons.prems(1) by (metis Cons_nth_drop_Suc length_Cons less_add_same_cancel1 zero_less_Suc)
  have k: "k < length ?fl" using Cons.prems(1) by simp
  define f where "f \<longleftrightarrow> ?fl ! k \<or> iqScoreboard (iq st) r"
  have "?fl ! k \<or> \<not> fixed_reg (iq st) r" using Cons.prems(2) by (auto simp: d(1))
  from add_dependent_spec [OF k this] obtain w1 where w1: "add_dependent i k r st = st\<lparr>iq := w1, srcFlags := (srcFlags st)(i := ?fl[k := f])\<rparr>"
    "depends_added i (if ?fl ! k then [] else [r]) (iq st) w1" unfolding f_def by blast
  let ?st = "st\<lparr>iq := w1, srcFlags := (srcFlags st)(i := ?fl[k := f])\<rparr>"
  have e: "iqScoreboard w1 = iqScoreboard (iq st)" "fixed_reg w1 = fixed_reg (iq st)"
    using w1(2) iq_rest_fields [of w1 "iq st"] by (simp_all add: depends_added_def)
  have ds: "drop (Suc k) (srcFlags ?st i) = fs" using d(2) by simp
  have tk: "take (Suc k) (?fl[k := f]) = take k ?fl @ [f]" using k by (simp add: take_Suc_conv_app_nth)
  have "\<exists>w. add_dependents i (Suc k) rs ?st = ?st\<lparr>iq := w, srcFlags := (srcFlags ?st)(i := take (Suc k) (srcFlags ?st i)
      @ map2 (\<lambda>f r. f \<or> iqScoreboard (iq ?st) r) (drop (Suc k) (srcFlags ?st i)) rs)\<rparr>
    \<and> depends_added i (todo (drop (Suc k) (srcFlags ?st i)) rs) (iq ?st) w"
    by (rule Cons.IH) (use Cons.prems d e in auto)
  then obtain w where w: "add_dependents i (Suc k) rs ?st = st\<lparr>iq := w, srcFlags := (srcFlags st)(i := take k ?fl
      @ map2 (\<lambda>f r. f \<or> iqScoreboard (iq st) r) (drop k ?fl) (r # rs))\<rparr>" "depends_added i (todo fs rs) w1 w"
    using d tk by (auto simp: e f_def)
  have "add_dependents i k (r # rs) st = add_dependents i (Suc k) rs ?st" by (simp add: w1(1))
  moreover have "depends_added i (todo (drop k ?fl) (r # rs)) (iq st) w"
    using depends_added_append [OF w1(2) w(2)] by (simp add: d(1) split: if_splits)
  ultimately show ?case using w(1) by metis
qed

lemma add_producers_spec:
  assumes "\<forall>r \<in> set rs. fixed_reg w r \<or> dependents_of w r = []"
  shows "\<exists>p. add_producers i rs w = Some (w\<lparr>producer_of := p,
    iqScoreboard := (\<lambda>r. iqScoreboard w r \<and> (r \<notin> set rs \<or> fixed_reg w r))\<rparr>)"
  using assms
proof (induction rs arbitrary: w)
  case Nil
  then show ?case by (intro exI [of _ "producer_of w"]) simp
next
  case (Cons r rs)
  show ?case
  proof (cases "fixed_reg w r")
    case True
    then have "(\<lambda>x. iqScoreboard w x \<and> (x \<notin> set rs \<or> fixed_reg w x)) = (\<lambda>x. iqScoreboard w x \<and> (x \<notin> set (r # rs) \<or> fixed_reg w x))"
      by auto
    moreover obtain p where "add_producers i rs w = Some (w\<lparr>producer_of := p,
      iqScoreboard := (\<lambda>x. iqScoreboard w x \<and> (x \<notin> set rs \<or> fixed_reg w x))\<rparr>)" using Cons by auto
    ultimately show ?thesis using True by auto
  next
    case False
    let ?w = "w\<lparr>producer_of := (producer_of w)(r := Some i), iqScoreboard := (iqScoreboard w)(r := False)\<rparr>"
    have "\<exists>p. add_producers i rs ?w = Some (?w\<lparr>producer_of := p, iqScoreboard := (\<lambda>x. iqScoreboard ?w x \<and> (x \<notin> set rs \<or> fixed_reg ?w x))\<rparr>)"
      by (rule Cons.IH) (use Cons.prems in simp)
    moreover have "(\<lambda>x. iqScoreboard ?w x \<and> (x \<notin> set rs \<or> fixed_reg ?w x)) = (\<lambda>x. iqScoreboard w x \<and> (x \<notin> set (r # rs) \<or> fixed_reg w x))"
      using False by auto
    ultimately show ?thesis using Cons.prems False by auto
  qed
qed

text \<open>What dispatch hands to the queue: a renamed instruction, younger than everything listed, whose
  destinations were just allocated.\<close>

definition new_ok :: "inst_queue \<Rightarrow> inst_id \<Rightarrow> bool" where
  "new_ok st i \<longleftrightarrow> \<not> squashedInIQ st i \<and> \<not> issuedF st i \<and> i \<notin> set (blockedI st) \<and> i \<notin> set (memReschedule_calls st)
     \<and> length (srcFlags st i) = length (di_srcs (insts st i)) \<and> numSrcRegs (iq st) i = length (di_srcs (insts st i))
     \<and> readyRegs (iq st) i + length (unready st i) = numSrcRegs (iq st) i
     \<and> canIssue (iq st) i = (unready st i = [])
     \<and> (\<forall>r \<in> set (unready st i). \<not> fixed_reg (iq st) r)
     \<and> (\<forall>r \<in> set (di_dests (insts st i)). r \<in> set (di_srcs (insts st i)) \<longrightarrow> fixed_reg (iq st) r)
     \<and> (\<forall>j. in_list st j \<longrightarrow> j < i
          \<and> (\<forall>r \<in> set (di_dests (insts st i)). r \<in> set (di_srcs (insts st j)) \<longrightarrow> fixed_reg (iq st) r)
          \<and> (\<forall>r \<in> set (di_srcs (insts st i)). r \<in> set (di_dests (insts st j)) \<longrightarrow> fixed_reg (iq st) r
               \<or> di_thread (insts st j) = di_thread (insts st i)))"

lemma push_in_list [simp]: "in_list (push_inst i st) j \<longleftrightarrow> in_list st j \<or> j = i"
proof -
  have "j \<in> set (instList (push_inst i st) t) \<longleftrightarrow> j \<in> set (instList st t) \<or> j = i \<and> t = di_thread (insts st i)" for t
    by (auto simp: push_inst_def Let_def)
  then show ?thesis by (auto simp: in_list_def)
qed

lemma push_fields [simp]: "iq (push_inst i st) = iq st" "insts (push_inst i st) = insts st" "srcFlags (push_inst i st) = srcFlags st"
  "squashedInIQ (push_inst i st) = squashedInIQ st" "issuedF (push_inst i st) = issuedF st"
  "blockedI (push_inst i st) = blockedI st" "memReschedule_calls (push_inst i st) = memReschedule_calls st"
  "unready (push_inst i st) = unready st" "unitOf (push_inst i st) = unitOf st" "iqUnits (push_inst i st) = iqUnits st"
  by (simp_all add: push_inst_def Let_def unready_def fun_eq_iff)

lemma push_order:
  assumes inv: "iq_inv st" and new: "new_ok st i"
  shows "order_ok (push_inst i st)"
proof -
  let ?t = "di_thread (insts st i)"
  have o: "order_ok st" using inv by (simp add: iq_inv_def)
  have lt: "j < i" if "j \<in> set (instList st t)" for j t using new that by (auto simp: new_ok_def in_list_def)
  have "sorted_wrt (<) (instList (push_inst i st) t) \<and> (\<forall>j \<in> set (instList (push_inst i st) t). di_thread (insts st j) = t)" for t
    using o lt by (auto simp: order_ok_def push_inst_def Let_def sorted_wrt_append)
  moreover have "k < j \<and> di_thread (insts st k) = di_thread (insts st j)" if "in_list st j \<or> j = i" "in_list st k \<or> k = i"
    "r \<in> set (di_srcs (insts st j))" "r \<in> set (di_dests (insts st k))" "\<not> fixed_reg (iq st) r" for j k r
    using that o new unfolding order_ok_def new_ok_def by blast
  ultimately show ?thesis unfolding order_ok_def push_in_list push_fields by blast
qed

lemma lacking_cong: "(\<And>r. r \<in> set us \<Longrightarrow> sb r = sb' r) \<Longrightarrow> lacking sb us = lacking sb' us"
  by (simp add: lacking_def cong: filter_cong)

lemma iq_inv_scoreboard:
  assumes inv: "iq_inv st" and same: "\<And>j r. live st j \<Longrightarrow> r \<in> set (unready st j) \<Longrightarrow> sb r = iqScoreboard (iq st) r"
  shows "iq_inv (st\<lparr>iq := (iq st)\<lparr>producer_of := p, iqScoreboard := sb\<rparr>\<rparr>)"
proof -
  let ?st = "st\<lparr>iq := (iq st)\<lparr>producer_of := p, iqScoreboard := sb\<rparr>\<rparr>"
  have e: "live ?st = live st" "unready ?st = unready st" by (simp_all add: live_def in_list_def unready_def fun_eq_iff)
  have m: "missing ?st j = missing st j" if "live st j" for j unfolding e using same [OF that] by (intro lacking_cong) simp
  have "inst_ok ?st j" if "live st j" for j using inv m [OF that] that by (simp add: iq_inv_def inst_ok_def e)
  moreover have "chains_ok ?st"
  proof -
    have "count (mset (unready st j)) r = 0" if "live st j" "sb r \<noteq> iqScoreboard (iq st) r" for j r
      using same that by (auto simp: count_mset_0_iff)
    then show ?thesis using inv by (auto simp: iq_inv_def chains_ok_def e)
  qed
  moreover have "order_ok ?st" using inv by (simp add: iq_inv_def order_ok_def in_list_def)
  ultimately show ?thesis by (simp add: iq_inv_def e)
qed

lemma count_filter_not: "count (mset (filter (\<lambda>r. \<not> sb r) us)) r = (if sb r then 0 else count (mset us) r)"
  by (induction us) auto

lemma lacking_filter: "lacking sb (filter (\<lambda>r. \<not> sb r) us) = lacking sb us"
  "length (filter sb us) + lacking sb us = length us"
  using sum_length_filter_compl [of sb us] by (simp_all add: lacking_def)

lemma push_tracked:
  assumes inv: "iq_inv st" and new: "new_ok st i" and tr: "dep_tracked (insts st i)"
    and w: "depends_added i (unready st i) (iq st) w"
    and st': "inv_view st' = inv_view ((push_inst i st)\<lparr>iq := w, srcFlags := (srcFlags st)(i :=
      map2 (\<lambda>f r. f \<or> iqScoreboard (iq st) r) (srcFlags st i) (di_srcs (insts st i)))\<rparr>)"
  shows "iq_inv st'"
proof -
  let ?sb = "iqScoreboard (iq st)"
  let ?st = "(push_inst i st)\<lparr>iq := w, srcFlags := (srcFlags st)(i := map2 (\<lambda>f r. f \<or> ?sb r) (srcFlags st i) (di_srcs (insts st i)))\<rparr>"
  note r = iq_rest_fields [of w "iq st"]
  have rs: "iqScoreboard w = ?sb" "fixed_reg w = fixed_reg (iq st)" "numSrcRegs w = numSrcRegs (iq st)" "memRef_inst w = memRef_inst (iq st)"
    using w r by (simp_all add: depends_added_def)
  have il: "in_list ?st = in_list (push_inst i st)" by (simp add: in_list_def fun_eq_iff)
  have nl: "\<not> in_list st i" using new by (auto simp: new_ok_def)
  have lv: "live ?st j \<longleftrightarrow> live st j \<or> j = i" for j
    using tr new nl unfolding live_def il by (auto simp: new_ok_def)
  have len: "length (srcFlags st i) = length (di_srcs (insts st i))" using new by (simp add: new_ok_def)
  have u: "unready ?st j = (if j = i then filter (\<lambda>r. \<not> ?sb r) (unready st i) else unready st j)" for j
    using todo_or [OF len, of ?sb] by (simp add: unready_def)
  have ch: "chains_ok st" using inv by (simp add: iq_inv_def)
  have zero: "count (mset (dependents_of (iq st) r)) i = 0" for r using ch nl by (simp add: chains_ok_def live_def)
  have "count (mset (dependents_of w r)) j = (if (live st j \<or> j = i) \<and> \<not> ?sb r
      then count (mset (if j = i then filter (\<lambda>r. \<not> ?sb r) (unready st i) else unready st j)) r else 0)" for r j
    using ch w zero [of r] by (cases "j = i") (simp_all add: chains_ok_def depends_added_def count_filter_not)
  then have "chains_ok ?st" unfolding chains_ok_def lv u by (simp add: rs)
  moreover have "inst_ok ?st i"
  proof -
    let ?u = "unready st i"
    have m: "missing ?st i = lacking ?sb ?u" "length (filter ?sb ?u) + lacking ?sb ?u = length ?u"
      using lacking_filter [of ?sb ?u] by (simp_all add: u rs)
    have n: "readyRegs (iq st) i + length ?u = numSrcRegs (iq st) i" "canIssue (iq st) i = (?u = [])"
      using new by (simp_all add: new_ok_def)
    have c: "readyRegs w i = readyRegs (iq st) i + length (filter ?sb ?u)"
      "canIssue w i \<longleftrightarrow> canIssue (iq st) i \<or> readyRegs (iq st) i < numSrcRegs (iq st) i
        \<and> numSrcRegs (iq st) i \<le> readyRegs (iq st) i + length (filter ?sb ?u)"
      using w by (simp_all add: depends_added_def)
    have "canIssue w i \<longleftrightarrow> lacking ?sb ?u = 0" unfolding c(2) n(2) using m(2) n(1) by (cases ?u) auto
    moreover have "\<forall>r \<in> set (unready ?st i). \<not> fixed_reg (iq st) r" using new by (simp add: new_ok_def u)
    ultimately show ?thesis using new len c(1) m n(1) unfolding inst_ok_def m(1) by (simp add: rs new_ok_def)
  qed
  moreover have "inst_ok ?st j" if "live st j" for j
  proof -
    have ne: "j \<noteq> i" using that nl by (auto simp: live_def)
    have "inst_ok ?st j = inst_ok st j" by (rule inst_ok_cong) (use ne w rs in \<open>simp_all add: depends_added_def\<close>)
    then show ?thesis using inv that by (simp add: iq_inv_def)
  qed
  moreover have "order_ok ?st" using push_order [OF inv new] rs(2) unfolding order_ok_def il by simp
  ultimately have "iq_inv ?st" by (auto simp: iq_inv_def lv)
  then show ?thesis using st' iq_inv_view by blast
qed

lemma push_untracked:
  assumes inv: "iq_inv st" and new: "new_ok st i" and tr: "\<not> dep_tracked (insts st i)"
  shows "iq_inv (push_inst i st)"
proof -
  have lv: "live (push_inst i st) = live st" using tr by (auto simp: live_def fun_eq_iff)
  show ?thesis using inv push_order [OF inv new] by (simp add: iq_inv_def lv chains_ok_def inst_ok_def)
qed

lemma producers_inv:
  assumes inv: "iq_inv st"
    and fresh: "\<And>j r. in_list st j \<Longrightarrow> r \<in> set (di_dests (insts st i)) \<Longrightarrow> r \<in> set (di_srcs (insts st j)) \<Longrightarrow> fixed_reg (iq st) r"
  shows "\<exists>p sb. addToProducers i st = Some (st\<lparr>iq := (iq st)\<lparr>producer_of := p, iqScoreboard := sb\<rparr>\<rparr>)
    \<and> iq_inv (st\<lparr>iq := (iq st)\<lparr>producer_of := p, iqScoreboard := sb\<rparr>\<rparr>)"
proof -
  let ?rs = "di_dests (insts st i)"
  let ?sb = "\<lambda>r. iqScoreboard (iq st) r \<and> (r \<notin> set ?rs \<or> fixed_reg (iq st) r)"
  have u: "\<not> (r \<in> set ?rs \<and> \<not> fixed_reg (iq st) r)" if "live st j" "r \<in> set (unready st j)" for j r
    using fresh [of j r] that unready_srcs by (auto simp: live_def)
  have "\<forall>r \<in> set ?rs. fixed_reg (iq st) r \<or> dependents_of (iq st) r = []"
  proof -
    have "dependents_of (iq st) r = []" if "r \<in> set ?rs" "\<not> fixed_reg (iq st) r" for r
      using chains_empty [of st r] u [of _ r] that inv by (auto simp: iq_inv_def)
    then show ?thesis by blast
  qed
  from add_producers_spec [OF this] obtain p where
    "add_producers i ?rs (iq st) = Some ((iq st)\<lparr>producer_of := p, iqScoreboard := ?sb\<rparr>)" by blast
  moreover have "iq_inv (st\<lparr>iq := (iq st)\<lparr>producer_of := p, iqScoreboard := ?sb\<rparr>\<rparr>)"
    by (rule iq_inv_scoreboard [OF inv]) (use u in blast)
  ultimately show ?thesis unfolding addToProducers_def by auto
qed

text \<open>The fields the entries of the units depend on.\<close>

definition unit_view :: "inst_queue \<Rightarrow> _" where
  "unit_view st = (unitOf st, iqUnits st, instList st, squashedInIQ st, issuedF st, memRef_inst (iq st), memOpDone (iq st))"

lemma unit_inv_view: "unit_view st' = unit_view st \<Longrightarrow> unit_inv st' = unit_inv st"
  by (simp add: unit_view_def unit_inv_def in_list_def)

lemma findIQ_lt: "findIQ t c us = Some k \<Longrightarrow> k < length us"
  by (induction us arbitrary: k) (auto split: if_splits)

lemma enter_unit_spec:
  assumes "enter_unit i st = Some st1"
  shows "\<exists>k. findIQ (di_thread (insts st i)) (opClass_inst (iq st) i) (iqUnits st) = Some k \<and> 0 < freeEntries (iqUnits st ! k)
    \<and> unitOf st i = None
    \<and> st1 = st\<lparr>iq := (iq st)\<lparr>inIQ := (inIQ (iq st))(i := True)\<rparr>, iqUnits := (iqUnits st)[k := (iqUnits st ! k)\<lparr>freeEntries := freeEntries (iqUnits st ! k) - 1,
         unit_count := (unit_count (iqUnits st ! k))(di_thread (insts st i) := unit_count (iqUnits st ! k) (di_thread (insts st i)) + 1)\<rparr>],
         unitOf := (unitOf st)(i := Some k)\<rparr>"
  using assms by (auto simp: enter_unit_def unit_insert_def upd_iq_def Let_def split: option.splits if_splits)

lemma enter_unit_inv:
  assumes inv: "unit_inv st" and e: "enter_unit i (push_inst i st) = Some st1"
  shows "unit_inv st1"
proof -
  from enter_unit_spec [OF e] obtain k where k: "findIQ (di_thread (insts st i)) (opClass_inst (iq st) i) (iqUnits st) = Some k"
    "0 < freeEntries (iqUnits st ! k)" "unitOf st i = None" and st1: "unitOf st1 = (unitOf st)(i := Some k)"
    "iqUnits st1 = (iqUnits st)[k := (iqUnits st ! k)\<lparr>freeEntries := freeEntries (iqUnits st ! k) - 1,
       unit_count := (unit_count (iqUnits st ! k))(di_thread (insts st i) := unit_count (iqUnits st ! k) (di_thread (insts st i)) + 1)\<rparr>]"
    "instList st1 = instList (push_inst i st)" "squashedInIQ st1 = squashedInIQ st" "issuedF st1 = issuedF st"
    "memRef_inst (iq st1) = memRef_inst (iq st)" "memOpDone (iq st1) = memOpDone (iq st)"
    by auto
  have il: "in_list st1 j \<longleftrightarrow> in_list st j \<or> j = i" for j
    unfolding push_in_list [symmetric] by (simp only: in_list_def st1(3))
  have lt: "k < length (iqUnits st)" using findIQ_lt [OF k(1)] .
  have set: "{j. unitOf st1 j = Some k'} = (if k' = k then insert i {j. unitOf st j = Some k'} else {j. unitOf st j = Some k'})" for k'
    using k(3) by (auto simp: st1(1))
  have "finite {j. unitOf st1 j = Some k'} \<and> freeEntries (iqUnits st1 ! k') + card {j. unitOf st1 j = Some k'} = unit_numEntries (iqUnits st1 ! k')"
    if "k' < length (iqUnits st1)" for k'
    using inv that lt k(2,3) unfolding set by (auto simp: unit_inv_def st1(2) nth_list_update)
  moreover have "\<forall>j k'. unitOf st1 j = Some k' \<longrightarrow> k' < length (iqUnits st1)" using inv lt by (auto simp: unit_inv_def st1(1,2))
  moreover have "\<forall>j. in_list st1 j \<and> \<not> squashedInIQ st1 j \<and> (\<not> issuedF st1 j \<or> memRef_inst (iq st1) j \<and> \<not> memOpDone (iq st1) j)
      \<longrightarrow> unitOf st1 j \<noteq> None" using inv by (auto simp: unit_inv_def st1 il)
  ultimately show ?thesis unfolding unit_inv_def by blast
qed

lemma addIfReady_view: "inv_view (upd_iq (addIfReady i) st) = inv_view st" "unit_view (upd_iq (addIfReady i) st) = unit_view st"
  by (simp_all add: inv_view_def unit_view_def upd_iq_def addIfReady_def)

lemma enter_unit_views:
  assumes "enter_unit i (push_inst i st) = Some st1"
  obtains f where "iq st1 = (iq st)\<lparr>inIQ := f\<rparr>" "inv_view st1 = inv_view (push_inst i (st\<lparr>iq := (iq st)\<lparr>inIQ := f\<rparr>\<rparr>))"
    "insts st1 = insts st" "srcFlags st1 = srcFlags st" "instList st1 = instList (push_inst i st)"
proof -
  from enter_unit_spec [OF assms] obtain us un where
    st1: "st1 = (push_inst i st)\<lparr>iq := (iq st)\<lparr>inIQ := (inIQ (iq st))(i := True)\<rparr>, iqUnits := us, unitOf := un\<rparr>"
    unfolding push_fields by blast
  show thesis by (rule that [of "(inIQ (iq st))(i := True)"]) (simp_all add: st1 inv_view_def push_inst_def Let_def)
qed

lemma new_ok_inIQ: "new_ok (st\<lparr>iq := (iq st)\<lparr>inIQ := f\<rparr>\<rparr>) i = new_ok st i" "iq_inv (st\<lparr>iq := (iq st)\<lparr>inIQ := f\<rparr>\<rparr>) = iq_inv st"
  by (simp add: new_ok_def in_list_def unready_def) (rule iq_inv_view, simp add: inv_view_def)

lemma put_inst_inv:
  assumes inv: "iq_inv st" "unit_inv st" and new: "new_ok st i" and tr: "dep_tracked (insts st i)"
    and e: "enter_unit i (push_inst i st) = Some st1"
  shows "\<exists>st'. put_inst i st = Some st' \<and> iq_inv st' \<and> unit_inv st'"
proof -
  obtain f where st1: "iq st1 = (iq st)\<lparr>inIQ := f\<rparr>" "inv_view st1 = inv_view (push_inst i (st\<lparr>iq := (iq st)\<lparr>inIQ := f\<rparr>\<rparr>))"
    "insts st1 = insts st" "srcFlags st1 = srcFlags st" "instList st1 = instList (push_inst i st)" by (rule enter_unit_views [OF e])
  let ?s = "st\<lparr>iq := (iq st)\<lparr>inIQ := f\<rparr>\<rparr>"
  let ?fs = "map2 (\<lambda>f r. f \<or> iqScoreboard (iq st) r) (srcFlags st i) (di_srcs (insts st i))"
  have s: "iq_inv ?s" "new_ok ?s i" using inv new by (simp_all add: new_ok_inIQ)
  have "length (srcFlags st i) = length (di_srcs (insts st i))" "\<forall>r \<in> set (unready st i). \<not> fixed_reg (iq st) r"
    using new by (simp_all add: new_ok_def)
  then obtain w where w: "addToDependents i st1 = st1\<lparr>iq := w, srcFlags := (srcFlags st)(i := ?fs)\<rparr>"
    "depends_added i (unready ?s i) (iq ?s) w"
    using add_dependents_spec [of st1 i 0 "di_srcs (insts st i)"] by (auto simp: addToDependents_def st1 unready_def)
  let ?d = "st1\<lparr>iq := w, srcFlags := (srcFlags st)(i := ?fs)\<rparr>"
  have d: "iq_inv ?d"
    by (rule push_tracked [OF s _ w(2)]) (use tr st1(2) in \<open>simp_all add: inv_view_def\<close>)
  have il: "in_list ?d j \<longleftrightarrow> in_list st j \<or> j = i" for j
    unfolding push_in_list [symmetric] by (simp add: in_list_def st1(5))
  have rw: "fixed_reg w = fixed_reg (iq st)" "memRef_inst w = memRef_inst (iq st)" "memOpDone w = memOpDone (iq st)"
    using w(2) iq_rest_fields [of w "iq ?s"] by (simp_all add: depends_added_def)
  have "\<exists>p sb. addToProducers i ?d = Some (?d\<lparr>iq := (iq ?d)\<lparr>producer_of := p, iqScoreboard := sb\<rparr>\<rparr>)
    \<and> iq_inv (?d\<lparr>iq := (iq ?d)\<lparr>producer_of := p, iqScoreboard := sb\<rparr>\<rparr>)"
    by (rule producers_inv [OF d]) (use new in \<open>auto simp: il st1 rw new_ok_def\<close>)
  then obtain p sb where p: "addToProducers i ?d = Some (?d\<lparr>iq := w\<lparr>producer_of := p, iqScoreboard := sb\<rparr>\<rparr>)"
    "iq_inv (?d\<lparr>iq := w\<lparr>producer_of := p, iqScoreboard := sb\<rparr>\<rparr>)" by auto
  let ?p = "?d\<lparr>iq := w\<lparr>producer_of := p, iqScoreboard := sb\<rparr>\<rparr>"
  define r where "r = (if memRef_inst (iq ?p) i then ?p\<lparr>memInsert_calls := memInsert_calls ?p @ [i]\<rparr> else upd_iq (addIfReady i) ?p)"
  have "put_inst i st = Some (r\<lparr>instsAdded := instsAdded r + 1\<rparr>)" (is "_ = Some ?r")
    using e w(1) p(1) unfolding put_inst_def r_def by (simp add: Let_def)
  moreover have "inv_view ?r = inv_view ?p" "unit_view ?r = unit_view ?p"
    using addIfReady_view [of i ?p] by (simp_all add: r_def inv_view_def unit_view_def)
  moreover have "unit_view ?p = unit_view st1" by (simp add: unit_view_def rw st1(1))
  ultimately show ?thesis using p(2) enter_unit_inv [OF inv(2) e] iq_inv_view unit_inv_view by metis
qed

lemma put_nonSpec_inv:
  assumes inv: "iq_inv st" "unit_inv st" and new: "new_ok st i" and tr: "\<not> dep_tracked (insts st i)"
    and e: "enter_unit i (push_inst i (st\<lparr>nonSpecInsts := insert i (nonSpecInsts st)\<rparr>)) = Some st1"
  shows "\<exists>st'. put_nonSpec i st = Some st' \<and> iq_inv st' \<and> unit_inv st'"
proof -
  let ?n = "st\<lparr>nonSpecInsts := insert i (nonSpecInsts st)\<rparr>"
  have v: "inv_view ?n = inv_view st" "unit_view ?n = unit_view st" by (simp_all add: inv_view_def unit_view_def)
  have n: "iq_inv ?n" "unit_inv ?n" "new_ok ?n i"
    using inv new iq_inv_view [OF v(1)] unit_inv_view [OF v(2)]
    by (simp_all add: new_ok_def in_list_def unready_def)
  obtain f where st1: "iq st1 = (iq ?n)\<lparr>inIQ := f\<rparr>" "inv_view st1 = inv_view (push_inst i (?n\<lparr>iq := (iq ?n)\<lparr>inIQ := f\<rparr>\<rparr>))"
    "insts st1 = insts ?n" "srcFlags st1 = srcFlags ?n" "instList st1 = instList (push_inst i ?n)" by (rule enter_unit_views [OF e])
  let ?s = "?n\<lparr>iq := (iq ?n)\<lparr>inIQ := f\<rparr>\<rparr>"
  have s: "iq_inv ?s" "new_ok ?s i" using n(1,3) by (simp_all only: new_ok_inIQ)
  have d: "iq_inv st1" using push_untracked [OF s] tr iq_inv_view [OF st1(2)] by simp
  have il: "in_list st1 j \<longleftrightarrow> in_list ?n j \<or> j = i" for j
    unfolding push_in_list [symmetric] by (simp only: in_list_def st1(5))
  have "\<exists>p sb. addToProducers i st1 = Some (st1\<lparr>iq := (iq st1)\<lparr>producer_of := p, iqScoreboard := sb\<rparr>\<rparr>)
    \<and> iq_inv (st1\<lparr>iq := (iq st1)\<lparr>producer_of := p, iqScoreboard := sb\<rparr>\<rparr>)"
    by (rule producers_inv [OF d]) (use n(3) in \<open>auto simp: il st1(1,3) new_ok_def\<close>)
  then obtain p sb where p: "addToProducers i st1 = Some (st1\<lparr>iq := (iq st1)\<lparr>producer_of := p, iqScoreboard := sb\<rparr>\<rparr>)"
    "iq_inv (st1\<lparr>iq := (iq st1)\<lparr>producer_of := p, iqScoreboard := sb\<rparr>\<rparr>)" by blast
  let ?p = "st1\<lparr>iq := (iq st1)\<lparr>producer_of := p, iqScoreboard := sb\<rparr>\<rparr>"
  define r where "r = (if memRef_inst (iq ?p) i then ?p\<lparr>memInsertNonSpec_calls := memInsertNonSpec_calls ?p @ [i]\<rparr> else ?p)"
  have "put_nonSpec i st = Some (r\<lparr>nonSpecInstsAdded := nonSpecInstsAdded r + 1\<rparr>)" (is "_ = Some ?r")
    using e p(1) unfolding put_nonSpec_def r_def by (simp add: Let_def)
  moreover have "inv_view ?r = inv_view ?p" "unit_view ?r = unit_view st1"
    by (simp_all add: r_def inv_view_def unit_view_def)
  ultimately show ?thesis using p(2) enter_unit_inv [OF n(2) e] iq_inv_view unit_inv_view by metis
qed

subsection \<open>The other operations\<close>

lemma leave_unit_inv:
  assumes "unit_inv st" "leave_unit i st = Some st'"
    and "in_list st i \<and> \<not> squashedInIQ st i \<longrightarrow> issuedF st i \<and> (memRef_inst (iq st) i \<longrightarrow> memOpDone (iq st) i)"
  shows "unit_inv st'"
proof -
  have "unitOf st i \<noteq> None" using assms(2) by (auto simp: leave_unit_def split: option.splits)
  from leave_unit_ok [OF assms(1) this assms(3)] assms(2) show ?thesis by auto
qed

lemma iq_complete_inv:
  assumes inv: "iq_inv st" "unit_inv st" and c: "iq_complete cur ci st = Some st'" "\<not> squashed_inst (iq st) (comp_id ci)"
    "issuedF st (comp_id ci)"
  shows "iq_inv st' \<and> unit_inv st'"
proof -
  obtain w n where w: "wakeDependents cur ci (None, iq st) = Some (None, w, n)" "iq_inv (st\<lparr>iq := w\<rparr>)" "memRef_inst w = memRef_inst (iq st)"
    "memOpDone w = (if comp_isMemRef ci then (memOpDone (iq st))(comp_id ci := True) else memOpDone (iq st))"
    using wakeDependents_inv [OF inv(1) c(2)] by blast
  let ?st = "st\<lparr>iq := w\<rparr>"
  have u: "unit_inv ?st" using inv(2) by (simp add: unit_inv_def in_list_def w(3,4))
  show ?thesis
  proof (cases "comp_isMemRef ci")
    case True
    then have l: "leave_unit (comp_id ci) ?st = Some st'" using c(1) w(1) by (simp add: iq_complete_def)
    have "unit_inv st'" by (rule leave_unit_inv [OF u l]) (simp add: w(4) True c(3))
    then show ?thesis using w(2) iq_inv_view [OF leave_unit_view [OF l]] by blast
  next
    case False
    then show ?thesis using c(1) w(1,2) u by (simp add: iq_complete_def)
  qed
qed

lemma mark_issued_inv:
  assumes inv: "iq_inv st" "unit_inv st" and m: "mark_issued i st = Some st'"
    and c: "canIssue (iq st) i \<or> i \<in> set (blockedI st) \<or> i \<in> set (memReschedule_calls st)"
  shows "iq_inv st' \<and> unit_inv st'"
proof -
  let ?st = "st\<lparr>issuedF := (issuedF st)(i := True)\<rparr>"
  have e: "live ?st = live st" "unready ?st = unready st" "in_list ?st = in_list st"
    by (simp_all add: live_def in_list_def unready_def fun_eq_iff)
  have "inst_ok ?st j" if "live st j" for j
  proof -
    have ok: "inst_ok st j" using inv(1) that by (simp add: iq_inv_def)
    then have "missing st i = 0" if "j = i" using c that unfolding inst_ok_def by blast
    then show ?thesis using ok unfolding inst_ok_def e by simp
  qed
  then have i: "iq_inv ?st" using inv(1) by (simp add: iq_inv_def chains_ok_def order_ok_def e)
  have u: "unit_inv ?st" using inv(2) unfolding unit_inv_def e by simp
  show ?thesis
  proof (cases "memRef_inst (iq st) i")
    case True
    then show ?thesis using m i u by (simp add: mark_issued_def Let_def)
  next
    case False
    then have l: "leave_unit i ?st = Some st'" using m by (simp add: mark_issued_def Let_def)
    have "unit_inv st'" by (rule leave_unit_inv [OF u l]) (simp add: False)
    then show ?thesis using i iq_inv_view [OF leave_unit_view [OF l]] by blast
  qed
qed

text \<open>Clearing \<open>CanIssue\<close> of an issued memory instruction, as blocking and rescheduling do.\<close>

lemma retry_inv:
  assumes inv: "iq_inv st" "unit_inv st" and i: "issuedF st i" "memRef_inst (iq st) i" "\<not> memOpDone (iq st) i"
    and st': "inv_view st' = inv_view (st\<lparr>iq := (iq st)\<lparr>canIssue := (canIssue (iq st))(i := False)\<rparr>,
      issuedF := (issuedF st)(i := b), blockedI := bl, memReschedule_calls := rs\<rparr>)"
    "unit_view st' = unit_view (st\<lparr>issuedF := (issuedF st)(i := b)\<rparr>)"
    "set bl \<subseteq> insert i (set (blockedI st))" "set rs \<subseteq> insert i (set (memReschedule_calls st))"
  shows "iq_inv st' \<and> unit_inv st'"
proof -
  let ?st = "st\<lparr>iq := (iq st)\<lparr>canIssue := (canIssue (iq st))(i := False)\<rparr>, issuedF := (issuedF st)(i := b),
    blockedI := bl, memReschedule_calls := rs\<rparr>"
  have e: "live ?st = live st" "unready ?st = unready st" "in_list ?st = in_list st"
    by (simp_all add: live_def in_list_def unready_def fun_eq_iff)
  have "inst_ok ?st j" if l: "live st j" for j
  proof -
    have ok: "inst_ok st j" using inv(1) l by (simp add: iq_inv_def)
    have "missing st j = 0" if "issuedF ?st j \<or> j \<in> set bl \<or> j \<in> set rs"
      using ok that i(1) st'(3,4) by (cases "j = i") (auto simp: inst_ok_def)
    then show ?thesis using ok i(2) by (auto simp: inst_ok_def e)
  qed
  then have "iq_inv ?st" using inv(1) by (simp add: iq_inv_def chains_ok_def order_ok_def e)
  moreover have "unit_inv (st\<lparr>issuedF := (issuedF st)(i := b)\<rparr>)"
    using inv(2) i(2,3) by (auto simp: unit_inv_def in_list_def)
  ultimately show ?thesis using iq_inv_view [OF st'(1)] unit_inv_view [OF st'(2)] by blast
qed

lemma commit_unit_inv: "unit_inv st \<Longrightarrow> unit_inv (iq_commit s t st)"
proof -
  have "in_list (iq_commit s t st) i \<Longrightarrow> in_list st i" for i
    by (auto simp: in_list_def iq_commit_def split: if_splits dest: set_dropWhileD)
  then show "unit_inv st \<Longrightarrow> unit_inv (iq_commit s t st)" by (simp add: unit_inv_def iq_commit_def)
qed

lemma scheduleNonSpec_inv:
  assumes inv: "iq_inv st" "unit_inv st" and s: "scheduleNonSpec i st = Some st'" "\<not> dep_tracked (insts st i)"
  shows "iq_inv st' \<and> unit_inv st'"
proof -
  let ?st = "st\<lparr>atCommitF := (atCommitF st)(i := True), iq := (iq st)\<lparr>canIssue := (canIssue (iq st))(i := True)\<rparr>\<rparr>"
  have e: "live ?st = live st" "unready ?st = unready st" "in_list ?st = in_list st"
    by (simp_all add: live_def in_list_def unready_def fun_eq_iff)
  have "inst_ok ?st j" if l: "live st j" for j
  proof -
    have "j \<noteq> i" using l s(2) by (auto simp: live_def)
    then have "inst_ok ?st j = inst_ok st j" by (intro inst_ok_cong) simp_all
    then show ?thesis using inv(1) l by (simp add: iq_inv_def)
  qed
  then have i: "iq_inv ?st" using inv(1) by (simp add: iq_inv_def chains_ok_def order_ok_def e)
  have u: "unit_view ?st = unit_view st" by (simp add: unit_view_def)
  define r where "r = (if \<not> memRef_inst (iq ?st) i then upd_iq (addIfReady i) ?st else ?st\<lparr>memNonSpecReady_calls := memNonSpecReady_calls ?st @ [i]\<rparr>)"
  have r: "inv_view r = inv_view ?st" "unit_view r = unit_view ?st"
    using addIfReady_view [of i ?st] unfolding r_def by (simp_all add: inv_view_def unit_view_def)
  have "st' = r\<lparr>nonSpecInsts := nonSpecInsts r - {i}\<rparr>"
    using s(1) unfolding scheduleNonSpec_def Let_def r_def by (simp add: upd_iq_def split: if_split_asm)
  then have "inv_view st' = inv_view ?st" "unit_view st' = unit_view st"
    unfolding r(1) [symmetric] u [symmetric] r(2) [symmetric] by (simp_all add: inv_view_def unit_view_def)
  then show ?thesis using i inv(2) iq_inv_view unit_inv_view by blast
qed

subsection \<open>Runs of the queue\<close>

definition iq_initial :: "inst_queue \<Rightarrow> bool" where
  "iq_initial st \<longleftrightarrow> instList st = (\<lambda>_. []) \<and> dependents_of (iq st) = (\<lambda>_. []) \<and> unitOf st = (\<lambda>_. None)
     \<and> (\<forall>u \<in> set (iqUnits st). freeEntries u = unit_numEntries u)"

text \<open>Fetch, decode and rename set the attributes of an instruction before dispatch.\<close>

definition rename_inst :: "inst_id \<Rightarrow> dyn_inst \<Rightarrow> bool list \<Rightarrow> bool \<Rightarrow> op_class \<Rightarrow> inst_queue \<Rightarrow> inst_queue" where
  "rename_inst i d fl mr c st = upd_iq (\<lambda>w. w\<lparr>numSrcRegs := (numSrcRegs w)(i := length (di_srcs d)),
      readyRegs := (readyRegs w)(i := length (filter id fl)), canIssue := (canIssue w)(i := list_all id fl),
      memRef_inst := (memRef_inst w)(i := mr), opClass_inst := (opClass_inst w)(i := c),
      memOpDone := (memOpDone w)(i := False), squashed_inst := (squashed_inst w)(i := False)\<rparr>)
     (st\<lparr>insts := (insts st)(i := d), srcFlags := (srcFlags st)(i := fl), issuedF := (issuedF st)(i := False),
        completedF := (completedF st)(i := False), faultedF := (faultedF st)(i := False),
        canCommitF := (canCommitF st)(i := False), squashedInIQ := (squashedInIQ st)(i := False)\<rparr>)"

inductive iq_run :: "inst_queue \<Rightarrow> bool" where
  start: "iq_initial st \<Longrightarrow> iq_run st"
| renamed: "iq_run st \<Longrightarrow> \<not> in_list st i \<Longrightarrow> iq_run (rename_inst i d fl mr c st)"
| inserted: "iq_run st \<Longrightarrow> new_ok st i \<Longrightarrow> dep_tracked (insts st i) \<Longrightarrow> insert_inst i st = Some st' \<Longrightarrow> iq_run st'"
| insertedNonSpec: "iq_run st \<Longrightarrow> new_ok st i \<Longrightarrow> \<not> dep_tracked (insts st i) \<Longrightarrow> insertNonSpec i st = Some st' \<Longrightarrow> iq_run st'"
| insertedBarrier: "iq_run st \<Longrightarrow> new_ok st i \<Longrightarrow> \<not> dep_tracked (insts st i) \<Longrightarrow> insertBarrier i st = Some st' \<Longrightarrow> iq_run st'"
| scheduled: "iq_run st \<Longrightarrow> \<not> dep_tracked (insts st i) \<Longrightarrow> scheduleNonSpec i st = Some st' \<Longrightarrow> iq_run st'"
| issued: "iq_run st \<Longrightarrow> canIssue (iq st) i \<or> i \<in> set (blockedI st) \<or> i \<in> set (memReschedule_calls st)
    \<Longrightarrow> mark_issued i st = Some st' \<Longrightarrow> iq_run st'"
| completed: "iq_run st \<Longrightarrow> issuedF st (comp_id ci) \<Longrightarrow> \<not> squashed_inst (iq st) (comp_id ci)
    \<Longrightarrow> iq_complete cur ci st = Some st' \<Longrightarrow> iq_run st'"
| blocked: "iq_run st \<Longrightarrow> issuedF st i \<Longrightarrow> memRef_inst (iq st) i \<Longrightarrow> \<not> memOpDone (iq st) i \<Longrightarrow> iq_run (blockMemInst i st)"
| rescheduled: "iq_run st \<Longrightarrow> issuedF st i \<Longrightarrow> memRef_inst (iq st) i \<Longrightarrow> \<not> memOpDone (iq st) i \<Longrightarrow> iq_run (rescheduleMemInst i st)"
| committed: "iq_run st \<Longrightarrow> \<forall>i \<in> set (instList st t). i \<le> s \<longrightarrow> issuedF st i \<Longrightarrow> iq_run (iq_commit s t st)"
| squashed: "iq_run st \<Longrightarrow> \<forall>i \<in> set (instList st t). s < i \<and> \<not> squashedInIQ st i \<longrightarrow> settled st i
    \<Longrightarrow> iq_squash t s st = Some st' \<Longrightarrow> iq_run st'"
| outcome: "iq_run st \<Longrightarrow> iq_run (st\<lparr>completedF := cf, faultedF := ff\<rparr>)"

lemma initial_inv: "iq_initial st \<Longrightarrow> iq_inv st \<and> unit_inv st"
  by (auto simp: iq_initial_def iq_inv_def unit_inv_def chains_ok_def order_ok_def live_def in_list_def)

lemma rename_inv:
  assumes inv: "iq_inv st" "unit_inv st" and nl: "\<not> in_list st i"
  shows "iq_inv (rename_inst i d fl mr c st) \<and> unit_inv (rename_inst i d fl mr c st)"
proof -
  let ?st = "rename_inst i d fl mr c st"
  have il: "in_list ?st = in_list st" by (simp add: in_list_def rename_inst_def upd_iq_def fun_eq_iff)
  have lv: "live ?st = live st" unfolding live_def il fun_eq_iff using nl by (auto simp: rename_inst_def upd_iq_def)
  have ne: "j \<noteq> i" if "in_list st j" for j using nl that by auto
  have u: "unready ?st j = unready st j" if "in_list st j" for j using ne [OF that] by (simp add: unready_def rename_inst_def upd_iq_def)
  have f: "iqScoreboard (iq ?st) = iqScoreboard (iq st)" "dependents_of (iq ?st) = dependents_of (iq st)"
    "fixed_reg (iq ?st) = fixed_reg (iq st)" "instList ?st = instList st" "insts ?st j = (if j = i then d else insts st j)" for j
    by (simp_all add: rename_inst_def upd_iq_def)
  have "inst_ok ?st j" if l: "live st j" for j
  proof -
    have "inst_ok ?st j = inst_ok st j"
      by (intro inst_ok_cong) (use ne [of j] l in \<open>simp_all add: live_def rename_inst_def upd_iq_def\<close>)
    then show ?thesis using inv(1) l by (simp add: iq_inv_def)
  qed
  moreover have "chains_ok ?st" unfolding chains_ok_def lv f
    using inv(1) u by (auto simp: iq_inv_def chains_ok_def live_def)
  moreover have "order_ok ?st"
  proof -
    have "di_thread (insts ?st j) = t" if "j \<in> set (instList st t)" for j t
      using inv(1) that ne [of j] by (auto simp: iq_inv_def order_ok_def f(5) in_list_def)
    then show ?thesis using inv(1) ne unfolding order_ok_def il by (auto simp: iq_inv_def order_ok_def f)
  qed
  moreover have "unit_inv ?st" using inv(2) ne unfolding unit_inv_def il by (auto simp: rename_inst_def upd_iq_def)
  ultimately show ?thesis by (simp add: iq_inv_def lv)
qed

lemma enter_of_insert: "put_inst i st = Some st' \<Longrightarrow> \<exists>st1. enter_unit i (push_inst i st) = Some st1"
  "put_nonSpec i st = Some st' \<Longrightarrow> \<exists>st1. enter_unit i (push_inst i (st\<lparr>nonSpecInsts := insert i (nonSpecInsts st)\<rparr>)) = Some st1"
  by (auto simp: put_inst_def put_nonSpec_def split: option.splits)

lemma new_ok_count_write [simp]: "new_ok (count_write j st) i = new_ok st i"
proof -
  have "issuedF (count_write j st) = issuedF st" "blockedI (count_write j st) = blockedI st"
    "memReschedule_calls (count_write j st) = memReschedule_calls st" by (simp_all add: count_write_def Let_def)
  then show ?thesis by (simp add: new_ok_def)
qed

lemma blockMemInst_inv:
  assumes "iq_inv st" "unit_inv st" "issuedF st i" "memRef_inst (iq st) i" "\<not> memOpDone (iq st) i"
  shows "iq_inv (blockMemInst i st) \<and> unit_inv (blockMemInst i st)"
  by (rule retry_inv [OF assms, where b = False and bl = "blockedI st @ [i]" and rs = "memReschedule_calls st"])
    (simp_all add: blockMemInst_def upd_iq_def inv_view_def unit_view_def subset_insertI)

lemma rescheduleMemInst_inv:
  assumes "iq_inv st" "unit_inv st" "issuedF st i" "memRef_inst (iq st) i" "\<not> memOpDone (iq st) i"
  shows "iq_inv (rescheduleMemInst i st) \<and> unit_inv (rescheduleMemInst i st)"
proof -
  have "(issuedF st)(i := True) = issuedF st" using assms(3) by (simp add: fun_upd_idem)
  then show ?thesis
    by (intro retry_inv [OF assms, where b = True and bl = "blockedI st" and rs = "memReschedule_calls st @ [i]"])
      (simp_all add: rescheduleMemInst_def upd_iq_def inv_view_def unit_view_def subset_insertI)
qed

lemma outcome_inv:
  assumes "iq_inv st" "unit_inv st"
  shows "iq_inv (st\<lparr>completedF := cf, faultedF := ff\<rparr>) \<and> unit_inv (st\<lparr>completedF := cf, faultedF := ff\<rparr>)"
proof -
  let ?st = "st\<lparr>completedF := cf, faultedF := ff\<rparr>"
  have "inv_view ?st = inv_view st" "unit_view ?st = unit_view st" by (simp_all add: inv_view_def unit_view_def)
  then show ?thesis using assms iq_inv_view unit_inv_view by blast
qed

lemma insert_steps_inv:
  assumes "iq_inv st" "unit_inv st" "new_ok st i"
  shows "dep_tracked (insts st i) \<Longrightarrow> insert_inst i st = Some st' \<Longrightarrow> iq_inv st' \<and> unit_inv st'"
    "\<not> dep_tracked (insts st i) \<Longrightarrow> insertNonSpec i st = Some st' \<Longrightarrow> iq_inv st' \<and> unit_inv st'"
  using put_inst_inv [of "count_write i st" i] put_nonSpec_inv [of "count_write i st" i]
    enter_of_insert [of i "count_write i st" st'] assms by (auto simp: insert_inst_def insertNonSpec_def)

lemma insertBarrier_inv:
  assumes "iq_inv st" "unit_inv st" "new_ok st i" "\<not> dep_tracked (insts st i)" "insertBarrier i st = Some st'"
  shows "iq_inv st' \<and> unit_inv st'"
proof -
  let ?st = "st\<lparr>memInsertBarrier_calls := memInsertBarrier_calls st @ [i]\<rparr>"
  have "inv_view ?st = inv_view st" "unit_view ?st = unit_view st" by (simp_all add: inv_view_def unit_view_def)
  then have "iq_inv ?st" "unit_inv ?st" using assms(1,2) iq_inv_view unit_inv_view by blast+
  moreover have "new_ok ?st i" using assms(3) by (simp add: new_ok_def in_list_def unready_def)
  ultimately show ?thesis using insert_steps_inv(2) [of ?st i st'] assms(4,5) by (simp add: insertBarrier_def)
qed

lemma iq_run_inv: "iq_run st \<Longrightarrow> iq_inv st \<and> unit_inv st"
proof (induction rule: iq_run.induct)
  case (inserted st i st')
  then show ?case using insert_steps_inv(1) by blast
next
  case (insertedNonSpec st i st')
  then show ?case using insert_steps_inv(2) by blast
next
  case (insertedBarrier st i st')
  then show ?case using insertBarrier_inv by blast
next
  case (squashed st t s st')
  then show ?case using iq_squash_inv [of st t s] by auto
next
  case (committed st t s)
  then show ?case using iq_commit_inv commit_unit_inv by blast
next
  case (scheduled st i st')
  then show ?case using scheduleNonSpec_inv by blast
next
  case (issued st i st')
  then show ?case using mark_issued_inv by blast
next
  case (completed st ci cur st')
  then show ?case using iq_complete_inv by blast
qed (simp_all add: initial_inv rename_inv blockMemInst_inv rescheduleMemInst_inv outcome_inv)

subsection \<open>What every run guarantees\<close>

text \<open>C26: In every run of the queue a listed, tracked instruction that was not squashed has counted exactly the sources
  that are produced; it may issue only when none is missing, and a non-memory instruction may issue as soon as none is;
  it was issued only with all sources produced.  The chain of a register holds each such instruction once
  per unproduced use of the register, and nothing else; the chain of a produced register is empty.\<close>

theorem ready_when_produced:
  assumes "iq_run st"
  shows "(live st i \<longrightarrow> readyRegs (iq st) i + lacking (iqScoreboard (iq st)) (unready st i) = numSrcRegs (iq st) i
      \<and> (canIssue (iq st) i \<longrightarrow> (\<forall>r \<in> set (unready st i). iqScoreboard (iq st) r))
      \<and> ((\<forall>r \<in> set (unready st i). iqScoreboard (iq st) r) \<and> \<not> memRef_inst (iq st) i \<longrightarrow> canIssue (iq st) i)
      \<and> (issuedF st i \<longrightarrow> (\<forall>r \<in> set (unready st i). iqScoreboard (iq st) r)))
    \<and> (count (mset (dependents_of (iq st) r)) i =
      (if live st i \<and> \<not> iqScoreboard (iq st) r then count (mset (unready st i)) r else 0))
    \<and> (iqScoreboard (iq st) r \<longrightarrow> dependents_of (iq st) r = [])"
proof (intro conjI)
  have inv: "iq_inv st" using iq_run_inv [OF assms] ..
  show "live st i \<longrightarrow> readyRegs (iq st) i + lacking (iqScoreboard (iq st)) (unready st i) = numSrcRegs (iq st) i
      \<and> (canIssue (iq st) i \<longrightarrow> (\<forall>r \<in> set (unready st i). iqScoreboard (iq st) r))
      \<and> ((\<forall>r \<in> set (unready st i). iqScoreboard (iq st) r) \<and> \<not> memRef_inst (iq st) i \<longrightarrow> canIssue (iq st) i)
      \<and> (issuedF st i \<longrightarrow> (\<forall>r \<in> set (unready st i). iqScoreboard (iq st) r))"
    using inv unfolding lacking_zero [symmetric] iq_inv_def inst_ok_def by blast
  show "count (mset (dependents_of (iq st) r)) i =
      (if live st i \<and> \<not> iqScoreboard (iq st) r then count (mset (unready st i)) r else 0)"
    using inv by (simp add: iq_inv_def chains_ok_def)
  show "iqScoreboard (iq st) r \<longrightarrow> dependents_of (iq st) r = []" using inv chains_empty by (auto simp: iq_inv_def)
qed


text \<open>An addition that produces register 5 and one that waits for it.\<close>

definition demo_inst :: "nat list \<Rightarrow> nat list \<Rightarrow> dyn_inst" where
  "demo_inst src dst = \<lparr>di_thread = 0, di_srcs = src, di_dests = dst, di_isLoad = False, di_isStore = False,
     di_isFullMemBarrier = False, di_isStoreConditional = False, di_isNonSpeculative = False, di_isAtomic = False,
     di_isReadBarrier = False, di_isWriteBarrier = False, di_isFloating = False, di_isVector = False\<rparr>"

definition demo_empty :: inst_queue where
  "demo_empty = \<lparr>iq = demo_queue\<lparr>dependents_of := (\<lambda>_. []), numSrcRegs := (\<lambda>i. if i = 2 then 1 else 0), canIssue := (\<lambda>i. i \<noteq> 2),
       iqScoreboard := (\<lambda>_. True)\<rparr>,
     insts = (\<lambda>i. if i = 2 then demo_inst [5] [6] else demo_inst [] [5]), srcFlags = (\<lambda>i. if i = 2 then [False] else []),
     instList = (\<lambda>_. []), nonSpecInsts = {}, iqUnits = [IQUnit PolicyDynamic 1 4 0 (\<lambda>_. True)], unitOf = (\<lambda>_. None),
     issuedF = (\<lambda>_. False), completedF = (\<lambda>_. False), faultedF = (\<lambda>_. False), canCommitF = (\<lambda>_. False),
     atCommitF = (\<lambda>_. False), translationStartedF = (\<lambda>_. False), translationCompletedF = (\<lambda>_. False),
     squashedInIQ = (\<lambda>_. False), memInsert_calls = [], memInsertNonSpec_calls = [], memInsertBarrier_calls = [],
     memNonSpecReady_calls = [],      memReschedule_calls = [], blockedI = [], instsAdded = 0, nonSpecInstsAdded = 0, squashedInstsExamined = 0,
     squashedOperandsExamined = 0, squashedNonSpecRemoved = 0, fpInstQueueWrites = 0, vecInstQueueWrites = 0, intInstQueueWrites = 0\<rparr>"

definition demo_one :: inst_queue where "demo_one = the (insert_inst 1 demo_empty)"
definition demo_two :: inst_queue where "demo_two = the (insert_inst 2 demo_one)"

lemmas demo_defs = demo_empty_def demo_inst_def demo_queue_def insert_inst_def put_inst_def count_write_def enter_unit_def push_inst_def IQUnit_def
  unit_numFreeFor_def unit_numFreeEntries_def unit_insert_def addToDependents_def addToProducers_def add_dependent_def
  upd_iq_def dg_insert_def markSrcRegReady_def addIfReady_def Let_def

lemma demo_one: "insert_inst 1 demo_empty = Some demo_one"
  by (simp add: demo_one_def demo_defs push_ready_def)

lemma demo_two: "insert_inst 2 demo_one = Some demo_two"
  by (simp add: demo_two_def demo_one_def demo_defs push_ready_def)

lemma demo_in_list: "in_list demo_empty j \<longleftrightarrow> False" "in_list demo_one j \<longleftrightarrow> j = 1" "in_list demo_two j \<longleftrightarrow> j = 1 \<or> j = 2"
  by (auto simp: in_list_def demo_two_def demo_one_def demo_defs push_ready_def)

lemma demo_run: "iq_run demo_empty" "iq_run demo_one" "iq_run demo_two"
proof -
  show 0: "iq_run demo_empty" by (rule start) (simp add: iq_initial_def demo_empty_def demo_queue_def IQUnit_def)
  have n: "new_ok demo_empty 1" "dep_tracked (insts demo_empty 1)"
    unfolding new_ok_def demo_in_list by (simp_all add: unready_def demo_empty_def demo_inst_def demo_queue_def dep_tracked_def)
  show 1: "iq_run demo_one" by (rule inserted [OF 0 n demo_one])
  have n: "new_ok demo_one 2" "dep_tracked (insts demo_one 2)"
    unfolding new_ok_def demo_in_list by (simp_all add: unready_def demo_one_def demo_defs push_ready_def dep_tracked_def)
  show "iq_run demo_two" by (rule inserted [OF 1 n demo_two])
qed

theorem ready_when_produced_witness:
  "live demo_two 2 \<and> \<not> canIssue (iq demo_two) 2 \<and> readyRegs (iq demo_two) 2 + 1 = numSrcRegs (iq demo_two) 2
   \<and> count (mset (dependents_of (iq demo_two) 5)) 2 = 1"
proof -
  have l: "live demo_two 2" "unready demo_two 2 = [5]" "\<not> iqScoreboard (iq demo_two) 5"
    unfolding live_def demo_in_list
    by (simp_all add: unready_def demo_two_def demo_one_def demo_defs push_ready_def dep_tracked_def)
  have m: "lacking (iqScoreboard (iq demo_two)) [5] = 1" using l(3) by (simp add: lacking_def)
  have "readyRegs (iq demo_two) 2 + lacking (iqScoreboard (iq demo_two)) (unready demo_two 2) = numSrcRegs (iq demo_two) 2"
    using ready_when_produced [OF demo_run(3), of 2 5] l(1) by blast
  moreover have "\<not> canIssue (iq demo_two) 2" using ready_when_produced [OF demo_run(3), of 2 5] l by (metis list.set_intros(1))
  moreover have "count (mset (dependents_of (iq demo_two) 5)) 2 = count (mset (unready demo_two 2)) 5"
    using ready_when_produced [OF demo_run(3), of 2 5] l(1,3) by presburger
  ultimately show ?thesis using l(1) unfolding l(2) m by simp
qed


end
