(* ===== verification/Lsq_Fwd.thy ===== *)
theory Lsq_Fwd
  imports Injector
begin

text \<open>
  \<open>CHAOSLSQFwd\<close>: corrupts the data a store forwards to a younger load in the load-store queue.  One hook
  may replace the source of the copy by the data of an earlier forwarding, kept in a ring of eight
  entries; the other corrupts the copied bytes.  A buffer is the list of its bytes.
\<close>

datatype structural_fault = NoStructural | ByteLaneSkew | AllZero
datatype source_fault = NoSourceFault | FwdSourceSub | StaleLineReplay | PhaseOffset

abbreviation HIST_CAP :: nat where "HIST_CAP \<equiv> 8"
abbreviation HIST_BYTES :: nat where "HIST_BYTES \<equiv> 64"

record hist_entry =
  he_data :: "u8 list"
  he_size :: nat
  he_vaddr :: u64
  he_valid :: bool

record fwd_inj = injector +
  fwd_fault_type :: fault_type
  fwd_fault_mask :: u64
  mask_width :: int
  structural_fault_enum :: structural_fault
  source_fault_enum :: source_fault
  phase_offset :: int
  skew_bytes :: int
  fwd_num_bits :: int
  byte_offset :: int
  hist :: "hist_entry list"
  hist_next :: nat
  fwd_numFaultsInjected :: nat
  fwd_numBitFlips :: nat
  fwd_numStuckAtZero :: nat
  fwd_numStuckAtOne :: nat
  numStructuralByteLaneSkew :: nat
  numStructuralAllZero :: nat
  numFwdSourceSub :: nat
  numStaleLineReplay :: nat
  numPhaseOffset :: nat

definition fwd_stringToFaultType :: "string \<Rightarrow> fault_type" where
  "fwd_stringToFaultType s = (if s = ''bit_flip'' then BitFlip else if s = ''stuck_at_zero'' then StuckAtZero
     else if s = ''stuck_at_one'' then StuckAtOne else RandomFault)"

definition stringToStructuralFault :: "string \<Rightarrow> structural_fault" where
  "stringToStructuralFault s = (if s = ''byte_lane_skew'' then ByteLaneSkew
     else if s = ''all_zero'' then AllZero else NoStructural)"

definition stringToSourceFault :: "string \<Rightarrow> source_fault" where
  "stringToSourceFault s = (if s = ''fwd_source_sub'' then FwdSourceSub
     else if s = ''stale_line_replay'' then StaleLineReplay
     else if s = ''phase_offset'' then PhaseOffset else NoSourceFault)"

text \<open>The second component is the new value of \<open>cpu->lsqFwd\<close>.  \<open>junk\<close> is what the ring holds before anything
  is written to it.\<close>

definition CHAOSLSQFwd :: "bool \<Rightarrow> real \<Rightarrow> string \<Rightarrow> u64 \<Rightarrow> int \<Rightarrow> string \<Rightarrow> string \<Rightarrow> int \<Rightarrow> int \<Rightarrow> int \<Rightarrow> int
    \<Rightarrow> cycles \<Rightarrow> cycles \<Rightarrow> nat \<Rightarrow> rng \<Rightarrow> u8 list list \<Rightarrow> fwd_inj option \<Rightarrow> ctor_error + fwd_inj \<times> fwd_inj option" where
  "CHAOSLSQFwd is_o3 prob ftype fmask width struct source phase skew bits boff fst_clk lst_clk cap r junk hook =
     (if \<not> is_o3 then Inl NotO3CPU
      else let s = \<lparr>probability = prob, first_clock = fst_clk, last_clock = lst_clk, max_faults = cap,
             faults_injected_count = 0, rng = r, fwd_fault_type = fwd_stringToFaultType ftype, fwd_fault_mask = fmask,
             mask_width = width, structural_fault_enum = stringToStructuralFault struct,
             source_fault_enum = stringToSourceFault source, phase_offset = phase, skew_bytes = skew,
             fwd_num_bits = bits, byte_offset = boff,
             hist = map (\<lambda>bs. \<lparr>he_data = bs, he_size = 0, he_vaddr = 0, he_valid = False\<rparr>) junk, hist_next = 0,
             fwd_numFaultsInjected = 0, fwd_numBitFlips = 0, fwd_numStuckAtZero = 0, fwd_numStuckAtOne = 0,
             numStructuralByteLaneSkew = 0, numStructuralAllZero = 0, numFwdSourceSub = 0, numStaleLineReplay = 0,
             numPhaseOffset = 0\<rparr>
           in Inr (s, if 0 < prob then Some s else hook))"

definition fwd_count :: "fwd_inj \<Rightarrow> fwd_inj" where
  "fwd_count s = count_fault (s\<lparr>fwd_numFaultsInjected := fwd_numFaultsInjected s + 1\<rparr>)"

subsection \<open>The source of the copy\<close>

text \<open>\<open>bs\<close> are the bytes at \<open>cur_data\<close>, at least \<open>n\<close> of them.\<close>

definition record_hist :: "u8 list \<Rightarrow> nat \<Rightarrow> u64 \<Rightarrow> fwd_inj \<Rightarrow> fwd_inj" where
  "record_hist bs n a s =
     (if 0 < n \<and> n \<le> HIST_BYTES then
        s\<lparr>hist := (hist s)[hist_next s := \<lparr>he_data = take n bs @ drop n (he_data (hist s ! hist_next s)), he_size = n,
            he_vaddr = a, he_valid = True\<rparr>],
          hist_next := (hist_next s + 1) mod HIST_CAP\<rparr>
      else s)"

definition hist_back :: "int \<Rightarrow> fwd_inj \<Rightarrow> hist_entry" where
  "hist_back i s = hist s ! nat ((int (hist_next s) - 1 - i + int HIST_CAP) mod int HIST_CAP)"

definition start_depth :: "fwd_inj \<Rightarrow> int" where
  "start_depth s = (if source_fault_enum s = PhaseOffset then phase_offset s else 0)"

definition find_stale :: "nat \<Rightarrow> fwd_inj \<Rightarrow> hist_entry option" where
  "find_stale n s = find (\<lambda>e. he_valid e \<and> n \<le> he_size e) (map (\<lambda>i. hist_back i s) [start_depth s..int HIST_CAP - 1])"

definition count_source :: "fwd_inj \<Rightarrow> fwd_inj" where
  "count_source s =
     (let s1 = fwd_count s in
      if source_fault_enum s = FwdSourceSub then s1\<lparr>numFwdSourceSub := numFwdSourceSub s1 + 1\<rparr>
      else if source_fault_enum s = StaleLineReplay then s1\<lparr>numStaleLineReplay := numStaleLineReplay s1 + 1\<rparr>
      else s1\<lparr>numPhaseOffset := numPhaseOffset s1 + 1\<rparr>)"

text \<open>The result is what the caller copies: \<open>n\<close> bytes from the returned pointer.\<close>

definition pickSource :: "cycles \<Rightarrow> u8 list \<Rightarrow> nat \<Rightarrow> u64 \<Rightarrow> fwd_inj \<Rightarrow> u8 list \<times> fwd_inj" where
  "pickSource cur bs n a s0 =
     (let s = record_hist bs n a s0 in
      if probability s \<le> 0 \<or> source_fault_enum s = NoSourceFault then (take n bs, s)
      else if out_of_window cur s then (take n bs, s)
      else if cap_reached s then (take n bs, s)
      else (case bernoulli s of (hit, s1) \<Rightarrow>
        if \<not> hit then (take n bs, s1)
        else (case find_stale n s1 of None \<Rightarrow> (take n bs, s1)
          | Some e \<Rightarrow> (take n (he_data e), count_source s1))))"

subsection \<open>The copied bytes\<close>

definition choose_skew :: "nat \<Rightarrow> fwd_inj \<Rightarrow> nat \<times> fwd_inj" where
  "choose_skew n s =
     (case (if skew_bytes s = 0 then (case uniform_int 1 7 (rng s) of (k, r) \<Rightarrow> (k, s\<lparr>rng := r\<rparr>)) else (skew_bytes s, s)) of
        (k, s1) \<Rightarrow>
          let k1 = (if k < 1 then 1 else k); k2 = (if int n \<le> k1 then int n - 1 else k1) in (nat k2, s1))"

definition applyStructuralFault :: "u8 list \<Rightarrow> fwd_inj \<Rightarrow> u8 list \<times> fwd_inj" where
  "applyStructuralFault bs s =
     (if bs = [] then (bs, s)
      else (case (case structural_fault_enum s of
            ByteLaneSkew \<Rightarrow> (case choose_skew (length bs) s of (k, s1) \<Rightarrow>
              (map (\<lambda>n. bs ! ((n + k) mod length bs)) [0..<length bs], s1\<lparr>numStructuralByteLaneSkew := numStructuralByteLaneSkew s1 + 1\<rparr>))
          | AllZero \<Rightarrow> (replicate (length bs) 0, s\<lparr>numStructuralAllZero := numStructuralAllZero s + 1\<rparr>)
          | NoStructural \<Rightarrow> (bs, s)) of (bs', s1) \<Rightarrow> (bs', fwd_count s1)))"

definition fwd_generateRandomMask :: "fwd_inj \<Rightarrow> u64 \<times> fwd_inj" where
  "fwd_generateRandomMask s =
     (let span = (if 64 < mask_width s * 8 then 64 else mask_width s * 8)
      in (case or_random_bits 0 (nat (span - 1)) (nat (fwd_num_bits s)) 0 (rng s) of (m, r) \<Rightarrow> (m, s\<lparr>rng := r\<rparr>)))"

definition choose_offset :: "nat \<Rightarrow> fwd_inj \<Rightarrow> nat \<times> fwd_inj" where
  "choose_offset n s =
     (case (if byte_offset s < 0 then (case uniform_int 0 (int n - 1) (rng s) of (o', r) \<Rightarrow> (o', s\<lparr>rng := r\<rparr>)) else (byte_offset s, s)) of
        (o', s1) \<Rightarrow> (nat (if int n \<le> o' then int n - 1 else o'), s1))"

definition window_width :: "nat \<Rightarrow> nat \<Rightarrow> fwd_inj \<Rightarrow> nat" where
  "window_width off n s =
     (let w1 = (if mask_width s < 1 then 1 else mask_width s); w2 = (if 8 < w1 then 8 else w1);
          w3 = (if int n < int off + w2 then int n - int off else w2)
      in nat (if w3 < 1 then 1 else w3))"

definition choose_fwd_mask :: "fwd_inj \<Rightarrow> u64 \<times> fwd_inj" where
  "choose_fwd_mask s = (if fwd_fault_mask s \<noteq> 0 then (fwd_fault_mask s, s) else fwd_generateRandomMask s)"

definition width_mask :: "nat \<Rightarrow> u64 \<Rightarrow> u64" where
  "width_mask w m = (if 8 \<le> w then m else m AND (push_bit (8 * w) 1 - 1))"

definition choose_fwd_type :: "fwd_inj \<Rightarrow> fault_type \<times> fwd_inj" where
  "choose_fwd_type s =
     (if fwd_fault_type s = RandomFault
      then (case discrete [0.9, 0.05, 0.05] (rng s) of (i, r) \<Rightarrow> (fault_type_of_index i, s\<lparr>rng := r\<rparr>))
      else (fwd_fault_type s, s))"

definition patch_window :: "nat \<Rightarrow> nat \<Rightarrow> fault_type \<Rightarrow> u64 \<Rightarrow> u8 list \<Rightarrow> u8 list" where
  "patch_window off w f m bs = take off bs @ le_bytes w (apply_fault f m (le_word (take w (drop off bs)))) @ drop (off + w) bs"

definition count_fwd_type :: "fault_type \<Rightarrow> fwd_inj \<Rightarrow> fwd_inj" where
  "count_fwd_type f s = (case f of StuckAtZero \<Rightarrow> s\<lparr>fwd_numStuckAtZero := fwd_numStuckAtZero s + 1\<rparr>
     | StuckAtOne \<Rightarrow> s\<lparr>fwd_numStuckAtOne := fwd_numStuckAtOne s + 1\<rparr>
     | BitFlip \<Rightarrow> s\<lparr>fwd_numBitFlips := fwd_numBitFlips s + 1\<rparr> | RandomFault \<Rightarrow> s)"

definition fwd_corrupt :: "cycles \<Rightarrow> u8 list \<Rightarrow> fwd_inj \<Rightarrow> u8 list \<times> fwd_inj" where
  "fwd_corrupt cur bs s =
     (if probability s \<le> 0 then (bs, s)
      else if out_of_window cur s then (bs, s)
      else if cap_reached s then (bs, s)
      else (case bernoulli s of (hit, s1) \<Rightarrow>
        if \<not> hit then (bs, s1)
        else if bs = [] then (bs, s1)
        else if structural_fault_enum s1 \<noteq> NoStructural then applyStructuralFault bs s1
        else (case choose_offset (length bs) s1 of (off, s2) \<Rightarrow>
          let w = window_width off (length bs) s2 in
          (case choose_fwd_mask s2 of (m, s3) \<Rightarrow>
            (case choose_fwd_type s3 of (f, s4) \<Rightarrow>
              (patch_window off w f (width_mask w m) bs, fwd_count (count_fwd_type f s4)))))))"

subsection \<open>The ring is the list of the last eight\<close>

definition hist_wf :: "fwd_inj \<Rightarrow> bool" where
  "hist_wf s \<longleftrightarrow> length (hist s) = HIST_CAP \<and> hist_next s < HIST_CAP
     \<and> (\<forall>e \<in> set (hist s). length (he_data e) = HIST_BYTES \<and> he_size e \<le> HIST_BYTES)"

definition recents :: "fwd_inj \<Rightarrow> hist_entry list" where
  "recents s = map (\<lambda>i. hist_back i s) [0..int HIST_CAP - 1]"

definition hist_view :: "hist_entry \<Rightarrow> u8 list \<times> nat \<times> u64 \<times> bool" where
  "hist_view e = (take (he_size e) (he_data e), he_size e, he_vaddr e, he_valid e)"

lemma eight: "[0..int HIST_CAP - 1] = [0, 1, 2, 3, 4, 5, 6, 7]"
  by (simp add: upto.simps)

lemma length_eight:
  assumes "length xs = HIST_CAP"
  obtains a b c d e f g h where "xs = [a, b, c, d, e, f, g, h]"
  using assms by (auto simp: numeral_eq_Suc length_Suc_conv)

lemma hist_back_mem: "hist_wf s \<Longrightarrow> hist_back i s \<in> set (hist s)"
  unfolding hist_back_def hist_wf_def by (intro nth_mem) (simp add: nat_less_iff)

lemma recents_record:
  assumes "hist_wf s" "0 < n" "n \<le> HIST_BYTES"
  shows "recents (record_hist bs n a s) = \<lparr>he_data = take n bs @ drop n (he_data (hist s ! hist_next s)), he_size = n,
      he_vaddr = a, he_valid = True\<rparr> # butlast (recents s)"
proof -
  obtain x0 x1 x2 x3 x4 x5 x6 x7 where h: "hist s = [x0, x1, x2, x3, x4, x5, x6, x7]"
    using length_eight assms(1) unfolding hist_wf_def by blast
  have "hist_next s \<in> {0, 1, 2, 3, 4, 5, 6, 7}" using assms(1) by (auto simp: hist_wf_def)
  then show ?thesis unfolding recents_def eight record_hist_def hist_back_def h using assms(2,3) by auto
qed

lemma recents_view_record:
  assumes "hist_wf s" "n \<le> length bs"
  shows "map hist_view (recents (record_hist bs n a s)) = (if 0 < n \<and> n \<le> HIST_BYTES
    then (take n bs, n, a, True) # butlast (map hist_view (recents s)) else map hist_view (recents s))"
  using assms recents_record [OF assms(1), of n bs a]
  by (auto simp: record_hist_def hist_view_def map_butlast)

lemma record_hist_wf:
  assumes "hist_wf s" "n \<le> length bs"
  shows "hist_wf (record_hist bs n a s)"
proof -
  have "hist s ! hist_next s \<in> set (hist s)" using assms(1) by (auto simp: hist_wf_def)
  then show ?thesis using assms by (auto simp: hist_wf_def record_hist_def dest!: subsetD [OF set_update_subset_insert])
qed

lemma record_hist_simps [simp]:
  "probability (record_hist bs n a s) = probability s" "first_clock (record_hist bs n a s) = first_clock s"
  "last_clock (record_hist bs n a s) = last_clock s" "max_faults (record_hist bs n a s) = max_faults s"
  "faults_injected_count (record_hist bs n a s) = faults_injected_count s" "rng (record_hist bs n a s) = rng s"
  "source_fault_enum (record_hist bs n a s) = source_fault_enum s" "phase_offset (record_hist bs n a s) = phase_offset s"
  by (simp_all add: record_hist_def)

lemma bernoulli_fwd [simp]:
  "hist (snd (bernoulli s)) = hist (s :: fwd_inj)" "hist_next (snd (bernoulli s)) = hist_next s"
  "source_fault_enum (snd (bernoulli s)) = source_fault_enum s" "phase_offset (snd (bernoulli s)) = phase_offset s"
  "structural_fault_enum (snd (bernoulli s)) = structural_fault_enum s"
  by (simp_all add: bernoulli_def split: prod.splits)

lemma find_stale_bernoulli [simp]: "find_stale n (snd (bernoulli s)) = find_stale n s"
  by (simp add: find_stale_def start_depth_def hist_back_def)

lemma find_stale_recents:
  assumes "source_fault_enum s = PhaseOffset \<longrightarrow> 0 \<le> phase_offset s"
  shows "find_stale n s = find (\<lambda>e. he_valid e \<and> n \<le> he_size e) (drop (nat (start_depth s)) (recents s))"
proof -
  have "0 \<le> start_depth s" using assms by (simp add: start_depth_def)
  then have "[start_depth s..int HIST_CAP - 1] = drop (nat (start_depth s)) [0..int HIST_CAP - 1]"
    by (intro nth_equalityI) (auto simp: nat_diff_distrib)
  then show ?thesis by (simp add: find_stale_def recents_def drop_map)
qed

subsection \<open>Source faults\<close>

definition source_fires :: "cycles \<Rightarrow> fwd_inj \<Rightarrow> bool" where
  "source_fires cur s \<longleftrightarrow> 0 < probability s \<and> source_fault_enum s \<noteq> NoSourceFault \<and> \<not> out_of_window cur s
     \<and> \<not> cap_reached s \<and> fst (bernoulli s)"

lemma bernoulli_record: "fst (bernoulli (record_hist bs n a s)) = fst (bernoulli s)"
  by (simp add: bernoulli_def split: prod.splits)

lemma pickSource_split:
  "fst (pickSource cur bs n a s) = (if source_fires cur s
     then (case find_stale n (record_hist bs n a s) of None \<Rightarrow> take n bs | Some e \<Rightarrow> take n (he_data e)) else take n bs)"
  unfolding pickSource_def source_fires_def Let_def bernoulli_record [of bs n a s, symmetric]
  by (auto simp: out_of_window_def cap_reached_def case_prod_unfold split: option.splits)

text \<open>The search that starts at the newest entry finds the entry just written.\<close>

lemma find_stale_newest:
  assumes wf: "hist_wf s" and n: "n \<le> length bs" and d: "start_depth s = 0"
  shows "(case find_stale n (record_hist bs n a s) of None \<Rightarrow> take n bs | Some e \<Rightarrow> take n (he_data e)) = take n bs"
proof -
  let ?s = "record_hist bs n a s"
  have d': "start_depth ?s = 0" using d unfolding start_depth_def by (simp only: record_hist_simps)
  have p: "source_fault_enum ?s = PhaseOffset \<longrightarrow> 0 \<le> phase_offset ?s" using d by (auto simp: start_depth_def)
  have f: "find_stale n ?s = find (\<lambda>e. he_valid e \<and> n \<le> he_size e) (recents ?s)"
    by (simp add: find_stale_recents [OF p] d')
  consider "n = 0" | "0 < n" "n \<le> HIST_BYTES" | "HIST_BYTES < n" by linarith
  then show ?thesis
  proof cases
    case 1
    then show ?thesis by (simp split: option.splits)
  next
    case 2
    then show ?thesis unfolding f recents_record [OF wf 2] using n by simp
  next
    case 3
    have "he_size e \<le> HIST_BYTES" if "e \<in> set (recents ?s)" for e
      using that hist_back_mem [OF record_hist_wf [OF wf n]] record_hist_wf [OF wf n, of a]
      by (auto simp: recents_def hist_wf_def)
    then have "find_stale n ?s = None" using 3 unfolding f find_None_iff by fastforce
    then show ?thesis by simp
  qed
qed

text \<open>C29: the source hook.  The ring holds the last eight forwardings.  Substitution and replay always copy the
  data of the current store, though they count a fault.  With a phase offset of \<open>p\<close> the copied bytes
  are those of the newest forwarding at least \<open>p\<close> calls back that was long enough, where there is one.\<close>

theorem forward_source_faults:
  assumes "hist_wf s" "n \<le> length bs"
  shows "map hist_view (recents (record_hist bs n a s)) = (if 0 < n \<and> n \<le> HIST_BYTES
      then (take n bs, n, a, True) # butlast (map hist_view (recents s)) else map hist_view (recents s))
    \<and> (source_fault_enum s \<noteq> PhaseOffset \<or> phase_offset s = 0 \<longrightarrow> fst (pickSource cur bs n a s) = take n bs)
    \<and> (source_fault_enum s = PhaseOffset \<and> 0 \<le> phase_offset s \<and> source_fires cur s \<longrightarrow>
        fst (pickSource cur bs n a s) =
          (case find (\<lambda>(d, m, b, v). v \<and> n \<le> m) (drop (nat (phase_offset s)) (map hist_view (recents (record_hist bs n a s))))
           of None \<Rightarrow> take n bs | Some (d, m, b, v) \<Rightarrow> take n d))
    \<and> (source_fires cur s \<and> source_fault_enum s \<noteq> PhaseOffset \<and> 0 < n \<and> n \<le> HIST_BYTES \<longrightarrow>
        faults_injected_count (snd (pickSource cur bs n a s)) = Suc (faults_injected_count s))"
proof (intro conjI impI)
  let ?s = "record_hist bs n a s"
  show "map hist_view (recents ?s) = (if 0 < n \<and> n \<le> HIST_BYTES
      then (take n bs, n, a, True) # butlast (map hist_view (recents s)) else map hist_view (recents s))"
    by (rule recents_view_record [OF assms])
  show "fst (pickSource cur bs n a s) = take n bs" if "source_fault_enum s \<noteq> PhaseOffset \<or> phase_offset s = 0"
    using find_stale_newest [OF assms, of a] that unfolding pickSource_split by (auto simp: start_depth_def)
  show "fst (pickSource cur bs n a s) =
      (case find (\<lambda>(d, m, b, v). v \<and> n \<le> m) (drop (nat (phase_offset s)) (map hist_view (recents ?s)))
       of None \<Rightarrow> take n bs | Some (d, m, b, v) \<Rightarrow> take n d)"
    if "source_fault_enum s = PhaseOffset \<and> 0 \<le> phase_offset s \<and> source_fires cur s"
  proof -
    let ?xs = "drop (nat (phase_offset s)) (recents ?s)"
    have f: "find_stale n ?s = find (\<lambda>e. he_valid e \<and> n \<le> he_size e) ?xs"
      using that by (subst find_stale_recents) (simp_all add: start_depth_def)
    have "find (\<lambda>(d, m, b, v). v \<and> n \<le> m) (map hist_view xs) = map_option hist_view (find (\<lambda>e. he_valid e \<and> n \<le> he_size e) xs)" for xs
      by (induction xs) (auto simp: hist_view_def)
    moreover have "n \<le> he_size e" if "find_stale n ?s = Some e" for e using that unfolding f by (auto simp: find_Some_iff)
    ultimately show ?thesis using that unfolding pickSource_split drop_map f [symmetric]
      by (cases "find_stale n ?s") (simp_all add: f [symmetric] hist_view_def min_absorb1)
  qed
  show "faults_injected_count (snd (pickSource cur bs n a s)) = Suc (faults_injected_count s)"
    if h: "source_fires cur s \<and> source_fault_enum s \<noteq> PhaseOffset \<and> 0 < n \<and> n \<le> HIST_BYTES"
  proof -
    have "find_stale n ?s = Some (hd (recents ?s))"
      using h recents_record [OF assms(1), of n bs a] by (subst find_stale_recents) (auto simp: start_depth_def)
    then show ?thesis using h bernoulli_record [of bs n a s] unfolding pickSource_def source_fires_def Let_def
      by (simp add: out_of_window_def cap_reached_def case_prod_unfold count_source_def fwd_count_def Let_def)
  qed
qed

subsection \<open>Data faults\<close>

lemma choose_offset_less: "0 < n \<Longrightarrow> fst (choose_offset n s) < n"
  using uniform_int_range [of 0 "int n - 1" "rng s"] by (auto simp: choose_offset_def case_prod_unfold)

lemma window_width_bounds:
  assumes "off < n"
  shows "1 \<le> window_width off n s" "window_width off n s \<le> 8" "off + window_width off n s \<le> n"
  using assms by (auto simp: window_width_def Let_def)

lemma patch_window_nth:
  assumes "off + w \<le> length bs"
  shows "length (patch_window off w f m bs) = length bs"
    and "i < length bs \<Longrightarrow> i < off \<or> off + w \<le> i \<Longrightarrow> patch_window off w f m bs ! i = bs ! i"
    and "w \<le> 8 \<Longrightarrow> take w (drop off (patch_window off w f m bs)) = le_bytes w (apply_fault f m (le_word (take w (drop off bs))))"
  using assms by (auto simp: patch_window_def nth_append min_def)

lemma bit_width_mask: "bit (width_mask w m) k \<Longrightarrow> k < 8 * w \<and> bit m k"
proof -
  assume b: "bit (width_mask w m) k"
  then have "k < 64" using bit_imp_le_length [of "width_mask w m" k] by simp
  moreover have "push_bit (8 * w) 1 - 1 = (mask (8 * w) :: u64)" by (simp add: mask_eq_exp_minus_1 push_bit_eq_mult)
  ultimately show ?thesis using b by (auto simp: width_mask_def bit_and_iff bit_mask_iff split: if_splits)
qed

lemma skew_rotates: "map (\<lambda>n. bs ! ((n + k) mod length bs)) [0..<length bs] = rotate k bs"
  by (rule nth_equalityI) (simp_all add: nth_rotate add.commute)

lemma choose_skew_bounds:
  assumes "0 < n"
  shows "fst (choose_skew n s) < n" "2 \<le> n \<Longrightarrow> 1 \<le> fst (choose_skew n s)"
    "skew_bytes s \<in> {1..7} \<Longrightarrow> int (fst (choose_skew n s)) = min (skew_bytes s) (int n - 1)"
  using assms uniform_int_range [of 1 7 "rng s"] by (auto simp: choose_skew_def case_prod_unfold Let_def)

definition fwd_fires :: "cycles \<Rightarrow> fwd_inj \<Rightarrow> bool" where
  "fwd_fires cur s \<longleftrightarrow> 0 < probability s \<and> \<not> out_of_window cur s \<and> \<not> cap_reached s \<and> fst (bernoulli s)"

lemma choose_simps [simp]:
  "faults_injected_count (snd (choose_offset n s)) = faults_injected_count s" "max_faults (snd (choose_offset n s)) = max_faults s"
  "faults_injected_count (snd (choose_fwd_mask s)) = faults_injected_count s" "max_faults (snd (choose_fwd_mask s)) = max_faults s"
  "faults_injected_count (snd (choose_fwd_type s)) = faults_injected_count s" "max_faults (snd (choose_fwd_type s)) = max_faults s"
  "faults_injected_count (snd (choose_skew n s)) = faults_injected_count s" "max_faults (snd (choose_skew n s)) = max_faults s"
  "faults_injected_count (count_fwd_type f s) = faults_injected_count s" "max_faults (count_fwd_type f s) = max_faults s"
  "faults_injected_count (fwd_count s) = Suc (faults_injected_count s)" "max_faults (fwd_count s) = max_faults s"
  by (simp_all add: choose_offset_def choose_fwd_mask_def fwd_generateRandomMask_def choose_fwd_type_def choose_skew_def
    count_fwd_type_def fwd_count_def case_prod_unfold Let_def split: fault_type.splits)

lemma structural_counts:
  "bs \<noteq> [] \<Longrightarrow> faults_injected_count (snd (applyStructuralFault bs s)) = Suc (faults_injected_count s)"
  "max_faults (snd (applyStructuralFault bs s)) = max_faults s"
  by (simp_all add: applyStructuralFault_def case_prod_unfold split: structural_fault.splits)

lemma fwd_corrupt_counts:
  "faults_injected_count (snd (fwd_corrupt cur bs s)) = faults_injected_count s + (if fwd_fires cur s \<and> bs \<noteq> [] then 1 else 0)"
  "max_faults (snd (fwd_corrupt cur bs s)) = max_faults s"
  "\<not> (fwd_fires cur s \<and> bs \<noteq> []) \<Longrightarrow> fst (fwd_corrupt cur bs s) = bs"
  by (auto simp: fwd_corrupt_def fwd_fires_def structural_counts case_prod_unfold Let_def)

interpretation fwd_hook: hook_injector "\<lambda>(cur, bs). fwd_corrupt cur bs" "\<lambda>(cur, bs). bs" faults_injected_count max_faults
proof (unfold_locales, goal_cases)
  case (1 i s)
  then show ?case by (cases i) (simp add: fwd_corrupt_counts(2))
next
  case (2 i s)
  then show ?case by (cases i) (simp add: fwd_corrupt_counts(1))
next
  case (3 s i)
  then show ?case by (cases i) (simp add: fwd_corrupt_counts(1) fwd_fires_def cap_reached_def)
next
  case (4 i s)
  then show ?case by (cases i) (simp add: fwd_corrupt_counts(1,3) split: if_split_asm)
qed

text \<open>C30: the data hook.  A fault changes at most a window of one to eight bytes inside the buffer, which it
  masks as a little-endian number, or rotates the whole buffer, or clears it; the length stays.  A
  rotation is by at least one byte unless the buffer has only one, which it leaves alone.  Over any sequence of forwardings
  no more buffers are corrupted than the cap allows.\<close>

theorem forward_data_faults:
  assumes "bs \<noteq> []"
  shows "(fwd_fires cur s \<and> structural_fault_enum s = NoStructural \<longrightarrow>
      (\<exists>off w f m. 1 \<le> w \<and> w \<le> 8 \<and> off + w \<le> length bs \<and> (\<forall>k. bit m k \<longrightarrow> k < 8 * w)
        \<and> (fwd_fault_mask s \<noteq> 0 \<longrightarrow> m = width_mask w (fwd_fault_mask s))
        \<and> (fwd_fault_type s \<noteq> RandomFault \<longrightarrow> f = fwd_fault_type s)
        \<and> fst (fwd_corrupt cur bs s) = take off bs @ le_bytes w (apply_fault f m (le_word (take w (drop off bs)))) @ drop (off + w) bs))
    \<and> (fwd_fires cur s \<and> structural_fault_enum s = ByteLaneSkew \<longrightarrow>
      (\<exists>k < length bs. (2 \<le> length bs \<longrightarrow> 1 \<le> k) \<and> fst (fwd_corrupt cur bs s) = rotate k bs))
    \<and> (fwd_fires cur s \<and> structural_fault_enum s = AllZero \<longrightarrow> fst (fwd_corrupt cur bs s) = replicate (length bs) 0)
    \<and> (\<not> fwd_fires cur s \<longrightarrow> fst (fwd_corrupt cur bs s) = bs)
    \<and> (max_faults s \<noteq> 0 \<and> faults_injected_count s \<le> max_faults s \<longrightarrow>
        corrupted (\<lambda>(cur, bs). bs) xs (fst (hook_run (\<lambda>(cur, bs). fwd_corrupt cur bs) xs s)) \<le> max_faults s - faults_injected_count s)"
proof (intro conjI impI)
  let ?s = "snd (bernoulli s)"
  assume f: "fwd_fires cur s \<and> structural_fault_enum s = NoStructural"
  define off where "off = fst (choose_offset (length bs) ?s)"
  define s2 where "s2 = snd (choose_offset (length bs) ?s)"
  define w where "w = window_width off (length bs) s2"
  define m where "m = fst (choose_fwd_mask s2)"
  define s3 where "s3 = snd (choose_fwd_mask s2)"
  define g where "g = fst (choose_fwd_type s3)"
  have off: "off < length bs" unfolding off_def using assms by (intro choose_offset_less) simp
  have out: "fst (fwd_corrupt cur bs s) = patch_window off w g (width_mask w m) bs"
    using f assms unfolding fwd_corrupt_def fwd_fires_def
    by (simp add: case_prod_unfold Let_def off_def s2_def w_def m_def s3_def g_def)
  have "fwd_fault_mask s2 = fwd_fault_mask s" "fwd_fault_type s3 = fwd_fault_type s"
    by (simp_all add: s3_def s2_def choose_offset_def choose_fwd_mask_def fwd_generateRandomMask_def bernoulli_def case_prod_unfold Let_def)
  then have "fwd_fault_mask s \<noteq> 0 \<longrightarrow> m = fwd_fault_mask s" "fwd_fault_type s \<noteq> RandomFault \<longrightarrow> g = fwd_fault_type s"
    by (simp_all add: m_def g_def choose_fwd_mask_def choose_fwd_type_def)
  then show "\<exists>off w f m. 1 \<le> w \<and> w \<le> 8 \<and> off + w \<le> length bs \<and> (\<forall>k. bit m k \<longrightarrow> k < 8 * w)
      \<and> (fwd_fault_mask s \<noteq> 0 \<longrightarrow> m = width_mask w (fwd_fault_mask s))
      \<and> (fwd_fault_type s \<noteq> RandomFault \<longrightarrow> f = fwd_fault_type s)
      \<and> fst (fwd_corrupt cur bs s) = take off bs @ le_bytes w (apply_fault f m (le_word (take w (drop off bs)))) @ drop (off + w) bs"
    using window_width_bounds [OF off, of s2] bit_width_mask [of w m] out unfolding w_def [symmetric] patch_window_def
    by (intro exI [of _ off] exI [of _ w] exI [of _ g] exI [of _ "width_mask w m"]) auto
next
  assume f: "fwd_fires cur s \<and> structural_fault_enum s = ByteLaneSkew"
  let ?k = "fst (choose_skew (length bs) (snd (bernoulli s)))"
  have "fst (fwd_corrupt cur bs s) = rotate ?k bs" using f assms unfolding fwd_corrupt_def fwd_fires_def
    by (simp add: case_prod_unfold applyStructuralFault_def skew_rotates)
  then show "\<exists>k < length bs. (2 \<le> length bs \<longrightarrow> 1 \<le> k) \<and> fst (fwd_corrupt cur bs s) = rotate k bs"
    using choose_skew_bounds(1,2) assms by blast
next
  assume f: "fwd_fires cur s \<and> structural_fault_enum s = AllZero"
  then show "fst (fwd_corrupt cur bs s) = replicate (length bs) 0" using assms unfolding fwd_corrupt_def fwd_fires_def
    by (simp add: case_prod_unfold applyStructuralFault_def)
next
  assume "\<not> fwd_fires cur s"
  then show "fst (fwd_corrupt cur bs s) = bs" by (simp add: fwd_corrupt_counts(3))
next
  assume "max_faults s \<noteq> 0 \<and> faults_injected_count s \<le> max_faults s"
  then show "corrupted (\<lambda>(cur, bs). bs) xs (fst (hook_run (\<lambda>(cur, bs). fwd_corrupt cur bs) xs s)) \<le> max_faults s - faults_injected_count s"
    using fwd_hook.run_budget by blast
qed

subsection \<open>Witnesses\<close>

definition demo_fwd :: "structural_fault \<Rightarrow> source_fault \<Rightarrow> fwd_inj" where
  "demo_fwd st so = \<lparr>probability = 1, first_clock = 0, last_clock = 0, max_faults = 2, faults_injected_count = 0,
     rng = sconst 0, fwd_fault_type = BitFlip, fwd_fault_mask = 0xFF00, mask_width = 2, structural_fault_enum = st,
     source_fault_enum = so, phase_offset = 1, skew_bytes = 1, fwd_num_bits = 1, byte_offset = 1,
     hist = replicate 8 \<lparr>he_data = replicate 64 7, he_size = 4, he_vaddr = 0, he_valid = True\<rparr>, hist_next = 0,
     fwd_numFaultsInjected = 0, fwd_numBitFlips = 0, fwd_numStuckAtZero = 0, fwd_numStuckAtOne = 0,
     numStructuralByteLaneSkew = 0, numStructuralAllZero = 0, numFwdSourceSub = 0, numStaleLineReplay = 0,
     numPhaseOffset = 0\<rparr>"

lemma demo_fires: "source_fires 0 (demo_fwd st FwdSourceSub)" "source_fires 0 (demo_fwd st PhaseOffset)" "fwd_fires 0 (demo_fwd st so)"
  using bernoulli_fst(1) [of "demo_fwd st so"] bernoulli_fst(1) [of "demo_fwd st FwdSourceSub"] bernoulli_fst(1) [of "demo_fwd st PhaseOffset"]
  by (simp_all add: source_fires_def fwd_fires_def demo_fwd_def out_of_window_def cap_reached_def)

lemma demo_wf: "hist_wf (demo_fwd st so)"
  by (simp add: hist_wf_def demo_fwd_def)

theorem forward_source_faults_witness:
  "fst (pickSource 0 [1, 2] 2 0 (demo_fwd NoStructural FwdSourceSub)) = [1, 2]
   \<and> faults_injected_count (snd (pickSource 0 [1, 2] 2 0 (demo_fwd NoStructural FwdSourceSub))) = 1
   \<and> fst (pickSource 0 [1, 2] 2 0 (demo_fwd NoStructural PhaseOffset)) = [7, 7]"
proof -
  let ?a = "demo_fwd NoStructural FwdSourceSub" and ?b = "demo_fwd NoStructural PhaseOffset"
  have "fst (pickSource 0 [1, 2] 2 0 ?a) = [1, 2] \<and> faults_injected_count (snd (pickSource 0 [1, 2] 2 0 ?a)) = 1"
    using forward_source_faults [OF demo_wf, of 2 "[1, 2]" 0 NoStructural FwdSourceSub 0] demo_fires(1) by (simp add: demo_fwd_def)
  moreover have r: "map hist_view (recents ?b) = replicate 8 (replicate 4 7, 4, 0, True)"
    unfolding recents_def eight by (simp add: hist_back_def demo_fwd_def hist_view_def numeral_eq_Suc)
  have "fst (pickSource 0 [1, 2] 2 0 ?b) = [7, 7]"
    using forward_source_faults [OF demo_wf, of 2 "[1, 2]" 0 NoStructural PhaseOffset 0] demo_fires(2)
    unfolding r by (simp add: demo_fwd_def numeral_eq_Suc)
  ultimately show ?thesis by blast
qed

theorem forward_data_faults_witness:
  "(\<exists>k < 2. fst (fwd_corrupt 0 [1, 2] (demo_fwd ByteLaneSkew NoSourceFault)) = rotate k [1, 2])
   \<and> fst (fwd_corrupt 0 [1, 2] (demo_fwd AllZero NoSourceFault)) = [0, 0]
   \<and> (\<exists>off w. fst (fwd_corrupt 0 [1, 2] (demo_fwd NoStructural NoSourceFault))
        = take off [1, 2] @ le_bytes w (apply_fault BitFlip (width_mask w 0xFF00) (le_word (take w (drop off [1, 2])))) @ drop (off + w) [1, 2])"
proof -
  have f: "structural_fault_enum (demo_fwd st so) = st" "fwd_fault_mask (demo_fwd st so) = 0xFF00" "fwd_fault_type (demo_fwd st so) = BitFlip" for st so
    by (simp_all add: demo_fwd_def)
  note w = forward_data_faults [of "[1, 2]" 0, OF list.distinct(2)]
  have "\<exists>k < length [1 :: u8, 2]. fst (fwd_corrupt 0 [1, 2] (demo_fwd ByteLaneSkew NoSourceFault)) = rotate k [1, 2]"
    using w [of "demo_fwd ByteLaneSkew NoSourceFault" "[]", THEN conjunct2, THEN conjunct1] demo_fires(3) f(1) by blast
  moreover have "fst (fwd_corrupt 0 [1, 2] (demo_fwd AllZero NoSourceFault)) = replicate (length [1 :: u8, 2]) 0"
    using w [of "demo_fwd AllZero NoSourceFault" "[]", THEN conjunct2, THEN conjunct2, THEN conjunct1] demo_fires(3) f(1) by blast
  moreover have "\<exists>off w. fst (fwd_corrupt 0 [1, 2] (demo_fwd NoStructural NoSourceFault))
      = take off [1, 2] @ le_bytes w (apply_fault BitFlip (width_mask w 0xFF00) (le_word (take w (drop off [1, 2])))) @ drop (off + w) [1, 2]"
  proof -
    obtain off v g m where "fwd_fault_mask (demo_fwd NoStructural NoSourceFault) \<noteq> 0 \<longrightarrow> m = width_mask v (fwd_fault_mask (demo_fwd NoStructural NoSourceFault))"
      "fwd_fault_type (demo_fwd NoStructural NoSourceFault) \<noteq> RandomFault \<longrightarrow> g = fwd_fault_type (demo_fwd NoStructural NoSourceFault)"
      "fst (fwd_corrupt 0 [1, 2] (demo_fwd NoStructural NoSourceFault))
        = take off [1, 2] @ le_bytes v (apply_fault g m (le_word (take v (drop off [1, 2])))) @ drop (off + v) [1, 2]"
      using w [of "demo_fwd NoStructural NoSourceFault" "[]", THEN conjunct1] demo_fires(3) f(1) by blast
    then show ?thesis unfolding f by (intro exI [of _ off] exI [of _ v]) simp
  qed
  ultimately show ?thesis by (simp add: numeral_2_eq_2)
qed

end
