(* ===== verification/Lsq_Read.thy ===== *)
theory Lsq_Read
  imports Lsq_Fwd
begin

text \<open>
  The execution of a load in the load-store queue (\<open>LSQUnit::read\<close> in \<open>cpu/o3/lsq_unit.cc\<close>): the search of the
  older stores, forwarding with both hooks of \<open>CHAOSLSQFwd\<close>, the stall on a partial match, and the access to
  memory.  The stores are a list, youngest first, from the one just older than the load to the last not yet
  written back.  Calls to other units are kept as lists; a failed assertion and a panic are \<open>None\<close>.
\<close>

record sq_entry =
  sq_idx :: nat
  sq_valid :: bool
  sq_seq :: nat
  sq_addr :: u64
  sq_size :: nat
  sq_data :: "u8 list"
  sq_isAllZeros :: bool
  sq_strictlyOrdered :: bool
  sq_isCacheMaintenance :: bool
  sq_isAtomic :: bool
  sq_isMasked :: bool
  sq_completed :: bool
  sq_effAddrValid :: bool
  sq_htm :: "nat option"

record load_req =
  ld_seq :: nat
  ld_idx :: nat
  ld_vaddr :: u64
  ld_size :: nat
  ld_strictlyOrdered :: bool
  ld_isLLSC :: bool
  ld_isLocalAccess :: bool
  ld_isHTMCmd :: bool
  ld_isDataPrefetch :: bool
  ld_isExecuted :: bool
  ld_isAtCommit :: bool
  ld_atHead :: bool
  ld_anyOutstanding :: bool
  ld_numOutstandingPackets :: nat
  ld_htm :: "nat option"

datatype read_fault = NoFault | StrictlyOrderedFault

record lsq_unit =
  lsqFwd :: "fwd_inj option"
  memData :: "nat \<Rightarrow> u8 list option"
  entryRequest :: "nat \<Rightarrow> bool"
  loadSeqAt :: "nat \<Rightarrow> nat"
  stalled :: bool
  stallingStoreIsn :: nat
  stallingLoadIdx :: nat
  storeQueueCapacity :: nat
  harp_enabled :: bool
  rescheduleMem_calls :: "nat list"
  clearIssued_calls :: "nat list"
  effAddrInvalid_calls :: "nat list"
  discard_calls :: "nat list"
  lockedRead_calls :: "nat list"
  retryMem_calls :: "nat list"
  blockMem_calls :: "nat list"
  sendPacket_calls :: "nat list"
  writebacks :: "(nat \<times> u8 list \<times> cycles) list"
  sqForward_calls :: "nat list"
  lsq_rescheduledLoads :: nat
  forwLoads :: nat

subsection \<open>Coverage of a load by a store\<close>

datatype coverage = PartialCoverage | FullCoverage | NoCoverage

text \<open>Ends of ranges are 64-bit sums.\<close>

definition addr_coverage :: "load_req \<Rightarrow> sq_entry \<Rightarrow> coverage" where
  "addr_coverage ld e =
     (let req_s = ld_vaddr ld; req_e = req_s + of_nat (ld_size ld);
          st_s = sq_addr e; st_e = st_s + of_nat (sq_size e);
          store_has_lower_limit = (st_s \<le> req_s); store_has_upper_limit = (req_e \<le> st_e);
          lower_load_has_store_part = (req_s < st_e); upper_load_has_store_part = (st_s < req_e);
          all_or_part = ((store_has_lower_limit \<or> upper_load_has_store_part) \<and> (store_has_upper_limit \<or> lower_load_has_store_part))
      in if \<not> sq_isAtomic e \<and> store_has_lower_limit \<and> store_has_upper_limit \<and> \<not> ld_isLLSC ld
         then (if sq_isMasked e then PartialCoverage else FullCoverage)
         else if \<not> ld_isLLSC ld \<and> (store_has_lower_limit \<and> lower_load_has_store_part
                   \<or> store_has_upper_limit \<and> upper_load_has_store_part
                   \<or> lower_load_has_store_part \<and> upper_load_has_store_part)
              \<or> ld_isLLSC ld \<and> all_or_part \<or> sq_isAtomic e \<and> all_or_part
         then PartialCoverage else NoCoverage)"

subsection \<open>The outcomes of the search\<close>

definition forward_bytes :: "cycles \<Rightarrow> load_req \<Rightarrow> sq_entry \<Rightarrow> fwd_inj option \<Rightarrow> u8 list \<times> fwd_inj option" where
  "forward_bytes cur ld e h =
     (let n = ld_size ld; src = drop (unat (ld_vaddr ld - sq_addr e)) (sq_data e);
          (bs, h1) = (if sq_isAllZeros e then (replicate n 0, h)
             else (case h of None \<Rightarrow> (take n src, None)
               | Some s \<Rightarrow> (case pickSource cur src n (ld_vaddr ld) s of (bs, s') \<Rightarrow> (bs, Some s'))))
      in (case h1 of None \<Rightarrow> (bs, None) | Some s \<Rightarrow> (case fwd_corrupt cur bs s of (bs', s') \<Rightarrow> (bs', Some s'))))"

text \<open>A load inside a transaction must be served by a store of the same transaction.\<close>

definition htm_ok :: "load_req \<Rightarrow> sq_entry \<Rightarrow> bool" where
  "htm_ok ld e \<longleftrightarrow> \<not> ld_isHTMCmd ld \<and> (ld_htm ld \<noteq> None \<longrightarrow> \<not> sq_completed e \<and> sq_htm e = ld_htm ld)"

definition forward_load :: "cycles \<Rightarrow> load_req \<Rightarrow> sq_entry \<Rightarrow> lsq_unit \<Rightarrow> lsq_unit option" where
  "forward_load cur ld e u =
     (case forward_bytes cur ld e (lsqFwd u) of (bs, h) \<Rightarrow>
        if \<not> htm_ok ld e then None
        else if ld_anyOutstanding ld \<and> ld_numOutstandingPackets ld = 0 then None
        else
          let u1 = u\<lparr>lsqFwd := h, memData := (memData u)(ld_seq ld := Some bs)\<rparr>;
              u2 = (if ld_anyOutstanding ld
                    then u1\<lparr>discard_calls := discard_calls u1 @ [ld_seq ld], entryRequest := (entryRequest u1)(ld_idx ld := False)\<rparr> else u1);
              u3 = u2\<lparr>writebacks := writebacks u2 @ [(ld_seq ld, bs, 0)], forwLoads := forwLoads u2 + 1\<rparr>
          in Some (if harp_enabled u3 then u3\<lparr>sqForward_calls := sqForward_calls u3 @ [sq_idx e mod storeQueueCapacity u3]\<rparr> else u3))"

definition reschedule_load :: "load_req \<Rightarrow> lsq_unit \<Rightarrow> lsq_unit" where
  "reschedule_load ld u =
     u\<lparr>rescheduleMem_calls := rescheduleMem_calls u @ [ld_seq ld], clearIssued_calls := clearIssued_calls u @ [ld_seq ld],
       effAddrInvalid_calls := effAddrInvalid_calls u @ [ld_seq ld], lsq_rescheduledLoads := lsq_rescheduledLoads u + 1,
       discard_calls := discard_calls u @ [ld_seq ld], entryRequest := (entryRequest u)(ld_idx ld := False)\<rparr>"

definition stall_load :: "load_req \<Rightarrow> sq_entry \<Rightarrow> lsq_unit \<Rightarrow> lsq_unit" where
  "stall_load ld e u = reschedule_load ld
     (if \<not> stalled u \<or> ld_seq ld < loadSeqAt u (stallingLoadIdx u)
      then u\<lparr>stalled := True, stallingStoreIsn := sq_seq e, stallingLoadIdx := ld_idx ld\<rparr> else u)"

text \<open>\<open>raw\<close> is a freshly allocated buffer; \<open>sent\<close> and \<open>blocked\<close> are what the cache port answers.  A hardware
  transaction command stores 1 first.\<close>

type_synonym port = "u8 list \<times> bool \<times> bool"

definition access_memory :: "port \<Rightarrow> load_req \<Rightarrow> lsq_unit \<Rightarrow> lsq_unit" where
  "access_memory = (\<lambda>(raw, sent, blocked) ld u.
     (let bs = (case memData u (ld_seq ld) of None \<Rightarrow> raw | Some bs \<Rightarrow> bs);
          bs' = (if ld_isHTMCmd ld then bs[0 := 1] else bs);
          u1 = u\<lparr>memData := (memData u)(ld_seq ld := Some bs'), sendPacket_calls := sendPacket_calls u @ [ld_seq ld]\<rparr>
      in if sent then u1
         else if \<not> blocked then u1\<lparr>retryMem_calls := retryMem_calls u1 @ [ld_seq ld]\<rparr>
         else u1\<lparr>blockMem_calls := blockMem_calls u1 @ [ld_seq ld]\<rparr>))"

definition considered :: "sq_entry \<Rightarrow> bool" where
  "considered e \<longleftrightarrow> sq_size e \<noteq> 0 \<and> \<not> sq_strictlyOrdered e \<and> \<not> sq_isCacheMaintenance e"

fun search_stores :: "cycles \<Rightarrow> port \<Rightarrow> load_req \<Rightarrow> sq_entry list \<Rightarrow> lsq_unit \<Rightarrow> lsq_unit option" where
  "search_stores cur pt ld [] u = Some (access_memory pt ld u)"
| "search_stores cur pt ld (e # es) u =
     (if \<not> sq_valid e \<or> ld_seq ld \<le> sq_seq e then None
      else if \<not> considered e then search_stores cur pt ld es u
      else if \<not> sq_effAddrValid e then None
      else (case addr_coverage ld e of
          FullCoverage \<Rightarrow> forward_load cur ld e u
        | PartialCoverage \<Rightarrow> if sq_completed e then None else Some (stall_load ld e u)
        | NoCoverage \<Rightarrow> search_stores cur pt ld es u))"

text \<open>\<open>local\<close> is the device the local accessor reads: the data and the delay.\<close>

definition lsq_read :: "cycles \<Rightarrow> (load_req \<Rightarrow> u8 list \<times> cycles) \<Rightarrow> port \<Rightarrow> load_req \<Rightarrow> sq_entry list \<Rightarrow> lsq_unit
    \<Rightarrow> (read_fault \<times> lsq_unit) option" where
  "lsq_read cur local pt ld es u0 =
     (if ld_isExecuted ld then None
      else
        let u = u0\<lparr>entryRequest := (entryRequest u0)(ld_idx ld := True)\<rparr> in
        if ld_strictlyOrdered ld \<and> (\<not> ld_atHead ld \<or> \<not> ld_isAtCommit ld)
        then Some (StrictlyOrderedFault, reschedule_load ld u)
        else
          let u1 = (if ld_isLLSC ld then u\<lparr>lockedRead_calls := lockedRead_calls u @ [ld_seq ld]\<rparr> else u) in
          if ld_isLocalAccess ld then
            if memData u1 (ld_seq ld) \<noteq> None then None
            else (case local ld of (bs, delay) \<Rightarrow>
              Some (NoFault, u1\<lparr>memData := (memData u1)(ld_seq ld := Some bs), writebacks := writebacks u1 @ [(ld_seq ld, bs, delay)]\<rparr>))
          else map_option (Pair NoFault)
            (search_stores cur pt ld (if ld_isDataPrefetch ld then [] else es) u1))"

subsection \<open>Coverage and overlap\<close>

type_synonym mem = "u64 \<Rightarrow> u8"

definition in_range :: "u64 \<Rightarrow> u64 \<Rightarrow> nat \<Rightarrow> bool" where
  "in_range a st n \<longleftrightarrow> unat (a - st) < n"

definition fits :: "u64 \<Rightarrow> nat \<Rightarrow> bool" where
  "fits a n \<longleftrightarrow> unat a + n < 2 ^ 64"

definition overlaps :: "load_req \<Rightarrow> sq_entry \<Rightarrow> bool" where
  "overlaps ld e \<longleftrightarrow> (\<exists>k < ld_size ld. in_range (ld_vaddr ld + of_nat k) (sq_addr e) (sq_size e))"

lemma unat_add_fits: "fits a n \<Longrightarrow> k \<le> n \<Longrightarrow> unat (a + of_nat k) = unat a + k"
  by (simp add: fits_def unat_word_ariths unat_of_nat take_bit_nat_eq_self)

lemma in_range_fits:
  assumes "fits st n"
  shows "in_range a st n \<longleftrightarrow> unat st \<le> unat a \<and> unat a < unat st + n"
proof (cases "st \<le> a")
  case True
  then have "unat (a - st) = unat a - unat st" "unat st \<le> unat a" by (simp_all add: unat_sub word_le_nat_alt)
  then show ?thesis by (auto simp: in_range_def)
next
  case False
  then have l: "unat a < unat st" by (simp add: word_le_nat_alt)
  have "unat (a - st) = 2 ^ 64 + unat a - unat st"
    using l unat_sub_if' [of a st] by (simp add: word_le_nat_alt)
  moreover have "unat st < 2 ^ 64" using unsigned_less [of st] by simp
  ultimately show ?thesis using l assms by (auto simp: in_range_def fits_def)
qed

lemma overlaps_fits:
  assumes "fits (ld_vaddr ld) (ld_size ld)" "fits (sq_addr e) (sq_size e)"
  shows "overlaps ld e \<longleftrightarrow> 0 < ld_size ld \<and> 0 < sq_size e \<and> unat (ld_vaddr ld) < unat (sq_addr e) + sq_size e
    \<and> unat (sq_addr e) < unat (ld_vaddr ld) + ld_size ld" (is "_ = ?r")
proof -
  have e: "overlaps ld e \<longleftrightarrow> (\<exists>k < ld_size ld. unat (sq_addr e) \<le> unat (ld_vaddr ld) + k \<and> unat (ld_vaddr ld) + k < unat (sq_addr e) + sq_size e)"
    unfolding overlaps_def in_range_fits [OF assms(2)] using unat_add_fits [OF assms(1)] by auto
  show ?thesis
  proof
    show "overlaps ld e \<Longrightarrow> ?r" unfolding e by auto
    show "?r \<Longrightarrow> overlaps ld e" unfolding e
      by (intro exI [of _ "unat (sq_addr e) - unat (ld_vaddr ld)"]) auto
  qed
qed

text \<open>With sizes above zero and ranges below the top of the address space, the case analysis of the code is overlap.\<close>

lemma coverage_overlap:
  assumes "fits (ld_vaddr ld) (ld_size ld)" "fits (sq_addr e) (sq_size e)" "0 < ld_size ld" "0 < sq_size e"
  shows "addr_coverage ld e \<noteq> NoCoverage \<longleftrightarrow> overlaps ld e"
    and "addr_coverage ld e = FullCoverage \<longleftrightarrow> \<not> sq_isAtomic e \<and> \<not> sq_isMasked e \<and> \<not> ld_isLLSC ld
      \<and> unat (sq_addr e) \<le> unat (ld_vaddr ld) \<and> unat (ld_vaddr ld) + ld_size ld \<le> unat (sq_addr e) + sq_size e"
  using assms unat_add_fits [OF assms(1) order_refl] unat_add_fits [OF assms(2) order_refl]
  unfolding overlaps_fits [OF assms(1,2)]
  by (auto simp: addr_coverage_def Let_def word_le_nat_alt word_less_nat_alt split: if_splits)

subsection \<open>What the search finds\<close>

lemma search_cases:
  assumes "search_stores cur pt ld es u = Some u'"
  shows "(\<exists>es1 e es2. es = es1 @ e # es2 \<and> (\<forall>x \<in> set es1. considered x \<longrightarrow> addr_coverage ld x = NoCoverage) \<and> considered e
      \<and> (addr_coverage ld e = FullCoverage \<and> forward_load cur ld e u = Some u'
         \<or> addr_coverage ld e = PartialCoverage \<and> u' = stall_load ld e u))
    \<or> (\<forall>x \<in> set es. considered x \<longrightarrow> addr_coverage ld x = NoCoverage) \<and> u' = access_memory pt ld u"
  using assms
proof (induction es)
  case (Cons e es)
  show ?case
  proof (cases "considered e \<and> addr_coverage ld e \<noteq> NoCoverage")
    case True
    with Cons.prems have "addr_coverage ld e = FullCoverage \<and> forward_load cur ld e u = Some u'
        \<or> addr_coverage ld e = PartialCoverage \<and> u' = stall_load ld e u"
      by (auto split: if_splits coverage.splits)
    with True show ?thesis by (intro disjI1 exI [of _ "[]"] exI [of _ e] exI [of _ es]) simp
  next
    case False
    then have s: "search_stores cur pt ld es u = Some u'" using Cons.prems by (auto split: if_splits)
    have n: "considered e \<longrightarrow> addr_coverage ld e = NoCoverage" using False by blast
    from Cons.IH [OF s] show ?thesis
    proof (elim disjE exE conjE)
      fix es1 x es2
      assume "es = es1 @ x # es2" "\<forall>x \<in> set es1. considered x \<longrightarrow> addr_coverage ld x = NoCoverage" "considered x"
        "addr_coverage ld x = FullCoverage" "forward_load cur ld x u = Some u'"
      then show ?thesis using n by (intro disjI1 exI [of _ "e # es1"] exI [of _ x] exI [of _ es2]) simp
    next
      fix es1 x es2
      assume "es = es1 @ x # es2" "\<forall>x \<in> set es1. considered x \<longrightarrow> addr_coverage ld x = NoCoverage" "considered x"
        "addr_coverage ld x = PartialCoverage" "u' = stall_load ld x u"
      then show ?thesis using n by (intro disjI1 exI [of _ "e # es1"] exI [of _ x] exI [of _ es2]) simp
    qed (use n in simp)
  qed
qed simp

subsection \<open>Program order\<close>

text \<open>What a store does to memory once it is written back: nothing outside its bytes, and a plain store
  leaves its data.\<close>

locale store_semantics =
  fixes eff :: "sq_entry \<Rightarrow> mem \<Rightarrow> mem"
  assumes eff_local: "\<not> in_range a (sq_addr e) (sq_size e) \<Longrightarrow> eff e m a = m a"
    and eff_plain: "\<not> sq_isAtomic e \<Longrightarrow> \<not> sq_isMasked e \<Longrightarrow> in_range a (sq_addr e) (sq_size e) \<Longrightarrow>
      eff e m a = (if sq_isAllZeros e then 0 else sq_data e ! unat (a - sq_addr e))"
begin

lemma untouched: "\<forall>e \<in> set es. \<not> in_range a (sq_addr e) (sq_size e) \<Longrightarrow> foldr eff es m a = m a"
  by (induction es) (simp_all add: eff_local)

lemma untouched_load:
  assumes "\<forall>e \<in> set es. \<not> overlaps ld e" "k < ld_size ld"
  shows "foldr eff es m (ld_vaddr ld + of_nat k) = m (ld_vaddr ld + of_nat k)"
  using assms by (intro untouched) (auto simp: overlaps_def)

lemma forwarded_bytes:
  assumes "fits (ld_vaddr ld) (ld_size ld)" "fits (sq_addr e) (sq_size e)" "0 < ld_size ld" "0 < sq_size e"
    "addr_coverage ld e = FullCoverage" "\<forall>x \<in> set es1. \<not> overlaps ld x" "sq_size e \<le> length (sq_data e)"
  shows "(if sq_isAllZeros e then replicate (ld_size ld) 0 else take (ld_size ld) (drop (unat (ld_vaddr ld - sq_addr e)) (sq_data e)))
    = map (\<lambda>k. foldr eff (es1 @ e # es2) m (ld_vaddr ld + of_nat k)) [0..<ld_size ld]"
proof -
  note full = coverage_overlap(2) [OF assms(1-4), THEN iffD1, OF assms(5)]
  have sub: "unat (ld_vaddr ld - sq_addr e) = unat (ld_vaddr ld) - unat (sq_addr e)"
    using full by (simp add: unat_sub word_le_nat_alt)
  have b: "foldr eff (es1 @ e # es2) m (ld_vaddr ld + of_nat k) =
      (if sq_isAllZeros e then 0 else sq_data e ! (unat (ld_vaddr ld) - unat (sq_addr e) + k))" if k: "k < ld_size ld" for k
  proof -
    let ?a = "ld_vaddr ld + of_nat k"
    have a: "unat ?a = unat (ld_vaddr ld) + k" using unat_add_fits [OF assms(1)] k by simp
    then have r: "in_range ?a (sq_addr e) (sq_size e)" unfolding in_range_fits [OF assms(2)] using full k by auto
    have "unat (?a - sq_addr e) = unat (ld_vaddr ld) - unat (sq_addr e) + k"
      using full a by (simp add: unat_sub word_le_nat_alt)
    then show ?thesis using untouched_load [OF assms(6) k] full r by (simp add: eff_plain)
  qed
  show ?thesis using full assms(7) b sub by (intro nth_equalityI) (auto simp: add.commute)
qed

end

text \<open>The effect of the entries of the queue: byte enables \<open>en\<close> of a masked store and the operation \<open>amo\<close> of an atomic
  are those of the request.\<close>

definition store_effect :: "(sq_entry \<Rightarrow> nat \<Rightarrow> bool) \<Rightarrow> (sq_entry \<Rightarrow> mem \<Rightarrow> nat \<Rightarrow> u8) \<Rightarrow> sq_entry \<Rightarrow> mem \<Rightarrow> mem" where
  "store_effect en amo e m a =
     (let k = unat (a - sq_addr e) in
      if sq_size e \<le> k then m a
      else if sq_isAtomic e then amo e m k
      else if sq_isMasked e \<and> \<not> en e k then m a
      else if sq_isAllZeros e then 0 else sq_data e ! k)"

interpretation stores: store_semantics "store_effect en amo" for en amo
  by unfold_locales (simp_all add: store_effect_def in_range_def Let_def)

definition prog_bytes :: "(sq_entry \<Rightarrow> nat \<Rightarrow> bool) \<Rightarrow> (sq_entry \<Rightarrow> mem \<Rightarrow> nat \<Rightarrow> u8) \<Rightarrow> sq_entry list \<Rightarrow> mem \<Rightarrow> load_req \<Rightarrow> u8 list" where
  "prog_bytes en amo es m ld = map (\<lambda>k. foldr (store_effect en amo) es m (ld_vaddr ld + of_nat k)) [0..<ld_size ld]"

text \<open>The state of the queue as far as the data of loads does not show.\<close>

definition blind :: "lsq_unit \<Rightarrow> lsq_unit" where
  "blind u = u\<lparr>lsqFwd := None, memData := (\<lambda>_. None), writebacks := map (\<lambda>(i, bs, d). (i, [], d)) (writebacks u)\<rparr>"

lemma blind_forward_load: "map_option blind (forward_load cur ld e u) = map_option blind (forward_load cur ld e (u\<lparr>lsqFwd := None\<rparr>))"
  by (simp add: forward_load_def blind_def Let_def case_prod_unfold)

lemma blind_search: "map_option blind (search_stores cur pt ld es u) = map_option blind (search_stores cur pt ld es (u\<lparr>lsqFwd := None\<rparr>))"
proof (induction es)
  case Nil
  show ?case by (cases pt) (simp add: access_memory_def blind_def Let_def)
next
  case (Cons e es)
  have "blind (stall_load ld e u) = blind (stall_load ld e (u\<lparr>lsqFwd := None\<rparr>))"
    by (simp add: stall_load_def reschedule_load_def blind_def)
  with Cons show ?case using blind_forward_load [of cur ld e u] by (auto split: coverage.splits)
qed

lemma forward_load_data:
  assumes "forward_load cur ld e u = Some u'"
  shows "writebacks u' = writebacks u @ [(ld_seq ld, fst (forward_bytes cur ld e (lsqFwd u)), 0)]"
    "memData u' (ld_seq ld) = Some (fst (forward_bytes cur ld e (lsqFwd u)))"
  using assms by (auto simp: forward_load_def Let_def case_prod_unfold split: if_splits)

text \<open>The parameters of an injector, which no hook changes.\<close>

definition fwd_config :: "fwd_inj \<Rightarrow> _" where
  "fwd_config s = ((probability s, first_clock s, last_clock s, max_faults s), (fwd_fault_type s, fwd_fault_mask s, mask_width s, byte_offset s),
     (structural_fault_enum s, source_fault_enum s, phase_offset s, skew_bytes s, fwd_num_bits s))"

lemma pickSource_config: "fwd_config (snd (pickSource cur bs n a s)) = fwd_config s"
  by (simp add: pickSource_def fwd_config_def record_hist_def bernoulli_def count_source_def fwd_count_def count_fault_def
    case_prod_unfold Let_def split: option.splits)

text \<open>The bytes an injector other than a phase offset delivers are a corruption of the correct ones.\<close>

lemma forward_bytes_hook:
  assumes "ld_size ld \<le> length (drop (unat (ld_vaddr ld - sq_addr e)) (sq_data e))"
  shows "fst (forward_bytes cur ld e None) = (if sq_isAllZeros e then replicate (ld_size ld) 0
      else take (ld_size ld) (drop (unat (ld_vaddr ld - sq_addr e)) (sq_data e)))"
    "hist_wf s \<Longrightarrow> source_fault_enum s \<noteq> PhaseOffset \<Longrightarrow>
      \<exists>s'. fwd_config s' = fwd_config s \<and> fst (forward_bytes cur ld e (Some s)) = fst (fwd_corrupt cur (fst (forward_bytes cur ld e None)) s')"
proof -
  show c: "fst (forward_bytes cur ld e None) = (if sq_isAllZeros e then replicate (ld_size ld) 0
      else take (ld_size ld) (drop (unat (ld_vaddr ld - sq_addr e)) (sq_data e)))"
    by (simp add: forward_bytes_def Let_def)
  assume "hist_wf s" "source_fault_enum s \<noteq> PhaseOffset"
  then have "fst (pickSource cur (drop (unat (ld_vaddr ld - sq_addr e)) (sq_data e)) (ld_size ld) (ld_vaddr ld) s)
      = take (ld_size ld) (drop (unat (ld_vaddr ld - sq_addr e)) (sq_data e))"
    using find_stale_newest [OF _ assms] unfolding pickSource_split by (simp add: start_depth_def)
  then show "\<exists>s'. fwd_config s' = fwd_config s \<and> fst (forward_bytes cur ld e (Some s)) = fst (fwd_corrupt cur (fst (forward_bytes cur ld e None)) s')"
    unfolding c by (auto simp: forward_bytes_def Let_def case_prod_unfold intro: pickSource_config)
qed

text \<open>The conditions under which the queue is searched: addresses below the top of the address space, data as
  long as the store, and no strictly ordered store or maintenance operation on the bytes of the load.\<close>

definition queue_ok :: "load_req \<Rightarrow> sq_entry list \<Rightarrow> bool" where
  "queue_ok ld es \<longleftrightarrow> 0 < ld_size ld \<and> fits (ld_vaddr ld) (ld_size ld)
     \<and> (\<forall>e \<in> set es. fits (sq_addr e) (sq_size e) \<and> sq_size e \<le> length (sq_data e)
          \<and> (sq_strictlyOrdered e \<or> sq_isCacheMaintenance e \<longrightarrow> \<not> overlaps ld e))"

lemma queue_no_overlap:
  assumes "queue_ok ld es" "e \<in> set es"
  shows "(considered e \<longrightarrow> addr_coverage ld e = NoCoverage) \<longleftrightarrow> \<not> overlaps ld e"
proof -
  have f: "fits (ld_vaddr ld) (ld_size ld)" "fits (sq_addr e) (sq_size e)" "0 < ld_size ld"
    using assms by (simp_all add: queue_ok_def)
  show ?thesis
  proof (cases "considered e")
    case True
    then show ?thesis using coverage_overlap(1) [OF f] by (auto simp: considered_def)
  next
    case False
    then have "sq_size e = 0 \<or> sq_strictlyOrdered e \<or> sq_isCacheMaintenance e" by (auto simp: considered_def)
    then have "\<not> overlaps ld e" using assms overlaps_fits [OF f(1,2)] by (auto simp: queue_ok_def)
    with False show ?thesis by simp
  qed
qed

text \<open>C24: loads see older stores.  A load that returns from the search was forwarded exactly the bytes that memory
  would hold after all older stores (with an injector that does not offset the source, a corruption of
  them), or went to memory when no older store touches its bytes, or was put off because the youngest store that
  touches them cannot forward.  An injector changes nothing but data.\<close>

theorem loads_see_older_stores:
  assumes "queue_ok ld es" "search_stores cur pt ld es u = Some u'"
  shows "((\<exists>bs. writebacks u' = writebacks u @ [(ld_seq ld, bs, 0)] \<and> memData u' (ld_seq ld) = Some bs
        \<and> (lsqFwd u = None \<longrightarrow> bs = prog_bytes en amo es m ld)
        \<and> (\<forall>s. lsqFwd u = Some s \<and> hist_wf s \<and> source_fault_enum s \<noteq> PhaseOffset \<longrightarrow>
             (\<exists>s'. fwd_config s' = fwd_config s \<and> bs = fst (fwd_corrupt cur (prog_bytes en amo es m ld) s'))))
      \<or> u' = access_memory pt ld u \<and> prog_bytes en amo es m ld = map (\<lambda>k. m (ld_vaddr ld + of_nat k)) [0..<ld_size ld]
      \<or> (\<exists>es1 e es2. es = es1 @ e # es2 \<and> (\<forall>x \<in> set es1. \<not> overlaps ld x) \<and> overlaps ld e
           \<and> addr_coverage ld e \<noteq> FullCoverage \<and> u' = stall_load ld e u))
    \<and> map_option blind (search_stores cur pt ld es u) = map_option blind (search_stores cur pt ld es (u\<lparr>lsqFwd := None\<rparr>))"
proof (rule conjI [OF _ blind_search])
  have f: "fits (ld_vaddr ld) (ld_size ld)" "0 < ld_size ld" using assms(1) by (simp_all add: queue_ok_def)
  from search_cases [OF assms(2)] consider
    (hit) es1 e es2 where "es = es1 @ e # es2" "\<forall>x \<in> set es1. considered x \<longrightarrow> addr_coverage ld x = NoCoverage" "considered e"
      "addr_coverage ld e = FullCoverage" "forward_load cur ld e u = Some u'"
    | (partial) es1 e es2 where "es = es1 @ e # es2" "\<forall>x \<in> set es1. considered x \<longrightarrow> addr_coverage ld x = NoCoverage" "considered e"
      "addr_coverage ld e = PartialCoverage" "u' = stall_load ld e u"
    | (miss) "\<forall>x \<in> set es. considered x \<longrightarrow> addr_coverage ld x = NoCoverage" "u' = access_memory pt ld u" by blast
  then show "(\<exists>bs. writebacks u' = writebacks u @ [(ld_seq ld, bs, 0)] \<and> memData u' (ld_seq ld) = Some bs
        \<and> (lsqFwd u = None \<longrightarrow> bs = prog_bytes en amo es m ld)
        \<and> (\<forall>s. lsqFwd u = Some s \<and> hist_wf s \<and> source_fault_enum s \<noteq> PhaseOffset \<longrightarrow>
             (\<exists>s'. fwd_config s' = fwd_config s \<and> bs = fst (fwd_corrupt cur (prog_bytes en amo es m ld) s'))))
      \<or> u' = access_memory pt ld u \<and> prog_bytes en amo es m ld = map (\<lambda>k. m (ld_vaddr ld + of_nat k)) [0..<ld_size ld]
      \<or> (\<exists>es1 e es2. es = es1 @ e # es2 \<and> (\<forall>x \<in> set es1. \<not> overlaps ld x) \<and> overlaps ld e
           \<and> addr_coverage ld e \<noteq> FullCoverage \<and> u' = stall_load ld e u)"
  proof cases
    case hit
    have e: "fits (sq_addr e) (sq_size e)" "sq_size e \<le> length (sq_data e)" "0 < sq_size e"
      using assms(1) hit(1,3) by (auto simp: queue_ok_def considered_def)
    have no: "\<forall>x \<in> set es1. \<not> overlaps ld x" using hit(1,2) queue_no_overlap [OF assms(1)] by auto
    have "unat (sq_addr e) \<le> unat (ld_vaddr ld)" "unat (ld_vaddr ld) + ld_size ld \<le> unat (sq_addr e) + sq_size e"
      using coverage_overlap(2) [OF f(1) e(1) f(2) e(3)] hit(4) by auto
    then have len: "ld_size ld \<le> length (drop (unat (ld_vaddr ld - sq_addr e)) (sq_data e))"
      using e(2) by (simp add: unat_sub word_le_nat_alt)
    have p: "fst (forward_bytes cur ld e None) = prog_bytes en amo es m ld"
      unfolding forward_bytes_hook(1) [OF len] prog_bytes_def hit(1)
      by (rule stores.forwarded_bytes [OF f(1) e(1) f(2) e(3) hit(4) no e(2)])
    show ?thesis using forward_load_data [OF hit(5)] forward_bytes_hook(2) [OF len, of _ cur] p
      by (intro disjI1 exI [of _ "fst (forward_bytes cur ld e (lsqFwd u))"]) auto
  next
    case partial
    have "e \<in> set es" using partial(1) by simp
    then have "overlaps ld e" using queue_no_overlap [OF assms(1), of e] partial(3,4) by simp
    moreover have "\<forall>x \<in> set es1. \<not> overlaps ld x" using partial(1,2) queue_no_overlap [OF assms(1)] by auto
    ultimately show ?thesis using partial(1,4,5) by (intro disjI2 exI [of _ es1] exI [of _ e] exI [of _ es2]) simp
  next
    case miss
    then have "\<forall>x \<in> set es. \<not> overlaps ld x" using queue_no_overlap [OF assms(1)] by blast
    then show ?thesis using miss(2) stores.untouched_load [of es ld] by (intro disjI2 disjI1) (simp add: prog_bytes_def)
  qed
qed

subsection \<open>Witness\<close>

definition demo_store :: "nat \<Rightarrow> u64 \<Rightarrow> u8 list \<Rightarrow> sq_entry" where
  "demo_store i a bs = \<lparr>sq_idx = i, sq_valid = True, sq_seq = i, sq_addr = a, sq_size = length bs, sq_data = bs, sq_isAllZeros = False,
     sq_strictlyOrdered = False, sq_isCacheMaintenance = False, sq_isAtomic = False, sq_isMasked = False, sq_completed = False,
     sq_effAddrValid = True, sq_htm = None\<rparr>"

definition demo_load :: load_req where
  "demo_load = \<lparr>ld_seq = 9, ld_idx = 0, ld_vaddr = 0x102, ld_size = 2, ld_strictlyOrdered = False, ld_isLLSC = False,
     ld_isLocalAccess = False, ld_isHTMCmd = False, ld_isDataPrefetch = False, ld_isExecuted = False, ld_isAtCommit = False,
     ld_atHead = False, ld_anyOutstanding = False, ld_numOutstandingPackets = 0, ld_htm = None\<rparr>"

definition demo_lsq :: lsq_unit where
  "demo_lsq = \<lparr>lsqFwd = None, memData = (\<lambda>_. None), entryRequest = (\<lambda>_. False), loadSeqAt = (\<lambda>_. 9), stalled = False,
     stallingStoreIsn = 0, stallingLoadIdx = 0, storeQueueCapacity = 8, harp_enabled = False, rescheduleMem_calls = [],
     clearIssued_calls = [], effAddrInvalid_calls = [], discard_calls = [], lockedRead_calls = [], retryMem_calls = [],
     blockMem_calls = [], sendPacket_calls = [], writebacks = [], sqForward_calls = [], lsq_rescheduledLoads = 0, forwLoads = 0\<rparr>"

text \<open>Two stores cover the load; the younger one forwards.\<close>

abbreviation demo_stores :: "sq_entry list" where
  "demo_stores \<equiv> [demo_store 8 0x200 [5], demo_store 7 0x100 [1, 2, 3, 4], demo_store 6 0x102 [9, 9]]"

lemma demo_found: "search_stores 0 ([], True, False) demo_load demo_stores demo_lsq \<noteq> None"
  "writebacks (the (search_stores 0 ([], True, False) demo_load demo_stores demo_lsq)) = [(9, [3, 4], 0)]"
  by (simp_all add: demo_load_def demo_store_def considered_def addr_coverage_def forward_load_def forward_bytes_def htm_ok_def demo_lsq_def Let_def)

theorem loads_see_older_stores_witness:
  "prog_bytes (\<lambda>_ _. True) (\<lambda>_ m _. 0) demo_stores (\<lambda>_. 0) demo_load = [3, 4]"
proof -
  obtain u' where u': "search_stores 0 ([], True, False) demo_load demo_stores demo_lsq = Some u'" "writebacks u' = [(9, [3, 4], 0)]"
    using demo_found by auto
  have q: "queue_ok demo_load demo_stores"
    by (simp add: queue_ok_def demo_load_def demo_store_def fits_def)
  have w: "writebacks demo_lsq = []" "lsqFwd demo_lsq = None" by (simp_all add: demo_lsq_def)
  have n: "writebacks (access_memory ([], True, False) demo_load demo_lsq) = []" "writebacks (stall_load demo_load e demo_lsq) = []" for e
    by (simp_all add: access_memory_def stall_load_def reschedule_load_def demo_lsq_def Let_def)
  have "\<exists>bs. writebacks u' = writebacks demo_lsq @ [(ld_seq demo_load, bs, 0)]
      \<and> bs = prog_bytes (\<lambda>_ _. True) (\<lambda>_ m _. 0) demo_stores (\<lambda>_. 0) demo_load"
    using loads_see_older_stores [OF q u'(1), of "\<lambda>_ _. True" "\<lambda>_ m _. 0" "\<lambda>_. 0"] u'(2) n w(2)
    by (metis list.distinct(1))
  then show ?thesis using u'(2) w(1) by (simp add: demo_load_def)
qed

end
