(* ===== verification/Mem_Inj.thy ===== *)
theory Mem_Inj
  imports Injector
begin

text \<open>
  \<open>CHAOSMem\<close>: corrupts one byte of a memory at random times, with an optional error-correcting code, and
  re-applies its stuck-at faults periodically.  The memory is its address range and its cells; an access
  outside the range fails the assertion of \<open>AbstractMemory::access\<close> and is \<open>None\<close>.
\<close>

record abs_mem =
  mem_start :: u64
  mem_size :: u64
  cells :: "u64 \<Rightarrow> u8"

definition mem_has :: "u64 \<Rightarrow> abs_mem \<Rightarrow> bool" where
  "mem_has a m \<longleftrightarrow> a - mem_start m < mem_size m"

text \<open>Accesses to one byte.\<close>

definition mem_readByte :: "u64 \<Rightarrow> abs_mem \<Rightarrow> u8 option" where
  "mem_readByte a m = (if mem_has a m then Some (cells m a) else None)"

definition mem_writeByte :: "u64 \<Rightarrow> u8 \<Rightarrow> abs_mem \<Rightarrow> abs_mem option" where
  "mem_writeByte a b m = (if mem_has a m then Some (m\<lparr>cells := (cells m)(a := b)\<rparr>) else None)"

record mem_perm =
  mp_type :: fault_type
  mp_mask :: u8
  mp_update :: bool

record mem_inj = injector +
  mem_num_bits :: int
  mem_fault_type :: fault_type
  mem_fault_mask :: u8
  tick_to_clock_ratio :: nat
  mem_weights :: "real list"
  addr_mode :: string
  addr_xor_mask :: u64
  protection_model :: string
  target_start :: u64
  target_end :: u64
  target_size :: u64
  last_tick :: tick
  ticks_check :: tick
  mem_attack_at :: "tick option"
  mem_check_at :: "tick option"
  mem_permanent :: "(u64 \<times> mem_perm) list"
  mem_numFaultsInjected :: nat
  mem_numBitFlips :: nat
  mem_numStuckAtZero :: nat
  mem_numStuckAtOne :: nat
  mem_numPermanentFaults :: nat
  numPermanentReapplies :: nat
  numPermanentChecks :: nat
  numEccCorrected :: nat
  numDetectedContained :: nat
  numEccLogicMissed :: nat
  numLatent :: nat

definition mem_stringToFaultType :: "string \<Rightarrow> fault_type" where
  "mem_stringToFaultType s = (if s = ''bit_flip'' then BitFlip else if s = ''stuck_at_zero'' then StuckAtZero
     else if s = ''stuck_at_one'' then StuckAtOne else RandomFault)"

definition scheduleAttack :: "tick \<Rightarrow> mem_inj \<Rightarrow> mem_inj" where
  "scheduleAttack t s = (if mem_attack_at s = None then s\<lparr>mem_attack_at := Some t\<rparr> else s)"

definition mem_scheduleCheckPermanentFault :: "tick \<Rightarrow> mem_inj \<Rightarrow> mem_inj" where
  "mem_scheduleCheckPermanentFault t s = (if mem_check_at s = None then s\<lparr>mem_check_at := Some t\<rparr> else s)"

text \<open>The window of target addresses, both ends included.\<close>

definition mem_window :: "u64 \<Rightarrow> u64 \<Rightarrow> abs_mem \<Rightarrow> u64 \<times> u64" where
  "mem_window st en m =
     (let st1 = (if st < mem_start m then mem_start m else st);
          last_byte = mem_start m + mem_size m - 1;
          en1 = (if en = 0 \<or> en < st1 then last_byte else en)
      in (st1, if last_byte < en1 then last_byte else en1))"

definition normal_weights :: "real \<Rightarrow> real \<Rightarrow> real \<Rightarrow> real list" where
  "normal_weights b z u =
     (let ws = b + z + u; (b1, z1, u1, ws1) = (if ws \<le> 0 then (0.9, 0.05, 0.05, 1) else (b, z, u, ws))
      in if ws1 \<noteq> 1 then [b1 / ws1, z1 / ws1, u1 / ws1] else [b1, z1, u1])"

text \<open>The constructor with a memory and a positive probability.  \<open>r0\<close> is the generator before it is seeded, \<open>r\<close> after.\<close>

definition CHAOSMem :: "real \<Rightarrow> int \<Rightarrow> nat \<Rightarrow> nat \<Rightarrow> string \<Rightarrow> u8 \<Rightarrow> nat \<Rightarrow> real \<Rightarrow> real \<Rightarrow> real \<Rightarrow> nat \<Rightarrow> string \<Rightarrow> u64 \<Rightarrow> string
    \<Rightarrow> nat \<Rightarrow> u64 \<Rightarrow> u64 \<Rightarrow> rng \<Rightarrow> rng \<Rightarrow> abs_mem \<Rightarrow> mem_inj" where
  "CHAOSMem prob bits fst_clk lst_clk ftype fmask ratio pb pz po check mode xm prot cap st en r0 r m =
     (let nb = (if bits = -1 then fst (uniform_int 1 8 r0) else bits);
          (st1, en1) = mem_window st en m;
          (g, r1) = geometric prob r;
          s = \<lparr>probability = prob, first_clock = fst_clk, last_clock = lst_clk, max_faults = cap, faults_injected_count = 0,
             rng = r1, mem_num_bits = nb, mem_fault_type = mem_stringToFaultType ftype, mem_fault_mask = fmask,
             tick_to_clock_ratio = ratio, mem_weights = normal_weights pb pz po, addr_mode = mode,
             addr_xor_mask = (if xm \<noteq> 0 then xm else 0x1000), protection_model = prot, target_start = st1, target_end = en1,
             target_size = en1 - st1 + 1, last_tick = lst_clk * ratio, ticks_check = check * ratio, mem_attack_at = None,
             mem_check_at = None, mem_permanent = [], mem_numFaultsInjected = 0, mem_numBitFlips = 0, mem_numStuckAtZero = 0,
             mem_numStuckAtOne = 0, mem_numPermanentFaults = 0, numPermanentReapplies = 0, numPermanentChecks = 0,
             numEccCorrected = 0, numDetectedContained = 0, numEccLogicMissed = 0, numLatent = 0\<rparr>
      in mem_scheduleCheckPermanentFault (fst_clk * ratio + check * ratio) (scheduleAttack (fst_clk * ratio + wrap32 (g * ratio)) s))"

subsection \<open>An attack\<close>

definition mem_target :: "mem_inj \<Rightarrow> u64 \<times> mem_inj" where
  "mem_target s =
     (case uniform_nat (unat (target_start s)) (unat (target_end s)) (rng s) of (a, r) \<Rightarrow>
        let a1 = of_nat a in (if addr_mode s = ''addr_map_sub'' then a1 XOR addr_xor_mask s else a1, s\<lparr>rng := r\<rparr>))"

definition mem_choose_mask :: "mem_inj \<Rightarrow> u8 \<times> mem_inj" where
  "mem_choose_mask s = (if mem_fault_mask s \<noteq> 0 then (mem_fault_mask s, s)
     else (case or_random_bits 0 7 (nat (mem_num_bits s)) 0 (rng s) of (m, r) \<Rightarrow> (m, s\<lparr>rng := r\<rparr>)))"

definition mem_choose_type :: "mem_inj \<Rightarrow> fault_type \<times> mem_inj" where
  "mem_choose_type s = (if mem_fault_type s = RandomFault
     then (case discrete (mem_weights s) (rng s) of (i, r) \<Rightarrow> (fault_type_of_index i, s\<lparr>rng := r\<rparr>)) else (mem_fault_type s, s))"

text \<open>The map of permanent faults, ordered by address.\<close>

fun perm_put :: "u64 \<Rightarrow> mem_perm \<Rightarrow> (u64 \<times> mem_perm) list \<Rightarrow> (u64 \<times> mem_perm) list" where
  "perm_put a p [] = [(a, p)]"
| "perm_put a p ((b, q) # ps) = (if a < b then (a, p) # (b, q) # ps else if a = b then (a, p) # ps else (b, q) # perm_put a p ps)"

definition mem_record_type :: "u64 \<Rightarrow> fault_type \<Rightarrow> u8 \<Rightarrow> mem_inj \<Rightarrow> mem_inj" where
  "mem_record_type a f m s =
     (let perm = (\<lambda>s. s\<lparr>mem_numPermanentFaults := mem_numPermanentFaults s + 1,
            mem_permanent := perm_put a \<lparr>mp_type = f, mp_mask = m, mp_update = True\<rparr> (mem_permanent s)\<rparr>)
      in (case f of StuckAtZero \<Rightarrow> perm (s\<lparr>mem_numStuckAtZero := mem_numStuckAtZero s + 1\<rparr>)
          | StuckAtOne \<Rightarrow> perm (s\<lparr>mem_numStuckAtOne := mem_numStuckAtOne s + 1\<rparr>)
          | BitFlip \<Rightarrow> s\<lparr>mem_numBitFlips := mem_numBitFlips s + 1\<rparr> | RandomFault \<Rightarrow> s))"

text \<open>The code: the byte to write back, from the byte before and after the fault.\<close>

definition mem_ecc :: "u8 \<Rightarrow> u8 \<Rightarrow> u8 \<Rightarrow> mem_inj \<Rightarrow> u8 \<times> mem_inj" where
  "mem_ecc m old new s =
     (if protection_model s = ''secded'' \<or> protection_model s = ''ecc_logic_fault'' then
        let bits = popcount m in
        if protection_model s = ''ecc_logic_fault'' \<and> bits = 1 then (new, s\<lparr>numEccLogicMissed := numEccLogicMissed s + 1\<rparr>)
        else if bits = 1 then (old, s\<lparr>numEccCorrected := numEccCorrected s + 1\<rparr>)
        else if bits = 2 then (new, s\<lparr>numDetectedContained := numDetectedContained s + 1\<rparr>)
        else (new, s\<lparr>numLatent := numLatent s + 1\<rparr>)
      else (new, s))"

definition mem_reschedule :: "tick \<Rightarrow> mem_inj \<Rightarrow> mem_inj" where
  "mem_reschedule now s =
     (if cap_reached s then s
      else (case geometric (probability s) (rng s) of (g, r) \<Rightarrow>
        let s1 = s\<lparr>rng := r\<rparr>; t = now + wrap32 (max g 1 * tick_to_clock_ratio s)
        in if t \<le> last_tick s1 \<or> last_tick s1 = 0 then scheduleAttack t s1 else s1))"

text \<open>The event is no longer scheduled while it runs.\<close>

definition attackMemory :: "tick \<Rightarrow> mem_inj \<times> abs_mem \<Rightarrow> (mem_inj \<times> abs_mem) option" where
  "attackMemory now = (\<lambda>(s0, m).
     (case mem_target (s0\<lparr>mem_attack_at := None\<rparr>) of (a, s1) \<Rightarrow>
       (case mem_readByte a m of None \<Rightarrow> None
        | Some old \<Rightarrow>
           (case mem_choose_mask s1 of (msk, s2) \<Rightarrow>
             (case mem_choose_type s2 of (f, s3) \<Rightarrow>
               (case mem_ecc msk old (apply_fault f msk old) (mem_record_type a f msk s3) of (b, s4) \<Rightarrow>
                 map_option (\<lambda>m'. (mem_reschedule now (count_fault (s4\<lparr>mem_numFaultsInjected := mem_numFaultsInjected s4 + 1\<rparr>)), m'))
                   (mem_writeByte a b m)))))))"

subsection \<open>The periodic check\<close>

fun mem_reapply :: "(u64 \<times> mem_perm) list \<Rightarrow> nat \<times> abs_mem \<Rightarrow> (nat \<times> abs_mem) option" where
  "mem_reapply [] (n, m) = Some (n, m)"
| "mem_reapply ((a, p) # ps) (n, m) =
     (if \<not> mp_update p then mem_reapply ps (n, m)
      else (case mem_readByte a m of None \<Rightarrow> None
        | Some b \<Rightarrow> (case mem_writeByte a (if mp_type p = StuckAtZero then b AND NOT (mp_mask p)
              else if mp_type p = StuckAtOne then b OR mp_mask p else b) m of None \<Rightarrow> None
            | Some m' \<Rightarrow> mem_reapply ps (n + 1, m'))))"

definition mem_checkPermanent :: "tick \<Rightarrow> mem_inj \<times> abs_mem \<Rightarrow> (mem_inj \<times> abs_mem) option" where
  "mem_checkPermanent now = (\<lambda>(s0, m).
     let s = s0\<lparr>mem_check_at := None, numPermanentChecks := numPermanentChecks s0 + 1\<rparr> in
     map_option (\<lambda>(n, m'). (mem_scheduleCheckPermanentFault (now + ticks_check s) (s\<lparr>numPermanentReapplies := n\<rparr>), m'))
       (mem_reapply (mem_permanent s) (numPermanentReapplies s, m)))"

subsection \<open>The map of permanent faults\<close>

definition perms_ok :: "(u64 \<times> mem_perm) list \<Rightarrow> bool" where
  "perms_ok ps \<longleftrightarrow> sorted_wrt (<) (map fst ps)"

lemma perm_put_keys: "set (map fst (perm_put a p ps)) = insert a (set (map fst ps))"
  by (induction a p ps rule: perm_put.induct) (simp_all add: insert_commute)

lemma perm_put_ok: "perms_ok ps \<Longrightarrow> perms_ok (perm_put a p ps)"
proof (induction ps)
  case (Cons x ps)
  obtain b q where x: "x = (b, q)" by fastforce
  have "perms_ok (perm_put a p ps)" using Cons by (simp add: perms_ok_def)
  moreover have "\<forall>y \<in> set (map fst (perm_put a p ps)). b < y" if "b < a"
    unfolding perm_put_keys using that Cons.prems by (auto simp: perms_ok_def x)
  ultimately show ?case using Cons.prems by (auto simp: perms_ok_def x)
qed (simp add: perms_ok_def)

lemma perm_put_map: "perms_ok ps \<Longrightarrow> map_of (perm_put a p ps) = (map_of ps)(a \<mapsto> p)"
proof (induction ps)
  case (Cons x ps)
  obtain b q where x: "x = (b, q)" by fastforce
  have "perms_ok ps" using Cons.prems by (simp add: perms_ok_def)
  with Cons.IH show ?case by (auto simp: x fun_eq_iff)
qed simp

definition stuck_byte :: "mem_perm \<Rightarrow> u8 \<Rightarrow> u8" where
  "stuck_byte p b = (if mp_update p \<and> mp_type p \<noteq> BitFlip then apply_fault (mp_type p) (mp_mask p) b else b)"

lemma mem_reapply_spec:
  assumes "perms_ok ps" "mem_reapply ps (n, m) = Some (n', m')"
  shows "cells m' = (\<lambda>a. case map_of ps a of None \<Rightarrow> cells m a | Some p \<Rightarrow> stuck_byte p (cells m a))"
    "mem_start m' = mem_start m" "mem_size m' = mem_size m"
proof -
  have "cells m' = (\<lambda>a. case map_of ps a of None \<Rightarrow> cells m a | Some p \<Rightarrow> stuck_byte p (cells m a))
      \<and> mem_start m' = mem_start m \<and> mem_size m' = mem_size m"
    using assms
  proof (induction ps arbitrary: n m)
    case (Cons x ps)
    obtain a p where x: "x = (a, p)" by fastforce
    have ok: "perms_ok ps" "map_of ps a = None" using Cons.prems(1) by (auto simp: perms_ok_def x map_of_eq_None_iff)
    show ?case
    proof (cases "mp_update p")
      case False
      then have "mem_reapply ps (n, m) = Some (n', m')" using Cons.prems(2) by (simp add: x)
      from Cons.IH [OF ok(1) this] ok(2) False show ?thesis by (auto simp: x fun_eq_iff stuck_byte_def)
    next
      case True
      let ?b = "stuck_byte p (cells m a)"
      have b: "(if mp_type p = StuckAtZero then cells m a AND NOT (mp_mask p)
          else if mp_type p = StuckAtOne then cells m a OR mp_mask p else cells m a) = ?b"
        using True by (cases "mp_type p") (simp_all add: stuck_byte_def)
      have r: "mem_reapply ps (n + 1, m\<lparr>cells := (cells m)(a := ?b)\<rparr>) = Some (n', m')"
        using Cons.prems(2) True unfolding x by (simp add: b mem_readByte_def mem_writeByte_def split: if_splits)
      from Cons.IH [OF ok(1) r] ok(2) show ?thesis by (auto simp: x fun_eq_iff split: option.splits)
    qed
  qed simp
  then show "cells m' = (\<lambda>a. case map_of ps a of None \<Rightarrow> cells m a | Some p \<Rightarrow> stuck_byte p (cells m a))"
    "mem_start m' = mem_start m" "mem_size m' = mem_size m" by simp_all
qed

lemma mem_reapply_total:
  assumes "\<forall>(a, p) \<in> set ps. mem_has a m"
  shows "mem_reapply ps (n, m) \<noteq> None"
  using assms
proof (induction ps arbitrary: n m)
  case (Cons x ps)
  obtain a p where x: "x = (a, p)" by fastforce
  have "mem_reapply ps (k, m\<lparr>cells := c\<rparr>) \<noteq> None" for k c
    by (rule Cons.IH) (use Cons.prems in \<open>auto simp: mem_has_def\<close>)
  moreover have "mem_reapply ps (n, m) \<noteq> None" by (rule Cons.IH) (use Cons.prems in auto)
  ultimately show ?case using Cons.prems by (simp add: x mem_readByte_def mem_writeByte_def)
qed simp

subsection \<open>What the injector does\<close>

lemma mem_choose_simps [simp]:
  "faults_injected_count (snd (mem_target s)) = faults_injected_count s" "max_faults (snd (mem_target s)) = max_faults s"
  "mem_permanent (snd (mem_target s)) = mem_permanent s" "mem_attack_at (snd (mem_target s)) = mem_attack_at s"
  "mem_fault_mask (snd (mem_target s)) = mem_fault_mask s" "mem_fault_type (snd (mem_target s)) = mem_fault_type s"
  "protection_model (snd (mem_target s)) = protection_model s" "last_tick (snd (mem_target s)) = last_tick s"
  "tick_to_clock_ratio (snd (mem_target s)) = tick_to_clock_ratio s"
  "faults_injected_count (snd (mem_choose_mask s)) = faults_injected_count s" "max_faults (snd (mem_choose_mask s)) = max_faults s"
  "mem_permanent (snd (mem_choose_mask s)) = mem_permanent s" "mem_attack_at (snd (mem_choose_mask s)) = mem_attack_at s"
  "mem_fault_type (snd (mem_choose_mask s)) = mem_fault_type s"
  "protection_model (snd (mem_choose_mask s)) = protection_model s" "last_tick (snd (mem_choose_mask s)) = last_tick s"
  "tick_to_clock_ratio (snd (mem_choose_mask s)) = tick_to_clock_ratio s"
  "faults_injected_count (snd (mem_choose_type s)) = faults_injected_count s" "max_faults (snd (mem_choose_type s)) = max_faults s"
  "mem_permanent (snd (mem_choose_type s)) = mem_permanent s" "mem_attack_at (snd (mem_choose_type s)) = mem_attack_at s"
  "protection_model (snd (mem_choose_type s)) = protection_model s" "last_tick (snd (mem_choose_type s)) = last_tick s"
  "tick_to_clock_ratio (snd (mem_choose_type s)) = tick_to_clock_ratio s"
  by (simp_all add: mem_target_def mem_choose_mask_def mem_choose_type_def case_prod_unfold Let_def)

lemma mem_choose_fst:
  "mem_fault_mask s \<noteq> 0 \<Longrightarrow> fst (mem_choose_mask s) = mem_fault_mask s"
  "mem_fault_type s \<noteq> RandomFault \<Longrightarrow> fst (mem_choose_type s) = mem_fault_type s"
  by (simp_all add: mem_choose_mask_def mem_choose_type_def)

lemma mem_record_simps [simp]:
  "faults_injected_count (mem_record_type a f k s) = faults_injected_count s" "max_faults (mem_record_type a f k s) = max_faults s"
  "mem_attack_at (mem_record_type a f k s) = mem_attack_at s" "protection_model (mem_record_type a f k s) = protection_model s"
  "last_tick (mem_record_type a f k s) = last_tick s" "tick_to_clock_ratio (mem_record_type a f k s) = tick_to_clock_ratio s"
  by (simp_all add: mem_record_type_def Let_def split: fault_type.splits)

lemma mem_ecc_simps [simp]:
  "faults_injected_count (snd (mem_ecc k old new s)) = faults_injected_count s" "max_faults (snd (mem_ecc k old new s)) = max_faults s"
  "mem_attack_at (snd (mem_ecc k old new s)) = mem_attack_at s" "mem_permanent (snd (mem_ecc k old new s)) = mem_permanent s"
  "last_tick (snd (mem_ecc k old new s)) = last_tick s" "tick_to_clock_ratio (snd (mem_ecc k old new s)) = tick_to_clock_ratio s"
  by (simp_all add: mem_ecc_def Let_def)

lemma mem_ecc_byte: "fst (mem_ecc k old new s) = (if protection_model s = ''secded'' \<and> popcount k = 1 then old else new)"
  by (simp add: mem_ecc_def Let_def)

lemma mem_reschedule_spec:
  assumes "mem_attack_at s = None"
  shows "cap_reached s \<Longrightarrow> mem_attack_at (mem_reschedule now s) = None"
    "mem_attack_at (mem_reschedule now s) = Some t \<Longrightarrow> (\<exists>d \<ge> 1. t = now + wrap32 (d * tick_to_clock_ratio s)) \<and> (last_tick s = 0 \<or> t \<le> last_tick s)"
    "faults_injected_count (mem_reschedule now s) = faults_injected_count s" "mem_permanent (mem_reschedule now s) = mem_permanent s"
proof -
  show "cap_reached s \<Longrightarrow> mem_attack_at (mem_reschedule now s) = None" using assms by (simp add: mem_reschedule_def)
  show "faults_injected_count (mem_reschedule now s) = faults_injected_count s" "mem_permanent (mem_reschedule now s) = mem_permanent s"
    by (simp_all add: mem_reschedule_def scheduleAttack_def case_prod_unfold Let_def)
  have r: "\<exists>d \<ge> Suc 0. wrap32 (max g (Suc 0) * c) = wrap32 (d * c)" for g c by (intro exI [of _ "max g (Suc 0)"]) simp
  show "(\<exists>d \<ge> 1. t = now + wrap32 (d * tick_to_clock_ratio s)) \<and> (last_tick s = 0 \<or> t \<le> last_tick s)" if "mem_attack_at (mem_reschedule now s) = Some t"
    using that assms by (auto simp: mem_reschedule_def scheduleAttack_def case_prod_unfold Let_def split: if_splits intro: r)
qed

text \<open>An attack, in terms of what it draws.\<close>

lemma attackMemory_spec:
  assumes "attackMemory now (s, m) = Some (s', m')"
  shows "\<exists>a f k. mem_has a m \<and> (addr_mode s \<noteq> ''addr_map_sub'' \<and> target_start s \<le> target_end s \<longrightarrow> target_start s \<le> a \<and> a \<le> target_end s)
      \<and> (mem_fault_mask s \<noteq> 0 \<longrightarrow> k = mem_fault_mask s) \<and> (mem_fault_type s \<noteq> RandomFault \<longrightarrow> f = mem_fault_type s)
      \<and> m' = m\<lparr>cells := (cells m)(a := if protection_model s = ''secded'' \<and> popcount k = 1 then cells m a else apply_fault f k (cells m a))\<rparr>
      \<and> faults_injected_count s' = Suc (faults_injected_count s)
      \<and> (max_faults s \<noteq> 0 \<and> max_faults s \<le> Suc (faults_injected_count s) \<longrightarrow> mem_attack_at s' = None)
      \<and> (\<forall>t. mem_attack_at s' = Some t \<longrightarrow> (\<exists>d \<ge> 1. t = now + wrap32 (d * tick_to_clock_ratio s)) \<and> (last_tick s = 0 \<or> t \<le> last_tick s))
      \<and> mem_permanent s' = (if f = StuckAtZero \<or> f = StuckAtOne
          then perm_put a \<lparr>mp_type = f, mp_mask = k, mp_update = True\<rparr> (mem_permanent s) else mem_permanent s)"
proof -
  let ?s0 = "s\<lparr>mem_attack_at := None\<rparr>"
  define a where "a = fst (mem_target ?s0)"
  define s1 where "s1 = snd (mem_target ?s0)"
  define k where "k = fst (mem_choose_mask s1)"
  define s2 where "s2 = snd (mem_choose_mask s1)"
  define f where "f = fst (mem_choose_type s2)"
  define s3 where "s3 = mem_record_type a f k (snd (mem_choose_type s2))"
  let ?old = "cells m a"
  define s4 where "s4 = count_fault ((snd (mem_ecc k ?old (apply_fault f k ?old) s3))\<lparr>mem_numFaultsInjected := mem_numFaultsInjected (snd (mem_ecc k ?old (apply_fault f k ?old) s3)) + 1\<rparr>)"
  have out: "mem_has a m" "m' = m\<lparr>cells := (cells m)(a := fst (mem_ecc k ?old (apply_fault f k ?old) s3))\<rparr>" "s' = mem_reschedule now s4"
    using assms unfolding attackMemory_def s4_def s3_def f_def s2_def k_def s1_def a_def
    by (auto simp: case_prod_unfold mem_readByte_def mem_writeByte_def split: if_splits)
  have f4: "mem_attack_at s4 = None" "faults_injected_count s4 = Suc (faults_injected_count s)" "max_faults s4 = max_faults s"
    "last_tick s4 = last_tick s" "tick_to_clock_ratio s4 = tick_to_clock_ratio s" "protection_model s3 = protection_model s"
    by (simp_all add: s4_def s3_def s2_def s1_def count_fault_def)
  have p4: "mem_permanent s4 = (if f = StuckAtZero \<or> f = StuckAtOne
      then perm_put a \<lparr>mp_type = f, mp_mask = k, mp_update = True\<rparr> (mem_permanent s) else mem_permanent s)"
    by (cases f) (simp_all add: s4_def s3_def s2_def s1_def count_fault_def mem_record_type_def Let_def)
  have win: "target_start s \<le> a \<and> a \<le> target_end s" if "addr_mode s \<noteq> ''addr_map_sub''" "target_start s \<le> target_end s"
  proof -
    have le: "unat (target_start s) \<le> unat (target_end s)" using that(2) by (simp add: word_le_nat_alt)
    let ?n = "fst (uniform_nat (unat (target_start s)) (unat (target_end s)) (rng s))"
    have n: "unat (target_start s) \<le> ?n" "?n \<le> unat (target_end s)" using uniform_nat_range [OF le] by auto
    have "unat (target_end s) < 2 ^ 64" using unsigned_less [of "target_end s"] by simp
    then have "?n < 2 ^ 64" using n(2) by linarith
    then have "unat a = ?n" using that(1) by (simp add: a_def mem_target_def case_prod_unfold Let_def unat_of_nat take_bit_nat_eq_self)
    then show ?thesis using n by (simp add: word_le_nat_alt)
  qed
  have "mem_fault_mask s \<noteq> 0 \<longrightarrow> k = mem_fault_mask s" "mem_fault_type s \<noteq> RandomFault \<longrightarrow> f = mem_fault_type s"
    using mem_choose_fst(1) [of s1] mem_choose_fst(2) [of s2] by (simp_all add: k_def f_def s2_def s1_def)
  then show ?thesis using out win mem_reschedule_spec [OF f4(1)] f4 p4 unfolding mem_ecc_byte
    by (intro exI [of _ a] exI [of _ f] exI [of _ k]) (auto simp: cap_reached_def)
qed


definition demo_mem :: abs_mem where
  "demo_mem = \<lparr>mem_start = 0x100, mem_size = 16, cells = (\<lambda>_. 0xFF)\<rparr>"

definition demo_mem_inj :: mem_inj where
  "demo_mem_inj = CHAOSMem 1 1 0 0 ''stuck_at_zero'' 1 10 1 0 0 5 ''fixed'' 0 ''secded'' 1 0x104 0x104 (sconst 0) (sconst 0) demo_mem"


end
