(* ===== verification/Tlb_Entry.thy ===== *)
theory Tlb_Entry
  imports Chaos_Prelude
begin

text \<open>
  Entries of the Arm TLB (\<open>arch/arm/pagetable.hh\<close>): the fields, the match of an entry against a lookup key,
  the physical address it gives, the assignment that installs it in a slot, and the maintenance operations
  (\<open>arch/arm/tlbi_op.cc\<close>) as predicates on entries.  Page sizes, lookup levels and granules are naturals.
\<close>

datatype security_state = SS_NonSecure | SS_Secure

datatype pa_space = PA_NonSecure | PA_Secure

datatype regime = R_EL10 | R_EL20 | R_EL2 | R_EL3

datatype type_tlb = TT_instruction | TT_data | TT_unified

datatype mmu_mode = ModeRead | ModeWrite | ModeExecute

definition useVMID :: "regime \<Rightarrow> bool" where
  "useVMID r \<longleftrightarrow> r = R_EL10"

text \<open>The enumeration values are bit sets.\<close>

primrec tt_bits :: "type_tlb \<Rightarrow> u8" where
  "tt_bits TT_instruction = 1"
| "tt_bits TT_data = 2"
| "tt_bits TT_unified = 3"

definition tt_and :: "type_tlb \<Rightarrow> type_tlb \<Rightarrow> bool" where
  "tt_and a b \<longleftrightarrow> tt_bits a AND tt_bits b \<noteq> 0"

record tlb_key =
  k_va :: u64
  k_pageSize :: nat
  k_size :: u64
  k_asn :: u16
  k_ignoreAsn :: bool
  k_vmid :: u16
  k_ss :: security_state
  k_functional :: bool
  k_regime :: regime
  k_mode :: mmu_mode

text \<open>The default key; \<open>Grain4KB\<close> is 12.\<close>

definition KeyType :: tlb_key where
  "KeyType = \<lparr>k_va = 0, k_pageSize = 12, k_size = 0, k_asn = 0, k_ignoreAsn = False, k_vmid = 0, k_ss = SS_NonSecure,
     k_functional = False, k_regime = R_EL10, k_mode = ModeRead\<rparr>"

text \<open>The last field is the data the replacement policy keeps with the slot.\<close>

record tlb_entry =
  te_pfn :: u64
  te_size :: u64
  te_vpn :: u64
  te_attributes :: u64
  te_lookupLevel :: nat
  te_asid :: u16
  te_vmid :: u16
  te_tg :: nat
  te_N :: nat
  te_innerAttrs :: u8
  te_outerAttrs :: u8
  te_ap :: u8
  te_hap :: u8
  te_piindex :: u8
  te_domain :: u8
  te_mtype :: u8
  te_longDescFormat :: bool
  te_global :: bool
  te_valid :: bool
  te_ns :: bool
  te_ss :: security_state
  te_ipaSpace :: pa_space
  te_regime :: regime
  te_type :: type_tlb
  te_partial :: bool
  te_nonCacheable :: bool
  te_shareable :: bool
  te_outerShareable :: bool
  te_xn :: bool
  te_pxn :: bool
  te_xs :: bool
  lastTouchTick :: tick

definition TlbEntry :: tlb_entry where
  "TlbEntry = \<lparr>te_pfn = 0, te_size = 0, te_vpn = 0, te_attributes = 0, te_lookupLevel = 1, te_asid = 0, te_vmid = 0, te_tg = 0,
     te_N = 0, te_innerAttrs = 0, te_outerAttrs = 0, te_ap = 0, te_hap = 3, te_piindex = 0, te_domain = 1, te_mtype = 0,
     te_longDescFormat = False, te_global = False, te_valid = False, te_ns = True, te_ss = SS_NonSecure,
     te_ipaSpace = PA_NonSecure, te_regime = R_EL10, te_type = TT_unified, te_partial = False, te_nonCacheable = False,
     te_shareable = False, te_outerShareable = False, te_xn = False, te_pxn = False, te_xs = True, lastTouchTick = 0\<rparr>"

text \<open>Assignment: \<open>swap\<close> exchanges every field but \<open>ipaSpace\<close>; the replacement data stays with the slot.\<close>

definition te_assign :: "tlb_entry \<Rightarrow> tlb_entry \<Rightarrow> tlb_entry" where
  "te_assign slot e = e\<lparr>te_ipaSpace := te_ipaSpace slot, lastTouchTick := lastTouchTick slot\<rparr>"

definition te_invalidate :: "tlb_entry \<Rightarrow> tlb_entry" where
  "te_invalidate e = e\<lparr>te_valid := False\<rparr>"

definition matchAddress :: "tlb_key \<Rightarrow> tlb_entry \<Rightarrow> bool" where
  "matchAddress k e =
     (let page_addr = push_bit (te_N e) (te_vpn e) in
      if k_size k \<noteq> 0 then k_va k \<le> page_addr + te_size e \<and> page_addr < k_va k + k_size k
      else page_addr \<le> k_va k \<and> k_va k \<le> page_addr + te_size e)"

definition checkRegime :: "regime \<Rightarrow> tlb_entry \<Rightarrow> bool" where
  "checkRegime r e \<longleftrightarrow> te_regime e = r"

definition te_match :: "tlb_key \<Rightarrow> tlb_entry \<Rightarrow> bool" where
  "te_match k e \<longleftrightarrow> te_valid e \<and> matchAddress k e \<and> k_ss k = te_ss e \<and> checkRegime (k_regime k) e
     \<and> (k_ignoreAsn k \<or> te_global e \<or> k_asn k = te_asid e) \<and> (useVMID (k_regime k) \<longrightarrow> k_vmid k = te_vmid e)"

definition pAddr :: "u64 \<Rightarrow> tlb_entry \<Rightarrow> u64" where
  "pAddr va e = push_bit (te_N e) (te_pfn e) OR (va AND te_size e)"

definition key_of_entry :: "tlb_entry \<Rightarrow> tlb_key" where
  "key_of_entry e = \<lparr>k_va = push_bit (te_N e) (te_vpn e), k_pageSize = te_N e, k_size = 0, k_asn = te_asid e, k_ignoreAsn = False,
     k_vmid = te_vmid e, k_ss = te_ss e, k_functional = False, k_regime = te_regime e,
     k_mode = (if te_type e = TT_instruction then ModeExecute else ModeRead)\<rparr>"

subsection \<open>Maintenance operations\<close>

text \<open>One constructor per class, with its members; \<open>el2Enabled\<close> and \<open>currentEL\<close> are what \<open>operator()\<close> reads of the thread.\<close>

datatype tlbi_kind =
    TLBIALL bool nat | ITLBIALL bool | DTLBIALL bool
  | TLBIALLEL
  | TLBIVMALL bool bool
  | TLBIASID u16 bool | ITLBIASID u16 bool | DTLBIASID u16 bool
  | TLBIALLN
  | TLBIMVAA u64 bool
  | TLBIMVA u64 u16 bool | ITLBIMVA u64 u16 | DTLBIMVA u64 u16
  | TLBIIPA u64 bool pa_space
  | TLBIRMVA u64 u16 bool | TLBIRMVAA u64 bool | TLBIRIPA u64 bool pa_space

record tlbi_op =
  op_ss :: security_state
  op_regime :: regime
  op_excludeXS :: bool
  op_kind :: tlbi_kind

definition sext :: "nat \<Rightarrow> u64 \<Rightarrow> u64" where
  "sext n v = (if bit v (n - 1) then v OR NOT (mask n) else v)"

definition szext :: "nat \<Rightarrow> u64 \<Rightarrow> u64" where
  "szext n v = (if bit v (n - 1) then v OR NOT (mask n) else v AND mask n)"

text \<open>The register of a range operation.\<close>

definition bitfield :: "nat \<Rightarrow> nat \<Rightarrow> u64 \<Rightarrow> nat" where
  "bitfield hi lo v = unat (drop_bit lo v AND mask (hi - lo + 1))"

definition tgMap :: "nat \<Rightarrow> nat" where
  "tgMap i = (if i = 1 then 12 else if i = 2 then 14 else if i = 3 then 16 else 0)"

definition range_granule :: "u64 \<Rightarrow> nat" where
  "range_granule v = tgMap (bitfield 47 46 v)"

definition startAddress :: "u64 \<Rightarrow> u64" where
  "startAddress v = push_bit (range_granule v) (sext 37 (of_nat (bitfield 36 0 v)))"

definition rangeSize :: "u64 \<Rightarrow> u64" where
  "rangeSize v = push_bit (5 * bitfield 45 44 v + 1 + range_granule v) (of_nat (bitfield 43 39 v + 1))"

definition resTLBIttl :: "nat \<Rightarrow> nat \<Rightarrow> bool" where
  "resTLBIttl tg ttl = (if ttl = 0 then True else if ttl = 1 then tgMap tg = 14 else False)"

text \<open>What the constructors of \<open>TLBIIPA\<close> and \<open>TLBIRIPA\<close> take from the register; \<open>pa52\<close> says whether physical addresses have 52 bits.\<close>

definition ipa_of_reg :: "security_state \<Rightarrow> u64 \<Rightarrow> pa_space" where
  "ipa_of_reg sec v = (case sec of SS_NonSecure \<Rightarrow> PA_NonSecure | SS_Secure \<Rightarrow> if bit v 63 then PA_NonSecure else PA_Secure)"

definition mk_TLBIIPA :: "bool \<Rightarrow> regime \<Rightarrow> security_state \<Rightarrow> u64 \<Rightarrow> bool \<Rightarrow> bool \<Rightarrow> tlbi_op" where
  "mk_TLBIIPA pa52 rg sec v ll xs = \<lparr>op_ss = sec, op_regime = rg, op_excludeXS = xs,
     op_kind = TLBIIPA (push_bit 12 (of_nat (bitfield (if pa52 then 39 else 35) 0 v))) ll (ipa_of_reg sec v)\<rparr>"

definition mk_TLBIRIPA :: "regime \<Rightarrow> security_state \<Rightarrow> u64 \<Rightarrow> bool \<Rightarrow> bool \<Rightarrow> tlbi_op" where
  "mk_TLBIRIPA rg sec v ll xs = \<lparr>op_ss = sec, op_regime = rg, op_excludeXS = xs, op_kind = TLBIRIPA v ll (ipa_of_reg sec v)\<rparr>"

text \<open>The last part of the three range matches.\<close>

definition range_match :: "u64 \<Rightarrow> tlb_entry \<Rightarrow> bool" where
  "range_match v e \<longleftrightarrow> tgMap (bitfield 47 46 v) = te_tg e
     \<and> (resTLBIttl (bitfield 47 46 v) (bitfield 38 37 v) \<or> bitfield 38 37 v = te_lookupLevel e)"

definition mvaa_lookupGen :: "tlbi_op \<Rightarrow> u64 \<Rightarrow> u16 \<Rightarrow> tlb_key" where
  "mvaa_lookupGen tlbi a vm = KeyType\<lparr>k_va := sext 56 a, k_ignoreAsn := True, k_vmid := vm, k_ss := op_ss tlbi, k_functional := True,
     k_regime := op_regime tlbi, k_mode := ModeRead\<rparr>"

definition mva_lookupGen :: "tlbi_op \<Rightarrow> u64 \<Rightarrow> u16 \<Rightarrow> u16 \<Rightarrow> tlb_key" where
  "mva_lookupGen tlbi a asn vm = KeyType\<lparr>k_va := sext 56 a, k_asn := asn, k_ignoreAsn := False, k_vmid := vm, k_ss := op_ss tlbi,
     k_functional := True, k_regime := op_regime tlbi, k_mode := ModeRead\<rparr>"

definition ipa_lookupGen :: "tlbi_op \<Rightarrow> u64 \<Rightarrow> u16 \<Rightarrow> tlb_key" where
  "ipa_lookupGen tlbi a vm = KeyType\<lparr>k_va := szext 56 a, k_ignoreAsn := True, k_vmid := vm, k_ss := op_ss tlbi, k_functional := True,
     k_regime := op_regime tlbi, k_mode := ModeRead\<rparr>"

definition all_matchEntry :: "tlbi_op \<Rightarrow> bool \<Rightarrow> u16 \<Rightarrow> tlb_entry \<Rightarrow> bool" where
  "all_matchEntry tlbi el2 vm e \<longleftrightarrow> te_valid e \<and> op_ss tlbi = te_ss e \<and> (te_vmid e = vm \<or> el2) \<and> checkRegime (op_regime tlbi) e"

definition asid_matchEntry :: "tlbi_op \<Rightarrow> u16 \<Rightarrow> bool \<Rightarrow> u16 \<Rightarrow> tlb_entry \<Rightarrow> bool" where
  "asid_matchEntry tlbi asn el2 vm e \<longleftrightarrow> te_valid e \<and> te_asid e = asn \<and> op_ss tlbi = te_ss e \<and> checkRegime (op_regime tlbi) e
     \<and> (te_vmid e = vm \<or> \<not> el2 \<or> \<not> useVMID (op_regime tlbi))"

definition mva_matchEntry :: "tlbi_op \<Rightarrow> u64 \<Rightarrow> u16 \<Rightarrow> bool \<Rightarrow> u16 \<Rightarrow> tlb_entry \<Rightarrow> bool" where
  "mva_matchEntry tlbi a asn ll vm e \<longleftrightarrow> te_match (mva_lookupGen tlbi a asn vm) e \<and> (\<not> ll \<or> \<not> te_partial e)"

definition matchEntry :: "tlbi_op \<Rightarrow> u16 \<Rightarrow> tlb_entry \<Rightarrow> bool" where
  "matchEntry tlbi vm e = (case op_kind tlbi of
       TLBIALL el2 el \<Rightarrow> all_matchEntry tlbi el2 vm e
     | ITLBIALL el2 \<Rightarrow> all_matchEntry tlbi el2 vm e \<and> tt_and (te_type e) TT_instruction
     | DTLBIALL el2 \<Rightarrow> all_matchEntry tlbi el2 vm e \<and> tt_and (te_type e) TT_data
     | TLBIALLEL \<Rightarrow> te_valid e \<and> op_ss tlbi = te_ss e \<and> checkRegime (op_regime tlbi) e
     | TLBIVMALL el2 s2 \<Rightarrow> te_valid e \<and> op_ss tlbi = te_ss e \<and> checkRegime (op_regime tlbi) e
         \<and> (te_vmid e = vm \<or> \<not> el2 \<or> \<not> useVMID (op_regime tlbi))
     | TLBIASID asn el2 \<Rightarrow> asid_matchEntry tlbi asn el2 vm e
     | ITLBIASID asn el2 \<Rightarrow> asid_matchEntry tlbi asn el2 vm e \<and> tt_and (te_type e) TT_instruction
     | DTLBIASID asn el2 \<Rightarrow> asid_matchEntry tlbi asn el2 vm e \<and> tt_and (te_type e) TT_data
     | TLBIALLN \<Rightarrow> te_valid e \<and> te_ss e = SS_NonSecure \<and> checkRegime (op_regime tlbi) e
     | TLBIMVAA a ll \<Rightarrow> te_match (mvaa_lookupGen tlbi a vm) e \<and> (\<not> ll \<or> \<not> te_partial e)
     | TLBIMVA a asn ll \<Rightarrow> mva_matchEntry tlbi a asn ll vm e
     | ITLBIMVA a asn \<Rightarrow> mva_matchEntry tlbi a asn False vm e \<and> tt_and (te_type e) TT_instruction
     | DTLBIMVA a asn \<Rightarrow> mva_matchEntry tlbi a asn False vm e \<and> tt_and (te_type e) TT_data
     | TLBIIPA a ll ipa \<Rightarrow> te_match (ipa_lookupGen tlbi a vm) e \<and> (\<not> ll \<or> \<not> te_partial e) \<and> ipa = te_ipaSpace e
     | TLBIRMVA v asn ll \<Rightarrow>
         te_match ((mva_lookupGen tlbi (startAddress v) asn vm)\<lparr>k_size := rangeSize v\<rparr>) e \<and> (\<not> ll \<or> \<not> te_partial e) \<and> range_match v e
     | TLBIRMVAA v ll \<Rightarrow>
         te_match ((mvaa_lookupGen tlbi (startAddress v) vm)\<lparr>k_size := rangeSize v\<rparr>) e \<and> (\<not> ll \<or> \<not> te_partial e) \<and> range_match v e
     | TLBIRIPA v ll ipa \<Rightarrow>
         te_match ((ipa_lookupGen tlbi (startAddress v) vm)\<lparr>k_size := rangeSize v\<rparr>) e \<and> (\<not> ll \<or> \<not> te_partial e)
         \<and> ipa = te_ipaSpace e \<and> range_match v e)"

definition op_match :: "tlbi_op \<Rightarrow> u16 \<Rightarrow> tlb_entry \<Rightarrow> bool" where
  "op_match tlbi vm e \<longleftrightarrow> matchEntry tlbi vm e \<and> (\<not> op_excludeXS tlbi \<or> \<not> te_xs e)"

end
