(* ===== verification/Tlb_Inj.thy ===== *)
theory Tlb_Inj
  imports Tlb_Entry Injector
begin

text \<open>
  \<open>CHAOSArmTLB\<close>: a hook of the TLB lookup that corrupts one field of the entry that hit, with a parity model
  for the frame number.  The injector sees the whole table of its TLB; the entry is an index into it.
\<close>

record tlb_inj = injector +
  ti_fault_type :: fault_type
  ti_fault_mask :: u64
  ti_num_bits :: int
  target_field :: string
  pfn_offset :: u64
  pfn_select_mode :: string
  ti_parity :: bool
  ti_first_tick :: tick
  ti_last_tick :: tick
  ti_numFaultsInjected :: nat
  ti_numBitFlips :: nat
  ti_numStuckAtZero :: nat
  ti_numStuckAtOne :: nat
  numParityDetectedInvalidated :: nat
  numParitySilentEscape :: nat

definition ti_stringToFaultType :: "string \<Rightarrow> fault_type" where
  "ti_stringToFaultType s = (if s = ''bit_flip'' then BitFlip else if s = ''stuck_at_zero'' then StuckAtZero
     else if s = ''stuck_at_one'' then StuckAtOne else RandomFault)"

definition CHAOSArmTLB :: "real \<Rightarrow> string \<Rightarrow> u64 \<Rightarrow> int \<Rightarrow> string \<Rightarrow> u64 \<Rightarrow> string \<Rightarrow> string \<Rightarrow> nat \<Rightarrow> nat \<Rightarrow> nat \<Rightarrow> rng \<Rightarrow> tlb_inj" where
  "CHAOSArmTLB prob ftype fmask bits field off sel prot fst_clk lst_clk cap r =
     \<lparr>probability = prob, first_clock = fst_clk, last_clock = lst_clk, max_faults = cap, faults_injected_count = 0, rng = r,
      ti_fault_type = ti_stringToFaultType ftype, ti_fault_mask = fmask, ti_num_bits = bits, target_field = field, pfn_offset = off,
      pfn_select_mode = sel, ti_parity = (prot = ''parity_interleaved''), ti_first_tick = 0, ti_last_tick = 0,
      ti_numFaultsInjected = 0, ti_numBitFlips = 0, ti_numStuckAtZero = 0, ti_numStuckAtOne = 0,
      numParityDetectedInvalidated = 0, numParitySilentEscape = 0\<rparr>"

definition ti_startup :: "tlb_inj \<Rightarrow> tlb_inj" where
  "ti_startup s = s\<lparr>ti_first_tick := first_clock s, ti_last_tick := (if last_clock s = 0 then 0 else last_clock s)\<rparr>"

definition ti_generateRandomMask :: "tlb_inj \<Rightarrow> u64 \<times> tlb_inj" where
  "ti_generateRandomMask s = (case or_random_bits 0 63 (nat (ti_num_bits s)) 0 (rng s) of (m, r) \<Rightarrow> (m, s\<lparr>rng := r\<rparr>))"

text \<open>The result says whether the fault survives.\<close>

definition applyProtectionModel :: "nat \<Rightarrow> u64 \<Rightarrow> u64 \<Rightarrow> tlb_entry list \<times> tlb_inj \<Rightarrow> bool \<times> tlb_entry list \<times> tlb_inj" where
  "applyProtectionModel i old_pfn new_pfn = (\<lambda>(es, s).
     if \<not> ti_parity s then (True, es, s)
     else if popcount (old_pfn XOR new_pfn) = 1
       then (False, es[i := te_invalidate ((es ! i)\<lparr>te_pfn := old_pfn\<rparr>)],
             s\<lparr>numParityDetectedInvalidated := numParityDetectedInvalidated s + 1\<rparr>)
     else (True, es, s\<lparr>numParitySilentEscape := numParitySilentEscape s + 1\<rparr>))"

text \<open>Frame numbers of the other valid entries of the same size.\<close>

definition donors :: "nat \<Rightarrow> tlb_entry list \<Rightarrow> u64 list" where
  "donors i es = [te_pfn (es ! j). j \<leftarrow> [0..<length es], te_valid (es ! j) \<and> j \<noteq> i \<and> te_size (es ! j) = te_size (es ! i)]"

definition pickMappedPagePfn :: "nat \<Rightarrow> tlb_entry list \<Rightarrow> tlb_inj \<Rightarrow> u64 option \<times> tlb_inj" where
  "pickMappedPagePfn i es s =
     (let cand = donors i es in
      if cand = [] then (None, s)
      else (case uniform_nat 0 (length cand - 1) (rng s) of (j, r) \<Rightarrow> (Some (cand ! j), s\<lparr>rng := r\<rparr>)))"

definition ti_count :: "tlb_inj \<Rightarrow> tlb_inj" where
  "ti_count s = count_fault (s\<lparr>ti_numFaultsInjected := ti_numFaultsInjected s + 1\<rparr>)"

text \<open>Write a frame number, count, and let the parity model look at it.\<close>

definition corrupt_pfn :: "nat \<Rightarrow> u64 \<Rightarrow> tlb_entry list \<times> tlb_inj \<Rightarrow> tlb_entry list \<times> tlb_inj" where
  "corrupt_pfn i new_pfn = (\<lambda>(es, s).
     snd (applyProtectionModel i (te_pfn (es ! i)) new_pfn (es[i := (es ! i)\<lparr>te_pfn := new_pfn\<rparr>], ti_count s)))"

text \<open>The mask of a small field: the low bits of the configured mask, or one random bit.\<close>

definition field_mask :: "nat \<Rightarrow> tlb_inj \<Rightarrow> 'a::len word \<times> tlb_inj" where
  "field_mask hi s = (if ti_fault_mask s \<noteq> 0 then (ucast (ti_fault_mask s), s)
     else (case uniform_nat 0 hi (rng s) of (b, r) \<Rightarrow> (push_bit b 1, s\<lparr>rng := r\<rparr>)))"

definition ti_choose_type :: "tlb_inj \<Rightarrow> fault_type \<times> tlb_inj" where
  "ti_choose_type s = (if ti_fault_type s = RandomFault
     then (case discrete [0.9, 0.05, 0.05] (rng s) of (i, r) \<Rightarrow> (fault_type_of_index i, s\<lparr>rng := r\<rparr>)) else (ti_fault_type s, s))"

definition ti_count_type :: "fault_type \<Rightarrow> tlb_inj \<Rightarrow> tlb_inj" where
  "ti_count_type f s = (case f of StuckAtZero \<Rightarrow> s\<lparr>ti_numStuckAtZero := ti_numStuckAtZero s + 1\<rparr>
     | StuckAtOne \<Rightarrow> s\<lparr>ti_numStuckAtOne := ti_numStuckAtOne s + 1\<rparr>
     | BitFlip \<Rightarrow> s\<lparr>ti_numBitFlips := ti_numBitFlips s + 1\<rparr> | RandomFault \<Rightarrow> s)"

definition pfn_fault :: "nat \<Rightarrow> tlb_entry list \<times> tlb_inj \<Rightarrow> tlb_entry list \<times> tlb_inj" where
  "pfn_fault i = (\<lambda>(es, s).
     (case ti_choose_type s of (f, s1) \<Rightarrow>
       (case (if ti_fault_mask s1 \<noteq> 0 then (ti_fault_mask s1, s1) else ti_generateRandomMask s1) of (m, s2) \<Rightarrow>
          if m = 0 then (es, s2)
          else corrupt_pfn i (apply_fault f m (te_pfn (es ! i))) (es, ti_count_type f s2))))"

text \<open>What happens once the draw has fired.\<close>

definition field_fault :: "nat \<Rightarrow> tlb_entry list \<times> tlb_inj \<Rightarrow> tlb_entry list \<times> tlb_inj" where
  "field_fault i = (\<lambda>(es, s). let e = es ! i in
     if pfn_select_mode s = ''mapped_page'' \<and> target_field s = ''pfn'' then
       (case pickMappedPagePfn i es s of (None, s1) \<Rightarrow> (es, s1) | (Some p, s1) \<Rightarrow> corrupt_pfn i p (es, s1))
     else if pfn_offset s \<noteq> 0 \<and> target_field s = ''pfn'' then corrupt_pfn i (te_pfn e + pfn_offset s) (es, s)
     else if target_field s = ''ap'' then
       (case field_mask 2 s of (m, s1) \<Rightarrow> (es[i := e\<lparr>te_ap := te_ap e XOR m\<rparr>], ti_count s1))
     else if target_field s = ''xn'' then (es[i := e\<lparr>te_xn := (\<not> te_xn e)\<rparr>], ti_count s)
     else if target_field s = ''attridx'' then
       (case field_mask 7 s of (m, s1) \<Rightarrow> (es[i := e\<lparr>te_innerAttrs := te_innerAttrs e XOR m\<rparr>], ti_count s1))
     else if target_field s = ''ng'' then (es[i := e\<lparr>te_vmid := te_vmid e XOR 1\<rparr>], ti_count s)
     else if target_field s = ''asid'' then
       (case field_mask 15 s of (m, s1) \<Rightarrow> (es[i := e\<lparr>te_asid := te_asid e XOR m\<rparr>], ti_count s1))
     else pfn_fault i (es, s))"

definition ti_maybeCorrupt :: "tick \<Rightarrow> nat \<Rightarrow> tlb_entry list \<times> tlb_inj \<Rightarrow> tlb_entry list \<times> tlb_inj" where
  "ti_maybeCorrupt now i = (\<lambda>(es, s).
     if probability s \<le> 0 then (es, s)
     else if now < ti_first_tick s then (es, s)
     else if ti_last_tick s \<noteq> 0 \<and> ti_last_tick s < now then (es, s)
     else if cap_reached s then (es, s)
     else (case bernoulli s of (hit, s1) \<Rightarrow> if \<not> hit then (es, s1) else field_fault i (es, s1)))"

subsection \<open>What a fault does\<close>

text \<open>The other fields of the injector do not change.\<close>

lemma ti_simps [simp]:
  "faults_injected_count (ti_count s) = Suc (faults_injected_count s)" "max_faults (ti_count s) = max_faults s" "ti_parity (ti_count s) = ti_parity s"
  "faults_injected_count (ti_count_type f s) = faults_injected_count s" "max_faults (ti_count_type f s) = max_faults s"
  "ti_parity (ti_count_type f s) = ti_parity s" "ti_fault_mask (ti_count_type f s) = ti_fault_mask s"
  "faults_injected_count (snd (ti_choose_type s)) = faults_injected_count s" "max_faults (snd (ti_choose_type s)) = max_faults s"
  "ti_parity (snd (ti_choose_type s)) = ti_parity s" "ti_fault_mask (snd (ti_choose_type s)) = ti_fault_mask s"
  "faults_injected_count (snd (ti_generateRandomMask s)) = faults_injected_count s" "max_faults (snd (ti_generateRandomMask s)) = max_faults s"
  "ti_parity (snd (ti_generateRandomMask s)) = ti_parity s"
  "faults_injected_count (snd (pickMappedPagePfn i es s)) = faults_injected_count s" "max_faults (snd (pickMappedPagePfn i es s)) = max_faults s"
  "ti_parity (snd (pickMappedPagePfn i es s)) = ti_parity s"
  by (simp_all add: ti_count_def count_fault_def ti_count_type_def ti_choose_type_def ti_generateRandomMask_def pickMappedPagePfn_def
      case_prod_unfold Let_def split: fault_type.splits)

lemma ti_bernoulli [simp]:
  "ti_parity (snd (bernoulli s)) = ti_parity s" "target_field (snd (bernoulli s)) = target_field s"
  "pfn_select_mode (snd (bernoulli s)) = pfn_select_mode s" "pfn_offset (snd (bernoulli s)) = pfn_offset s"
  "ti_fault_mask (snd (bernoulli s)) = ti_fault_mask s" "ti_fault_type (snd (bernoulli s)) = ti_fault_type s"
  by (simp_all add: bernoulli_def case_prod_unfold)

lemma field_mask_simps [simp]:
  "faults_injected_count (snd (field_mask hi s)) = faults_injected_count s" "max_faults (snd (field_mask hi s)) = max_faults s"
  by (simp_all add: field_mask_def case_prod_unfold)

text \<open>The entry after a frame number has been written and the parity model has looked at it.\<close>

definition parity_entry :: "bool \<Rightarrow> u64 \<Rightarrow> tlb_entry \<Rightarrow> tlb_entry" where
  "parity_entry parity p e = (if parity \<and> popcount (te_pfn e XOR p) = 1 then te_invalidate e else e\<lparr>te_pfn := p\<rparr>)"

lemma corrupt_pfn_spec:
  shows "fst (corrupt_pfn i p (es, s)) = es[i := parity_entry (ti_parity s) p (es ! i)]"
    "faults_injected_count (snd (corrupt_pfn i p (es, s))) = Suc (faults_injected_count s)"
    "max_faults (snd (corrupt_pfn i p (es, s))) = max_faults s"
  by (cases "i < length es"; auto simp: corrupt_pfn_def applyProtectionModel_def parity_entry_def te_invalidate_def list_update_beyond)+

lemma donor_of_pick:
  assumes "fst (pickMappedPagePfn i es s) = Some p"
  shows "\<exists>j < length es. j \<noteq> i \<and> te_valid (es ! j) \<and> te_size (es ! j) = te_size (es ! i) \<and> te_pfn (es ! j) = p"
proof -
  define cand where "cand = donors i es"
  have ne: "cand \<noteq> []" using assms by (auto simp: pickMappedPagePfn_def cand_def Let_def split: if_splits)
  let ?j = "fst (uniform_nat 0 (length cand - 1) (rng s))"
  have "?j \<le> length cand - 1" using uniform_nat_range [of 0 "length cand - 1" "rng s"] by simp
  then have "?j < length cand" using ne by (cases cand) auto
  moreover have "p = cand ! ?j" using assms ne by (simp add: pickMappedPagePfn_def cand_def Let_def case_prod_unfold)
  ultimately have "p \<in> set (donors i es)" by (simp add: cand_def)
  then show ?thesis by (auto simp: donors_def split: if_splits)
qed

text \<open>The changes a fault can make, by the configured field.\<close>

definition faulted_entry :: "tlb_inj \<Rightarrow> nat \<Rightarrow> tlb_entry list \<Rightarrow> tlb_entry \<Rightarrow> bool" where
  "faulted_entry s i es e' \<longleftrightarrow> (let e = es ! i in
     if target_field s = ''ap'' then \<exists>m. e' = e\<lparr>te_ap := te_ap e XOR m\<rparr>
     else if target_field s = ''xn'' then e' = e\<lparr>te_xn := (\<not> te_xn e)\<rparr>
     else if target_field s = ''attridx'' then \<exists>m. e' = e\<lparr>te_innerAttrs := te_innerAttrs e XOR m\<rparr>
     else if target_field s = ''ng'' then e' = e\<lparr>te_vmid := te_vmid e XOR 1\<rparr>
     else if target_field s = ''asid'' then \<exists>m. e' = e\<lparr>te_asid := te_asid e XOR m\<rparr>
     else \<exists>p. e' = parity_entry (ti_parity s) p e
       \<and> (target_field s = ''pfn'' \<and> pfn_select_mode s = ''mapped_page'' \<longrightarrow>
            (\<exists>j < length es. j \<noteq> i \<and> te_valid (es ! j) \<and> te_size (es ! j) = te_size e \<and> te_pfn (es ! j) = p))
       \<and> (target_field s = ''pfn'' \<and> pfn_select_mode s \<noteq> ''mapped_page'' \<and> pfn_offset s \<noteq> 0 \<longrightarrow> p = te_pfn e + pfn_offset s))"

lemma pfn_fault_spec:
  shows "max_faults (snd (pfn_fault i (es, s))) = max_faults s
    \<and> (fst (pfn_fault i (es, s)) = es \<and> faults_injected_count (snd (pfn_fault i (es, s))) = faults_injected_count s
      \<or> (\<exists>p. fst (pfn_fault i (es, s)) = es[i := parity_entry (ti_parity s) p (es ! i)]
          \<and> faults_injected_count (snd (pfn_fault i (es, s))) = Suc (faults_injected_count s)))"
proof -
  let ?s1 = "snd (ti_choose_type s)"
  define m where "m = fst (if ti_fault_mask ?s1 \<noteq> 0 then (ti_fault_mask ?s1, ?s1) else ti_generateRandomMask ?s1)"
  define s2 where "s2 = snd (if ti_fault_mask ?s1 \<noteq> 0 then (ti_fault_mask ?s1, ?s1) else ti_generateRandomMask ?s1)"
  have s2: "max_faults s2 = max_faults s" "faults_injected_count s2 = faults_injected_count s" "ti_parity s2 = ti_parity s"
    by (simp_all add: s2_def)
  have "pfn_fault i (es, s) = (if m = 0 then (es, s2)
      else corrupt_pfn i (apply_fault (fst (ti_choose_type s)) m (te_pfn (es ! i))) (es, ti_count_type (fst (ti_choose_type s)) s2))"
    by (simp add: pfn_fault_def case_prod_unfold m_def s2_def)
  then show ?thesis using corrupt_pfn_spec [of i _ es] by (auto simp: s2)
qed

lemma field_fault_spec:
  shows "max_faults (snd (field_fault i (es, s))) = max_faults s
    \<and> (fst (field_fault i (es, s)) = es \<and> faults_injected_count (snd (field_fault i (es, s))) = faults_injected_count s
      \<or> (\<exists>e'. faulted_entry s i es e' \<and> fst (field_fault i (es, s)) = es[i := e']
          \<and> faults_injected_count (snd (field_fault i (es, s))) = Suc (faults_injected_count s)))"
proof -
  note c = corrupt_pfn_spec [of i _ es]
  consider "target_field s = ''pfn''" "pfn_select_mode s = ''mapped_page''"
    | "target_field s = ''pfn''" "pfn_select_mode s \<noteq> ''mapped_page''" "pfn_offset s \<noteq> 0"
    | "target_field s = ''ap''" | "target_field s = ''xn''" | "target_field s = ''attridx''" | "target_field s = ''ng''" | "target_field s = ''asid''"
    | "target_field s \<notin> {''ap'', ''xn'', ''attridx'', ''ng'', ''asid''}" "target_field s \<noteq> ''pfn'' \<or> pfn_select_mode s \<noteq> ''mapped_page'' \<and> pfn_offset s = 0"
    by fastforce
  then show ?thesis
  proof cases
    case 1
    let ?q = "pickMappedPagePfn i es s"
    show ?thesis
    proof (cases "fst ?q")
      case None
      then have "field_fault i (es, s) = (es, snd ?q)" using 1 by (simp add: field_fault_def case_prod_unfold)
      then show ?thesis by simp
    next
      case (Some p)
      then have "field_fault i (es, s) = corrupt_pfn i p (es, snd ?q)" using 1 by (simp add: field_fault_def case_prod_unfold)
      moreover have "faulted_entry s i es (parity_entry (ti_parity s) p (es ! i))"
        unfolding faulted_entry_def Let_def using 1 donor_of_pick [OF Some] by (simp, intro exI [of _ p]) simp
      ultimately show ?thesis using c [of p "snd ?q"] by (simp, blast)
    qed
  next
    case 2
    then have "field_fault i (es, s) = corrupt_pfn i (te_pfn (es ! i) + pfn_offset s) (es, s)" by (simp add: field_fault_def)
    moreover have "faulted_entry s i es (parity_entry (ti_parity s) (te_pfn (es ! i) + pfn_offset s) (es ! i))"
      unfolding faulted_entry_def Let_def using 2 by simp
    ultimately show ?thesis using c [of "te_pfn (es ! i) + pfn_offset s" s] by (simp, blast)
  next
    case 8
    then have "field_fault i (es, s) = pfn_fault i (es, s)" by (auto simp: field_fault_def)
    moreover have "faulted_entry s i es (parity_entry (ti_parity s) p (es ! i))" for p
      unfolding faulted_entry_def Let_def using 8 by (simp, blast)
    ultimately show ?thesis using pfn_fault_spec [of i es s] by (simp, blast)
  qed (auto simp: field_fault_def faulted_entry_def case_prod_unfold Let_def)
qed

lemma ti_maybeCorrupt_spec:
  shows "max_faults (snd (ti_maybeCorrupt now i (es, s))) = max_faults s
    \<and> (fst (ti_maybeCorrupt now i (es, s)) = es \<and> faults_injected_count (snd (ti_maybeCorrupt now i (es, s))) = faults_injected_count s
      \<or> \<not> cap_reached s \<and> ti_first_tick s \<le> now \<and> (ti_last_tick s = 0 \<or> now \<le> ti_last_tick s) \<and>
        (\<exists>e'. faulted_entry s i es e' \<and> fst (ti_maybeCorrupt now i (es, s)) = es[i := e']
          \<and> faults_injected_count (snd (ti_maybeCorrupt now i (es, s))) = Suc (faults_injected_count s)))"
proof -
  have f: "faulted_entry (snd (bernoulli s)) i es = faulted_entry s i es" by (simp add: faulted_entry_def fun_eq_iff)
  show ?thesis using field_fault_spec [of i es "snd (bernoulli s)"] unfolding f
    by (auto simp: ti_maybeCorrupt_def case_prod_unfold not_less)
qed

text \<open>The hook meets the contract of a capped hook: its value is the table.\<close>

definition tlb_hook :: "tick \<times> nat \<times> tlb_entry list \<Rightarrow> tlb_inj \<Rightarrow> tlb_entry list \<times> tlb_inj" where
  "tlb_hook = (\<lambda>(now, i, es) s. ti_maybeCorrupt now i (es, s))"

interpretation tlbhk: hook_injector tlb_hook "\<lambda>(now, i, es). es" faults_injected_count max_faults
proof (unfold_locales, goal_cases)
  case (1 x s)
  then show ?case using ti_maybeCorrupt_spec [of "fst x" "fst (snd x)" "snd (snd x)" s] by (simp add: tlb_hook_def case_prod_unfold)
next
  case (2 x s)
  then show ?case using ti_maybeCorrupt_spec [of "fst x" "fst (snd x)" "snd (snd x)" s] by (auto simp: tlb_hook_def case_prod_unfold)
next
  case (3 s x)
  then have "cap_reached s" by (simp add: cap_reached_def)
  then show ?case by (simp add: tlb_hook_def case_prod_unfold ti_maybeCorrupt_def)
next
  case (4 x s)
  then show ?case using ti_maybeCorrupt_spec [of "fst x" "fst (snd x)" "snd (snd x)" s] by (auto simp: tlb_hook_def case_prod_unfold)
qed

text \<open>The frame number is shifted by the page size, so its top bits never reach the address.\<close>

lemma pAddr_pfn:
  assumes "te_size e = mask (te_N e)"
  shows "pAddr va (e\<lparr>te_pfn := p\<rparr>) = pAddr va e \<longleftrightarrow> push_bit (te_N e) (te_pfn e XOR p) = 0"
proof -
  let ?n = "te_N e"
  have h: "push_bit ?n x OR (va AND mask ?n) = push_bit ?n y OR (va AND mask ?n) \<longleftrightarrow> push_bit ?n x = push_bit ?n y" for x y :: u64
    by (auto simp: bit_eq_iff bit_simps)
  have z: "push_bit ?n (te_pfn e XOR p) = 0 \<longleftrightarrow> push_bit ?n (te_pfn e) = push_bit ?n p"
    by (auto simp: bit_eq_iff bit_simps)
  show ?thesis unfolding z using h by (auto simp: pAddr_def assms)
qed


text \<open>A single-bit flip of the frame number, unprotected and under parity, and one of a bit the shift drops.\<close>

definition demo_te :: tlb_entry where
  "demo_te = TlbEntry\<lparr>te_pfn := 0x10, te_size := mask 12, te_vpn := 5, te_N := 12, te_valid := True\<rparr>"

definition demo_ti :: "string \<Rightarrow> u64 \<Rightarrow> tlb_inj" where
  "demo_ti prot m = ti_startup (CHAOSArmTLB 1 ''bit_flip'' m 1 ''pfn'' 0 ''bit_flip'' prot 0 0 1 (sconst 0))"


end
