(* ===== verification/Tlb.thy ===== *)
theory Tlb
  imports Tlb_Inj
begin

text \<open>
  The Arm TLB (\<open>arch/arm/tlb.cc\<close> over \<open>base/cache/associative_cache.hh\<close>, set-associative indexing and the default
  replacement policy \<open>LRU\<close>) with the hook of the TLB injector, and the TLB operations of the MMU (\<open>arch/arm/mmu.cc\<close>):
  lookup and refill through the levels, insertion, maintenance.  An entry pointer is an index into the
  table; the TLBs of an MMU are a store, a level list names a TLB and its next levels.
\<close>

record tlb =
  t_entries :: "tlb_entry list"
  t_assoc :: nat
  t_prev :: "nat option"
  observedPageSizes :: "nat list"
  partialLevels :: "nat \<Rightarrow> bool"
  walkCache :: bool
  t_vmid :: u16
  t_type :: type_tlb
  chaosTLB :: "tlb_inj option"
  partialHits :: nat
  instHits :: nat
  instMisses :: nat
  readHits :: nat
  readMisses :: nat
  writeHits :: nat
  writeMisses :: nat
  tlb_inserts :: nat
  flushTlb :: nat
  flushedEntries :: nat
  instRefills :: nat
  dataRefills :: nat

text \<open>The number of entries must be a multiple of the associativity and the number of sets a power of two.\<close>

definition TLB :: "nat \<Rightarrow> nat \<Rightarrow> nat list \<Rightarrow> type_tlb \<Rightarrow> tlb option" where
  "TLB sz assoc levels ty =
     (let sets = sz div assoc in
      if assoc = 0 \<or> sz mod assoc \<noteq> 0 \<or> sets = 0 \<or> sets AND (sets - 1) \<noteq> 0 then None
      else Some \<lparr>t_entries = replicate sz TlbEntry, t_assoc = assoc, t_prev = None, observedPageSizes = [],
        partialLevels = (\<lambda>l. l \<in> set levels), walkCache = (\<exists>l \<in> set levels. l < 3), t_vmid = 0, t_type = ty, chaosTLB = None,
        partialHits = 0, instHits = 0, instMisses = 0, readHits = 0, readMisses = 0, writeHits = 0, writeMisses = 0,
        tlb_inserts = 0, flushTlb = 0, flushedEntries = 0, instRefills = 0, dataRefills = 0\<rparr>)"

definition setVMID :: "u16 \<Rightarrow> tlb \<Rightarrow> tlb" where
  "setVMID v t = t\<lparr>t_vmid := v\<rparr>"

subsection \<open>The table\<close>

definition numSets :: "tlb \<Rightarrow> nat" where
  "numSets t = length (t_entries t) div t_assoc t"

definition set_number :: "tlb_key \<Rightarrow> tlb \<Rightarrow> nat" where
  "set_number k t = unat (drop_bit (k_pageSize k) (k_va k) AND of_nat (numSets t - 1))"

definition getPossibleEntries :: "tlb_key \<Rightarrow> tlb \<Rightarrow> nat list" where
  "getPossibleEntries k t = map (\<lambda>way. set_number k t * t_assoc t + way) [0..<t_assoc t]"

definition sized_match :: "tlb_key \<Rightarrow> tlb \<Rightarrow> nat \<Rightarrow> bool" where
  "sized_match k t i \<longleftrightarrow> te_N (t_entries t ! i) = k_pageSize k \<and> te_match k (t_entries t ! i)"

text \<open>The last matched entry is tried first.\<close>

definition findEntry :: "tlb_key \<Rightarrow> tlb \<Rightarrow> nat option \<times> tlb" where
  "findEntry k t =
     (let search = (case find (sized_match k t) (getPossibleEntries k t) of None \<Rightarrow> (None, t) | Some i \<Rightarrow> (Some i, t\<lparr>t_prev := Some i\<rparr>))
      in case t_prev t of None \<Rightarrow> search | Some p \<Rightarrow> if sized_match k t p then (Some p, t) else search)"

definition lru_touch :: "tick \<Rightarrow> tlb_entry \<Rightarrow> tlb_entry" where
  "lru_touch now e = e\<lparr>lastTouchTick := now\<rparr>"

definition accessEntry :: "tick \<Rightarrow> tlb_key \<Rightarrow> tlb \<Rightarrow> nat option \<times> tlb" where
  "accessEntry now k t = (case findEntry k t of (None, t1) \<Rightarrow> (None, t1)
     | (Some i, t1) \<Rightarrow> (Some i, if k_functional k then t1 else t1\<lparr>t_entries := (t_entries t1)[i := lru_touch now (t_entries t1 ! i)]\<rparr>))"

definition lru_getVictim :: "tlb_entry list \<Rightarrow> nat list \<Rightarrow> nat option" where
  "lru_getVictim es cands = (case cands of [] \<Rightarrow> None
     | c # cs \<Rightarrow> Some (foldl (\<lambda>v d. if lastTouchTick (es ! d) < lastTouchTick (es ! v) then d else v) c cands))"

definition slot_invalidate :: "tlb_entry \<Rightarrow> tlb_entry" where
  "slot_invalidate e = (te_invalidate e)\<lparr>lastTouchTick := 0\<rparr>"

definition invalidatePrev :: "nat \<Rightarrow> tlb \<Rightarrow> tlb" where
  "invalidatePrev i t = (if t_prev t = Some i then t\<lparr>t_prev := None\<rparr> else t)"

subsection \<open>Operations\<close>

fun access_sizes :: "tick \<Rightarrow> tlb_key \<Rightarrow> nat list \<Rightarrow> tlb \<Rightarrow> nat option \<times> tlb" where
  "access_sizes now k [] t = (None, t)"
| "access_sizes now k (n # ns) t = (case accessEntry now (k\<lparr>k_pageSize := n\<rparr>) t of (Some i, t1) \<Rightarrow> (Some i, t1)
     | (None, t1) \<Rightarrow> access_sizes now k ns t1)"

definition chaos_hook :: "tick \<Rightarrow> nat option \<Rightarrow> tlb \<Rightarrow> tlb" where
  "chaos_hook now r t = (case (r, chaosTLB t) of
       (Some i, Some s) \<Rightarrow> (case ti_maybeCorrupt now i (t_entries t, s) of (es, s') \<Rightarrow> t\<lparr>t_entries := es, chaosTLB := Some s'\<rparr>)
     | _ \<Rightarrow> t)"

definition lookup_stats :: "tlb_key \<Rightarrow> nat option \<Rightarrow> tlb \<Rightarrow> tlb" where
  "lookup_stats k r t = (case r of
       None \<Rightarrow> (case k_mode k of ModeExecute \<Rightarrow> t\<lparr>instMisses := instMisses t + 1\<rparr> | ModeWrite \<Rightarrow> t\<lparr>writeMisses := writeMisses t + 1\<rparr>
          | ModeRead \<Rightarrow> t\<lparr>readMisses := readMisses t + 1\<rparr>)
     | Some i \<Rightarrow> let t1 = (if te_partial (t_entries t ! i) then t\<lparr>partialHits := partialHits t + 1\<rparr> else t) in
         (case k_mode k of ModeExecute \<Rightarrow> t1\<lparr>instHits := instHits t1 + 1\<rparr> | ModeWrite \<Rightarrow> t1\<lparr>writeHits := writeHits t1 + 1\<rparr>
          | ModeRead \<Rightarrow> t1\<lparr>readHits := readHits t1 + 1\<rparr>))"

definition tlb_lookup :: "tick \<Rightarrow> tlb_key \<Rightarrow> tlb \<Rightarrow> nat option \<times> tlb" where
  "tlb_lookup now k t = (case access_sizes now k (observedPageSizes t) t of (r, t1) \<Rightarrow>
     let t2 = chaos_hook now r t1 in (r, if k_functional k then t2 else lookup_stats k r t2))"

definition checkPromotion :: "nat \<Rightarrow> mmu_mode \<Rightarrow> tlb \<Rightarrow> tlb" where
  "checkPromotion i mode t =
     (let acc_type = (if mode = ModeExecute then TT_instruction else TT_data); e = t_entries t ! i in
      if \<not> tt_and (te_type e) acc_type then t\<lparr>t_entries := (t_entries t)[i := e\<lparr>te_type := TT_unified\<rparr>]\<rparr> else t)"

definition observe :: "nat \<Rightarrow> nat list \<Rightarrow> nat list" where
  "observe n ns = (if n \<in> set ns then ns else insort n ns)"

definition tlb_insert :: "tick \<Rightarrow> tlb_key \<Rightarrow> tlb_entry \<Rightarrow> tlb \<Rightarrow> tlb option" where
  "tlb_insert now k e t = (case lru_getVictim (t_entries t) (getPossibleEntries k t) of None \<Rightarrow> None
     | Some v \<Rightarrow>
       let es1 = (t_entries t)[v := slot_invalidate (t_entries t ! v)];
           es2 = es1[v := te_assign (es1 ! v) e];
           es3 = es2[v := lru_touch now (es2 ! v)];
           t1 = invalidatePrev v (t\<lparr>t_entries := es3\<rparr>);
           t2 = t1\<lparr>observedPageSizes := observe (te_N e) (observedPageSizes t1), tlb_inserts := tlb_inserts t1 + 1\<rparr>
       in Some (if k_mode k = ModeExecute then t2\<lparr>instRefills := instRefills t2 + 1\<rparr> else t2\<lparr>dataRefills := dataRefills t2 + 1\<rparr>))"

text \<open>Both flushes visit every entry once.\<close>

definition flushAll :: "tlb \<Rightarrow> tlb" where
  "flushAll t = t\<lparr>t_entries := map (\<lambda>e. if te_valid e then slot_invalidate e else e) (t_entries t), t_prev := None,
     flushedEntries := flushedEntries t + length (filter te_valid (t_entries t)), flushTlb := flushTlb t + 1, observedPageSizes := []\<rparr>"

definition tlb_flush :: "tlbi_op \<Rightarrow> tlb \<Rightarrow> tlb" where
  "tlb_flush tlbi t =
     (let hit = op_match tlbi (t_vmid t); es = map (\<lambda>e. if hit e then slot_invalidate e else e) (t_entries t);
          prev = (case t_prev t of None \<Rightarrow> None | Some p \<Rightarrow> if hit (t_entries t ! p) then None else Some p);
          valid_entry = (\<exists>e \<in> set es. te_valid e)
      in t\<lparr>t_entries := es, t_prev := prev, flushedEntries := flushedEntries t + length (filter hit (t_entries t)),
           flushTlb := flushTlb t + 1, observedPageSizes := (if valid_entry then observedPageSizes t else [])\<rparr>)"

subsection \<open>Levels\<close>

definition caches_entry :: "tlb_entry \<Rightarrow> tlb \<Rightarrow> bool" where
  "caches_entry e t \<longleftrightarrow> \<not> te_partial e \<or> partialLevels t (te_lookupLevel e)"

text \<open>The result is the level and the index of the entry.\<close>

fun multiLookup :: "tick \<Rightarrow> tlb_key \<Rightarrow> nat list \<Rightarrow> (nat \<Rightarrow> tlb) \<Rightarrow> ((nat \<times> nat) option \<times> (nat \<Rightarrow> tlb)) option" where
  "multiLookup now k [] st = Some (None, st)"
| "multiLookup now k (a # as) st = (case tlb_lookup now k (st a) of
       (Some i, t) \<Rightarrow> Some (Some (a, i), st(a := checkPromotion i (k_mode k) t))
     | (None, t) \<Rightarrow> (case multiLookup now k as (st(a := t)) of None \<Rightarrow> None
         | Some (None, st1) \<Rightarrow> Some (None, st1)
         | Some (Some (b, j), st1) \<Rightarrow>
             let e = t_entries (st1 b) ! j in
             if \<not> k_functional k \<and> caches_entry e (st1 a)
             then map_option (\<lambda>t'. (Some (b, j), st1(a := t'))) (tlb_insert now k e (st1 a))
             else Some (Some (b, j), st1)))"

fun multiInsert :: "tick \<Rightarrow> tlb_key \<Rightarrow> tlb_entry \<Rightarrow> nat list \<Rightarrow> (nat \<Rightarrow> tlb) \<Rightarrow> (nat \<Rightarrow> tlb) option" where
  "multiInsert now k e [] st = Some st"
| "multiInsert now k e (a # as) st =
     (if caches_entry e (st a) then (case tlb_insert now k e (st a) of None \<Rightarrow> None | Some t \<Rightarrow> multiInsert now k e as (st(a := t)))
      else multiInsert now k e as st)"

subsection \<open>The MMU\<close>

record mmu =
  m_tlbs :: "nat \<Rightarrow> tlb"
  m_itb :: "nat list"
  m_dtb :: "nat list"
  m_itbStage2 :: "nat list"
  m_dtbStage2 :: "nat list"
  m_instruction :: "nat list"
  m_data :: "nat list"
  m_unified :: "nat list"

definition add_id :: "nat \<Rightarrow> nat list \<Rightarrow> nat list" where
  "add_id a xs = (if a \<in> set xs then xs else xs @ [a])"

fun traverse_hierarchy :: "nat list \<Rightarrow> mmu \<Rightarrow> mmu" where
  "traverse_hierarchy [] m = m"
| "traverse_hierarchy (a # as) m = traverse_hierarchy as (case t_type (m_tlbs m a) of
       TT_instruction \<Rightarrow> m\<lparr>m_instruction := add_id a (m_instruction m)\<rparr>
     | TT_data \<Rightarrow> m\<lparr>m_data := add_id a (m_data m)\<rparr>
     | TT_unified \<Rightarrow> m\<lparr>m_unified := add_id a (m_unified m)\<rparr>)"

definition mmu_init :: "mmu \<Rightarrow> mmu" where
  "mmu_init m = traverse_hierarchy (m_dtb m) (traverse_hierarchy (m_itb m) m)"

definition getTlb :: "mmu_mode \<Rightarrow> bool \<Rightarrow> mmu \<Rightarrow> nat list" where
  "getTlb mode stage2 m = (if mode = ModeExecute then (if stage2 then m_itbStage2 m else m_itb m)
     else if stage2 then m_dtbStage2 m else m_dtb m)"

definition mmu_key :: "u64 \<Rightarrow> u16 \<Rightarrow> u16 \<Rightarrow> security_state \<Rightarrow> bool \<Rightarrow> bool \<Rightarrow> regime \<Rightarrow> mmu_mode \<Rightarrow> tlb_key" where
  "mmu_key va asid vmid sec functional ignore_asn rg mode = KeyType\<lparr>k_va := va, k_asn := asid, k_ignoreAsn := ignore_asn, k_vmid := vmid,
     k_ss := sec, k_functional := functional, k_regime := rg, k_mode := mode\<rparr>"

definition mmu_lookup :: "tick \<Rightarrow> u64 \<Rightarrow> u16 \<Rightarrow> u16 \<Rightarrow> security_state \<Rightarrow> bool \<Rightarrow> bool \<Rightarrow> regime \<Rightarrow> bool \<Rightarrow> mmu_mode \<Rightarrow> mmu
    \<Rightarrow> ((nat \<times> nat) option \<times> mmu) option" where
  "mmu_lookup now va asid vmid sec functional ignore_asn rg stage2 mode m =
     map_option (\<lambda>(r, st). (r, m\<lparr>m_tlbs := st\<rparr>))
       (multiLookup now (mmu_key va asid vmid sec functional ignore_asn rg mode) (getTlb mode stage2 m) (m_tlbs m))"

text \<open>\<open>translateFunctional\<close>, given the state it reads of the system registers.\<close>

definition translateFunctional :: "tick \<Rightarrow> u64 \<Rightarrow> u16 \<Rightarrow> u16 \<Rightarrow> security_state \<Rightarrow> regime \<Rightarrow> bool \<Rightarrow> mmu \<Rightarrow> (u64 option \<times> mmu) option" where
  "translateFunctional now va asid vmid sec rg directToStage2 m =
     map_option (\<lambda>(r, m'). (map_option (\<lambda>(a, i). pAddr va (t_entries (m_tlbs m' a) ! i)) r, m'))
       (mmu_lookup now va asid vmid sec True False rg directToStage2 ModeRead m)"

definition mmu_insert :: "tick \<Rightarrow> tlb_entry \<Rightarrow> mmu_mode \<Rightarrow> bool \<Rightarrow> mmu \<Rightarrow> mmu option" where
  "mmu_insert now e mode stage2 m =
     map_option (\<lambda>st. m\<lparr>m_tlbs := st\<rparr>) (multiInsert now (key_of_entry e) e (getTlb mode stage2 m) (m_tlbs m))"

text \<open>A loop that applies an operation to each of the listed TLBs.\<close>

definition each_tlb :: "(tlb \<Rightarrow> tlb) \<Rightarrow> nat list \<Rightarrow> mmu \<Rightarrow> mmu" where
  "each_tlb f ids m = m\<lparr>m_tlbs := fold (\<lambda>a st. st(a := f (st a))) ids (m_tlbs m)\<rparr>"

definition flushStage1 :: "tlbi_op \<Rightarrow> mmu \<Rightarrow> mmu" where
  "flushStage1 tlbi m = each_tlb (tlb_flush tlbi) (m_unified m) (each_tlb (tlb_flush tlbi) (m_data m) (each_tlb (tlb_flush tlbi) (m_instruction m) m))"

definition flushStage2 :: "tlbi_op \<Rightarrow> mmu \<Rightarrow> mmu" where
  "flushStage2 tlbi m = each_tlb (tlb_flush tlbi) (take 1 (m_dtbStage2 m)) (each_tlb (tlb_flush tlbi) (take 1 (m_itbStage2 m)) m)"

definition stage1Flush :: "tlbi_op \<Rightarrow> bool" where
  "stage1Flush tlbi = (case op_kind tlbi of TLBIIPA a ll ipa \<Rightarrow> False | TLBIRIPA v ll ipa \<Rightarrow> False | _ \<Rightarrow> True)"

definition stage2Flush :: "tlbi_op \<Rightarrow> bool" where
  "stage2Flush tlbi = (case op_kind tlbi of TLBIALL el2 el \<Rightarrow> el = 2
     | TLBIALLEL \<Rightarrow> op_regime tlbi = R_EL10 \<or> op_regime tlbi = R_EL20
     | TLBIVMALL el2 s2 \<Rightarrow> s2
     | TLBIALLN \<Rightarrow> op_regime tlbi \<noteq> R_EL2
     | _ \<Rightarrow> False)"

definition mmu_flush :: "tlbi_op \<Rightarrow> mmu \<Rightarrow> mmu" where
  "mmu_flush tlbi m = (let m1 = (if stage1Flush tlbi then flushStage1 tlbi m else m) in if stage2Flush tlbi then flushStage2 tlbi m1 else m1)"

definition iflush :: "tlbi_op \<Rightarrow> mmu \<Rightarrow> mmu" where
  "iflush tlbi m = each_tlb (tlb_flush tlbi) (m_unified m) (each_tlb (tlb_flush tlbi) (m_instruction m) m)"

definition dflush :: "tlbi_op \<Rightarrow> mmu \<Rightarrow> mmu" where
  "dflush tlbi m = each_tlb (tlb_flush tlbi) (m_unified m) (each_tlb (tlb_flush tlbi) (m_data m) m)"

definition mmu_flushAll :: "mmu \<Rightarrow> mmu" where
  "mmu_flushAll m = each_tlb flushAll (take 1 (m_dtbStage2 m)) (each_tlb flushAll (take 1 (m_itbStage2 m))
     (each_tlb flushAll (m_unified m) (each_tlb flushAll (m_data m) (each_tlb flushAll (m_instruction m) m))))"

definition mmu_setVMID :: "u16 \<Rightarrow> mmu \<Rightarrow> mmu" where
  "mmu_setVMID v m = each_tlb (setVMID v) (m_unified m) (each_tlb (setVMID v) (m_data m) (each_tlb (setVMID v) (m_instruction m)
     (each_tlb (setVMID v) (take 1 (m_dtbStage2 m)) (each_tlb (setVMID v) (take 1 (m_itbStage2 m)) m))))"

text \<open>\<open>operator()\<close> of the maintenance operations, without the checker CPU.\<close>

definition tlbi_apply :: "tlbi_op \<Rightarrow> mmu \<Rightarrow> mmu" where
  "tlbi_apply tlbi m = (case op_kind tlbi of
       ITLBIALL el2 \<Rightarrow> iflush tlbi m | DTLBIALL el2 \<Rightarrow> dflush tlbi m
     | TLBIASID asn el2 \<Rightarrow> flushStage1 tlbi m | ITLBIASID asn el2 \<Rightarrow> iflush tlbi m | DTLBIASID asn el2 \<Rightarrow> dflush tlbi m
     | TLBIMVAA a ll \<Rightarrow> flushStage1 tlbi m | TLBIMVA a asn ll \<Rightarrow> flushStage1 tlbi m
     | ITLBIMVA a asn \<Rightarrow> iflush tlbi m | DTLBIMVA a asn \<Rightarrow> dflush tlbi m
     | TLBIRMVA v asn ll \<Rightarrow> flushStage1 tlbi m | TLBIRMVAA v ll \<Rightarrow> flushStage1 tlbi m
     | TLBIIPA a ll ipa \<Rightarrow> flushStage2 tlbi m | TLBIRIPA v ll ipa \<Rightarrow> flushStage2 tlbi m
     | _ \<Rightarrow> mmu_flush tlbi m)"

end
