(* ===== verification/Tlb_Table.thy ===== *)
theory Tlb_Table
  imports Tlb
begin

text \<open>
  The table of the TLB: which entries a lookup can find.  \<open>tlb_wf\<close> holds in every run; \<open>placed\<close> says that every valid entry
  is in the set its own page number selects, and holds as long as insertions use such a key.  Then a lookup
  misses only when no entry matches, and a hit is a matching entry of the smallest page size.
\<close>

subsection \<open>Pages\<close>

text \<open>An entry maps an aligned page of \<open>2 ^ N\<close> bytes that lies within the address space.\<close>

definition page_ok :: "tlb_entry \<Rightarrow> bool" where
  "page_ok e \<longleftrightarrow> te_N e < 64 \<and> te_size e = mask (te_N e) \<and> drop_bit (te_N e) (push_bit (te_N e) (te_vpn e)) = te_vpn e"

text \<open>The table walker sets \<open>vpn\<close> to \<open>vaddr >> N\<close> and \<open>size\<close> to \<open>2 ^ N - 1\<close>.\<close>

lemma walker_page_ok: "te_N e < 64 \<Longrightarrow> te_size e = mask (te_N e) \<Longrightarrow> te_vpn e = drop_bit (te_N e) va \<Longrightarrow> page_ok e"
  by (auto simp: page_ok_def bit_eq_iff bit_simps dest: bit_imp_le_length)

lemma page_number:
  assumes "page_ok e" "matchAddress k e" "k_size k = 0"
  shows "drop_bit (te_N e) (k_va k) = te_vpn e"
proof -
  let ?n = "te_N e" and ?v = "te_vpn e"
  have n: "?n < 64" "te_size e = mask ?n" "drop_bit ?n (push_bit ?n ?v) = ?v" using assms(1) by (auto simp: page_ok_def)
  have vle: "unat ?v < 2 ^ (64 - ?n)"
  proof -
    have "unat ?v = unat (push_bit ?n ?v) div 2 ^ ?n"
      by (metis n(3) unsigned_drop_bit_eq drop_bit_eq_div unat_drop_bit_eq)
    moreover have "unat (push_bit ?n ?v) < 2 ^ (64 - ?n) * 2 ^ ?n"
      using unsigned_less [of "push_bit ?n ?v"] n(1) by (simp flip: power_add)
    ultimately show ?thesis by (simp add: less_mult_imp_div_less)
  qed
  have "unat ?v * 2 ^ ?n + 2 ^ ?n \<le> 2 ^ (64 - ?n) * 2 ^ ?n"
    using vle mult_le_mono1 [of "Suc (unat ?v)" "2 ^ (64 - ?n)" "2 ^ ?n"] by simp
  then have fit: "unat ?v * 2 ^ ?n + 2 ^ ?n \<le> 2 ^ 64" using n(1) by (simp flip: power_add)
  have pb: "unat (push_bit ?n ?v) = unat ?v * 2 ^ ?n"
  proof -
    have "unat ?v * 2 ^ ?n < 2 ^ 64" using fit by (rule less_le_trans [rotated]) simp
    then show ?thesis by (simp add: unsigned_push_bit_eq take_bit_nat_eq_self push_bit_nat_def)
  qed
  have m: "unat (mask ?n :: u64) = 2 ^ ?n - 1" proof -
    have "(mask ?n :: nat) < 2 ^ 64"
      using power_strict_increasing [OF n(1), of "2 :: nat"] by (simp only: mask_eq_exp_minus_1) simp
    then have "unat (of_nat (mask ?n) :: u64) = mask ?n" by (simp add: unat_of_nat take_bit_nat_eq_self)
    then show ?thesis by (simp add: mask_eq_exp_minus_1 of_nat_mask_eq)
  qed
  have "unat (push_bit ?n ?v + mask ?n) = unat ?v * 2 ^ ?n + (2 ^ ?n - 1)"
    using fit pb m by (simp add: unat_word_ariths)
  then have "unat ?v * 2 ^ ?n \<le> unat (k_va k)" "unat (k_va k) \<le> unat ?v * 2 ^ ?n + (2 ^ ?n - 1)"
    using assms(2) pb by (simp_all add: matchAddress_def Let_def assms(3) n(2) word_le_nat_alt)
  moreover have "0 < (2 :: nat) ^ ?n" by simp
  ultimately have "unat ?v * 2 ^ ?n \<le> unat (k_va k)" "unat (k_va k) < unat ?v * 2 ^ ?n + 2 ^ ?n" by linarith+
  then have "unat (k_va k) div 2 ^ ?n = unat ?v" by (intro div_nat_eqI) (auto simp: algebra_simps)
  then have "unat (drop_bit ?n (k_va k)) = unat ?v" by (simp only: unat_drop_bit_eq drop_bit_nat_def)
  then show ?thesis by (simp only: word_unat_eq_iff)
qed

subsection \<open>Candidates\<close>

lemma set_number_less: "0 < numSets t \<Longrightarrow> set_number k t < numSets t"
proof -
  assume z: "0 < numSets t"
  have "drop_bit (k_pageSize k) (k_va k) AND of_nat (numSets t - 1) \<le> (of_nat (numSets t - 1) :: u64)" by (rule word_and_le1)
  then have "set_number k t \<le> unat (of_nat (numSets t - 1) :: u64)" by (simp add: set_number_def word_le_nat_alt)
  also have "\<dots> \<le> numSets t - 1" by (simp add: unat_of_nat take_bit_nat_eq_self_iff take_bit_nat_less_eq_self)
  finally show ?thesis using z by simp
qed

lemma candidate_iff: "0 < t_assoc t \<Longrightarrow> i \<in> set (getPossibleEntries k t) \<longleftrightarrow> i div t_assoc t = set_number k t"
proof -
  assume a: "0 < t_assoc t"
  have "i \<in> set (getPossibleEntries k t)" if d: "i div t_assoc t = set_number k t"
  proof -
    have "i = set_number k t * t_assoc t + i mod t_assoc t" using div_mult_mod_eq [of i "t_assoc t"] by (simp only: d)
    moreover have "i mod t_assoc t \<in> set [0..<t_assoc t]" using a by simp
    ultimately show ?thesis unfolding getPossibleEntries_def set_map by (rule image_eqI)
  qed
  moreover have "i div t_assoc t = set_number k t" if "i \<in> set (getPossibleEntries k t)"
    using that a by (auto simp: getPossibleEntries_def algebra_simps intro!: div_nat_eqI)
  ultimately show ?thesis by blast
qed

definition tlb_wf :: "tlb \<Rightarrow> bool" where
  "tlb_wf t \<longleftrightarrow> 0 < t_assoc t \<and> 0 < numSets t \<and> numSets t * t_assoc t = length (t_entries t)
     \<and> (\<forall>p. t_prev t = Some p \<longrightarrow> p < length (t_entries t)) \<and> sorted (observedPageSizes t)
     \<and> (\<forall>e \<in> set (t_entries t). (te_valid e \<longrightarrow> te_N e \<in> set (observedPageSizes t)) \<and> te_ipaSpace e = PA_NonSecure)"

definition placed :: "tlb \<Rightarrow> bool" where
  "placed t \<longleftrightarrow> (\<forall>i < length (t_entries t). te_valid (t_entries t ! i) \<longrightarrow>
     page_ok (t_entries t ! i) \<and> i div t_assoc t = set_number (key_of_entry (t_entries t ! i)) t)"

lemma tlb_wfD:
  assumes "tlb_wf t"
  shows "0 < t_assoc t" "0 < numSets t" "numSets t * t_assoc t = length (t_entries t)" "t_prev t = Some p \<Longrightarrow> p < length (t_entries t)"
    "sorted (observedPageSizes t)" "i < length (t_entries t) \<Longrightarrow> te_valid (t_entries t ! i) \<Longrightarrow> te_N (t_entries t ! i) \<in> set (observedPageSizes t)"
    "e \<in> set (t_entries t) \<Longrightarrow> te_ipaSpace e = PA_NonSecure"
  using assms by (auto simp: tlb_wf_def)

lemma candidate_range:
  assumes "tlb_wf t" "i \<in> set (getPossibleEntries k t)"
  shows "i < length (t_entries t)"
proof -
  note w = tlb_wfD(1-3) [OF assms(1)]
  have "i div t_assoc t < numSets t" using assms(2) candidate_iff [OF w(1)] set_number_less [OF w(2)] by simp
  then have "i < numSets t * t_assoc t" using w(1) by (simp add: div_less_iff_less_mult)
  then show ?thesis by (simp only: w(3))
qed

lemma te_match_pageSize [simp]: "te_match (k\<lparr>k_pageSize := n\<rparr>) e = te_match k e"
  by (simp add: te_match_def matchAddress_def)

text \<open>In a placed table a match of the right size is a candidate.\<close>

lemma match_is_candidate:
  assumes "tlb_wf t" "placed t" "k_size k = 0" "i < length (t_entries t)" "sized_match k t i"
  shows "i \<in> set (getPossibleEntries k t)"
proof -
  let ?e = "t_entries t ! i"
  have m: "te_N ?e = k_pageSize k" "te_match k ?e" using assms(5) by (simp_all add: sized_match_def)
  then have "page_ok ?e" "i div t_assoc t = set_number (key_of_entry ?e) t" using assms(2,4) by (auto simp: placed_def te_match_def)
  moreover have "drop_bit (te_N ?e) (k_va k) = te_vpn ?e"
    by (rule page_number [OF \<open>page_ok ?e\<close> _ assms(3)]) (use m in \<open>simp add: te_match_def\<close>)
  ultimately have "i div t_assoc t = set_number k t"
    using m(1) by (simp add: set_number_def key_of_entry_def page_ok_def)
  then show ?thesis using candidate_iff [OF tlb_wfD(1) [OF assms(1)]] by simp
qed

subsection \<open>Lookup\<close>

lemma find_SomeD: "find P xs = Some x \<Longrightarrow> x \<in> set xs \<and> P x"
  by (induction xs) (auto split: if_splits)

lemma findEntry_cases:
  assumes "tlb_wf t"
  shows "findEntry k t = (None, t) \<or> (\<exists>i < length (t_entries t). sized_match k t i \<and> findEntry k t = (Some i, t\<lparr>t_prev := Some i\<rparr>))"
proof -
  let ?f = "find (sized_match k t) (getPossibleEntries k t)"
  have s: "i < length (t_entries t) \<and> sized_match k t i" if "?f = Some i" for i
    using find_SomeD [OF that] candidate_range [OF assms] by blast
  show ?thesis
  proof (cases "t_prev t")
    case None
    then show ?thesis using s by (cases ?f) (auto simp: findEntry_def Let_def)
  next
    case (Some p)
    then have "p < length (t_entries t)" by (rule tlb_wfD(4) [OF assms])
    moreover have "t\<lparr>t_prev := Some p\<rparr> = t" using Some by simp
    ultimately show ?thesis using s Some by (cases ?f) (auto simp: findEntry_def Let_def)
  qed
qed

lemma findEntry_none:
  assumes "tlb_wf t" "placed t" "k_size k = 0" "findEntry k t = (None, t)" "i < length (t_entries t)"
  shows "\<not> sized_match k t i"
proof
  assume m: "sized_match k t i"
  have "find (sized_match k t) (getPossibleEntries k t) = None"
    using assms(4) by (auto simp: findEntry_def Let_def split: option.splits if_splits)
  then show False using match_is_candidate [OF assms(1-3,5) m] m by (simp add: find_None_iff)
qed

definition touched :: "tick \<Rightarrow> tlb_key \<Rightarrow> nat \<Rightarrow> tlb \<Rightarrow> tlb" where
  "touched now k i t = (let t1 = t\<lparr>t_prev := Some i\<rparr> in
     if k_functional k then t1 else t1\<lparr>t_entries := (t_entries t1)[i := lru_touch now (t_entries t1 ! i)]\<rparr>)"

lemma accessEntry_cases:
  assumes "tlb_wf t"
  shows "findEntry k t = (None, t) \<and> accessEntry now k t = (None, t)
    \<or> (\<exists>i < length (t_entries t). sized_match k t i \<and> accessEntry now k t = (Some i, touched now k i t))"
  using findEntry_cases [OF assms, of k] by (auto simp: accessEntry_def touched_def Let_def)

text \<open>A lookup over the sizes stops at the first size with an entry.\<close>

lemma access_sizes_cases:
  assumes "tlb_wf t"
  shows "access_sizes now k ns t = (None, t) \<and> (\<forall>n \<in> set ns. findEntry (k\<lparr>k_pageSize := n\<rparr>) t = (None, t))
    \<or> (\<exists>n us vs i. ns = us @ n # vs \<and> i < length (t_entries t) \<and> te_N (t_entries t ! i) = n \<and> te_match k (t_entries t ! i)
        \<and> (\<forall>m \<in> set us. findEntry (k\<lparr>k_pageSize := m\<rparr>) t = (None, t)) \<and> access_sizes now k ns t = (Some i, touched now k i t))"
proof (induction ns)
  case (Cons n ns)
  let ?k = "k\<lparr>k_pageSize := n\<rparr>"
  have tk: "touched now ?k i t = touched now k i t" for i by (simp add: touched_def)
  from accessEntry_cases [OF assms, of ?k now] show ?case
  proof (elim disjE exE conjE)
    assume f: "findEntry ?k t = (None, t)" and a: "accessEntry now ?k t = (None, t)"
    have e: "access_sizes now k (n # ns) t = access_sizes now k ns t" using a by simp
    from Cons.IH show ?thesis
    proof (elim disjE exE conjE)
      assume "access_sizes now k ns t = (None, t)" "\<forall>n \<in> set ns. findEntry (k\<lparr>k_pageSize := n\<rparr>) t = (None, t)"
      then show ?thesis using e f by simp
    next
      fix m us vs i
      assume "ns = us @ m # vs" "i < length (t_entries t)" "te_N (t_entries t ! i) = m" "te_match k (t_entries t ! i)"
        "\<forall>m \<in> set us. findEntry (k\<lparr>k_pageSize := m\<rparr>) t = (None, t)" "access_sizes now k ns t = (Some i, touched now k i t)"
      then show ?thesis using e f by (intro disjI2 exI [of _ m] exI [of _ "n # us"] exI [of _ vs] exI [of _ i]) simp
    qed
  next
    fix i
    assume "i < length (t_entries t)" "sized_match ?k t i" "accessEntry now ?k t = (Some i, touched now ?k i t)"
    then show ?thesis by (intro disjI2 exI [of _ n] exI [of _ "[]"] exI [of _ ns] exI [of _ i]) (simp add: tk sized_match_def)
  qed
qed simp

lemma access_sizes_none:
  assumes "\<forall>n \<in> set ns. findEntry (k\<lparr>k_pageSize := n\<rparr>) t = (None, t)"
  shows "access_sizes now k ns t = (None, t)"
  using assms by (induction ns) (simp_all add: accessEntry_def)

lemma tlb_lookup_fst: "fst (tlb_lookup now k t) = fst (access_sizes now k (observedPageSizes t) t)"
  by (simp add: tlb_lookup_def case_prod_unfold Let_def)

lemma lookup_complete_wf:
  assumes "tlb_wf t" "placed t" "k_size k = 0"
  shows "case fst (tlb_lookup now k t) of None \<Rightarrow> \<forall>e \<in> set (t_entries t). \<not> te_match k e
    | Some i \<Rightarrow> i < length (t_entries t) \<and> te_match k (t_entries t ! i)
        \<and> (\<forall>e \<in> set (t_entries t). te_match k e \<longrightarrow> te_N (t_entries t ! i) \<le> te_N e)"
proof -
  have no: "\<not> (te_N (t_entries t ! j) = n \<and> te_match k (t_entries t ! j))"
    if "findEntry (k\<lparr>k_pageSize := n\<rparr>) t = (None, t)" "j < length (t_entries t)" for n j
    using findEntry_none [OF assms(1,2) _ that] assms(3) by (simp add: sized_match_def)
  have ob: "te_N (t_entries t ! j) \<in> set (observedPageSizes t)" if "te_match k (t_entries t ! j)" "j < length (t_entries t)" for j
    using tlb_wfD(6) [OF assms(1) that(2)] that(1) by (simp add: te_match_def)
  from access_sizes_cases [OF assms(1), of now k "observedPageSizes t"] show ?thesis
  proof (elim disjE exE conjE)
    assume "access_sizes now k (observedPageSizes t) t = (None, t)"
      and f: "\<forall>n \<in> set (observedPageSizes t). findEntry (k\<lparr>k_pageSize := n\<rparr>) t = (None, t)"
    moreover have "\<not> te_match k (t_entries t ! j)" if "j < length (t_entries t)" for j
      using no [OF bspec [OF f ob [of j]] that] that by blast
    ultimately show ?thesis by (auto simp: tlb_lookup_fst in_set_conv_nth)
  next
    fix n us vs i
    assume ns: "observedPageSizes t = us @ n # vs" and i: "i < length (t_entries t)" "te_N (t_entries t ! i) = n" "te_match k (t_entries t ! i)"
      and f: "\<forall>m \<in> set us. findEntry (k\<lparr>k_pageSize := m\<rparr>) t = (None, t)"
      and r: "access_sizes now k (observedPageSizes t) t = (Some i, touched now k i t)"
    have "n \<le> te_N (t_entries t ! j)" if j: "te_match k (t_entries t ! j)" "j < length (t_entries t)" for j
    proof -
      have "te_N (t_entries t ! j) \<notin> set us" using no [OF _ j(2)] f j(1) by blast
      then have "te_N (t_entries t ! j) \<in> set (n # vs)" using ob [OF j] ns by simp
      then show ?thesis using tlb_wfD(5) [OF assms(1)] by (auto simp: ns sorted_append)
    qed
    then have "\<forall>e \<in> set (t_entries t). te_match k e \<longrightarrow> n \<le> te_N e" by (auto simp: in_set_conv_nth)
    then show ?thesis using i by (simp add: tlb_lookup_fst r)
  qed
qed

subsection \<open>Runs\<close>

text \<open>A change of an entry that keeps its page and does not make it valid.\<close>

definition same_page :: "tlb_entry \<Rightarrow> tlb_entry \<Rightarrow> bool" where
  "same_page e' e \<longleftrightarrow> te_N e' = te_N e \<and> te_vpn e' = te_vpn e \<and> te_size e' = te_size e \<and> te_ipaSpace e' = te_ipaSpace e
     \<and> (te_valid e' \<longrightarrow> te_valid e)"

lemma same_page_intros [simp, intro]:
  "same_page e e" "same_page (lru_touch now e) e" "same_page (slot_invalidate e) e" "same_page (e\<lparr>te_type := x\<rparr>) e"
  by (simp_all add: same_page_def lru_touch_def slot_invalidate_def te_invalidate_def)

lemma same_page_trans: "same_page a b \<Longrightarrow> same_page b c \<Longrightarrow> same_page a c"
  by (simp add: same_page_def)

lemma same_page_fields:
  "same_page (e\<lparr>te_ap := x\<rparr>) e" "same_page (e\<lparr>te_xn := b\<rparr>) e" "same_page (e\<lparr>te_innerAttrs := x\<rparr>) e" "same_page (e\<lparr>te_vmid := v\<rparr>) e"
  "same_page (e\<lparr>te_asid := v\<rparr>) e" "same_page (parity_entry c p e) e"
  by (simp_all add: same_page_def parity_entry_def te_invalidate_def)

lemma if_elim: "(if b then P else Q) \<Longrightarrow> (P \<Longrightarrow> R) \<Longrightarrow> (Q \<Longrightarrow> R) \<Longrightarrow> R"
  by (cases b) simp_all

lemma faulted_same_page: "faulted_entry s i es e' \<Longrightarrow> same_page e' (es ! i)"
  unfolding faulted_entry_def Let_def
  by (elim if_elim exE conjE; simp only: same_page_fields)

text \<open>The view of a TLB that the invariants read.\<close>

definition shape_le :: "tlb \<Rightarrow> tlb \<Rightarrow> bool" where
  "shape_le t' t \<longleftrightarrow> length (t_entries t') = length (t_entries t) \<and> t_assoc t' = t_assoc t
     \<and> (\<forall>i < length (t_entries t). same_page (t_entries t' ! i) (t_entries t ! i))"

lemma shape_le_refl [simp]: "shape_le t t"
  by (simp add: shape_le_def)

lemma shape_le_trans: "shape_le a b \<Longrightarrow> shape_le b c \<Longrightarrow> shape_le a c"
  by (auto simp: shape_le_def intro: same_page_trans)

lemma shape_le_upd:
  assumes "t_entries t' = (t_entries t)[i := e]" "t_assoc t' = t_assoc t" "same_page e (t_entries t ! i)"
  shows "shape_le t' t"
proof -
  have "same_page ((t_entries t)[i := e] ! j) (t_entries t ! j)" if "j < length (t_entries t)" for j
    using that assms(3) by (cases "j = i") simp_all
  then show ?thesis using assms(1,2) by (simp add: shape_le_def)
qed

lemma shape_le_map:
  assumes "t_entries t' = map f (t_entries t)" "t_assoc t' = t_assoc t" "\<And>e. same_page (f e) e"
  shows "shape_le t' t"
  using assms by (auto simp: shape_le_def)

lemma set_number_shape: "shape_le t' t \<Longrightarrow> set_number k t' = set_number k t"
  by (simp add: shape_le_def set_number_def numSets_def)

lemma wf_shape:
  assumes "tlb_wf t" "shape_le t' t" "\<And>p. t_prev t' = Some p \<Longrightarrow> p < length (t_entries t)" "sorted (observedPageSizes t')"
    "observedPageSizes t' = observedPageSizes t \<or> (\<forall>e \<in> set (t_entries t'). \<not> te_valid e)"
  shows "tlb_wf t'"
proof -
  have n: "numSets t' = numSets t" using assms(2) by (simp add: shape_le_def numSets_def)
  have "(te_valid e \<longrightarrow> te_N e \<in> set (observedPageSizes t')) \<and> te_ipaSpace e = PA_NonSecure" if mem: "e \<in> set (t_entries t')" for e
  proof -
    from mem obtain i where i: "i < length (t_entries t')" "e = t_entries t' ! i" by (auto simp: in_set_conv_nth)
    then have "same_page e (t_entries t ! i)" "i < length (t_entries t)" using assms(2) by (auto simp: shape_le_def)
    then show ?thesis using tlb_wfD(6) [OF assms(1), of i] tlb_wfD(7) [OF assms(1), of "t_entries t ! i"] assms(5) mem by (auto simp: same_page_def)
  qed
  then show ?thesis using tlb_wfD(1-3) [OF assms(1)] assms(2-4) by (simp add: tlb_wf_def n) (simp add: shape_le_def)
qed

lemma placed_shape:
  assumes "placed t" "shape_le t' t"
  shows "placed t'"
  unfolding placed_def
proof (intro allI impI)
  fix i assume i: "i < length (t_entries t')" "te_valid (t_entries t' ! i)"
  let ?e = "t_entries t ! i" and ?e' = "t_entries t' ! i"
  have l: "i < length (t_entries t)" "t_assoc t' = t_assoc t" and sp: "same_page ?e' ?e" using assms(2) i(1) by (auto simp: shape_le_def)
  have k: "set_number (key_of_entry ?e') t' = set_number (key_of_entry ?e) t"
    unfolding set_number_shape [OF assms(2)] using sp by (simp add: set_number_def key_of_entry_def same_page_def)
  have "page_ok ?e' = page_ok ?e" using sp by (simp add: page_ok_def same_page_def)
  then show "page_ok ?e' \<and> i div t_assoc t' = set_number (key_of_entry ?e') t'"
    using assms(1) l sp i(2) by (simp add: placed_def k) (simp add: same_page_def)
qed

lemma touched_shape: "shape_le (touched now k i t) t"
  by (rule shape_le_upd [where i = i and e = "if k_functional k then t_entries t ! i else lru_touch now (t_entries t ! i)"])
    (simp_all add: touched_def Let_def)

lemma chaos_hook_shape: "shape_le (chaos_hook now r t) t"
proof (cases "\<exists>i s. r = Some i \<and> chaosTLB t = Some s")
  case True
  then obtain i s where rs: "r = Some i" "chaosTLB t = Some s" by blast
  let ?es = "fst (ti_maybeCorrupt now i (t_entries t, s))"
  have e: "t_entries (chaos_hook now r t) = ?es" "t_assoc (chaos_hook now r t) = t_assoc t"
    using rs by (simp_all add: chaos_hook_def case_prod_unfold)
  from ti_maybeCorrupt_spec [of now i "t_entries t" s] consider "?es = t_entries t"
    | e' where "faulted_entry s i (t_entries t) e'" "?es = (t_entries t)[i := e']" by blast
  then show ?thesis
  proof cases
    case 1
    then show ?thesis using e by (simp add: shape_le_def)
  next
    case 2
    then show ?thesis using e faulted_same_page by (intro shape_le_upd [where i = i and e = e']) auto
  qed
qed (auto simp: chaos_hook_def split: option.splits)

lemma lookup_stats_view [simp]:
  "t_entries (lookup_stats k r t) = t_entries t" "t_assoc (lookup_stats k r t) = t_assoc t" "t_prev (lookup_stats k r t) = t_prev t"
  "observedPageSizes (lookup_stats k r t) = observedPageSizes t" "chaosTLB (lookup_stats k r t) = chaosTLB t"
  "t_vmid (lookup_stats k r t) = t_vmid t" "partialLevels (lookup_stats k r t) = partialLevels t" "t_type (lookup_stats k r t) = t_type t"
  by (simp_all add: lookup_stats_def Let_def split: option.splits mmu_mode.splits)

lemma chaos_hook_view [simp]:
  "t_prev (chaos_hook now r t) = t_prev t" "observedPageSizes (chaos_hook now r t) = observedPageSizes t" "t_vmid (chaos_hook now r t) = t_vmid t"
  "partialLevels (chaos_hook now r t) = partialLevels t" "t_type (chaos_hook now r t) = t_type t"
  by (simp_all add: chaos_hook_def split: option.splits prod.splits)

lemma lookup_shape:
  assumes "tlb_wf t"
  shows "shape_le (snd (tlb_lookup now k t)) t" "observedPageSizes (snd (tlb_lookup now k t)) = observedPageSizes t"
    "t_prev (snd (tlb_lookup now k t)) = Some p \<Longrightarrow> p < length (t_entries t)" "t_vmid (snd (tlb_lookup now k t)) = t_vmid t"
    "partialLevels (snd (tlb_lookup now k t)) = partialLevels t" "t_type (snd (tlb_lookup now k t)) = t_type t"
proof -
  let ?a = "access_sizes now k (observedPageSizes t) t"
  define t1 where "t1 = snd ?a"
  then have t1: "snd ?a = t1" by simp
  have s1: "t1 = t \<or> (\<exists>i < length (t_entries t). t1 = touched now k i t)"
    using access_sizes_cases [OF assms, of now k "observedPageSizes t"] unfolding t1_def
    by (elim disjE exE conjE) (simp_all, blast)
  have v: "shape_le t1 t" "observedPageSizes t1 = observedPageSizes t" "t_vmid t1 = t_vmid t" "partialLevels t1 = partialLevels t"
    "t_type t1 = t_type t" "t_prev t1 = t_prev t \<or> (\<exists>i < length (t_entries t). t_prev t1 = Some i)"
    using s1 touched_shape by (auto simp: touched_def Let_def)
  let ?t2 = "chaos_hook now (fst ?a) t1"
  have r: "snd (tlb_lookup now k t) = (if k_functional k then ?t2 else lookup_stats k (fst ?a) ?t2)"
    by (simp add: tlb_lookup_def case_prod_unfold Let_def t1)
  have "shape_le (lookup_stats k (fst ?a) ?t2) ?t2" by (simp add: shape_le_def)
  then have "shape_le (snd (tlb_lookup now k t)) ?t2" by (simp add: r)
  then show "shape_le (snd (tlb_lookup now k t)) t" using chaos_hook_shape v(1) shape_le_trans by blast
  show "observedPageSizes (snd (tlb_lookup now k t)) = observedPageSizes t" "t_vmid (snd (tlb_lookup now k t)) = t_vmid t"
    "partialLevels (snd (tlb_lookup now k t)) = partialLevels t" "t_type (snd (tlb_lookup now k t)) = t_type t" using v by (simp_all add: r)
  show "t_prev (snd (tlb_lookup now k t)) = Some p \<Longrightarrow> p < length (t_entries t)" using v(6) tlb_wfD(4) [OF assms] by (auto simp: r split: if_splits)
qed

end
