(* ===== verification/Tlb_Runs.thy ===== *)
theory Tlb_Runs
  imports Tlb_Table
begin

text \<open>
  Runs of a TLB and of the TLBs of an MMU: every lookup finds what is there, insertion and maintenance take effect, and
  two places where they do not: a refill of a larger page from the next level, and invalidation by a secure
  intermediate address.
\<close>

subsection \<open>Insertion\<close>

lemma lru_fold:
  fixes f :: "nat \<Rightarrow> nat"
  defines "g \<equiv> foldl (\<lambda>v d. if f d < f v then d else v)"
  shows "g c ds \<in> insert c (set ds) \<and> f (g c ds) \<le> f c \<and> (\<forall>d \<in> set ds. f (g c ds) \<le> f d)"
proof (induction ds arbitrary: c)
  case (Cons d ds)
  let ?c = "if f d < f c then d else c"
  have e: "g c (d # ds) = g ?c ds" by (simp add: g_def)
  show ?case using Cons.IH [of ?c] unfolding e by (cases "f d < f c") force+
qed (simp add: g_def)

lemma victim_spec:
  assumes "tlb_wf t"
  shows "\<exists>v. lru_getVictim (t_entries t) (getPossibleEntries k t) = Some v \<and> v \<in> set (getPossibleEntries k t)
    \<and> (\<forall>c \<in> set (getPossibleEntries k t). lastTouchTick (t_entries t ! v) \<le> lastTouchTick (t_entries t ! c))"
proof -
  let ?f = "\<lambda>i. lastTouchTick (t_entries t ! i)"
  obtain c cs where cs: "getPossibleEntries k t = c # cs"
    using tlb_wfD(1) [OF assms] by (cases "getPossibleEntries k t") (auto simp: getPossibleEntries_def)
  let ?v = "foldl (\<lambda>v d. if ?f d < ?f v then d else v) c (c # cs)"
  have g: "lru_getVictim (t_entries t) (c # cs) = Some ?v" by (simp only: lru_getVictim_def list.case)
  from lru_fold [where f = ?f and c = c and ds = "c # cs"] have "?v \<in> set (c # cs)" "\<forall>d \<in> set (c # cs). ?f ?v \<le> ?f d" by auto
  then show ?thesis unfolding cs g by blast
qed

definition slotted :: "tick \<Rightarrow> tlb_entry \<Rightarrow> tlb_entry \<Rightarrow> tlb_entry" where
  "slotted now slot e = e\<lparr>te_ipaSpace := te_ipaSpace slot, lastTouchTick := now\<rparr>"

lemma slotted_simps [simp]:
  "te_N (slotted now x e) = te_N e" "te_valid (slotted now x e) = te_valid e" "te_ipaSpace (slotted now x e) = te_ipaSpace x"
  "te_match k (slotted now x e) = te_match k e" "pAddr va (slotted now x e) = pAddr va e" "page_ok (slotted now x e) = page_ok e"
  "key_of_entry (slotted now x e) = key_of_entry e" "te_pfn (slotted now x e) = te_pfn e"
  by (simp_all add: slotted_def te_match_def matchAddress_def checkRegime_def pAddr_def page_ok_def key_of_entry_def)

lemma insert_spec:
  assumes "tlb_wf t"
  shows "\<exists>v t'. tlb_insert now k e t = Some t' \<and> v < length (t_entries t) \<and> v div t_assoc t = set_number k t
    \<and> t_entries t' = (t_entries t)[v := slotted now (t_entries t ! v) e] \<and> t_prev t' = (if t_prev t = Some v then None else t_prev t)
    \<and> observedPageSizes t' = observe (te_N e) (observedPageSizes t) \<and> t_assoc t' = t_assoc t \<and> t_vmid t' = t_vmid t
    \<and> t_type t' = t_type t \<and> partialLevels t' = partialLevels t"
proof -
  obtain v where v: "lru_getVictim (t_entries t) (getPossibleEntries k t) = Some v" "v \<in> set (getPossibleEntries k t)"
    using victim_spec [OF assms] by blast
  note r = candidate_range [OF assms v(2)] and d = v(2) [unfolded candidate_iff [OF tlb_wfD(1) [OF assms]]]
  let ?s = "t_entries t ! v"
  have sl: "lru_touch now (te_assign (slot_invalidate ?s) e) = slotted now ?s e"
    by (simp add: lru_touch_def te_assign_def slot_invalidate_def te_invalidate_def slotted_def)
  obtain t' where t': "tlb_insert now k e t = Some t'" by (simp add: tlb_insert_def v(1) Let_def)
  then have "t_entries t' = (t_entries t)[v := slotted now ?s e] \<and> t_prev t' = (if t_prev t = Some v then None else t_prev t)
    \<and> observedPageSizes t' = observe (te_N e) (observedPageSizes t) \<and> t_assoc t' = t_assoc t \<and> t_vmid t' = t_vmid t
    \<and> t_type t' = t_type t \<and> partialLevels t' = partialLevels t"
    using r by (auto simp: tlb_insert_def v(1) Let_def invalidatePrev_def sl)
  then show ?thesis using t' r d by blast
qed

lemma observe_set: "set (observe n ns) = insert n (set ns)" "sorted ns \<Longrightarrow> sorted (observe n ns)"
  by (auto simp: observe_def set_insort_key sorted_insort)

lemma insert_inv:
  assumes "tlb_wf t" "tlb_insert now k e t = Some t'"
  shows "tlb_wf t'" "placed t \<Longrightarrow> te_valid e \<longrightarrow> page_ok e \<and> set_number k t = set_number (key_of_entry e) t \<Longrightarrow> placed t'"
proof -
  from insert_spec [OF assms(1), of now k e] obtain v where v: "v < length (t_entries t)" "v div t_assoc t = set_number k t"
    "t_entries t' = (t_entries t)[v := slotted now (t_entries t ! v) e]" "t_prev t' = (if t_prev t = Some v then None else t_prev t)"
    "observedPageSizes t' = observe (te_N e) (observedPageSizes t)" "t_assoc t' = t_assoc t" unfolding assms(2) by auto
  have n: "numSets t' = numSets t" by (simp add: numSets_def v(3,6))
  have "(te_valid x \<longrightarrow> te_N x \<in> set (observedPageSizes t')) \<and> te_ipaSpace x = PA_NonSecure" if "x \<in> set (t_entries t')" for x
  proof -
    from that consider "x = slotted now (t_entries t ! v) e" | "x \<in> set (t_entries t)" using set_update_subset_insert v(3) by fastforce
    then show ?thesis using tlb_wfD(7) [OF assms(1)] v(1) assms(1) by cases (auto simp: v(5) observe_set tlb_wf_def)
  qed
  moreover have "sorted (observedPageSizes t')" unfolding v(5) by (rule observe_set(2) [OF tlb_wfD(5) [OF assms(1)]])
  moreover have "p < length (t_entries t)" if "t_prev t' = Some p" for p using that tlb_wfD(4) [OF assms(1)] by (auto simp: v(4) split: if_splits)
  ultimately show "tlb_wf t'" using tlb_wfD(1-3) [OF assms(1)] by (simp add: tlb_wf_def n v(3,6))
  have s: "set_number q t' = set_number q t" for q by (simp add: set_number_def n)
  show "placed t'" if "placed t" "te_valid e \<longrightarrow> page_ok e \<and> set_number k t = set_number (key_of_entry e) t"
    unfolding placed_def
  proof (intro allI impI)
    fix i assume i: "i < length (t_entries t')" "te_valid (t_entries t' ! i)"
    show "page_ok (t_entries t' ! i) \<and> i div t_assoc t' = set_number (key_of_entry (t_entries t' ! i)) t'"
      using that i v(1,2) by (cases "i = v") (auto simp: v(3,6) s placed_def)
  qed
qed

subsection \<open>Maintenance\<close>

definition clean :: "tlbi_op \<Rightarrow> tlb \<Rightarrow> bool" where
  "clean tlbi t \<longleftrightarrow> (\<forall>e \<in> set (t_entries t). \<not> op_match tlbi (t_vmid t) e)"

lemma op_match_valid: "op_match tlbi vm e \<Longrightarrow> te_valid e"
  by (auto simp: op_match_def matchEntry_def all_matchEntry_def asid_matchEntry_def mva_matchEntry_def te_match_def split: tlbi_kind.splits)

lemma flush_view [simp]:
  "t_entries (tlb_flush tlbi t) = map (\<lambda>e. if op_match tlbi (t_vmid t) e then slot_invalidate e else e) (t_entries t)"
  "t_assoc (tlb_flush tlbi t) = t_assoc t" "t_vmid (tlb_flush tlbi t) = t_vmid t" "t_type (tlb_flush tlbi t) = t_type t"
  by (simp_all add: tlb_flush_def Let_def)

lemma flush_clean: "clean tlbi (tlb_flush tlbi t)"
proof -
  have "\<not> op_match tlbi vm (slot_invalidate e)" for vm e
    using op_match_valid [of tlbi vm "slot_invalidate e"] by (auto simp: slot_invalidate_def te_invalidate_def)
  then show ?thesis by (auto simp: clean_def)
qed

lemma flush_shape: "shape_le (tlb_flush tlbi t) t"
  by (rule shape_le_map [where f = "\<lambda>e. if op_match tlbi (t_vmid t) e then slot_invalidate e else e"]) simp_all

lemma flush_inv:
  assumes "tlb_wf t"
  shows "tlb_wf (tlb_flush tlbi t)" "tlb_wf (flushAll t)"
proof -
  show "tlb_wf (tlb_flush tlbi t)"
  proof (rule wf_shape [OF assms flush_shape])
    show "t_prev (tlb_flush tlbi t) = Some p \<Longrightarrow> p < length (t_entries t)" for p
      using tlb_wfD(4) [OF assms] by (auto simp: tlb_flush_def Let_def split: option.splits if_splits)
    show "sorted (observedPageSizes (tlb_flush tlbi t))" using tlb_wfD(5) [OF assms] by (simp add: tlb_flush_def Let_def)
    show "observedPageSizes (tlb_flush tlbi t) = observedPageSizes t \<or> (\<forall>e \<in> set (t_entries (tlb_flush tlbi t)). \<not> te_valid e)"
      by (simp add: tlb_flush_def Let_def)
  qed
  show "tlb_wf (flushAll t)"
  proof (rule wf_shape [OF assms])
    show "shape_le (flushAll t) t"
      by (rule shape_le_map [where f = "\<lambda>e. if te_valid e then slot_invalidate e else e"]) (simp_all add: flushAll_def)
  qed (auto simp: flushAll_def slot_invalidate_def te_invalidate_def)
qed

subsection \<open>Runs\<close>

text \<open>The flag says whether every insertion used a key that selects the set of the entry's own page.\<close>

inductive tlb_run :: "bool \<Rightarrow> tlb \<Rightarrow> bool" where
  start: "TLB sz assoc levels ty = Some t \<Longrightarrow> tlb_run True t"
| attach: "tlb_run b t \<Longrightarrow> tlb_run b (t\<lparr>chaosTLB := c\<rparr>)"
| lookup: "tlb_run b t \<Longrightarrow> tlb_run b (snd (tlb_lookup now k t))"
| promote: "tlb_run b t \<Longrightarrow> tlb_run b (checkPromotion i mode t)"
| insert: "tlb_run b t \<Longrightarrow> tlb_insert now k e t = Some t' \<Longrightarrow>
    tlb_run (b \<and> (te_valid e \<longrightarrow> page_ok e \<and> set_number k t = set_number (key_of_entry e) t)) t'"
| flush: "tlb_run b t \<Longrightarrow> tlb_run b (tlb_flush tlbi t)"
| flush_all: "tlb_run b t \<Longrightarrow> tlb_run b (flushAll t)"
| set_vmid: "tlb_run b t \<Longrightarrow> tlb_run b (setVMID v t)"

lemma TLB_inv: "TLB sz assoc levels ty = Some t \<Longrightarrow> tlb_wf t \<and> placed t"
proof -
  assume t: "TLB sz assoc levels ty = Some t"
  then have h: "0 < assoc" "0 < sz div assoc" "sz mod assoc = 0" "t_entries t = replicate sz TlbEntry" "t_assoc t = assoc"
    "t_prev t = None" "observedPageSizes t = []"
    by (auto simp: TLB_def Let_def split: if_splits)
  then have "sz div assoc * assoc = sz" using div_mult_mod_eq [of sz assoc] by simp
  then show ?thesis using h by (auto simp: tlb_wf_def placed_def numSets_def TlbEntry_def)
qed

lemma run_inv: "tlb_run b t \<Longrightarrow> tlb_wf t \<and> (b \<longrightarrow> placed t)"
proof (induction rule: tlb_run.induct)
  case (start sz assoc levels ty t)
  then show ?case using TLB_inv by blast
next
  case (attach b t c)
  have "shape_le (t\<lparr>chaosTLB := c\<rparr>) t" by (simp add: shape_le_def)
  then show ?case using attach.IH wf_shape [of t "t\<lparr>chaosTLB := c\<rparr>"] placed_shape tlb_wfD(4,5) by auto
next
  case (lookup b t now k)
  note w = conjunct1 [OF lookup.IH]
  note sh = lookup_shape [OF w, of now k]
  show ?case using lookup.IH placed_shape [OF _ sh(1)] wf_shape [OF w sh(1) sh(3)] tlb_wfD(5) [OF w] by (simp add: sh(2))
next
  case (promote b t i mode)
  have "shape_le (checkPromotion i mode t) t"
    by (rule shape_le_upd [where i = i and e = "t_entries (checkPromotion i mode t) ! i"])
      (cases "i < length (t_entries t)"; auto simp: checkPromotion_def Let_def list_update_beyond)+
  moreover have "t_prev (checkPromotion i mode t) = t_prev t" "observedPageSizes (checkPromotion i mode t) = observedPageSizes t"
    by (simp_all add: checkPromotion_def Let_def)
  ultimately show ?case using promote.IH wf_shape [of t "checkPromotion i mode t"] placed_shape tlb_wfD(4,5) by auto
next
  case (insert b t now k e t')
  then show ?case using insert_inv by blast
next
  case (flush b t tlbi)
  then show ?case using flush_inv placed_shape [OF _ flush_shape] by blast
next
  case (flush_all b t)
  moreover have "placed (flushAll t)" by (auto simp: placed_def flushAll_def slot_invalidate_def te_invalidate_def)
  ultimately show ?case using flush_inv by blast
next
  case (set_vmid b t v)
  have "shape_le (setVMID v t) t" by (simp add: shape_le_def setVMID_def)
  then show ?case using set_vmid.IH wf_shape [of t "setVMID v t"] placed_shape tlb_wfD(4,5) by (auto simp: setVMID_def)
qed


lemma lookup_misses:
  assumes "tlb_run True t" "k_size k = 0" "\<forall>e \<in> set (t_entries t). \<not> te_match k e"
  shows "fst (tlb_lookup now k t) = None" "t_entries (snd (tlb_lookup now k t)) = t_entries t" "t_prev (snd (tlb_lookup now k t)) = t_prev t"
    "t_assoc (snd (tlb_lookup now k t)) = t_assoc t" "t_vmid (snd (tlb_lookup now k t)) = t_vmid t"
proof -
  have w: "tlb_wf t" "placed t" using run_inv [OF assms(1)] by simp_all
  show n: "fst (tlb_lookup now k t) = None"
    using lookup_complete_wf [OF w assms(2), of now] assms(3) by (cases "fst (tlb_lookup now k t)") auto
  have a: "access_sizes now k (observedPageSizes t) t = (None, t)"
    using access_sizes_cases [OF w(1), of now k "observedPageSizes t"] n by (auto simp: tlb_lookup_fst)
  have v: "t_entries (snd (tlb_lookup now k t)) = t_entries t \<and> t_prev (snd (tlb_lookup now k t)) = t_prev t
      \<and> t_assoc (snd (tlb_lookup now k t)) = t_assoc t \<and> t_vmid (snd (tlb_lookup now k t)) = t_vmid t"
    by (simp add: tlb_lookup_def a chaos_hook_def Let_def)
  show "t_entries (snd (tlb_lookup now k t)) = t_entries t" "t_prev (snd (tlb_lookup now k t)) = t_prev t"
    "t_assoc (snd (tlb_lookup now k t)) = t_assoc t" "t_vmid (snd (tlb_lookup now k t)) = t_vmid t" using v by simp_all
qed

subsection \<open>Insertion after a miss\<close>

lemma inserted_found_iff:
  assumes "tlb_run True t" "k_size k = 0" "\<forall>x \<in> set (t_entries t). \<not> te_match k x" "te_match k e"
    "tlb_insert now kk e t = Some t'"
  shows "fst (tlb_lookup now' k t') \<noteq> None \<longleftrightarrow> set_number kk t = set_number (k\<lparr>k_pageSize := te_N e\<rparr>) t"
    "fst (tlb_lookup now' k t') = Some i \<Longrightarrow> i < length (t_entries t') \<and> pAddr va (t_entries t' ! i) = pAddr va e"
proof -
  have w: "tlb_wf t" using run_inv [OF assms(1)] by simp
  from insert_spec [OF w, of now kk e] obtain v where v: "v < length (t_entries t)" "v div t_assoc t = set_number kk t"
    "t_entries t' = (t_entries t)[v := slotted now (t_entries t ! v) e]" "t_prev t' = (if t_prev t = Some v then None else t_prev t)"
    "observedPageSizes t' = observe (te_N e) (observedPageSizes t)" "t_assoc t' = t_assoc t" unfolding assms(5) by auto
  have w': "tlb_wf t'" by (rule insert_inv(1) [OF w assms(5)])
  have m: "te_match k (t_entries t' ! j) \<longleftrightarrow> j = v" if "j < length (t_entries t')" for j
    using that assms(3,4) v(1) by (cases "j = v") (auto simp: v(3))
  have vN: "te_N (t_entries t' ! v) = te_N e" using v(1) by (simp add: v(3))
  have prev: "t_prev t' \<noteq> Some v" by (simp add: v(4))
  have sn: "set_number q t' = set_number q t" for q by (simp add: set_number_def numSets_def v(3,6))
  let ?k = "k\<lparr>k_pageSize := te_N e\<rparr>"
  have sm: "sized_match (k\<lparr>k_pageSize := n\<rparr>) t' j \<longleftrightarrow> j = v \<and> n = te_N e" if "j < length (t_entries t')" for j n
    using m [OF that] vN by (auto simp: sized_match_def)
  have cand: "v \<in> set (getPossibleEntries ?k t') \<longleftrightarrow> set_number kk t = set_number ?k t"
    unfolding candidate_iff [OF tlb_wfD(1) [OF w']] sn v(6) v(2) ..
  have ce: "j < length (t_entries t')" if "j \<in> set (getPossibleEntries ?k t')" for j by (rule candidate_range [OF w' that])
  have f: "findEntry ?k t' = (None, t') \<longleftrightarrow> set_number kk t \<noteq> set_number ?k t"
  proof -
    have np: "\<not> sized_match ?k t' p" if "t_prev t' = Some p" for p
      using sm [OF tlb_wfD(4) [OF w' that], of "te_N e"] prev that by auto
    have "findEntry ?k t' = (None, t') \<longleftrightarrow> find (sized_match ?k t') (getPossibleEntries ?k t') = None"
      using np by (auto simp: findEntry_def Let_def split: option.splits)
    also have "\<dots> \<longleftrightarrow> v \<notin> set (getPossibleEntries ?k t')" using sm ce by (auto simp: find_None_iff)
    finally show ?thesis unfolding cand .
  qed
  from access_sizes_cases [OF w', of now' k "observedPageSizes t'"]
  have "(fst (tlb_lookup now' k t') \<noteq> None \<longleftrightarrow> set_number kk t = set_number ?k t)
    \<and> (\<forall>i. fst (tlb_lookup now' k t') = Some i \<longrightarrow> i = v)"
  proof (elim disjE exE conjE)
    assume a: "access_sizes now' k (observedPageSizes t') t' = (None, t')"
      and n: "\<forall>n \<in> set (observedPageSizes t'). findEntry (k\<lparr>k_pageSize := n\<rparr>) t' = (None, t')"
    have "te_N e \<in> set (observedPageSizes t')" by (simp add: v(5) observe_set)
    then have "findEntry ?k t' = (None, t')" using n by blast
    then show ?thesis using f a by (simp add: tlb_lookup_fst)
  next
    fix n us vs i
    assume ns: "observedPageSizes t' = us @ n # vs" and i: "i < length (t_entries t')" "te_N (t_entries t' ! i) = n" "te_match k (t_entries t' ! i)"
      and a: "access_sizes now' k (observedPageSizes t') t' = (Some i, touched now' k i t')"
      and u: "\<forall>m \<in> set us. findEntry (k\<lparr>k_pageSize := m\<rparr>) t' = (None, t')"
    have iv: "i = v" using m [OF i(1)] i(3) by simp
    have "findEntry ?k t' \<noteq> (None, t')"
    proof
      assume no: "findEntry ?k t' = (None, t')"
      have "findEntry (k\<lparr>k_pageSize := q\<rparr>) t' = (None, t')" for q
        using findEntry_cases [OF w', of "k\<lparr>k_pageSize := q\<rparr>"] sm [of _ q] no by (cases "q = te_N e") auto
      then show False using access_sizes_none [of "observedPageSizes t'" k t' now'] a by simp
    qed
    then show ?thesis using f a iv by (simp add: tlb_lookup_fst)
  qed
  then show "fst (tlb_lookup now' k t') \<noteq> None \<longleftrightarrow> set_number kk t = set_number ?k t"
    "fst (tlb_lookup now' k t') = Some i \<Longrightarrow> i < length (t_entries t') \<and> pAddr va (t_entries t' ! i) = pAddr va e"
    using v(1) by (simp_all add: v(3))
qed

lemma refill_two:
  assumes "tlb_lookup now k (st a) = (None, u)" "a \<noteq> b" "multiLookup now k [a, b] st = Some (Some (b, j), st')" "\<not> k_functional k"
    "\<not> te_partial (t_entries (st' b) ! j)"
  shows "tlb_insert now k (t_entries (st' b) ! j) u = Some (st' a)"
proof -
  obtain x y where l: "tlb_lookup now k (st b) = (x, y)" by fastforce
  show ?thesis
  proof (cases x)
    case None
    then show ?thesis using assms l by simp
  next
    case (Some i)
    let ?y = "checkPromotion i (k_mode k) y"
    have m: "(if caches_entry (t_entries ?y ! i) u
        then map_option (\<lambda>t'. (Some (b, i), (st(a := u, b := ?y))(a := t'))) (tlb_insert now k (t_entries ?y ! i) u)
        else Some (Some (b, i), st(a := u, b := ?y))) = Some (Some (b, j), st')"
      using assms(1-4) l Some by (cases "caches_entry (t_entries ?y ! i) u") (auto simp: Let_def fun_upd_twist [OF assms(2)])
    then have ij: "i = j" "st' b = ?y" using assms(2) by (auto split: if_splits)
    then have "caches_entry (t_entries ?y ! i) u" using assms(5) by (simp add: caches_entry_def)
    then show ?thesis using m ij by auto
  qed
qed

text \<open>C32: insertion after a miss.  An entry that matches the key is found by the next lookup, with its translation, when it is inserted
  under its own key, as the table walker does.  A refill from the next level inserts it under the lookup key, whose page
  size is always 4 KB: a larger page is found again only if its address selects the same set
  under both sizes, and otherwise the first level keeps missing.\<close>

theorem insert_then_lookup:
  assumes "tlb_run True t" "k_size k = 0" "fst (tlb_lookup now k t) = None" "te_match k e" "page_ok e"
  shows "(\<exists>t'. tlb_insert now1 (key_of_entry e) e (snd (tlb_lookup now k t)) = Some t'
      \<and> (\<exists>i. fst (tlb_lookup now2 k t') = Some i \<and> pAddr (k_va k) (t_entries t' ! i) = pAddr (k_va k) e))
    \<and> (\<forall>a b st j st'. multiLookup now1 k [a, b] st = Some (Some (b, j), st') \<and> a \<noteq> b \<and> st a = t \<and> \<not> k_functional k
        \<and> e = t_entries (st' b) ! j \<and> \<not> te_partial e \<longrightarrow>
        (fst (tlb_lookup now2 k (st' a)) \<noteq> None \<longleftrightarrow> set_number k t = set_number (k\<lparr>k_pageSize := te_N e\<rparr>) t))"
proof -
  have nm: "\<forall>x \<in> set (t_entries t). \<not> te_match k x" using lookup_complete_wf [OF _ _ assms(2), of t now] run_inv [OF assms(1)] assms(3) by simp
  have step: "tlb_run True (snd (tlb_lookup n k t))" "\<forall>x \<in> set (t_entries (snd (tlb_lookup n k t))). \<not> te_match k x"
    "set_number q (snd (tlb_lookup n k t)) = set_number q t" for n q
    using lookup_misses [OF assms(1,2) nm, of n] tlb_run.lookup [OF assms(1)] nm by (simp_all add: set_number_def numSets_def)
  let ?t = "snd (tlb_lookup now k t)"
  obtain t' where t': "tlb_insert now1 (key_of_entry e) e ?t = Some t'"
    using insert_spec [OF conjunct1 [OF run_inv [OF step(1)]], of now1 "key_of_entry e" e now] by blast
  have "drop_bit (te_N e) (k_va k) = te_vpn e" by (rule page_number [OF assms(5) _ assms(2)]) (use assms(4) in \<open>simp add: te_match_def\<close>)
  then have "set_number (key_of_entry e) ?t = set_number (k\<lparr>k_pageSize := te_N e\<rparr>) ?t"
    using assms(5) by (simp add: set_number_def key_of_entry_def page_ok_def)
  then have "fst (tlb_lookup now2 k t') \<noteq> None" using inserted_found_iff(1) [OF step(1) assms(2) step(2) assms(4) t'] by simp
  then have "\<exists>t'. tlb_insert now1 (key_of_entry e) e ?t = Some t'
      \<and> (\<exists>i. fst (tlb_lookup now2 k t') = Some i \<and> pAddr (k_va k) (t_entries t' ! i) = pAddr (k_va k) e)"
    using t' inserted_found_iff(2) [OF step(1) assms(2) step(2) assms(4) t'] by blast
  moreover have "fst (tlb_lookup now2 k (st' a)) \<noteq> None \<longleftrightarrow> set_number k t = set_number (k\<lparr>k_pageSize := te_N e\<rparr>) t"
    if m: "multiLookup now1 k [a, b] st = Some (Some (b, j), st')" and c: "a \<noteq> b" "st a = t" "\<not> k_functional k"
    "e = t_entries (st' b) ! j" "\<not> te_partial e" for a b st j st'
  proof -
  obtain u where u: "tlb_lookup now1 k (st a) = (None, u)" "snd (tlb_lookup now1 k t) = u"
    using lookup_misses(1) [OF assms(1,2) nm, of now1] c(2) by (cases "tlb_lookup now1 k t") simp
  have "tlb_insert now1 k e (snd (tlb_lookup now1 k t)) = Some (st' a)"
    using refill_two [OF u(1) c(1) m c(3)] c(4,5) by (simp add: u(2))
  from inserted_found_iff(1) [OF step(1) assms(2) step(2) assms(4) this, of now2]
  show ?thesis by (simp add: step(3))
  qed
  ultimately show ?thesis by blast
qed

text \<open>Two levels; the second holds a page of 2 MB, the first has two sets of one entry.\<close>

definition demo_big :: tlb_entry where
  "demo_big = TlbEntry\<lparr>te_pfn := 7, te_size := mask 21, te_vpn := 2, te_N := 21, te_valid := True, te_type := TT_unified\<rparr>"

definition demo_key :: tlb_key where
  "demo_key = mmu_key 0x401000 0 0 SS_NonSecure False False R_EL10 ModeRead"

definition demo_l1 :: tlb where
  "demo_l1 = the (TLB 2 1 [] TT_data)"

definition demo_l2 :: tlb where
  "demo_l2 = the (tlb_insert 1 (key_of_entry demo_big) demo_big (the (TLB 1 1 [] TT_unified)))"

definition demo_levels :: "nat \<Rightarrow> tlb" where
  "demo_levels a = (if a = 0 then demo_l1 else demo_l2)"

definition demo_refill :: "(nat \<times> nat) option \<times> (nat \<Rightarrow> tlb)" where
  "demo_refill = the (multiLookup 5 demo_key [0, 1] demo_levels)"

lemma demo_l1_run: "tlb_run True demo_l1"
  by (rule tlb_run.start [of 2 1 "[]" TT_data]) (simp add: demo_l1_def TLB_def)

lemma demo_l2_run: "tlb_run True demo_l2"
proof -
  have "tlb_run True (the (TLB 1 1 [] TT_unified))" by (rule tlb_run.start [of 1 1 "[]" TT_unified]) (simp add: TLB_def)
  moreover have "tlb_insert 1 (key_of_entry demo_big) demo_big (the (TLB 1 1 [] TT_unified)) = Some demo_l2"
    unfolding demo_l2_def by (simp add: TLB_def tlb_insert_def getPossibleEntries_def lru_getVictim_def Let_def)
  ultimately have "tlb_run (True \<and> (te_valid demo_big \<longrightarrow> page_ok demo_big
      \<and> set_number (key_of_entry demo_big) (the (TLB 1 1 [] TT_unified)) = set_number (key_of_entry demo_big) (the (TLB 1 1 [] TT_unified)))) demo_l2"
    by (rule tlb_run.insert)
  moreover have "page_ok demo_big" by code_simp
  ultimately show ?thesis by simp
qed


text \<open>The walker's insertion is found; the refill is not, though the same lookup has just returned the entry.\<close>

theorem insert_then_lookup_witness:
  "(\<exists>t'. tlb_insert 3 (key_of_entry demo_big) demo_big (snd (tlb_lookup 2 demo_key demo_l1)) = Some t'
      \<and> (\<exists>i. fst (tlb_lookup 4 demo_key t') = Some i \<and> pAddr 0x401000 (t_entries t' ! i) = 0xE01000))
   \<and> fst demo_refill = Some (1, 0) \<and> fst (tlb_lookup 6 demo_key (snd demo_refill 0)) = None"
proof -
  have z: "k_size demo_key = 0" "k_va demo_key = 0x401000" "\<not> k_functional demo_key" by code_simp+
  have m: "fst (tlb_lookup 2 demo_key demo_l1) = None" "te_match demo_key demo_big" "page_ok demo_big" "pAddr 0x401000 demo_big = 0xE01000" by code_simp+
  let ?e = "t_entries (snd demo_refill 1) ! 0"
  have e: "te_match demo_key ?e" "page_ok ?e" "\<not> te_partial ?e" "fst demo_refill = Some (1, 0)"
    "multiLookup 5 demo_key [0, 1] demo_levels \<noteq> None"
    "set_number demo_key demo_l1 \<noteq> set_number (demo_key\<lparr>k_pageSize := te_N ?e\<rparr>) demo_l1" by code_simp+
  have r: "multiLookup 5 demo_key [0, 1] demo_levels = Some (Some (1, 0), snd demo_refill)"
    using e(4,5) by (auto simp: demo_refill_def prod_eq_iff)
  have "demo_levels 0 = demo_l1" by (simp add: demo_levels_def)
  then have "fst (tlb_lookup 6 demo_key (snd demo_refill 0)) = None"
    using conjunct2 [OF insert_then_lookup [OF demo_l1_run z(1) m(1) e(1,2), of 5 6], rule_format, of 0 1 demo_levels 0 "snd demo_refill"] r e z(3)
    by (simp add: r)
  then show ?thesis using conjunct1 [OF insert_then_lookup [OF demo_l1_run z(1) m(1-3), of 3 4]] m(4) e(4) by (simp add: z(2))
qed

end
