(* ===== verification/Tlb_Mmu.thy ===== *)
theory Tlb_Mmu
  imports Tlb_Runs
begin

text \<open>
  Maintenance operations on the TLBs of an MMU.  \<open>mmu_init\<close> lists every level of both hierarchies, so an operation by virtual
  address reaches all of them and the next lookup of that address misses.  The intermediate address space of an entry is
  lost when it is installed, so operations by secure intermediate address match nothing.
\<close>

subsection \<open>Loops over the TLBs\<close>

definition listed :: "mmu \<Rightarrow> nat set" where
  "listed m = set (m_instruction m) \<union> set (m_data m) \<union> set (m_unified m)"

lemma traverse_listed:
  "listed (traverse_hierarchy ids m) = listed m \<union> set ids \<and> m_tlbs (traverse_hierarchy ids m) = m_tlbs m
   \<and> m_itb (traverse_hierarchy ids m) = m_itb m \<and> m_dtb (traverse_hierarchy ids m) = m_dtb m"
proof (induction ids arbitrary: m)
  case (Cons a as)
  then show ?case by (cases "t_type (m_tlbs m a)") (auto simp: listed_def add_id_def)
qed simp

lemma init_listed: "set (m_itb m) \<union> set (m_dtb m) \<subseteq> listed (mmu_init m)" "m_itb (mmu_init m) = m_itb m" "m_dtb (mmu_init m) = m_dtb m"
  "m_tlbs (mmu_init m) = m_tlbs m"
  using traverse_listed [of "m_itb m" m] traverse_listed [of "m_dtb m" "traverse_hierarchy (m_itb m) m"] by (auto simp: mmu_init_def)

lemma each_tlb_view [simp]:
  "m_itb (each_tlb f ids m) = m_itb m" "m_dtb (each_tlb f ids m) = m_dtb m" "m_instruction (each_tlb f ids m) = m_instruction m"
  "m_data (each_tlb f ids m) = m_data m" "m_unified (each_tlb f ids m) = m_unified m"
  by (simp_all add: each_tlb_def)

text \<open>A property the operation establishes holds of the listed TLBs afterwards; one it preserves holds of all.\<close>

lemma each_tlb_nth: "m_tlbs (each_tlb f ids m) a = (f ^^ count_list ids a) (m_tlbs m a)"
proof -
  have "fold (\<lambda>a st. st(a := f (st a))) ids st a = (f ^^ count_list ids a) (st a)" for st
    by (induction ids arbitrary: st) (simp_all add: funpow_swap1)
  then show ?thesis by (simp add: each_tlb_def)
qed

lemma each_tlb_keeps:
  assumes "\<And>t. P t \<Longrightarrow> P (f t)" "P (m_tlbs m a)"
  shows "P (m_tlbs (each_tlb f ids m) a)"
proof -
  have "P ((f ^^ n) (m_tlbs m a))" for n using assms by (induction n) simp_all
  then show ?thesis by (simp add: each_tlb_nth)
qed

lemma each_tlb_reaches:
  assumes "\<And>t. P (f t)" "a \<in> set ids"
  shows "P (m_tlbs (each_tlb f ids m) a)"
proof -
  obtain n where "count_list ids a = Suc n" using assms(2) count_list_0_iff [of ids a] by (cases "count_list ids a") auto
  then show ?thesis using assms(1) by (simp add: each_tlb_nth)
qed

text \<open>What every flush keeps, and what it establishes.\<close>

definition flush_kept :: "tlbi_op \<Rightarrow> tlb \<Rightarrow> tlb \<Rightarrow> bool" where
  "flush_kept tlbi t0 t \<longleftrightarrow> t_vmid t = t_vmid t0 \<and> length (t_entries t) = length (t_entries t0)
     \<and> (tlb_run True t0 \<longrightarrow> tlb_run True t)
     \<and> (\<forall>i < length (t_entries t0). \<not> op_match tlbi (t_vmid t0) (t_entries t0 ! i) \<longrightarrow> t_entries t ! i = t_entries t0 ! i)"

lemma flush_kept_flush: "flush_kept tlbi t0 t \<Longrightarrow> flush_kept tlbi t0 (tlb_flush tlbi t)"
  using tlb_run.flush [of True t tlbi] by (auto simp: flush_kept_def)

lemma flushStage1_spec:
  "flush_kept tlbi (m_tlbs m a) (m_tlbs (flushStage1 tlbi m) a)"
  "a \<in> listed m \<Longrightarrow> clean tlbi (m_tlbs (flushStage1 tlbi m) a)"
  "m_itb (flushStage1 tlbi m) = m_itb m" "m_dtb (flushStage1 tlbi m) = m_dtb m"
proof -
  let ?f = "tlb_flush tlbi"
  let ?m1 = "each_tlb ?f (m_instruction m) m"
  let ?m2 = "each_tlb ?f (m_data m) ?m1"
  have m3: "flushStage1 tlbi m = each_tlb ?f (m_unified m) ?m2" by (simp add: flushStage1_def)
  have "flush_kept tlbi (m_tlbs m a) (m_tlbs m a)" by (simp add: flush_kept_def)
  then show "flush_kept tlbi (m_tlbs m a) (m_tlbs (flushStage1 tlbi m) a)"
    unfolding m3 by (intro each_tlb_keeps [where P = "flush_kept tlbi (m_tlbs m a)"] flush_kept_flush)
  show "m_itb (flushStage1 tlbi m) = m_itb m" "m_dtb (flushStage1 tlbi m) = m_dtb m" by (simp_all add: m3)
  have r: "clean tlbi (m_tlbs (each_tlb ?f ids m') a)" if "a \<in> set ids" for ids m'
    by (rule each_tlb_reaches [where P = "clean tlbi", OF flush_clean that])
  have k: "clean tlbi (m_tlbs (each_tlb ?f ids m') a)" if "clean tlbi (m_tlbs m' a)" for ids m'
    by (rule each_tlb_keeps [where P = "clean tlbi", OF flush_clean that])
  show "clean tlbi (m_tlbs (flushStage1 tlbi m) a)" if "a \<in> listed m"
    using that r k unfolding m3 listed_def by blast
qed

subsection \<open>Invalidation by address\<close>

lemma multiLookup_misses:
  assumes "k_size k = 0" "\<forall>a \<in> set ids. tlb_run True (st a) \<and> (\<forall>e \<in> set (t_entries (st a)). \<not> te_match k e)"
  shows "\<exists>st'. multiLookup now k ids st = Some (None, st')"
  using assms(2)
proof (induction ids arbitrary: st)
  case (Cons a as)
  have a: "tlb_run True (st a)" "\<forall>e \<in> set (t_entries (st a)). \<not> te_match k e" using Cons.prems by auto
  note l = lookup_misses [OF a(1) assms(1) a(2), of now]
  obtain t where t: "tlb_lookup now k (st a) = (None, t)" using l(1) by (cases "tlb_lookup now k (st a)") simp
  have "tlb_run True t" "t_entries t = t_entries (st a)" using tlb_run.lookup [OF a(1), of now k] l(2) by (simp_all add: t)
  then have "\<exists>st'. multiLookup now k as (st(a := t)) = Some (None, st')"
    using Cons.prems by (intro Cons.IH) auto
  then show ?case using t by auto
qed simp

text \<open>C33: invalidation by virtual address.  Once the hierarchies are listed, \<open>TLBI VA\<close> in any of the TLBs leaves no translation
  of the address for that address space: the next lookup of either kind misses at every level.  Entries that do not
  match the operation are as they were in every TLB.\<close>

theorem tlbi_va_complete:
  assumes "\<And>a. a \<in> set (m_itb m) \<union> set (m_dtb m) \<Longrightarrow> tlb_run True (m_tlbs m a) \<and> t_vmid (m_tlbs m a) = vm"
  shows "let tlbi = \<lparr>op_ss = sec, op_regime = rg, op_excludeXS = False, op_kind = TLBIMVA va asn False\<rparr>; m1 = tlbi_apply tlbi (mmu_init m) in
    (\<exists>m2. mmu_lookup now (sext 56 va) asn vm sec functional False rg False mode m1 = Some (None, m2))
    \<and> (\<forall>a i. i < length (t_entries (m_tlbs m a)) \<and> \<not> op_match tlbi (t_vmid (m_tlbs m a)) (t_entries (m_tlbs m a) ! i)
        \<longrightarrow> t_entries (m_tlbs m1 a) ! i = t_entries (m_tlbs m a) ! i)"
proof -
  define tlbi where "tlbi = \<lparr>op_ss = sec, op_regime = rg, op_excludeXS = False, op_kind = TLBIMVA va asn False\<rparr>"
  define k where "k = mmu_key (sext 56 va) asn vm sec functional False rg mode"
  have m1: "tlbi_apply tlbi (mmu_init m) = flushStage1 tlbi (mmu_init m)" (is "?m1 = _") by (simp add: tlbi_apply_def tlbi_def)
  have keep: "flush_kept tlbi (m_tlbs m a) (m_tlbs ?m1 a)" for a using flushStage1_spec(1) [of tlbi "mmu_init m" a] by (simp add: m1 init_listed)
  have km: "op_match tlbi vm e" if "te_match k e" for e
    using that by (simp add: op_match_def matchEntry_def tlbi_def mva_matchEntry_def k_def mmu_key_def mva_lookupGen_def te_match_def matchAddress_def
      KeyType_def)
  have z: "k_size k = 0" by (simp add: k_def mmu_key_def KeyType_def)
  have "tlb_run True (m_tlbs ?m1 a) \<and> (\<forall>e \<in> set (t_entries (m_tlbs ?m1 a)). \<not> te_match k e)" if a: "a \<in> set (m_itb m) \<union> set (m_dtb m)" for a
  proof -
    have "clean tlbi (m_tlbs ?m1 a)" unfolding m1 using a init_listed(1) by (intro flushStage1_spec(2)) blast
    then show ?thesis using keep [of a] assms [OF a] km by (auto simp: flush_kept_def clean_def)
  qed
  moreover have "getTlb mode False ?m1 = (if mode = ModeExecute then m_itb m else m_dtb m)"
    by (simp add: getTlb_def m1 flushStage1_spec init_listed)
  ultimately have "\<exists>st'. multiLookup now k (getTlb mode False ?m1) (m_tlbs ?m1) = Some (None, st')"
    by (intro multiLookup_misses [OF z]) auto
  then have "\<exists>m2. mmu_lookup now (sext 56 va) asn vm sec functional False rg False mode ?m1 = Some (None, m2)"
    by (auto simp: mmu_lookup_def k_def)
  moreover have "\<forall>a i. i < length (t_entries (m_tlbs m a)) \<and> \<not> op_match tlbi (t_vmid (m_tlbs m a)) (t_entries (m_tlbs m a) ! i)
        \<longrightarrow> t_entries (m_tlbs ?m1 a) ! i = t_entries (m_tlbs m a) ! i" using keep by (simp add: flush_kept_def)
  ultimately show ?thesis unfolding Let_def tlbi_def by blast
qed

definition demo_mmu :: mmu where
  "demo_mmu = \<lparr>m_tlbs = demo_levels, m_itb = [1], m_dtb = [0, 1], m_itbStage2 = [], m_dtbStage2 = [], m_instruction = [], m_data = [], m_unified = []\<rparr>"

definition demo_tlbi :: tlbi_op where
  "demo_tlbi = \<lparr>op_ss = SS_NonSecure, op_regime = R_EL10, op_excludeXS = False, op_kind = TLBIMVA 0x401000 0 False\<rparr>"

theorem tlbi_va_complete_witness:
  "map_option fst (mmu_lookup 5 0x401000 0 0 SS_NonSecure False False R_EL10 False ModeRead (mmu_init demo_mmu)) = Some (Some (1, 0))
   \<and> map_option fst (mmu_lookup 6 0x401000 0 0 SS_NonSecure False False R_EL10 False ModeRead (tlbi_apply demo_tlbi (mmu_init demo_mmu))) = Some None"
proof -
  have v: "t_vmid (demo_levels 0) = 0" "t_vmid (demo_levels 1) = 0" "sext 56 0x401000 = 0x401000" by code_simp+
  have r: "tlb_run True (demo_levels a)" for a using demo_l1_run demo_l2_run by (simp add: demo_levels_def)
  have "tlb_run True (m_tlbs demo_mmu a) \<and> t_vmid (m_tlbs demo_mmu a) = 0" if "a \<in> set (m_itb demo_mmu) \<union> set (m_dtb demo_mmu)" for a
    using that r v(1,2) by (auto simp: demo_mmu_def)
  from tlbi_va_complete [OF this, of SS_NonSecure R_EL10 "0x401000" 0 6 False ModeRead]
  have "\<exists>m2. mmu_lookup 6 0x401000 0 0 SS_NonSecure False False R_EL10 False ModeRead (tlbi_apply demo_tlbi (mmu_init demo_mmu)) = Some (None, m2)"
    unfolding Let_def v(3) by (simp add: demo_tlbi_def)
  moreover have "map_option fst (mmu_lookup 5 0x401000 0 0 SS_NonSecure False False R_EL10 False ModeRead (mmu_init demo_mmu)) = Some (Some (1, 0))"
    by code_simp
  ultimately show ?thesis by auto
qed

text \<open>C34: invalidation by secure intermediate address.  Installing an entry does not copy its intermediate address space, so in every run all
  entries carry the non-secure one: an operation for a secure intermediate address (secure state, bit 63 of the
  register clear) leaves the table as it is, also when the page was inserted as secure.\<close>

theorem secure_ipa_not_flushed:
  assumes "tlb_run b t" "\<not> bit v 63"
  shows "t_entries (tlb_flush (mk_TLBIIPA pa52 rg SS_Secure v ll xs) t) = t_entries t
    \<and> t_entries (tlb_flush (mk_TLBIRIPA rg SS_Secure v ll xs) t) = t_entries t
    \<and> (\<forall>now k e t'. tlb_insert now k e t = Some t' \<longrightarrow> (\<forall>x \<in> set (t_entries t'). te_ipaSpace x = PA_NonSecure))"
proof -
  have w: "tlb_wf t" using run_inv [OF assms(1)] by simp
  have ip: "te_ipaSpace e = PA_NonSecure" if "e \<in> set (t_entries t)" for e by (rule tlb_wfD(7) [OF w that])
  have n: "\<not> op_match (mk_TLBIIPA pa52 rg SS_Secure v ll xs) (t_vmid t) e" "\<not> op_match (mk_TLBIRIPA rg SS_Secure v ll xs) (t_vmid t) e"
    if "e \<in> set (t_entries t)" for e
    using ip [OF that] assms(2) by (simp_all add: op_match_def matchEntry_def mk_TLBIIPA_def mk_TLBIRIPA_def ipa_of_reg_def)
  have "tlb_insert now k e t = Some t' \<Longrightarrow> x \<in> set (t_entries t') \<Longrightarrow> te_ipaSpace x = PA_NonSecure" for now k e t' x
    using tlb_wfD(7) [OF insert_inv(1) [OF w]] by blast
  then show ?thesis using n by (auto intro!: map_idI)
qed

definition demo_secure :: tlb_entry where
  "demo_secure = TlbEntry\<lparr>te_pfn := 9, te_size := mask 12, te_vpn := 3, te_N := 12, te_valid := True, te_ss := SS_Secure, te_ipaSpace := PA_Secure\<rparr>"

definition demo_stage2 :: tlb where
  "demo_stage2 = the (tlb_insert 1 (key_of_entry demo_secure) demo_secure (the (TLB 1 1 [] TT_unified)))"

text \<open>The secure page at intermediate address 0x3000 survives its invalidation.\<close>

theorem secure_ipa_not_flushed_witness:
  "t_entries (tlb_flush (mk_TLBIIPA False R_EL10 SS_Secure 3 False False) demo_stage2) = t_entries demo_stage2
   \<and> te_match (ipa_lookupGen (mk_TLBIIPA False R_EL10 SS_Secure 3 False False) 0x3000 0) (t_entries demo_stage2 ! 0)"
proof -
  have "tlb_run True (the (TLB 1 1 [] TT_unified))" by (rule tlb_run.start [of 1 1 "[]" TT_unified]) (simp add: TLB_def)
  moreover have "tlb_insert 1 (key_of_entry demo_secure) demo_secure (the (TLB 1 1 [] TT_unified)) = Some demo_stage2"
    unfolding demo_stage2_def by (simp add: TLB_def tlb_insert_def getPossibleEntries_def lru_getVictim_def Let_def)
  ultimately have r: "\<exists>b. tlb_run b demo_stage2" using tlb_run.insert by blast
  have "\<not> bit (3 :: u64) 63" by code_simp
  then have "t_entries (tlb_flush (mk_TLBIIPA False R_EL10 SS_Secure 3 False False) demo_stage2) = t_entries demo_stage2"
    using r secure_ipa_not_flushed [of _ demo_stage2 3 False R_EL10 False False] by blast
  moreover have "te_match (ipa_lookupGen (mk_TLBIIPA False R_EL10 SS_Secure 3 False False) 0x3000 0) (t_entries demo_stage2 ! 0)" by code_simp
  ultimately show ?thesis by simp
qed

end
