(* ===== verification/Arch_Reg.thy ===== *)
theory Arch_Reg
  imports Injector "HOL-Library.AList"
begin

text \<open>
  \<open>CHAOSReg\<close>: corrupts architectural registers of the threads of any CPU model from a polling event, with stuck-at
  faults re-applied by a second event.  The mask generator samples until it has enough distinct bits,
  so it is a partial function and everything above it is in \<open>option\<close>: \<open>None\<close> is sampling for ever.
\<close>

datatype target_class = TC_Integer | TC_FloatingPoint | TC_Both

text \<open>A thread context: the register counts of its instruction set, and the value of every register.\<close>

record arch_thread =
  at_status :: tc_status
  at_pc :: u64
  at_isa :: "(reg_class_type \<Rightarrow> nat) option"
  at_regs :: "reg_id \<Rightarrow> u64"

record arch_perm =
  ap_type :: fault_type
  ap_mask :: u64
  ap_update :: bool

record arch_inj = poller +
  ar_num_bits :: int
  ar_max_reg_idx :: nat
  ar_target_reg_idx :: int
  ar_fault_type :: fault_type
  ar_fault_mask :: u64
  ar_fault_mask_width :: int
  ar_weights :: "real list"
  ar_check_cycles :: cycles
  ar_target_class :: target_class
  PC_target :: u64
  attack_squashed :: bool
  check_at :: "tick option"
  check_squashed :: bool
  ar_permanent :: "((thread_id \<times> reg_id) \<times> arch_perm) list"
  ar_numFaultsInjected :: nat
  ar_numBitFlips :: nat
  ar_numStuckAtZero :: nat
  ar_numStuckAtOne :: nat
  ar_numPermanentFaults :: nat

definition ar_stringToFaultType :: "string \<Rightarrow> fault_type" where
  "ar_stringToFaultType s = (if s = ''bit_flip'' then BitFlip else if s = ''stuck_at_zero'' then StuckAtZero
     else if s = ''stuck_at_one'' then StuckAtOne else RandomFault)"

definition stringToTargetClass :: "string \<Rightarrow> target_class" where
  "stringToTargetClass s = (if s = ''integer'' then TC_Integer else if s = ''floating_point'' then TC_FloatingPoint else TC_Both)"

definition ar_scheduleCheck :: "tick \<Rightarrow> clocked \<Rightarrow> cycles \<Rightarrow> arch_inj \<Rightarrow> arch_inj" where
  "ar_scheduleCheck now clk delay s = (if check_at s = None then s\<lparr>check_at := Some (clockEdge now clk delay)\<rparr> else s)"

definition ar_unscheduleAttackEvent :: "arch_inj \<Rightarrow> arch_inj" where
  "ar_unscheduleAttackEvent s =
     (let s1 = (if attack_at s \<noteq> None then s\<lparr>attack_squashed := True\<rparr> else s)
      in if check_at s1 \<noteq> None then s1\<lparr>check_squashed := True\<rparr> else s1)"

text \<open>The constructor; \<open>r\<close> is the seeded generator.  A default-constructed discrete distribution always draws 0.\<close>

definition CHAOSReg :: "bool \<Rightarrow> tick \<Rightarrow> clocked \<Rightarrow> real \<Rightarrow> int \<Rightarrow> cycles \<Rightarrow> cycles \<Rightarrow> nat \<Rightarrow> nat \<Rightarrow> int \<Rightarrow> string \<Rightarrow> u64 \<Rightarrow> real \<Rightarrow> real
    \<Rightarrow> real \<Rightarrow> cycles \<Rightarrow> string \<Rightarrow> u64 \<Rightarrow> rng \<Rightarrow> ctor_error + arch_inj" where
  "CHAOSReg has_cpu now clk prob bits fst_clk lst_clk cap max_idx tgt_idx ftype fmask pb pz po check cls pc r =
     (let s0 = \<lparr>probability = prob, first_clock = fst_clk, last_clock = lst_clk, max_faults = cap, faults_injected_count = 0, rng = r,
            attack_at = None, ar_num_bits = bits, ar_max_reg_idx = max_idx, ar_target_reg_idx = tgt_idx,
            ar_fault_type = ar_stringToFaultType ftype, ar_fault_mask = fmask, ar_fault_mask_width = 64, ar_weights = [1],
            ar_check_cycles = check, ar_target_class = stringToTargetClass cls, PC_target = pc, attack_squashed = False,
            check_at = None, check_squashed = False, ar_permanent = [], ar_numFaultsInjected = 0, ar_numBitFlips = 0,
            ar_numStuckAtZero = 0, ar_numStuckAtOne = 0, ar_numPermanentFaults = 0\<rparr>
      in if \<not> 0 < prob then Inr s0
         else if \<not> has_cpu then Inl (InvalidParam ''cpu'' '''')
         else
           let p = (if pc \<noteq> 0 then 1 else prob);
               (nb, r1) = (if bits = -1 then uniform_int 1 32 r else (bits, r));
               (d, r2) = geometric p r1;
               ws = (if pb + pz + po \<noteq> 1 then [0.9, 0.05, 0.05] else [pb, pz, po]);
               s1 = s0\<lparr>probability := p, ar_num_bits := nb, rng := r2, ar_weights := ws\<rparr>
           in Inr (ar_scheduleCheck now clk (fst_clk + check) (scheduleAttackEvent now clk (fst_clk + d) s1)))"

subsection \<open>The mask\<close>

partial_function (option) mask_loop :: "nat \<Rightarrow> nat \<Rightarrow> nat \<Rightarrow> u64 \<Rightarrow> rng \<Rightarrow> (u64 \<times> rng) option" where
  "mask_loop len k placed m r =
     (if placed < k then
        let b = fst (uniform_nat 0 (len - 1) r); r' = snd (uniform_nat 0 (len - 1) r); bt = (if 64 \<le> b then 0 else push_bit b 1)
        in if m AND bt = 0 then mask_loop len k (placed + 1) (m OR bt) r' else mask_loop len k placed m r'
      else Some (m, r))"

definition generateRandomMask64 :: "int \<Rightarrow> int \<Rightarrow> rng \<Rightarrow> (u64 \<times> rng) option" where
  "generateRandomMask64 bits len r =
     (if len \<le> 0 \<or> bits \<le> 0 then Some (0, r) else mask_loop (nat len) (nat (if len < bits then len else bits)) 0 0 r)"

subsection \<open>A fault\<close>

text \<open>The class, and whether there is one; \<open>rng() % 2\<close> draws it.\<close>

definition ar_choose_class :: "(reg_class_type \<Rightarrow> nat) \<Rightarrow> arch_inj \<Rightarrow> reg_class_type option \<times> arch_inj" where
  "ar_choose_class num s = (case ar_target_class s of
       TC_Both \<Rightarrow>
         if num IntRegClass = 0 \<and> num FloatRegClass = 0 then (None, s)
         else if 0 < num IntRegClass \<and> num FloatRegClass = 0 then (Some IntRegClass, s)
         else if num IntRegClass = 0 \<and> 0 < num FloatRegClass then (Some FloatRegClass, s)
         else (Some (if shd (rng s) mod 2 = 0 then IntRegClass else FloatRegClass), s\<lparr>rng := stl (rng s)\<rparr>)
     | TC_Integer \<Rightarrow> (if num IntRegClass = 0 then None else Some IntRegClass, s)
     | TC_FloatingPoint \<Rightarrow> (if num FloatRegClass = 0 then None else Some FloatRegClass, s))"

definition ar_upper :: "nat \<Rightarrow> arch_inj \<Rightarrow> nat" where
  "ar_upper n s = (if 0 < ar_max_reg_idx s \<and> ar_max_reg_idx s < n then ar_max_reg_idx s - 1 else n - 1)"

definition ar_choose_reg :: "nat \<Rightarrow> arch_inj \<Rightarrow> nat \<times> arch_inj" where
  "ar_choose_reg n s =
     (if 0 \<le> ar_target_reg_idx s \<and> ar_target_reg_idx s < int n then (nat (ar_target_reg_idx s), s)
      else (case uniform_nat 0 (ar_upper n s) (rng s) of (i, r) \<Rightarrow> (i, s\<lparr>rng := r\<rparr>)))"

definition ar_choose_mask :: "arch_inj \<Rightarrow> (u64 \<times> arch_inj) option" where
  "ar_choose_mask s = (if ar_fault_mask s \<noteq> 0 then Some (ar_fault_mask s, s)
     else map_option (\<lambda>(m, r). (m, s\<lparr>rng := r\<rparr>)) (generateRandomMask64 (ar_num_bits s) (ar_fault_mask_width s) (rng s)))"

definition ar_choose_type :: "arch_inj \<Rightarrow> fault_type \<times> arch_inj" where
  "ar_choose_type s = (if ar_fault_type s = RandomFault
     then (case discrete (ar_weights s) (rng s) of (i, r) \<Rightarrow> (fault_type_of_index i, s\<lparr>rng := r\<rparr>)) else (ar_fault_type s, s))"

definition ar_record_type :: "thread_id \<Rightarrow> reg_id \<Rightarrow> fault_type \<Rightarrow> u64 \<Rightarrow> arch_inj \<Rightarrow> arch_inj" where
  "ar_record_type tid rid f m s =
     (let perm = (\<lambda>s. s\<lparr>ar_numPermanentFaults := ar_numPermanentFaults s + 1,
            ar_permanent := AList.update (tid, rid) \<lparr>ap_type = f, ap_mask = m, ap_update = True\<rparr> (ar_permanent s)\<rparr>)
      in (case f of StuckAtZero \<Rightarrow> perm (s\<lparr>ar_numStuckAtZero := ar_numStuckAtZero s + 1\<rparr>)
          | StuckAtOne \<Rightarrow> perm (s\<lparr>ar_numStuckAtOne := ar_numStuckAtOne s + 1\<rparr>)
          | BitFlip \<Rightarrow> s\<lparr>ar_numBitFlips := ar_numBitFlips s + 1\<rparr> | RandomFault \<Rightarrow> s))"

definition set_arch_reg :: "thread_id \<Rightarrow> reg_id \<Rightarrow> u64 \<Rightarrow> arch_thread option list \<Rightarrow> arch_thread option list" where
  "set_arch_reg tid rid v ths = ths[tid := map_option (\<lambda>t. t\<lparr>at_regs := (at_regs t)(rid := v)\<rparr>) (ths ! tid)]"

definition ar_count :: "arch_inj \<Rightarrow> arch_inj" where
  "ar_count s = count_fault (s\<lparr>ar_numFaultsInjected := ar_numFaultsInjected s + 1\<rparr>)"

definition ar_processFault :: "thread_id \<Rightarrow> arch_inj \<times> arch_thread option list \<Rightarrow> (arch_inj \<times> arch_thread option list) option" where
  "ar_processFault tid = (\<lambda>(s, ths).
     (case ths ! tid of None \<Rightarrow> Some (s, ths)
      | Some t \<Rightarrow> (case at_isa t of None \<Rightarrow> Some (s, ths)
        | Some num \<Rightarrow> (case ar_choose_class num s of (None, s1) \<Rightarrow> Some (s1, ths)
          | (Some cls, s1) \<Rightarrow> (case ar_choose_reg (num cls) s1 of (i, s2) \<Rightarrow>
              (case ar_choose_mask s2 of None \<Rightarrow> None
               | Some (m, s3) \<Rightarrow>
                 if cls = IntRegClass \<and> i = 31 then Some (s3, ths)
                 else (case ar_choose_type s3 of (f, s4) \<Rightarrow>
                   let rid = \<lparr>classValue = cls, regIdx = i\<rparr> in
                   Some (ar_count (ar_record_type tid rid f m s4), set_arch_reg tid rid (apply_fault f m (at_regs t rid)) ths))))))))"

fun ar_threads :: "thread_id \<Rightarrow> nat \<Rightarrow> arch_inj \<times> arch_thread option list \<Rightarrow> (arch_inj \<times> arch_thread option list) option" where
  "ar_threads tid 0 c = Some c"
| "ar_threads tid (Suc n) c =
     (case snd c ! tid of None \<Rightarrow> ar_threads (Suc tid) n c
      | Some t \<Rightarrow>
          if at_status t = Halted then ar_threads (Suc tid) n c
          else if PC_target (fst c) = 0 \<or> PC_target (fst c) = at_pc t
          then (case ar_processFault tid c of None \<Rightarrow> None | Some c' \<Rightarrow> ar_threads (Suc tid) n c')
          else ar_threads (Suc tid) n c)"

definition ar_attackCheck :: "tick \<Rightarrow> clocked \<Rightarrow> arch_inj \<times> arch_thread option list \<Rightarrow> (arch_inj \<times> arch_thread option list) option" where
  "ar_attackCheck now clk c =
     (if probability (fst c) = 0 then Some c
      else map_option (\<lambda>(s, ths).
          (if any_active (map (map_option at_status) ths)
           then (if cap_reached s then ar_unscheduleAttackEvent s else reschedule_attack now clk s)
           else ar_unscheduleAttackEvent s, ths))
        (ar_threads 0 (length (snd c)) c))"

subsection \<open>The periodic check\<close>

definition ar_reapply :: "arch_perm \<Rightarrow> u64 \<Rightarrow> u64" where
  "ar_reapply p v = (case ap_type p of StuckAtZero \<Rightarrow> v AND NOT (ap_mask p) | StuckAtOne \<Rightarrow> v OR ap_mask p | _ \<Rightarrow> v)"

fun ar_check_loop :: "tick \<Rightarrow> clocked \<Rightarrow> ((thread_id \<times> reg_id) \<times> arch_perm) list \<Rightarrow> arch_inj \<times> arch_thread option list
    \<Rightarrow> arch_inj \<times> arch_thread option list" where
  "ar_check_loop now clk [] c = c"
| "ar_check_loop now clk (((tid, rid), p) # ps) (s, ths) =
     (if \<not> ap_update p then ar_check_loop now clk ps (s, ths)
      else (case ths ! tid of None \<Rightarrow> ar_check_loop now clk ps (s, ths)
        | Some t \<Rightarrow> ar_check_loop now clk ps
            (ar_scheduleCheck now clk (ar_check_cycles s) s, set_arch_reg tid rid (ar_reapply p (at_regs t rid)) ths)))"

definition ar_checkPermanent :: "tick \<Rightarrow> clocked \<Rightarrow> arch_inj \<times> arch_thread option list \<Rightarrow> arch_inj \<times> arch_thread option list" where
  "ar_checkPermanent now clk c = ar_check_loop now clk (ar_permanent (fst c)) c"

text \<open>The event queue runs an event that is not squashed; either way it is no longer scheduled.\<close>

definition ar_attack_event :: "tick \<Rightarrow> clocked \<Rightarrow> arch_inj \<times> arch_thread option list \<Rightarrow> (arch_inj \<times> arch_thread option list) option" where
  "ar_attack_event now clk = (\<lambda>(s, ths). let s1 = s\<lparr>attack_at := None\<rparr> in
     if attack_squashed s then Some (s1\<lparr>attack_squashed := False\<rparr>, ths) else ar_attackCheck now clk (s1, ths))"

definition ar_check_event :: "tick \<Rightarrow> clocked \<Rightarrow> arch_inj \<times> arch_thread option list \<Rightarrow> arch_inj \<times> arch_thread option list" where
  "ar_check_event now clk = (\<lambda>(s, ths). let s1 = s\<lparr>check_at := None\<rparr> in
     if check_squashed s then (s1\<lparr>check_squashed := False\<rparr>, ths) else ar_checkPermanent now clk (s1, ths))"

subsection \<open>Sampling distinct bits\<close>

text \<open>The bits a tape ever draws.\<close>

definition drawn :: "nat \<Rightarrow> rng \<Rightarrow> nat set" where
  "drawn len r = (\<lambda>x. x mod len) ` sset r"

lemma drawn_step: "drawn len r = insert (shd r mod len) (drawn len (stl r))"
  by (cases r) (simp add: drawn_def)

lemma drawn_less: "0 < len \<Longrightarrow> drawn len r \<subseteq> {..<len}"
  by (auto simp: drawn_def)

text \<open>One round of the loop.\<close>

lemma mask_round:
  assumes "0 < len" "len \<le> 64"
  shows "(let b = fst (uniform_nat 0 (len - 1) r); r' = snd (uniform_nat 0 (len - 1) r); bt = (if 64 \<le> b then 0 else push_bit b 1)
      in if m AND bt = 0 then f (p + 1) (m OR bt) r' else f p m r')
    = (if bit (m :: u64) (shd r mod len) then f p m (stl r) else f (p + 1) (m OR push_bit (shd r mod len) 1) (stl r))"
proof -
  have b: "\<not> 64 \<le> shd r mod len" using assms mod_less_divisor [OF assms(1), of "shd r"] by linarith
  have u: "uniform_nat 0 (len - 1) r = (shd r mod len, stl r)" using assms(1) by (simp add: uniform_nat_def)
  show ?thesis unfolding u fst_conv snd_conv Let_def if_not_P [OF b] push_bit_of_1 and_exp_eq_0_iff_not_bit by simp
qed

lemma mask_loop_step:
  assumes "0 < len" "len \<le> 64"
  shows "mask_loop len k p m r = (if p < k then
      if bit m (shd r mod len) then mask_loop len k p m (stl r) else mask_loop len k (p + 1) (m OR push_bit (shd r mod len) 1) (stl r)
    else Some (m, r))"
  by (subst mask_loop.simps) (simp only: mask_round [OF assms, where f = "mask_loop len k"])

lemma popcount_new_bit: "b < 64 \<Longrightarrow> \<not> bit (m :: u64) b \<Longrightarrow> popcount (m OR push_bit b 1) = Suc (popcount m)"
proof -
  assume b: "b < 64" "\<not> bit m b"
  have "{n. bit (m OR push_bit b 1) n} = insert b {n. bit m n}" using b by (auto simp: bit_simps bit_1_iff)
  moreover have "finite {n. bit m n}" by (rule finite_subset [of _ "{..<64}"]) (auto dest: bit_imp_le_length)
  ultimately show ?thesis using b(2) by (simp add: popcount_card)
qed

lemma mask_loop_result:
  assumes "mask_loop len k p m r = Some y" "0 < len" "len \<le> 64" "popcount m = p" "p \<le> k"
  shows "popcount (fst y) = k \<and> (\<forall>b. bit (fst y) b \<longrightarrow> bit m b \<or> b \<in> drawn len r)"
proof -
  let ?P = "\<lambda>len k p m r y. 0 < len \<and> len \<le> 64 \<and> popcount m = p \<and> p \<le> k \<longrightarrow>
    popcount (fst y) = k \<and> (\<forall>b. bit (fst y) b \<longrightarrow> bit m b \<or> b \<in> drawn len r)"
  have "?P len k p m r y"
  proof (rule mask_loop.raw_induct [where P = ?P, OF _ assms(1)], intro impI, elim conjE)
    fix rec :: "nat \<Rightarrow> nat \<Rightarrow> nat \<Rightarrow> u64 \<Rightarrow> rng \<Rightarrow> (u64 \<times> rng) option" and len k p :: nat and m :: u64 and r :: rng and y :: "u64 \<times> rng"
    assume IH: "\<And>len k p m r y. rec len k p m r = Some y \<Longrightarrow> ?P len k p m r y"
      and eq: "(if p < k then let b = fst (uniform_nat 0 (len - 1) r); r' = snd (uniform_nat 0 (len - 1) r); bt = (if 64 \<le> b then 0 else push_bit b 1)
          in if m AND bt = 0 then rec len k (p + 1) (m OR bt) r' else rec len k p m r' else Some (m, r)) = Some y"
      and len: "0 < len" "len \<le> 64" and m: "popcount m = p" "p \<le> k"
    let ?b = "shd r mod len"
    have b: "?b < 64" using len mod_less_divisor [OF len(1), of "shd r"] by linarith
    note e = eq [unfolded mask_round [OF len, where f = "rec len k"]]
    show "popcount (fst y) = k \<and> (\<forall>b. bit (fst y) b \<longrightarrow> bit m b \<or> b \<in> drawn len r)"
    proof (cases "p < k")
      case True
      show ?thesis
      proof (cases "bit m ?b")
        case t: True
        have "rec len k p m (stl r) = Some y" using e True t by simp
        from IH [OF this] show ?thesis using len m unfolding drawn_step [of len r] by blast
      next
        case f: False
        have "rec len k (p + 1) (m OR push_bit ?b 1) (stl r) = Some y" using e True f by simp
        from IH [OF this] have "popcount (fst y) = k \<and> (\<forall>c. bit (fst y) c \<longrightarrow> bit (m OR push_bit ?b 1) c \<or> c \<in> drawn len (stl r))"
          using popcount_new_bit [OF b f] m len True by simp
        then show ?thesis unfolding drawn_step [of len r] by (auto simp: bit_simps bit_1_iff)
      qed
    next
      case False
      then show ?thesis using e m by auto
    qed
  qed
  then show ?thesis using assms by blast
qed

lemma mask_loop_skip:
  assumes "0 < len" "len \<le> 64" "p < k" "\<And>i. i < n \<Longrightarrow> bit m (r !! i mod len)"
  shows "mask_loop len k p m r = mask_loop len k p m (sdrop n r)"
  using assms(4)
proof (induction n arbitrary: r)
  case (Suc n)
  have "mask_loop len k p m r = mask_loop len k p m (stl r)" using mask_loop_step [OF assms(1,2), of k p m r] assms(3) Suc.prems [of 0] by simp
  also have "\<dots> = mask_loop len k p m (sdrop n (stl r))" by (rule Suc.IH) (use Suc.prems [of "Suc _"] in simp)
  finally show ?case by simp
qed simp

lemma mask_loop_returns:
  assumes "0 < len" "len \<le> 64" "popcount m = p" "p \<le> k" "k \<le> card ({b. bit m b} \<union> drawn len r)"
  shows "\<exists>y. mask_loop len k p m r = Some y"
  using assms(3-5)
proof (induction "k - p" arbitrary: p m r)
  case 0
  then show ?case using mask_loop_step [OF assms(1,2), of k p m r] by simp
next
  case (Suc d)
  have pk: "p < k" using Suc.hyps(2) by simp
  have fin: "finite {b. bit m b}" by (rule finite_subset [of _ "{..<64}"]) (auto dest: bit_imp_le_length)
  have "\<not> drawn len r \<subseteq> {b. bit m b}"
  proof
    assume "drawn len r \<subseteq> {b. bit m b}"
    then have "{b. bit m b} \<union> drawn len r = {b. bit m b}" by blast
    then show False using Suc.prems pk by (simp add: popcount_card)
  qed
  then obtain x where x: "x \<in> sset r" "\<not> bit m (x mod len)" by (auto simp: drawn_def)
  then obtain j where j: "\<not> bit m (r !! j mod len)" by (auto simp: sset_range)
  define n where "n = (LEAST j. \<not> bit m (r !! j mod len))"
  have n: "\<not> bit m (r !! n mod len)" unfolding n_def by (rule LeastI [where P = "\<lambda>j. \<not> bit m (r !! j mod len)", OF j])
  have nl: "bit m (r !! i mod len)" if "i < n" for i
    using not_less_Least [OF that [unfolded n_def]] by simp
  let ?b = "r !! n mod len" and ?r = "sdrop (Suc n) r"
  let ?m = "m OR push_bit ?b 1"
  have b: "?b < 64" using assms(1,2) by (meson mod_less_divisor less_le_trans)
  have "mask_loop len k p m r = mask_loop len k p m (sdrop n r)" by (rule mask_loop_skip [OF assms(1,2) pk nl])
  also have "\<dots> = mask_loop len k (Suc p) ?m ?r"
    using mask_loop_step [OF assms(1,2), of k p m "sdrop n r"] n pk by (simp only: sdrop_simps if_True if_False Suc_eq_plus1)
  finally have e: "mask_loop len k p m r = mask_loop len k (Suc p) ?m ?r" .
  have "drawn len r \<subseteq> {b. bit m b} \<union> {?b} \<union> drawn len ?r"
  proof
    fix y assume "y \<in> drawn len r"
    then obtain i where i: "y = r !! i mod len" by (auto simp: drawn_def sset_range)
    consider "i < n" | "i = n" | "n < i" by linarith
    then show "y \<in> {b. bit m b} \<union> {?b} \<union> drawn len ?r"
    proof cases
      case 3
      then have "Suc n + (i - Suc n) = i" by simp
      then have "?r !! (i - Suc n) = r !! i" by (simp only: sdrop_snth)
      moreover have "?r !! (i - Suc n) \<in> sset ?r" by (rule snth_sset)
      ultimately have "r !! i \<in> sset ?r" by (simp only:)
      then show ?thesis unfolding i drawn_def by blast
    qed (use nl i in simp_all)
  qed
  moreover have "{c. bit m c} \<union> {?b} \<subseteq> {c. bit ?m c}" using b by (auto simp: bit_simps)
  ultimately have sub: "{c. bit m c} \<union> drawn len r \<subseteq> {c. bit ?m c} \<union> drawn len ?r" by blast
  have "finite ({c. bit ?m c} \<union> drawn len ?r)"
  proof (rule finite_subset [of _ "{..<64}"])
    have "drawn len ?r \<subseteq> {..<64}" using drawn_less [OF assms(1), of ?r] assms(2) by (meson lessThan_subset_iff subset_trans)
    then show "{c. bit ?m c} \<union> drawn len ?r \<subseteq> {..<64}" by (auto dest: bit_imp_le_length)
  qed simp
  from le_trans [OF Suc.prems(3) card_mono [OF this sub]] have "k \<le> card ({c. bit ?m c} \<union> drawn len ?r)" .
  then show ?case unfolding e using Suc.hyps(1) [of "Suc p" ?m ?r] Suc.hyps(2) popcount_new_bit [OF b n] Suc.prems(1) pk by simp
qed

text \<open>C36: the mask generator.  It returns exactly when the generator ever draws enough different bits, and then the mask
  has the requested number of bits, at most the width, all of them among the drawn ones.\<close>

theorem mask_generation:
  assumes "0 < bits"
  shows "(generateRandomMask64 bits 64 r \<noteq> None \<longleftrightarrow> nat (min bits 64) \<le> card (drawn 64 r))
    \<and> (\<forall>m r'. generateRandomMask64 bits 64 r = Some (m, r') \<longrightarrow> popcount m = nat (min bits 64) \<and> {b. bit m b} \<subseteq> drawn 64 r)"
proof -
  let ?k = "nat (min bits 64)"
  have g: "generateRandomMask64 bits 64 r = mask_loop 64 ?k 0 0 r" using assms by (simp add: generateRandomMask64_def min_def)
  have res: "popcount m = ?k \<and> {b. bit m b} \<subseteq> drawn 64 r" if "mask_loop 64 ?k 0 0 r = Some (m, r')" for m r'
    using mask_loop_result [OF that] by auto
  have "?k \<le> card (drawn 64 r)" if y: "mask_loop 64 ?k 0 0 r = Some y" for y
  proof -
    have "finite (drawn 64 r)" by (rule finite_subset [OF drawn_less]) simp_all
    then show ?thesis using res [of "fst y" "snd y"] y card_mono [of "drawn 64 r" "{b. bit (fst y) b}"] by (simp add: popcount_card)
  qed
  moreover have "\<exists>y. mask_loop 64 ?k 0 0 r = Some y" if "?k \<le> card (drawn 64 r)"
    by (rule mask_loop_returns) (use that in simp_all)
  ultimately show ?thesis unfolding g using res by blast
qed

theorem mask_generation_witness:
  "generateRandomMask64 2 64 (sconst 5) = None \<and> map_option fst (generateRandomMask64 2 64 (5 ## 5 ## sconst 1)) = Some 34"
proof -
  have "drawn 64 (sconst 5) = {5}" by (simp add: drawn_def)
  then have "generateRandomMask64 2 64 (sconst 5) = None" using conjunct1 [OF mask_generation [of 2 "sconst 5"]] by (cases "generateRandomMask64 2 64 (sconst 5)") auto
  moreover have "map_option fst (generateRandomMask64 2 64 (5 ## 5 ## sconst 1)) = Some 34"
  proof -
    have b: "\<not> bit (0 :: u64) 5" "bit (32 :: u64) 5" "\<not> bit (32 :: u64) 1" "0 OR push_bit 5 1 = (32 :: u64)" "32 OR push_bit 1 1 = (34 :: u64)" by code_simp+
    note st = mask_loop_step [of 64 2, simplified]
    have "mask_loop 64 2 0 0 (5 ## 5 ## sconst 1) = mask_loop 64 2 1 32 (5 ## sconst 1)" by (subst st) (use b in simp)
    also have "\<dots> = mask_loop 64 2 1 32 (sconst 1)" by (subst st) (use b in simp)
    also have "\<dots> = mask_loop 64 2 2 34 (sconst 1)" by (subst st) (use b in \<open>simp add: numeral_2_eq_2\<close>)
    also have "\<dots> = Some (34, sconst 1)" by (subst st) simp
    finally show ?thesis by (simp add: generateRandomMask64_def)
  qed
  ultimately show ?thesis by simp
qed

subsection \<open>What a fault changes\<close>

lemma ar_choose_simps [simp]:
  "faults_injected_count (snd (ar_choose_class num s)) = faults_injected_count s" "ar_permanent (snd (ar_choose_class num s)) = ar_permanent s"
  "ar_target_reg_idx (snd (ar_choose_class num s)) = ar_target_reg_idx s" "ar_max_reg_idx (snd (ar_choose_class num s)) = ar_max_reg_idx s"
  "ar_fault_mask (snd (ar_choose_class num s)) = ar_fault_mask s" "ar_fault_type (snd (ar_choose_class num s)) = ar_fault_type s"
  "faults_injected_count (snd (ar_choose_reg n s)) = faults_injected_count s" "ar_permanent (snd (ar_choose_reg n s)) = ar_permanent s"
  "ar_fault_mask (snd (ar_choose_reg n s)) = ar_fault_mask s" "ar_fault_type (snd (ar_choose_reg n s)) = ar_fault_type s"
  "faults_injected_count (snd (ar_choose_type s)) = faults_injected_count s" "ar_permanent (snd (ar_choose_type s)) = ar_permanent s"
  by (simp_all add: ar_choose_class_def ar_choose_reg_def ar_choose_type_def case_prod_unfold split: target_class.splits)

lemma ar_choose_mask_simps:
  assumes "ar_choose_mask s = Some (m, s')"
  shows "faults_injected_count s' = faults_injected_count s" "ar_permanent s' = ar_permanent s" "ar_fault_type s' = ar_fault_type s"
    "ar_fault_mask s \<noteq> 0 \<Longrightarrow> m = ar_fault_mask s"
  using assms by (auto simp: ar_choose_mask_def split: if_splits)

lemma ar_class_spec: "fst (ar_choose_class num s) = Some cls \<Longrightarrow> 0 < num cls \<and> (cls = IntRegClass \<or> cls = FloatRegClass)"
  by (auto simp: ar_choose_class_def split: target_class.splits if_splits)

lemma ar_reg_spec:
  assumes "0 < n"
  shows "fst (ar_choose_reg n s) < n" "0 \<le> ar_target_reg_idx s \<Longrightarrow> ar_target_reg_idx s < int n \<Longrightarrow> fst (ar_choose_reg n s) = nat (ar_target_reg_idx s)"
    "\<not> (0 \<le> ar_target_reg_idx s \<and> ar_target_reg_idx s < int n) \<Longrightarrow> 0 < ar_max_reg_idx s \<Longrightarrow> fst (ar_choose_reg n s) < ar_max_reg_idx s"
proof -
  have u: "fst (uniform_nat 0 (ar_upper n s) (rng s)) \<le> ar_upper n s" using uniform_nat_range [of 0 "ar_upper n s" "rng s"] by simp
  have a: "ar_upper n s < n" "0 < ar_max_reg_idx s \<Longrightarrow> ar_upper n s < ar_max_reg_idx s" using assms by (auto simp: ar_upper_def)
  show "fst (ar_choose_reg n s) < n" using u a(1) by (auto simp: ar_choose_reg_def case_prod_unfold)
  show "0 \<le> ar_target_reg_idx s \<Longrightarrow> ar_target_reg_idx s < int n \<Longrightarrow> fst (ar_choose_reg n s) = nat (ar_target_reg_idx s)" by (simp add: ar_choose_reg_def)
  show "\<not> (0 \<le> ar_target_reg_idx s \<and> ar_target_reg_idx s < int n) \<Longrightarrow> 0 < ar_max_reg_idx s \<Longrightarrow> fst (ar_choose_reg n s) < ar_max_reg_idx s"
    using u a(2) by (auto simp: ar_choose_reg_def case_prod_unfold)
qed

lemma ar_record_simps [simp]:
  "faults_injected_count (ar_count (ar_record_type tid rid f m s)) = Suc (faults_injected_count s)"
  "ar_permanent (ar_count (ar_record_type tid rid f m s)) = (if f = StuckAtZero \<or> f = StuckAtOne
     then AList.update (tid, rid) \<lparr>ap_type = f, ap_mask = m, ap_update = True\<rparr> (ar_permanent s) else ar_permanent s)"
  by (cases f; simp add: ar_count_def count_fault_def ar_record_type_def Let_def)+

text \<open>The registers of the threads after one of them has been corrupted.\<close>

definition reg_fault :: "thread_id \<Rightarrow> arch_thread \<Rightarrow> reg_id \<Rightarrow> fault_type \<Rightarrow> u64 \<Rightarrow> arch_thread option list \<Rightarrow> arch_thread option list" where
  "reg_fault tid t rid f m ths = ths[tid := Some (t\<lparr>at_regs := (at_regs t)(rid := apply_fault f m (at_regs t rid))\<rparr>)]"

text \<open>C37: a register fault.  An attempt that counts a fault has corrupted one register of the thread: an existing integer or
  floating-point register, never the zero register, the directed one if there is such a register and otherwise
  below the configured bound; a stuck-at fault is recorded for that register.  Any other attempt changes
  no register and records nothing.\<close>

theorem register_faults:
  assumes "ar_processFault tid (s, ths) = Some (s', ths')"
  shows "faults_injected_count s' = faults_injected_count s \<and> ths' = ths \<and> ar_permanent s' = ar_permanent s
    \<or> (\<exists>t num cls i f m. let rid = \<lparr>classValue = cls, regIdx = i\<rparr> in
        faults_injected_count s' = Suc (faults_injected_count s) \<and> ths ! tid = Some t \<and> at_isa t = Some num \<and> ths' = reg_fault tid t rid f m ths
        \<and> (cls = IntRegClass \<or> cls = FloatRegClass) \<and> i < num cls \<and> \<not> (cls = IntRegClass \<and> i = 31)
        \<and> (if 0 \<le> ar_target_reg_idx s \<and> ar_target_reg_idx s < int (num cls) then i = nat (ar_target_reg_idx s)
           else 0 < ar_max_reg_idx s \<longrightarrow> i < ar_max_reg_idx s)
        \<and> (ar_fault_mask s \<noteq> 0 \<longrightarrow> m = ar_fault_mask s) \<and> (ar_fault_type s \<noteq> RandomFault \<longrightarrow> f = ar_fault_type s)
        \<and> map_of (ar_permanent s') = (if f = StuckAtZero \<or> f = StuckAtOne
            then (map_of (ar_permanent s))((tid, rid) \<mapsto> \<lparr>ap_type = f, ap_mask = m, ap_update = True\<rparr>) else map_of (ar_permanent s)))"
proof (cases "\<exists>t num cls. ths ! tid = Some t \<and> at_isa t = Some num \<and> fst (ar_choose_class num s) = Some cls")
  case False
  then show ?thesis using assms by (auto simp: ar_processFault_def case_prod_unfold split: option.splits prod.splits)
next
  case True
  then obtain t num cls where t: "ths ! tid = Some t" "at_isa t = Some num" "fst (ar_choose_class num s) = Some cls" by blast
  define s1 where "s1 = snd (ar_choose_class num s)"
  define i where "i = fst (ar_choose_reg (num cls) s1)"
  define s2 where "s2 = snd (ar_choose_reg (num cls) s1)"
  have cc: "ar_choose_class num s = (Some cls, s1)" "ar_choose_reg (num cls) s1 = (i, s2)" using t(3) by (simp_all add: s1_def i_def s2_def prod_eq_iff)
  obtain m s3 where m: "ar_choose_mask s2 = Some (m, s3)" using assms t cc by (auto simp: ar_processFault_def split: option.splits)
  define f where "f = fst (ar_choose_type s3)"
  define s4 where "s4 = snd (ar_choose_type s3)"
  let ?rid = "\<lparr>classValue = cls, regIdx = i\<rparr>"
  have r: "(if cls = IntRegClass \<and> i = 31 then (s3, ths)
      else (ar_count (ar_record_type tid ?rid f m s4), set_arch_reg tid ?rid (apply_fault f m (at_regs t ?rid)) ths)) = (s', ths')"
    using assms t cc m by (auto simp: ar_processFault_def case_prod_unfold f_def s4_def Let_def split: if_splits)
  have base: "faults_injected_count s3 = faults_injected_count s" "ar_permanent s3 = ar_permanent s" "ar_fault_type s3 = ar_fault_type s"
    "ar_fault_mask s \<noteq> 0 \<longrightarrow> m = ar_fault_mask s" "faults_injected_count s4 = faults_injected_count s" "ar_permanent s4 = ar_permanent s"
    using ar_choose_mask_simps [OF m] by (simp_all add: s2_def s1_def s4_def)
  show ?thesis
  proof (cases "cls = IntRegClass \<and> i = 31")
    case True
    then show ?thesis using r base by simp
  next
    case False
    have c: "0 < num cls" "cls = IntRegClass \<or> cls = FloatRegClass" using ar_class_spec [OF t(3)] by auto
    note g = ar_reg_spec [OF c(1), of s1, folded i_def]
    have ft: "ar_fault_type s \<noteq> RandomFault \<longrightarrow> f = ar_fault_type s" using base(3) by (simp add: f_def ar_choose_type_def)
    have out: "s' = ar_count (ar_record_type tid ?rid f m s4)" "ths' = reg_fault tid t ?rid f m ths"
      using r False t(1) by (auto simp: set_arch_reg_def reg_fault_def)
    have p: "map_of (ar_permanent s') = (if f = StuckAtZero \<or> f = StuckAtOne
        then (map_of (ar_permanent s))((tid, ?rid) \<mapsto> \<lparr>ap_type = f, ap_mask = m, ap_update = True\<rparr>) else map_of (ar_permanent s))"
      by (simp add: out(1) base update_conv')
    have n: "faults_injected_count s' = Suc (faults_injected_count s)" by (simp add: out(1) base)
    have b: "i < num cls" "if 0 \<le> ar_target_reg_idx s \<and> ar_target_reg_idx s < int (num cls) then i = nat (ar_target_reg_idx s)
        else 0 < ar_max_reg_idx s \<longrightarrow> i < ar_max_reg_idx s" using g by (simp_all add: s1_def)
    show ?thesis unfolding Let_def using n t(1,2) out(2) c(2) b False base(4) ft p
      by - (rule disjI2, intro exI [of _ t] exI [of _ num] exI [of _ cls] exI [of _ i] exI [of _ f] exI [of _ m] conjI)
  qed
qed

definition demo_thread :: arch_thread where
  "demo_thread = \<lparr>at_status = Active, at_pc = 0x400, at_isa = Some (\<lambda>c. if c = IntRegClass then 48 else 0), at_regs = (\<lambda>_. 0)\<rparr>"

definition demo_clk :: clocked where
  "demo_clk = \<lparr>clk_tick = 0, clk_cycle = 0, clk_period = 10\<rparr>"

text \<open>Stuck-at-one of bit 3 of register 7, directed.\<close>

definition demo_arch :: "int \<Rightarrow> arch_inj" where
  "demo_arch idx = projr (CHAOSReg True 0 demo_clk 1 1 0 0 1 31 idx ''stuck_at_one'' 8 1 0 0 5 ''integer'' 0 (sconst 0))"

lemma demo_arch_simps:
  "ar_target_class (demo_arch idx) = TC_Integer" "ar_target_reg_idx (demo_arch idx) = idx" "ar_fault_mask (demo_arch idx) = 8"
  "ar_fault_type (demo_arch idx) = StuckAtOne" "faults_injected_count (demo_arch idx) = 0" "max_faults (demo_arch idx) = 1"
  "ar_permanent (demo_arch idx) = []" "probability (demo_arch idx) = 1" "PC_target (demo_arch idx) = 0" "check_at (demo_arch idx) = Some 50"
  "check_squashed (demo_arch idx) = False" "ar_max_reg_idx (demo_arch idx) = 31"
  by (simp_all add: demo_arch_def CHAOSReg_def geometric_def ar_scheduleCheck_def scheduleAttackEvent_def ar_stringToFaultType_def
      stringToTargetClass_def clockEdge_def clk_update_def demo_clk_def divCeil_def Let_def)

text \<open>A directed fault on register 7, and the zero register.\<close>

theorem register_faults_witness:
  "(\<exists>s' ths'. ar_processFault 0 (demo_arch 7, [Some demo_thread]) = Some (s', ths') \<and> faults_injected_count s' = 1
     \<and> ths' = reg_fault 0 demo_thread \<lparr>classValue = IntRegClass, regIdx = 7\<rparr> StuckAtOne 8 [Some demo_thread])
   \<and> map_option (\<lambda>c. faults_injected_count (fst c)) (ar_processFault 0 (demo_arch 31, [Some demo_thread])) = Some 0"
proof -
  note ev = ar_processFault_def demo_thread_def ar_choose_class_def ar_choose_reg_def ar_choose_mask_def ar_choose_type_def demo_arch_simps
  obtain s' ths' where r: "ar_processFault 0 (demo_arch 7, [Some demo_thread]) = Some (s', ths')" by (simp add: ev Let_def)
  have c: "faults_injected_count s' = 1" using r by (auto simp: ev Let_def)
  have isa: "at_isa demo_thread = Some (\<lambda>c. if c = IntRegClass then 48 else 0)" by (simp add: demo_thread_def)
  from register_faults [OF r] c have "ths' = reg_fault 0 demo_thread \<lparr>classValue = IntRegClass, regIdx = 7\<rparr> StuckAtOne 8 [Some demo_thread]"
    by (auto simp: demo_arch_simps Let_def isa split: if_splits)
  moreover have "map_option (\<lambda>c. faults_injected_count (fst c)) (ar_processFault 0 (demo_arch 31, [Some demo_thread])) = Some 0"
    by (simp add: ev)
  ultimately show ?thesis using r c by blast
qed

subsection \<open>Stuck-at faults\<close>

definition ar_sched :: "arch_inj \<Rightarrow> tick option \<times> tick option \<times> bool \<times> real" where
  "ar_sched s = (attack_at s, check_at s, check_squashed s, probability s)"

lemma ar_processFault_sched:
  assumes "ar_processFault tid c = Some c'"
  shows "ar_sched (fst c') = ar_sched (fst c)"
proof -
  have 1: "ar_sched (snd (ar_choose_class num s)) = ar_sched s" for num s by (simp add: ar_sched_def ar_choose_class_def split: target_class.splits)
  have 2: "ar_sched (snd (ar_choose_reg n s)) = ar_sched s" for n s by (simp add: ar_sched_def ar_choose_reg_def case_prod_unfold)
  have 3: "ar_sched s' = ar_sched s" if "ar_choose_mask s = Some (m, s')" for s m s'
    using that by (auto simp: ar_sched_def ar_choose_mask_def split: if_splits)
  have 4: "ar_sched (snd (ar_choose_type s)) = ar_sched s" for s by (simp add: ar_sched_def ar_choose_type_def case_prod_unfold)
  have 5: "ar_sched (ar_count (ar_record_type tid rid f m s)) = ar_sched s" for rid f m s
    by (cases f) (simp_all add: ar_sched_def ar_count_def count_fault_def ar_record_type_def Let_def)
  obtain s ths where c: "c = (s, ths)" by fastforce
  show ?thesis
  proof (cases "\<exists>t num cls. ths ! tid = Some t \<and> at_isa t = Some num \<and> fst (ar_choose_class num s) = Some cls")
    case False
    then show ?thesis using assms 1 by (auto simp: c ar_processFault_def split: option.splits prod.splits) (metis snd_conv)+
  next
    case True
    then obtain t num cls where t: "ths ! tid = Some t" "at_isa t = Some num" "fst (ar_choose_class num s) = Some cls" by blast
    obtain s1 where s1: "ar_choose_class num s = (Some cls, s1)" using t(3) by (cases "ar_choose_class num s") auto
    obtain i s2 where s2: "ar_choose_reg (num cls) s1 = (i, s2)" by fastforce
    obtain m s3 where s3: "ar_choose_mask s2 = Some (m, s3)" using assms t s1 s2 by (auto simp: c ar_processFault_def split: option.splits)
    obtain f s4 where s4: "ar_choose_type s3 = (f, s4)" by fastforce
    have "ar_sched s4 = ar_sched s" "ar_sched s3 = ar_sched s"
      using 1 [of num s] 2 [of "num cls" s1] 3 [OF s3] 4 [of s3] by (simp_all add: s1 s2 s4)
    then show ?thesis using assms t s1 s2 s3 s4 5 by (auto simp: c ar_processFault_def Let_def split: if_splits)
  qed
qed

lemma ar_threads_sched: "ar_threads tid n c = Some c' \<Longrightarrow> ar_sched (fst c') = ar_sched (fst c)"
proof (induction n arbitrary: tid c)
  case (Suc n)
  from Suc.prems show ?case
    by (auto split: option.splits if_splits dest!: Suc.IH ar_processFault_sched)
qed simp

text \<open>The state of a thread after the loop.\<close>

definition checked_regs :: "thread_id \<Rightarrow> ((thread_id \<times> reg_id) \<times> arch_perm) list \<Rightarrow> (reg_id \<Rightarrow> u64) \<Rightarrow> reg_id \<Rightarrow> u64" where
  "checked_regs tid ps regs rid = (case map_of ps (tid, rid) of None \<Rightarrow> regs rid | Some p \<Rightarrow> if ap_update p then ar_reapply p (regs rid) else regs rid)"

lemma ar_check_loop_spec:
  assumes "distinct (map fst ps)" "tid < length ths" "ths ! tid = Some t"
  shows "snd (ar_check_loop now clk ps (s, ths)) ! tid = Some (t\<lparr>at_regs := checked_regs tid ps (at_regs t)\<rparr>)"
  using assms
proof (induction ps arbitrary: s ths t)
  case Nil
  then show ?case by (simp add: checked_regs_def [abs_def])
next
  case (Cons x ps)
  obtain d rid p where x: "x = ((d, rid), p)" by (metis prod.collapse)
  have dist: "distinct (map fst ps)" "map_of ps (d, rid) = None" using Cons.prems(1) by (auto simp: x map_of_eq_None_iff)
  have skip: "checked_regs tid (x # ps) (at_regs t) = checked_regs tid ps (at_regs t)" if "d \<noteq> tid \<or> \<not> ap_update p"
    using that dist(2) by (auto simp: checked_regs_def x fun_eq_iff)
  show ?case
  proof (cases "ap_update p \<and> ths ! d \<noteq> None")
    case False
    then have e: "ar_check_loop now clk (x # ps) (s, ths) = ar_check_loop now clk ps (s, ths)" by (auto simp: x)
    have "d \<noteq> tid \<or> \<not> ap_update p" using False Cons.prems(3) by auto
    then show ?thesis unfolding e using Cons.IH [OF dist(1) Cons.prems(2,3)] skip by simp
  next
    case True
    then obtain u where u: "ths ! d = Some u" "ap_update p" by auto
    let ?v = "ar_reapply p (at_regs u rid)"
    let ?ths = "set_arch_reg d rid ?v ths"
    have e: "ar_check_loop now clk (x # ps) (s, ths) = ar_check_loop now clk ps (ar_scheduleCheck now clk (ar_check_cycles s) s, ?ths)"
      using u by (simp add: x)
    have len: "tid < length ?ths" using Cons.prems(2) by (simp add: set_arch_reg_def)
    show ?thesis
    proof (cases "d = tid")
      case False
      then have "?ths ! tid = Some t" using Cons.prems(3) by (simp add: set_arch_reg_def)
      from Cons.IH [OF dist(1) len this] show ?thesis unfolding e using skip False by simp
    next
      case d: True
      then have ut: "u = t" using u(1) Cons.prems(3) by simp
      let ?t = "t\<lparr>at_regs := (at_regs t)(rid := ?v)\<rparr>"
      have "?ths ! tid = Some ?t" using Cons.prems(2,3) u(1) d ut by (simp add: set_arch_reg_def)
      from Cons.IH [OF dist(1) len this]
      have "snd (ar_check_loop now clk (x # ps) (s, ths)) ! tid = Some (?t\<lparr>at_regs := checked_regs tid ps (at_regs ?t)\<rparr>)" unfolding e .
      moreover have "checked_regs tid ps (at_regs ?t) = checked_regs tid (x # ps) (at_regs t)"
        using dist(2) u(2) d ut by (auto simp: checked_regs_def x fun_eq_iff split: option.splits)
      ultimately show ?thesis by simp
    qed
  qed
qed

text \<open>C38: stuck-at faults lapse.  A check that runs applies every recorded fault to the registers and changes no other.
  But a check with nothing recorded does not reschedule itself, and the attack that reaches the cap squashes the pending check along with the
  polling: from then on no event of the injector acts, and the first write to the register removes the stuck
  bits for good.\<close>

theorem stuck_faults_lapse:
  assumes "distinct (map fst (ar_permanent s))" "tid < length ths" "ths ! tid = Some t"
  shows "(\<not> check_squashed s \<longrightarrow> snd (ar_check_event now clk (s, ths)) ! tid = Some (t\<lparr>at_regs := checked_regs tid (ar_permanent s) (at_regs t)\<rparr>))
    \<and> (ar_permanent s = [] \<and> \<not> check_squashed s \<longrightarrow> ar_check_event now clk (s, ths) = (s\<lparr>check_at := None\<rparr>, ths))
    \<and> (\<forall>s' ths'. ar_attackCheck now clk (s\<lparr>attack_at := None\<rparr>, ths) = Some (s', ths') \<and> probability s \<noteq> 0 \<and> cap_reached s' \<longrightarrow>
        attack_at s' = None \<and> (check_at s' \<noteq> None \<longrightarrow>
          (\<forall>later clk' regs. ar_check_event later clk' (s', regs) = (s'\<lparr>check_at := None, check_squashed := False\<rparr>, regs))))"
proof (intro conjI allI impI)
  show "snd (ar_check_event now clk (s, ths)) ! tid = Some (t\<lparr>at_regs := checked_regs tid (ar_permanent s) (at_regs t)\<rparr>)" if "\<not> check_squashed s"
    using that ar_check_loop_spec [OF assms, of now clk "s\<lparr>check_at := None\<rparr>"] by (simp add: ar_check_event_def ar_checkPermanent_def Let_def)
  show "ar_check_event now clk (s, ths) = (s\<lparr>check_at := None\<rparr>, ths)" if "ar_permanent s = [] \<and> \<not> check_squashed s"
    using that by (simp add: ar_check_event_def ar_checkPermanent_def Let_def)
  fix s' ths'
  assume a: "ar_attackCheck now clk (s\<lparr>attack_at := None\<rparr>, ths) = Some (s', ths') \<and> probability s \<noteq> 0 \<and> cap_reached s'"
  then obtain s1 where s1: "ar_threads 0 (length ths) (s\<lparr>attack_at := None\<rparr>, ths) = Some (s1, ths')"
    "s' = (if any_active (map (map_option at_status) ths') then (if cap_reached s1 then ar_unscheduleAttackEvent s1 else reschedule_attack now clk s1)
      else ar_unscheduleAttackEvent s1)"
    by (auto simp: ar_attackCheck_def)
  have na: "attack_at s1 = None" using ar_threads_sched [OF s1(1)] by (simp add: ar_sched_def)
  have "cap_reached s1"
  proof -
    have "cap_reached (ar_unscheduleAttackEvent s1) = cap_reached s1" by (simp add: ar_unscheduleAttackEvent_def cap_reached_def Let_def)
    then show ?thesis using a s1(2) by (auto simp: cap_reached_def split: if_splits)
  qed
  then have u: "s' = ar_unscheduleAttackEvent s1" using s1(2) by simp
  show "attack_at s' = None" using na by (simp add: u ar_unscheduleAttackEvent_def Let_def)
  fix later clk' regs
  assume "check_at s' \<noteq> None"
  then have "check_squashed s'" using na by (auto simp: u ar_unscheduleAttackEvent_def Let_def split: if_splits)
  then show "ar_check_event later clk' (s', regs) = (s'\<lparr>check_at := None, check_squashed := False\<rparr>, regs)" by (simp add: ar_check_event_def Let_def)
qed

text \<open>A single stuck-at fault: its check does nothing.\<close>

theorem stuck_faults_lapse_witness:
  "\<exists>s' ths'. ar_attackCheck 0 demo_clk ((demo_arch 7)\<lparr>attack_at := None\<rparr>, [Some demo_thread]) = Some (s', ths') \<and> check_at s' = Some 50
     \<and> ar_permanent s' \<noteq> [] \<and> snd (ar_check_event 50 demo_clk (s', [Some demo_thread])) = [Some demo_thread]"
proof -
  let ?s = "demo_arch 7"
  note ev = ar_processFault_def demo_thread_def ar_choose_class_def ar_choose_reg_def ar_choose_mask_def ar_choose_type_def demo_arch_simps
  obtain s' ths' where r: "ar_attackCheck 0 demo_clk (?s\<lparr>attack_at := None\<rparr>, [Some demo_thread]) = Some (s', ths')"
      "check_at s' = Some 50" "ar_permanent s' \<noteq> []" "cap_reached s'"
    by (simp add: ar_attackCheck_def ev set_arch_reg_def any_active_def cap_reached_def ar_count_def count_fault_def ar_record_type_def
        ar_unscheduleAttackEvent_def Let_def)
  have "distinct (map fst (ar_permanent ?s))" "(0 :: nat) < length [Some demo_thread]" "[Some demo_thread] ! 0 = Some demo_thread" "probability ?s \<noteq> 0"
    by (simp_all add: demo_arch_simps)
  from stuck_faults_lapse [OF this(1-3), of 0 demo_clk] r this(4)
  have "ar_check_event 50 demo_clk (s', [Some demo_thread]) = (s'\<lparr>check_at := None, check_squashed := False\<rparr>, [Some demo_thread])" by blast
  then show ?thesis using r(1-3) by (intro exI [of _ s'] exI [of _ ths']) simp
qed

end
