(* ===== verification/Spec2Isabelle.thy ===== *)
theory Spec2Isabelle
  imports Gate_FU Fu_Perm Event_Queue Addr_Path Bpu Ptw Ex_Mon Sys_Reg Exec Ras Rob Wake Phys_Reg Ready_List Issue_Reach Lsq_Read Mem_Inj Tlb_Mmu Arch_Reg
begin

text \<open>
  A verification library for the fault-injection simulator: gem5 with the CHAOS fault injectors
  (\<open>src/CHAOS/gem5/src\<close>).  An injector is a simulation object that corrupts state of the simulated machine,
  either from a hook the simulator calls on a data path, or from an event that polls the machine.  The
  library models the injectors, and the structures of the simulator they work on in enough detail to say
  what a fault does to the machine and what it leaves alone.

  \<^bold>\<open>Ground.\<close>
  \<^item> \<open>Chaos_Prelude\<close>: words, the random-number tape, the fault masks, byte views of words, bit lists.
  \<^item> \<open>O3_Types\<close>: register classes and identifiers, thread status, the registry of the injectors that keep one.
  \<^item> \<open>Clocked\<close> (\<open>sim/clocked_object.hh\<close>): \<open>clockEdge\<close> is the first edge at least the given cycles ahead.
  \<^item> \<open>Event_Queue\<close> (\<open>sim/eventq.cc\<close>): the two-level linked queue on a heap of events.  It refines a list
    sorted by time and priority, services events in that order, and \<open>serviceEvents\<close> ends.
  \<^item> \<open>Injector\<close>: the configuration record all injectors share, their guards and random masks, and the two
    interfaces \<open>hook_injector\<close> (a hook counts a fault whenever it changes a value and keeps the cap) and
    \<open>poll_source\<close> (the polling loop over the threads).  Each is interpreted by the injectors that meet it.

  \<^bold>\<open>Functional units.\<close>
  \<^item> \<open>Gate_FU\<close> (\<open>CHAOSGateFU\<close>): netlist synthesis and evaluation.  The adder adds and the multiplier multiplies at
    every width; a structural stuck-at is visible only in the cone of its gate; the oracle returns its effect.
  \<^item> \<open>Fu_Perm\<close> (\<open>CHAOSFUPerm\<close>): the same mask for every matching operation.
  \<^item> \<open>Fu_Pool\<close> (\<open>cpu/o3/fu_pool.cc\<close>): construction and round-robin allocation of the units.

  \<^bold>\<open>Renaming and registers.\<close>
  \<^item> \<open>Rename_Stage\<close> (\<open>cpu/o3/rename.cc\<close>, \<open>rename_map.cc\<close>, \<open>free_list.hh\<close>): in every reachable state each physical
    register is in exactly one place; a squash undoes a renaming.
  \<^item> \<open>Reg_File\<close> (\<open>cpu/o3/regfile.hh\<close>): reads and writes with the stuck-cell mask and the read trace.
  \<^item> \<open>Free_List\<close>, \<open>Rename_Map\<close>, \<open>Phys_Reg\<close> (\<open>CHAOSFreeList\<close>, \<open>CHAOSRenameMap\<close>, \<open>CHAOSPhysReg\<close>): what their
    faults do to the renaming state and to the register file.

  \<^bold>\<open>Issue.\<close>
  \<^item> \<open>Ready_List\<close> (\<open>cpu/o3/inst_queue.cc\<close>): ready queues, age order and the issue loop, over \<open>Fu_Pool\<close>.
  \<^item> \<open>Wake\<close>: \<open>wakeDependents\<close> with the hook of \<open>CHAOSIQ\<close>, and when its loop ends.
  \<^item> \<open>Issue_Queue\<close>, \<open>Issue_Exact\<close>, \<open>Issue_Reach\<close>: the whole queue.  In every run an instruction is ready exactly
    when its sources are produced, and the assertions of squash and insertion hold.

  \<^bold>\<open>Loads and stores.\<close>
  \<^item> \<open>Lsq_Fwd\<close> (\<open>CHAOSLSQFwd\<close>): the history ring is the list of the last eight forwardings; what the source and the
    data faults deliver.
  \<^item> \<open>Lsq_Read\<close> (\<open>LSQUnit::read\<close>): a forwarded load gets the bytes memory would hold after all older stores.  What a
    store does to memory is the interface \<open>store_semantics\<close>.

  \<^bold>\<open>Retirement and execution faults.\<close>
  \<^item> \<open>Rob_Head\<close>: the reorder buffer as the polling injectors see it.
  \<^item> \<open>Exec\<close> (\<open>CHAOSExec\<close>, \<open>CHAOSL1DForward\<close>), \<open>Fpu\<close> (\<open>CHAOSFPU\<close>), \<open>Ras\<close> (\<open>CHAOSRAS\<close>), \<open>Rob\<close> (\<open>CHAOSROB\<close>): faults
    on results, operands, exceptions and buffer entries; without a backoff the poll can livelock.

  \<^bold>\<open>Address translation.\<close>
  \<^item> \<open>Tlb_Entry\<close> (\<open>arch/arm/pagetable.hh\<close>, \<open>tlbi_op.cc\<close>): the entries, their match and the match of every maintenance
    operation.
  \<^item> \<open>Tlb\<close> (\<open>arch/arm/tlb.cc\<close>, the TLB operations of \<open>mmu.cc\<close>, the associative cache with its replacement policy): table,
    lookup through the levels, refill, insertion, flushes.
  \<^item> \<open>Tlb_Inj\<close> (\<open>CHAOSArmTLB\<close>): which fields a fault changes and when the translation changes with them.
  \<^item> \<open>Tlb_Table\<close>, \<open>Tlb_Runs\<close>, \<open>Tlb_Mmu\<close>: in every run a lookup misses only when no entry matches; an inserted entry is
    found again; an invalidation by address is complete, but for secure intermediate addresses.

  \<^bold>\<open>Memory and architectural registers.\<close>
  \<^item> \<open>Mem_Inj\<close> (\<open>CHAOSMem\<close>): faults on memory bytes with the error-correction model, and the periodic check of the
    stuck-at faults.
  \<^item> \<open>Arch_Reg\<close> (\<open>CHAOSReg\<close>): sampling of a mask, faults on architectural registers, and when the periodic check
    of their stuck-at faults ends.

  \<^bold>\<open>Other data paths.\<close>
  \<^item> \<open>Addr_Path\<close>, \<open>Bpu\<close>, \<open>Ptw\<close>, \<open>Sys_Reg\<close>, \<open>Ex_Mon\<close>: effective addresses, branch predictions, page-table descriptors,
    Arm system registers, and the exclusive monitor, which implements a reservation.

  \<^bold>\<open>Conventions.\<close>  A state is a record named after the class, with the fields the code has; statistics counters
  are fields.  A random generator is an infinite tape of naturals that each draw consumes, so a statement
  for all tapes is a statement for all outcomes.  Probabilities are reals.  Cycles, ticks and counters
  are naturals; masks, addresses and data are words of their width.  A panic or failed assertion is
  \<open>None\<close>, a constructor that throws an \<open>Inl\<close>.  An instruction is its sequence number.  Calls into units outside
  the model are kept as lists.  What the code reads of tables the build generates, or of the instruction set,
  is an argument.

  \<^bold>\<open>Fuel.\<close>  No definition is bounded by fuel.  Loops that may not end (the wakeup loop, the issue loop, the event
  loop, the sampling of a mask) are partial functions into \<open>option\<close>, with theorems that say when they return.

  \<^bold>\<open>Not modelled.\<close>  The cache injector works on the tag store of a cache, and the packets and coherence states
  behind it have no model here.  Of the Arm memory management unit the permission checks and the table walker are
  left out: the result of a walk is the entry that is inserted.  Of the load-store queue only the execution of a load is
  modelled, and of the reorder buffer only its head.  The coverage ledgers only observe.  Logs and statistics output are text.  The
  instruction sets, devices, the GPU and Ruby models are independent of the injectors.  Campaign scripts
  run the simulator and are not part of it.
\<close>

end
